(* ===== verification/Anubee_Prelude.thy ===== *)
theory Anubee_Prelude
  imports Main "HOL-Library.Word" "HOL-Library.Monad_Syntax" "HOL-Library.Multiset"
begin

unbundle bit_operations_syntax

text \<open>
  Shared vocabulary of the development.

  \<^item> C integers: a value of a fixed-width C type is a word; a \<open>size_t\<close> that counts or indexes
    bytes is a \<open>nat\<close>, with the wrap-around of an addition written out by \<open>szadd\<close>.
  \<^item> C memory: a buffer is the list of its bytes. An access outside a buffer is undefined
    behaviour; every model reads through \<open>byte_at\<close> or \<open>load_bytes\<close>, which are \<open>None\<close>
    there. A definition of type \<open>'a option\<close> is therefore \<open>None\<close> exactly when the code
    would touch memory it does not own (or, for the loops that carry fuel, when the loop would
    not end), and a theorem \<open>safe m Q\<close> says that the code does neither and that its
    result satisfies \<open>Q\<close>.
  \<^item> C return codes: \<open>Rc_ok x\<close> is "returned success with out-parameters \<open>x\<close>" and
    \<open>Rc_err\<close> is "returned the failure code".
\<close>

type_synonym u8 = "8 word"
type_synonym u16 = "16 word"
type_synonym u32 = "32 word"
type_synonym u64 = "64 word"
type_synonym bytes = "8 word list"

abbreviation NUL :: char where "NUL \<equiv> CHR 0x00"

named_theorems safe_simps \<open>rewriting a \<open>safe\<close> goal through the option monad\<close>

datatype 'a rc = Rc_ok 'a | Rc_err

subsection \<open>Sizes\<close>

definition szadd :: "nat \<Rightarrow> nat \<Rightarrow> nat" where
  "szadd a b = (a + b) mod 2 ^ 64"

text \<open>The size of every C object is below \<open>PTRDIFF_MAX\<close>.\<close>

definition obj_bytes :: "bytes \<Rightarrow> bool" where
  "obj_bytes b \<longleftrightarrow> length b < 2 ^ 63"

lemma szadd_small [simp]: "a + b < 2 ^ 64 \<Longrightarrow> szadd a b = a + b"
  by (simp add: szadd_def)

lemma szadd_obj: "a < 2 ^ 63 \<Longrightarrow> b < 2 ^ 63 \<Longrightarrow> szadd a b = a + b"
  by (simp add: szadd_def)

subsection \<open>The fault monad\<close>

definition safe :: "'a option \<Rightarrow> ('a \<Rightarrow> bool) \<Rightarrow> bool" where
  "safe m Q \<longleftrightarrow> (case m of None \<Rightarrow> False | Some x \<Rightarrow> Q x)"

lemma safe_iff: "safe m Q \<longleftrightarrow> (\<exists>x. m = Some x \<and> Q x)"
  by (auto simp: safe_def split: option.splits)

lemma safe_Some [simp, safe_simps]: "safe (Some x) Q \<longleftrightarrow> Q x"
  by (simp add: safe_def)

lemma safe_None [simp, safe_simps]: "\<not> safe None Q"
  by (simp add: safe_def)

lemma safe_bind [safe_simps]: "safe (Option.bind m f) Q \<longleftrightarrow> safe m (\<lambda>x. safe (f x) Q)"
  by (cases m) simp_all

lemma safe_if [safe_simps]:
  "safe (if b then m else n) Q \<longleftrightarrow> (if b then safe m Q else safe n Q)"
  by simp

lemma safe_prod [safe_simps]:
  "safe (case p of (a, b) \<Rightarrow> f a b) Q \<longleftrightarrow> (case p of (a, b) \<Rightarrow> safe (f a b) Q)"
  by (cases p) simp

lemma safe_let [safe_simps]: "safe (Let x f) Q \<longleftrightarrow> safe (f x) Q"
  by (simp add: Let_def)

lemma safe_mono: "safe m P \<Longrightarrow> (\<And>x. P x \<Longrightarrow> Q x) \<Longrightarrow> safe m Q"
  by (auto simp: safe_iff)

lemma safe_mono_eq: "safe m P \<Longrightarrow> (\<And>x. m = Some x \<Longrightarrow> P x \<Longrightarrow> Q x) \<Longrightarrow> safe m Q"
  by (auto simp: safe_iff)

lemma safe_conj: "safe m P \<Longrightarrow> safe m Q \<Longrightarrow> safe m (\<lambda>x. P x \<and> Q x)"
  by (auto simp: safe_iff)

lemma safeD: "safe m Q \<Longrightarrow> m = Some x \<Longrightarrow> Q x"
  by (simp add: safe_def)

lemma safe_not_None: "safe m Q \<Longrightarrow> m \<noteq> None"
  by (auto simp: safe_iff)

subsection \<open>Results\<close>

lemma map_option_bind: "map_option f (Option.bind m g) = Option.bind m (\<lambda>x. map_option f (g x))"
  by (cases m) simp_all

lemma map_option_if: "map_option f (if b then x else y) = (if b then map_option f x else map_option f y)"
  by simp

lemma map_option_prod: "map_option f (case p of (a, b) \<Rightarrow> g a b) = (case p of (a, b) \<Rightarrow> map_option f (g a b))"
  by (cases p) simp

lemma rc_ok_conv:
  "(case r of Rc_ok x \<Rightarrow> f x | Rc_err \<Rightarrow> Some Rc_err) = Some (Rc_ok y) \<longleftrightarrow> (\<exists>x. r = Rc_ok x \<and> f x = Some (Rc_ok y))"
  by (cases r) simp_all

lemma rc_map_conv:
  "(case r of Rc_ok x \<Rightarrow> Rc_ok (f x) | Rc_err \<Rightarrow> Rc_err) = Rc_ok y \<longleftrightarrow> (\<exists>x. r = Rc_ok x \<and> f x = y)"
  by (cases r) simp_all

subsection \<open>Loads\<close>

definition byte_at :: "bytes \<Rightarrow> nat \<Rightarrow> u8 option" where
  "byte_at b i = (if i < length b then Some (b ! i) else None)"

definition load_bytes :: "bytes \<Rightarrow> nat \<Rightarrow> nat \<Rightarrow> bytes option" where
  "load_bytes b off n = (if off + n \<le> length b then Some (take n (drop off b)) else None)"

text \<open>Little-endian load: \<open>b0 | b1 << 8 | b2 << 16 | ...\<close>.\<close>

fun le_word :: "bytes \<Rightarrow> 'a::len word" where
  "le_word [] = 0"
| "le_word (b # bs) = ucast b OR push_bit 8 (le_word bs)"

definition load_le :: "nat \<Rightarrow> bytes \<Rightarrow> nat \<Rightarrow> 'a::len word option" where
  "load_le n b off = map_option le_word (load_bytes b off n)"

lemma byte_at_in [simp]: "i < length b \<Longrightarrow> byte_at b i = Some (b ! i)"
  by (simp add: byte_at_def)

lemma load_bytes_in [simp]: "off + n \<le> length b \<Longrightarrow> load_bytes b off n = Some (take n (drop off b))"
  by (simp add: load_bytes_def)

lemma load_le_in [simp]:
  "off + n \<le> length b \<Longrightarrow> load_le n b off = Some (le_word (take n (drop off b)))"
  by (simp add: load_le_def)

lemma safe_byte_at: "i < length b \<Longrightarrow> Q (b ! i) \<Longrightarrow> safe (byte_at b i) Q"
  by simp

lemma safe_load_le:
  "off + n \<le> length b \<Longrightarrow> (\<And>v. Q v) \<Longrightarrow> safe (load_le n b off) Q"
  by simp

subsection \<open>Stores\<close>

definition store_bytes :: "bytes \<Rightarrow> nat \<Rightarrow> bytes \<Rightarrow> bytes option" where
  "store_bytes b off src =
     (if off + length src \<le> length b then Some (take off b @ src @ drop (off + length src) b) else None)"

text \<open>The bytes of an integer in memory, low byte first.\<close>

fun le_bytes :: "nat \<Rightarrow> 'a::len word \<Rightarrow> bytes" where
  "le_bytes 0 w = []"
| "le_bytes (Suc n) w = ucast w # le_bytes n (drop_bit 8 w)"

lemma length_le_bytes [simp]: "length (le_bytes n w) = n"
  by (induction n arbitrary: w) simp_all

lemma le_bytes_numeral:
  "le_bytes (numeral k) w = ucast w # le_bytes (pred_numeral k) (drop_bit 8 w)"
  by (simp add: numeral_eq_Suc)

lemma le_word_le_bytes: "(le_word (le_bytes n w) :: 'a::len word) = take_bit (8 * n) (w :: 'a word)"
proof (induction n arbitrary: w)
  case (Suc n)
  show ?case
    by (rule bit_word_eqI)
       (auto simp: Suc.IH bit_simps)
qed simp

lemma le_bytes_take_bit: "8 * n \<le> m \<Longrightarrow> le_bytes n (take_bit m w) = le_bytes n w"
proof (induction n arbitrary: m w)
  case (Suc n)
  have "ucast (take_bit m w) = (ucast w :: 8 word)"
    using Suc.prems by (intro bit_word_eqI) (auto simp: bit_simps)
  moreover have "drop_bit 8 (take_bit m w) = take_bit (m - 8) (drop_bit 8 w)"
    by (simp add: drop_bit_take_bit)
  ultimately show ?case using Suc by simp
qed simp

lemma le_bytes_le_word:
  "8 * length bs \<le> LENGTH('a::len) \<Longrightarrow> le_bytes (length bs) (le_word bs :: 'a word) = bs"
proof (induction bs)
  case (Cons b bs)
  let ?x = "le_word bs :: 'a word"
  let ?w = "ucast b OR push_bit 8 ?x"
  have "ucast ?w = b"
    using Cons.prems by (intro bit_word_eqI) (auto simp: bit_simps)
  moreover have "take_bit (8 * length bs) (drop_bit 8 ?w) = take_bit (8 * length bs) ?x"
    using Cons.prems by (intro bit_word_eqI) (auto simp: bit_simps dest: bit_imp_le_length)
  then have "le_bytes (length bs) (drop_bit 8 ?w) = le_bytes (length bs) ?x"
    using le_bytes_take_bit [of "length bs" "8 * length bs"] by (metis order_refl)
  ultimately show ?case using Cons by simp
qed simp

lemma length_store_bytes: "store_bytes b off src = Some b' \<Longrightarrow> length b' = length b"
  by (auto simp: store_bytes_def split: if_splits)

definition store_le :: "nat \<Rightarrow> bytes \<Rightarrow> nat \<Rightarrow> 'a::len word \<Rightarrow> bytes option" where
  "store_le n b off w = store_bytes b off (le_bytes n w)"

text \<open>\<open>size_t\<close> subtraction.\<close>

definition szsub :: "nat \<Rightarrow> nat \<Rightarrow> nat" where
  "szsub a b = (a + (2 ^ 64 - b)) mod 2 ^ 64"

lemma szsub_ge: "b \<le> a \<Longrightarrow> a < 2 ^ 64 \<Longrightarrow> szsub a b = a - b"
  by (simp add: szsub_def mod_if)

subsection \<open>Sorting\<close>

text \<open>What a sorting routine promises (the C library's \<open>qsort\<close>, or a loop of the program's own): a
  permutation ordered by the key, with no promise about equal keys.\<close>

locale qsort_impl =
  fixes key :: "'a \<Rightarrow> 'k::linorder" and qs :: "'a list \<Rightarrow> 'a list"
  assumes qs_perm: "mset (qs xs) = mset xs"
    and qs_sorted: "sorted (map key (qs xs))"
begin

lemma qs_set: "set (qs xs) = set xs"
  using qs_perm by (metis set_mset_mset)

lemma qs_length: "length (qs xs) = length xs"
  using qs_perm by (metis size_mset)

lemma qs_list_all: "list_all P (qs xs) \<longleftrightarrow> list_all P xs"
  by (simp add: list_all_iff qs_set)

end

end
