(* ===== verification/Dwarf.thy ===== *)
theory Dwarf
  imports Anubee_Prelude
begin

unbundle bit_operations_syntax

text \<open>
  \<open>src/src/common/dwarf.c\<close>: the overrun-safe little-endian cursor every CFI parser reads
  through. \<open>struct dwarf_cur\<close> is the record below; each reader returns its value and the
  advanced cursor. The two LEB128 loops carry fuel: one iteration consumes one byte of the
  buffer, so \<open>Suc (clen c)\<close> iterations are enough, which the \<open>safe\<close> lemmas establish.
\<close>

section \<open>The cursor and its readers\<close>

record dwarf_cur =
  cbuf :: bytes
  clen :: nat
  cpos :: nat
  cerr :: bool

definition dwarf_cur_init :: "bytes \<Rightarrow> nat \<Rightarrow> dwarf_cur" where
  "dwarf_cur_init buf len = \<lparr>cbuf = buf, clen = len, cpos = 0, cerr = False\<rparr>"

definition avail :: "dwarf_cur \<Rightarrow> nat \<Rightarrow> bool \<times> dwarf_cur" where
  "avail c n =
     (if cerr c \<or> szadd (cpos c) n > clen c then (False, c\<lparr>cerr := True\<rparr>) else (True, c))"

definition dwarf_u8 :: "dwarf_cur \<Rightarrow> (u8 \<times> dwarf_cur) option" where
  "dwarf_u8 c =
     (let (ok, c) = avail c 1 in
      if \<not> ok then Some (0, c)
      else do {
        b \<leftarrow> byte_at (cbuf c) (cpos c);
        Some (b, c\<lparr>cpos := szadd (cpos c) 1\<rparr>)
      })"

definition dwarf_u16 :: "dwarf_cur \<Rightarrow> (u16 \<times> dwarf_cur) option" where
  "dwarf_u16 c =
     (let (ok, c) = avail c 2 in
      if \<not> ok then Some (0, c)
      else do {
        v \<leftarrow> load_le 2 (cbuf c) (cpos c);
        Some (v, c\<lparr>cpos := szadd (cpos c) 2\<rparr>)
      })"

definition dwarf_u32 :: "dwarf_cur \<Rightarrow> (u32 \<times> dwarf_cur) option" where
  "dwarf_u32 c =
     (let (ok, c) = avail c 4 in
      if \<not> ok then Some (0, c)
      else do {
        v \<leftarrow> load_le 4 (cbuf c) (cpos c);
        Some (v, c\<lparr>cpos := szadd (cpos c) 4\<rparr>)
      })"

definition dwarf_u64 :: "dwarf_cur \<Rightarrow> (u64 \<times> dwarf_cur) option" where
  "dwarf_u64 c =
     (let (ok, c) = avail c 8 in
      if \<not> ok then Some (0, c)
      else do {
        v \<leftarrow> load_le 8 (cbuf c) (cpos c);
        Some (v, c\<lparr>cpos := szadd (cpos c) 8\<rparr>)
      })"

text \<open>\<open>if (shift < 64) result |= (uint64_t)(b & 0x7f) << shift\<close>.\<close>

definition leb_accum :: "u64 \<Rightarrow> nat \<Rightarrow> u8 \<Rightarrow> u64" where
  "leb_accum result shift b =
     (if shift < 64 then result OR push_bit shift (ucast (b AND 0x7f)) else result)"

fun dwarf_uleb_loop :: "nat \<Rightarrow> dwarf_cur \<Rightarrow> u64 \<Rightarrow> nat \<Rightarrow> (u64 \<times> dwarf_cur) option" where
  "dwarf_uleb_loop 0 c result shift = None"
| "dwarf_uleb_loop (Suc fuel) c result shift =
     (let (ok, c) = avail c 1 in
      if \<not> ok then Some (0, c)
      else do {
        b \<leftarrow> byte_at (cbuf c) (cpos c);
        let c = c\<lparr>cpos := szadd (cpos c) 1\<rparr>;
        let result = leb_accum result shift b;
        (if b AND 0x80 = 0 then Some (result, c)
         else dwarf_uleb_loop fuel c result (shift + 7))
      })"

definition dwarf_uleb :: "dwarf_cur \<Rightarrow> (u64 \<times> dwarf_cur) option" where
  "dwarf_uleb c = dwarf_uleb_loop (Suc (clen c)) c 0 0"

text \<open>
  The signed reader accumulates in an \<open>int64_t\<close>; the model keeps its two's-complement bit
  pattern. After the last byte, with \<open>shift\<close> already increased, the sign bit of that byte is
  extended by \<open>result |= -((int64_t)1 << shift)\<close>.
\<close>

fun dwarf_sleb_loop :: "nat \<Rightarrow> dwarf_cur \<Rightarrow> u64 \<Rightarrow> nat \<Rightarrow> (u64 \<times> dwarf_cur) option" where
  "dwarf_sleb_loop 0 c result shift = None"
| "dwarf_sleb_loop (Suc fuel) c result shift =
     (let (ok, c) = avail c 1 in
      if \<not> ok then Some (0, c)
      else do {
        b \<leftarrow> byte_at (cbuf c) (cpos c);
        let c = c\<lparr>cpos := szadd (cpos c) 1\<rparr>;
        let result = leb_accum result shift b;
        let shift = shift + 7;
        (if b AND 0x80 = 0 then
           Some (if shift < 64 \<and> b AND 0x40 \<noteq> 0 then result OR - push_bit shift 1 else result, c)
         else dwarf_sleb_loop fuel c result shift)
      })"

definition dwarf_sleb :: "dwarf_cur \<Rightarrow> (u64 \<times> dwarf_cur) option" where
  "dwarf_sleb c = dwarf_sleb_loop (Suc (clen c)) c 0 0"

definition dwarf_skip :: "dwarf_cur \<Rightarrow> nat \<Rightarrow> dwarf_cur" where
  "dwarf_skip c n = (let (ok, c) = avail c n in if \<not> ok then c else c\<lparr>cpos := szadd (cpos c) n\<rparr>)"

section \<open>Readers stay inside the buffer\<close>

definition cur_ok :: "dwarf_cur \<Rightarrow> bool" where
  "cur_ok c \<longleftrightarrow> clen c = length (cbuf c) \<and> obj_bytes (cbuf c) \<and> cpos c < 2 ^ 63"

text \<open>\<open>cur_adv c c'\<close>: \<open>c'\<close> is \<open>c\<close> after reading; either the error flag is (now) set, or it was
  clear, still is, and the position moved forward without leaving the buffer.\<close>

definition cur_adv :: "nat \<Rightarrow> dwarf_cur \<Rightarrow> dwarf_cur \<Rightarrow> bool" where
  "cur_adv k c c' \<longleftrightarrow>
     cbuf c' = cbuf c \<and> clen c' = clen c \<and> cpos c \<le> cpos c' \<and> cpos c' < 2 ^ 63 \<and>
     (\<not> cerr c' \<longrightarrow> \<not> cerr c \<and> cpos c + k \<le> cpos c' \<and> cpos c' \<le> clen c)"

lemma cur_ok_init: "obj_bytes b \<Longrightarrow> cur_ok (dwarf_cur_init b (length b))"
  by (simp add: cur_ok_def dwarf_cur_init_def)

lemma dwarf_cur_init_sel [simp]:
  "cbuf (dwarf_cur_init b n) = b" "clen (dwarf_cur_init b n) = n"
  "cpos (dwarf_cur_init b n) = 0" "\<not> cerr (dwarf_cur_init b n)"
  by (simp_all add: dwarf_cur_init_def)

lemma cur_ok_setpos: "cur_ok c \<Longrightarrow> p < 2 ^ 63 \<Longrightarrow> cur_ok (c\<lparr>cpos := p\<rparr>)"
  by (simp add: cur_ok_def)

lemma cur_adv_ok: "cur_ok c \<Longrightarrow> cur_adv k c c' \<Longrightarrow> cur_ok c'"
  by (auto simp: cur_ok_def cur_adv_def)

lemma cur_adv_trans: "cur_adv j c c' \<Longrightarrow> cur_adv k c' c'' \<Longrightarrow> cur_adv (j + k) c c''"
  by (auto simp: cur_adv_def)

lemma cur_adv_weaken: "cur_adv k c c' \<Longrightarrow> j \<le> k \<Longrightarrow> cur_adv j c c'"
  by (auto simp: cur_adv_def)

lemma cur_ok_len: "cur_ok c \<Longrightarrow> clen c < 2 ^ 63"
  by (simp add: cur_ok_def obj_bytes_def)

lemma avail_eq:
  assumes "cur_ok c" "n < 2 ^ 63"
  shows "avail c n = (if \<not> cerr c \<and> cpos c + n \<le> clen c then (True, c) else (False, c\<lparr>cerr := True\<rparr>))"
  using assms by (auto simp: avail_def cur_ok_def szadd_obj)

lemmas cur_defs = avail_eq cur_ok_def szadd_obj obj_bytes_def

lemma dwarf_u8_eq:
  assumes "cur_ok c"
  shows "dwarf_u8 c = Some (if \<not> cerr c \<and> cpos c + 1 \<le> clen c
     then (cbuf c ! cpos c, c\<lparr>cpos := cpos c + 1\<rparr>) else (0, c\<lparr>cerr := True\<rparr>))"
  using assms by (auto simp: dwarf_u8_def cur_defs)

lemma dwarf_u16_eq:
  assumes "cur_ok c"
  shows "dwarf_u16 c = Some (if \<not> cerr c \<and> cpos c + 2 \<le> clen c
     then (le_word (take 2 (drop (cpos c) (cbuf c))), c\<lparr>cpos := cpos c + 2\<rparr>)
     else (0, c\<lparr>cerr := True\<rparr>))"
  using assms by (auto simp: dwarf_u16_def cur_defs)

lemma dwarf_u32_eq:
  assumes "cur_ok c"
  shows "dwarf_u32 c = Some (if \<not> cerr c \<and> cpos c + 4 \<le> clen c
     then (le_word (take 4 (drop (cpos c) (cbuf c))), c\<lparr>cpos := cpos c + 4\<rparr>)
     else (0, c\<lparr>cerr := True\<rparr>))"
  using assms by (auto simp: dwarf_u32_def cur_defs)

lemma dwarf_u64_eq:
  assumes "cur_ok c"
  shows "dwarf_u64 c = Some (if \<not> cerr c \<and> cpos c + 8 \<le> clen c
     then (le_word (take 8 (drop (cpos c) (cbuf c))), c\<lparr>cpos := cpos c + 8\<rparr>)
     else (0, c\<lparr>cerr := True\<rparr>))"
  using assms by (auto simp: dwarf_u64_def cur_defs)

lemma safe_u8:
  "cur_ok c \<Longrightarrow> (\<And>v c'. cur_adv 1 c c' \<Longrightarrow> cur_ok c' \<Longrightarrow> Q (v, c')) \<Longrightarrow> safe (dwarf_u8 c) Q"
  by (auto simp: dwarf_u8_eq cur_adv_def cur_ok_def obj_bytes_def)

lemma safe_u16:
  "cur_ok c \<Longrightarrow> (\<And>v c'. cur_adv 2 c c' \<Longrightarrow> cur_ok c' \<Longrightarrow> Q (v, c')) \<Longrightarrow> safe (dwarf_u16 c) Q"
  by (auto simp: dwarf_u16_eq cur_adv_def cur_ok_def obj_bytes_def)

lemma safe_u32:
  "cur_ok c \<Longrightarrow> (\<And>v c'. cur_adv 4 c c' \<Longrightarrow> cur_ok c' \<Longrightarrow> Q (v, c')) \<Longrightarrow> safe (dwarf_u32 c) Q"
  by (auto simp: dwarf_u32_eq cur_adv_def cur_ok_def obj_bytes_def)

lemma safe_u64:
  "cur_ok c \<Longrightarrow> (\<And>v c'. cur_adv 8 c c' \<Longrightarrow> cur_ok c' \<Longrightarrow> Q (v, c')) \<Longrightarrow> safe (dwarf_u64 c) Q"
  by (auto simp: dwarf_u64_eq cur_adv_def cur_ok_def obj_bytes_def)


text \<open>The LEB128 loops: one more iteration than there are bytes left is enough.\<close>

lemma safe_uleb_loop:
  assumes "cur_ok c" "0 < fuel" "clen c < fuel + cpos c"
    and "\<And>v c'. cur_adv 1 c c' \<Longrightarrow> Q (v, c')"
  shows "safe (dwarf_uleb_loop fuel c r sh) Q"
  using assms
proof (induction fuel arbitrary: c r sh)
  case 0
  then show ?case by simp
next
  case (Suc fuel)
  show ?case
  proof (cases "\<not> cerr c \<and> cpos c + 1 \<le> clen c")
    case True
    let ?c = "c\<lparr>cpos := cpos c + 1\<rparr>"
    have adv: "cur_adv 1 c ?c" and ok: "cur_ok ?c"
      using True Suc.prems(1) by (auto simp: cur_adv_def cur_ok_def obj_bytes_def)
    have "safe (dwarf_uleb_loop fuel ?c r' sh') Q" for r' sh'
      using Suc.prems True ok
      by (intro Suc.IH) (auto intro!: Suc.prems(4) cur_adv_weaken [OF cur_adv_trans [OF adv]])
    then show ?thesis
      using True Suc.prems(1) adv Suc.prems(4) by (auto simp: cur_defs Let_def)
  next
    case False
    then show ?thesis
      using Suc.prems by (auto simp: cur_defs cur_adv_def)
  qed
qed

lemma safe_sleb_loop:
  assumes "cur_ok c" "0 < fuel" "clen c < fuel + cpos c"
    and "\<And>v c'. cur_adv 1 c c' \<Longrightarrow> Q (v, c')"
  shows "safe (dwarf_sleb_loop fuel c r sh) Q"
  using assms
proof (induction fuel arbitrary: c r sh)
  case 0
  then show ?case by simp
next
  case (Suc fuel)
  show ?case
  proof (cases "\<not> cerr c \<and> cpos c + 1 \<le> clen c")
    case True
    let ?c = "c\<lparr>cpos := cpos c + 1\<rparr>"
    have adv: "cur_adv 1 c ?c" and ok: "cur_ok ?c"
      using True Suc.prems(1) by (auto simp: cur_adv_def cur_ok_def obj_bytes_def)
    have "safe (dwarf_sleb_loop fuel ?c r' sh') Q" for r' sh'
      using Suc.prems True ok
      by (intro Suc.IH) (auto intro!: Suc.prems(4) cur_adv_weaken [OF cur_adv_trans [OF adv]])
    then show ?thesis
      using True Suc.prems(1) adv Suc.prems(4) by (auto simp: cur_defs Let_def)
  next
    case False
    then show ?thesis
      using Suc.prems by (auto simp: cur_defs cur_adv_def)
  qed
qed

lemma safe_uleb:
  "cur_ok c \<Longrightarrow> (\<And>v c'. cur_adv 1 c c' \<Longrightarrow> cur_ok c' \<Longrightarrow> Q (v, c')) \<Longrightarrow> safe (dwarf_uleb c) Q"
  unfolding dwarf_uleb_def by (rule safe_uleb_loop) (simp_all add: cur_adv_ok)

lemma safe_sleb:
  "cur_ok c \<Longrightarrow> (\<And>v c'. cur_adv 1 c c' \<Longrightarrow> cur_ok c' \<Longrightarrow> Q (v, c')) \<Longrightarrow> safe (dwarf_sleb c) Q"
  unfolding dwarf_sleb_def by (rule safe_sleb_loop) (simp_all add: cur_adv_ok)

lemma dwarf_skip_adv: "cur_ok c \<Longrightarrow> n < 2 ^ 63 \<Longrightarrow> cur_adv n c (dwarf_skip c n)"
  by (auto simp: dwarf_skip_def cur_defs cur_adv_def)

section \<open>LEB128 encodings round-trip\<close>

text \<open>The encodings the DWARF standard defines, used to state what the readers decode.\<close>

fun uleb_encode :: "nat \<Rightarrow> bytes" where
  "uleb_encode n =
     (if n < 128 then [of_nat n] else (of_nat (n mod 128) OR 0x80) # uleb_encode (n div 128))"

function sleb_encode :: "int \<Rightarrow> bytes" where
  "sleb_encode i =
     (if - 64 \<le> i \<and> i < 64 then [of_int (i mod 128)]
      else (of_int (i mod 128) OR 0x80) # sleb_encode (i div 128))"
  by pat_completeness auto
termination
  by (relation "measure (\<lambda>i. nat \<bar>i\<bar>)") auto

declare uleb_encode.simps [simp del] sleb_encode.simps [simp del]

lemma leb_accum_eq: "leb_accum r sh b = r OR push_bit sh (ucast (b AND 0x7f))"
  by (auto simp: leb_accum_def intro!: bit_word_eqI simp: bit_simps)

lemma low7_table:
  "list_all (\<lambda>m. ((of_nat m OR 0x80) AND 0x7f :: u8) = of_nat m \<and> (of_nat m AND 0x7f :: u8) = of_nat m
     \<and> ((of_nat m OR 0x80) AND 0x80 :: u8) \<noteq> 0 \<and> (of_nat m AND 0x80 :: u8) = 0
     \<and> ((of_nat m AND 0x40 :: u8) \<noteq> 0 \<longleftrightarrow> 64 \<le> m)) [0..<128]"
  by code_simp

lemma low7:
  assumes "m < 128"
  shows "(of_nat m OR 0x80) AND 0x7f = (of_nat m :: u8)" "of_nat m AND 0x7f = (of_nat m :: u8)"
    "(of_nat m OR 0x80) AND 0x80 \<noteq> (0 :: u8)" "of_nat m AND 0x80 = (0 :: u8)"
    "of_nat m AND 0x40 \<noteq> (0 :: u8) \<longleftrightarrow> 64 \<le> m"
  using low7_table assms by (auto simp: list_all_iff)

lemma ucast_low7: "m < 128 \<Longrightarrow> ucast (of_nat m :: u8) = (of_nat m :: u64)"
  by (simp add: unsigned_of_nat take_bit_nat_eq_self)

lemma split7_int: "(i::int) = i mod 128 OR push_bit 7 (i div 128)"
proof -
  have "bit i n \<longleftrightarrow> bit (take_bit 7 i OR push_bit 7 (drop_bit 7 i)) n" for n
    by (cases "n < 7") (simp_all add: bit_simps)
  then have "i = take_bit 7 i OR push_bit 7 (drop_bit 7 i)"
    by (rule bit_eqI)
  then show ?thesis
    by (simp add: take_bit_eq_mod drop_bit_eq_div)
qed

lemma split7_word:
  "push_bit sh (of_int i :: u64) = push_bit sh (of_int (i mod 128)) OR push_bit (sh + 7) (of_int (i div 128))"
proof -
  have "(of_int i :: u64) = of_int (i mod 128) OR push_bit 7 (of_int (i div 128))"
    by (metis split7_int of_int_or_eq push_bit_of_int)
  then show ?thesis
    by (simp add: push_bit_or add.commute)
qed

lemma split7_word_nat:
  "push_bit sh (of_nat n :: u64) = push_bit sh (of_nat (n mod 128)) OR push_bit (sh + 7) (of_nat (n div 128))"
proof -
  have "int n mod 128 = int (n mod 128)" "int n div 128 = int (n div 128)"
    by (simp_all add: zmod_int zdiv_int)
  then show ?thesis
    using split7_word [of sh "int n"] by (simp only: of_int_of_nat_eq)
qed

lemma sign_extend:
  "(if k < 64 then r OR - push_bit k 1 else r) = r OR push_bit k (- 1 :: u64)"
proof (cases "k < 64")
  case True
  have "push_bit k (- 1 :: u64) = - push_bit k 1"
    by (simp only: push_bit_eq_mult mult_minus1 mult_1)
  with True show ?thesis by simp
next
  case False
  then have "push_bit k (- 1 :: u64) = 0"
    by (intro bit_word_eqI) (simp add: bit_simps)
  with False show ?thesis by simp
qed

text \<open>One iteration of either loop over a byte that is present.\<close>

definition cur_at :: "dwarf_cur \<Rightarrow> bytes \<Rightarrow> bool" where
  "cur_at c bs \<longleftrightarrow> cur_ok c \<and> \<not> cerr c \<and> (\<exists>pre post. cbuf c = pre @ bs @ post \<and> cpos c = length pre)"

lemma cur_atI:
  assumes "cur_ok c" "\<not> cerr c" "cpos c \<le> length (cbuf c)" "take (length bs) (drop (cpos c) (cbuf c)) = bs"
  shows "cur_at c bs"
proof -
  have "cbuf c = take (cpos c) (cbuf c) @ bs @ drop (length bs) (drop (cpos c) (cbuf c))"
    by (metis append_take_drop_id assms(4))
  then show ?thesis
    using assms(1-3) unfolding cur_at_def by (metis length_take min.absorb2)
qed

lemma cur_at_Cons:
  assumes "cur_at c (b # bs)"
  shows "avail c 1 = (True, c)" "byte_at (cbuf c) (cpos c) = Some b"
    "szadd (cpos c) 1 = cpos c + 1" "cur_at (c\<lparr>cpos := cpos c + 1\<rparr>) bs"
  using assms
  by (auto simp: cur_at_def cur_defs byte_at_def nth_append)
     (metis append_Cons append_assoc append_Nil length_append_singleton Suc_eq_plus1 One_nat_def)

lemma uleb_loop_step:
  "cur_at c (b # bs) \<Longrightarrow> dwarf_uleb_loop (Suc f) c r sh =
     (if b AND 0x80 = 0 then Some (leb_accum r sh b, c\<lparr>cpos := cpos c + 1\<rparr>)
      else dwarf_uleb_loop f (c\<lparr>cpos := cpos c + 1\<rparr>) (leb_accum r sh b) (sh + 7))"
  by (simp add: cur_at_Cons Let_def del: One_nat_def)

lemma sleb_loop_step:
  "cur_at c (b # bs) \<Longrightarrow> dwarf_sleb_loop (Suc f) c r sh =
     (if b AND 0x80 = 0 then
        Some (if sh + 7 < 64 \<and> b AND 0x40 \<noteq> 0 then leb_accum r sh b OR - push_bit (sh + 7) 1
              else leb_accum r sh b, c\<lparr>cpos := cpos c + 1\<rparr>)
      else dwarf_sleb_loop f (c\<lparr>cpos := cpos c + 1\<rparr>) (leb_accum r sh b) (sh + 7))"
  by (simp add: cur_at_Cons Let_def del: One_nat_def)

text \<open>The two shapes of an encoding: a last byte, or a byte with the continuation bit and the
  encoding of the remaining groups.\<close>

lemma leb_byte_last:
  assumes "m < 128" "b = (of_nat m :: u8)"
  shows "b AND 0x80 = 0" "leb_accum r sh b = r OR push_bit sh (of_nat m)" "b AND 0x40 \<noteq> 0 \<longleftrightarrow> 64 \<le> m"
  using assms by (simp_all add: low7 leb_accum_eq ucast_low7)

lemma leb_byte_more:
  assumes "m < 128" "b = (of_nat m OR 0x80 :: u8)"
  shows "b AND 0x80 \<noteq> 0" "leb_accum r sh b = r OR push_bit sh (of_nat m)"
  using assms low7 [of m] by (simp_all add: leb_accum_eq ucast_low7)

lemma dwarf_uleb_loop_encode:
  assumes "cur_at c (uleb_encode n)" "length (uleb_encode n) \<le> fuel"
  shows "dwarf_uleb_loop fuel c r sh =
    Some (r OR push_bit sh (of_nat n), c\<lparr>cpos := cpos c + length (uleb_encode n)\<rparr>)"
  using assms
proof (induction n arbitrary: c r sh fuel rule: uleb_encode.induct)
  case (1 n)
  show ?case
  proof (cases "n < 128")
    case True
    then have e: "uleb_encode n = [of_nat n]" by (simp add: uleb_encode.simps)
    with "1.prems"(2) obtain f where f: "fuel = Suc f" by (cases fuel) auto
    from "1.prems"(1) e have at: "cur_at c [of_nat n]" by simp
    show ?thesis
      unfolding e f uleb_loop_step [OF at] using leb_byte_last [OF True refl] by simp
  next
    case False
    obtain b :: u8 where b: "b = of_nat (n mod 128) OR 0x80" by blast
    have e: "uleb_encode n = b # uleb_encode (n div 128)"
      using False by (subst uleb_encode.simps) (simp add: b)
    with "1.prems"(2) obtain f where f: "fuel = Suc f" by (cases fuel) auto
    from "1.prems"(1) e have at: "cur_at c (b # uleb_encode (n div 128))" by simp
    have ih: "dwarf_uleb_loop f (c\<lparr>cpos := cpos c + 1\<rparr>) r' sh' =
        Some (r' OR push_bit sh' (of_nat (n div 128)),
              c\<lparr>cpos := cpos c + 1 + length (uleb_encode (n div 128))\<rparr>)" for r' sh'
      using "1.IH" [OF False cur_at_Cons(4) [OF at]] "1.prems"(2) by (simp add: e f)
    show ?thesis
      unfolding e f uleb_loop_step [OF at] ih
      using leb_byte_more [OF _ b] by (simp add: split7_word_nat [of sh n] or.assoc)
  qed
qed

lemma dwarf_sleb_loop_encode:
  assumes "cur_at c (sleb_encode i)" "length (sleb_encode i) \<le> fuel"
  shows "dwarf_sleb_loop fuel c r sh =
    Some (r OR push_bit sh (of_int i), c\<lparr>cpos := cpos c + length (sleb_encode i)\<rparr>)"
  using assms
proof (induction i arbitrary: c r sh fuel rule: sleb_encode.induct)
  case (1 i)
  define m where "m = nat (i mod 128)"
  have m: "m < 128" "of_int (i mod 128) = (of_nat m :: u8)" "of_int (i mod 128) = (of_nat m :: u64)"
    by (simp_all add: m_def)
  have w: "push_bit sh (of_int i :: u64) = push_bit sh (of_nat m) OR push_bit (sh + 7) (of_int (i div 128))"
    using split7_word [of sh i] by (simp only: m)
  show ?case
  proof (cases "- 64 \<le> i \<and> i < 64")
    case True
    then have e: "sleb_encode i = [of_nat m]" by (simp add: sleb_encode.simps m)
    with "1.prems"(2) obtain f where f: "fuel = Suc f" by (cases fuel) auto
    from "1.prems"(1) e have at: "cur_at c [of_nat m]" by simp
    have q: "i div 128 = (if i < 0 then - 1 else 0)"
      using True by auto
    then have sgn: "64 \<le> m \<longleftrightarrow> i < 0"
      using True mod_div_mult_eq [of i 128] by (simp add: m_def split: if_splits)
    have x: "(if sh + 7 < 64 \<and> i < 0 then (r OR push_bit sh (of_nat m)) OR - push_bit (sh + 7) 1
        else r OR push_bit sh (of_nat m)) = r OR push_bit sh (of_int i :: u64)"
      using sign_extend [of "sh + 7" "r OR push_bit sh (of_nat m)"]
      unfolding w q by (cases "i < 0") (simp_all only: or.assoc if_True if_False simp_thms
        of_int_minus of_int_1 of_int_0 push_bit_of_0 or.right_neutral)
    show ?thesis
      unfolding e f sleb_loop_step [OF at] leb_byte_last [OF m(1) refl] sgn x by simp
  next
    case False
    obtain b :: u8 where b: "b = of_nat m OR 0x80" by blast
    have e: "sleb_encode i = b # sleb_encode (i div 128)"
      using False by (subst sleb_encode.simps) (simp only: if_False b m)
    with "1.prems"(2) obtain f where f: "fuel = Suc f" by (cases fuel) auto
    from "1.prems"(1) e have at: "cur_at c (b # sleb_encode (i div 128))" by simp
    have ih: "dwarf_sleb_loop f (c\<lparr>cpos := cpos c + 1\<rparr>) r' sh' =
        Some (r' OR push_bit sh' (of_int (i div 128)),
              c\<lparr>cpos := cpos c + 1 + length (sleb_encode (i div 128))\<rparr>)" for r' sh'
      using "1.IH" [OF False cur_at_Cons(4) [OF at]] "1.prems"(2) by (simp add: e f)
    show ?thesis
      unfolding e f sleb_loop_step [OF at] ih
      using leb_byte_more [OF m(1) b] by (simp add: w or.assoc)
  qed
qed

lemma cur_at_fuel: "cur_at c bs \<Longrightarrow> length bs \<le> Suc (clen c)"
  by (auto simp: cur_at_def cur_ok_def)

text \<open>C10: reading back an encoded number. On a cursor that stands at the unsigned (signed) LEB128
  encoding of any number, \<open>dwarf_uleb\<close> (\<open>dwarf_sleb\<close>) returns that number modulo \<open>2 ^ 64\<close>,
  consumes exactly the encoding and leaves the error flag clear.\<close>

theorem leb128_roundtrip:
  "(cur_at c (uleb_encode n) \<longrightarrow>
      dwarf_uleb c = Some (of_nat n, c\<lparr>cpos := cpos c + length (uleb_encode n)\<rparr>)) \<and>
   (cur_at c (sleb_encode i) \<longrightarrow>
      dwarf_sleb c = Some (of_int i, c\<lparr>cpos := cpos c + length (sleb_encode i)\<rparr>))"
  unfolding dwarf_uleb_def dwarf_sleb_def
  using dwarf_uleb_loop_encode [of c n "Suc (clen c)" 0 0]
    dwarf_sleb_loop_encode [of c i "Suc (clen c)" 0 0]
  by (auto dest: cur_at_fuel simp del: dwarf_uleb_loop.simps dwarf_sleb_loop.simps)

lemma leb128_roundtrip_witness:
  "dwarf_uleb (dwarf_cur_init [0xe5, 0x8e, 0x26, 0x7f] 4) =
     Some (624485, (dwarf_cur_init [0xe5, 0x8e, 0x26, 0x7f] 4)\<lparr>cpos := 3\<rparr>) \<and>
   dwarf_sleb ((dwarf_cur_init [0xe5, 0x8e, 0x26, 0x7f] 4)\<lparr>cpos := 3\<rparr>) =
     Some (- 1, (dwarf_cur_init [0xe5, 0x8e, 0x26, 0x7f] 4)\<lparr>cpos := 4\<rparr>)"
proof -
  let ?b = "[0xe5, 0x8e, 0x26, 0x7f] :: bytes"
  have u: "uleb_encode 624485 = [0xe5, 0x8e, 0x26]" and s: "sleb_encode (- 1) = [0x7f]"
    by (simp_all add: uleb_encode.simps sleb_encode.simps)
  have cu: "cur_at (dwarf_cur_init ?b 4) (uleb_encode 624485)"
    unfolding u by (rule cur_atI) (simp_all add: cur_ok_def obj_bytes_def)
  have cs: "cur_at ((dwarf_cur_init ?b 4)\<lparr>cpos := 3\<rparr>) (sleb_encode (- 1))"
    unfolding s by (rule cur_atI) (simp_all add: cur_ok_def obj_bytes_def)
  show ?thesis
    using leb128_roundtrip [THEN conjunct1, rule_format, OF cu]
      leb128_roundtrip [THEN conjunct2, rule_format, OF cs]
    by (simp add: u s)
qed

end
