(* ===== verification/Cfi_Section.thy ===== *)
theory Cfi_Section
  imports Dwarf
begin

unbundle bit_operations_syntax

text \<open>
  \<open>src/src/common/cfi_unwind.c\<close>, first half: locating a call-frame section inside an ELF
  image, parsing CIEs and FDEs out of it into an index sorted by \<open>pc_lo\<close>, and looking an
  address up in that index. The image and the section are untrusted bytes.

  \<^item> \<open>qsort\<close> is a parameter \<open>qs\<close>: the C library promises a sorted permutation and no more.
  \<^item> \<open>malloc\<close> may fail: \<open>mok n\<close> says whether an allocation of \<open>n\<close> bytes succeeds (an FDE record
    takes 32 bytes).
  \<^item> The two section dialects share their section walk; \<open>dialect\<close> says which one is parsed.
\<close>

section \<open>Data\<close>

record cfi_cie =
  cie_version :: u8
  addr_size :: u8
  code_align :: u64
  data_align :: u64
  ra_reg :: u32
  cie_insn_off :: u32
  cie_insn_len :: u32
  fde_enc :: u8
  has_z :: bool

record cfi_fde =
  pc_lo :: u64
  pc_hi :: u64
  cie_off :: u32
  insn_off :: u32
  insn_len :: u32

record cfi_section =
  sdata :: bytes
  slen :: nat
  fdes :: "cfi_fde list"
  section_vaddr :: u64
  owned :: bool

datatype dialect = Eh_frame | Debug_frame

section \<open>Locating a section in an ELF64 image\<close>

text \<open>\<open>sh_walk\<close>: the loop over the section headers. \<open>target\<close> includes its terminating NUL.\<close>

fun sh_walk :: "bytes \<Rightarrow> bytes \<Rightarrow> nat \<Rightarrow> nat \<Rightarrow> nat \<Rightarrow> nat \<Rightarrow> nat list \<Rightarrow> (nat \<times> nat \<times> u64) rc option" where
  "sh_walk elf target shoff shentsz shstr_off shstr_size [] = Some Rc_err"
| "sh_walk elf target shoff shentsz shstr_off shstr_size (i # is) =
     (let sh_off = szadd shoff (i * shentsz) in
      if szadd sh_off 64 > length elf then Some Rc_err
      else do {
        name \<leftarrow> load_le 4 elf sh_off;
        let name = unat (name :: u32);
        (if name \<ge> shstr_size then sh_walk elf target shoff shentsz shstr_off shstr_size is
         else if shstr_size - name < length target then
           sh_walk elf target shoff shentsz shstr_off shstr_size is
         else do {
           s \<leftarrow> load_bytes elf (shstr_off + name) (length target);
           (if s \<noteq> target then sh_walk elf target shoff shentsz shstr_off shstr_size is
            else do {
              sec_addr \<leftarrow> load_le 8 elf (sh_off + 16);
              sec_off \<leftarrow> load_le 8 elf (sh_off + 24);
              sec_size \<leftarrow> load_le 8 elf (sh_off + 32);
              let sec_off = unat (sec_off :: u64);
              let sec_size = unat (sec_size :: u64);
              (if sec_size = 0 \<or> sec_off > length elf \<or> szadd sec_off sec_size > length elf
               then Some Rc_err
               else Some (Rc_ok (sec_off, sec_size, sec_addr)))
            })
         })
      })"

text \<open>\<open>elf_find_section\<close>: the header checks both extractors make, then the walk.\<close>

definition elf_find_section :: "bytes \<Rightarrow> bytes \<Rightarrow> (nat \<times> nat \<times> u64) rc option" where
  "elf_find_section elf target =
     (if length elf < 64 then Some Rc_err
      else do {
        ident \<leftarrow> load_bytes elf 0 16;
        e_shoff \<leftarrow> load_le 8 elf 40;
        e_shentsize \<leftarrow> load_le 2 elf 58;
        e_shnum \<leftarrow> load_le 2 elf 60;
        e_shstrndx \<leftarrow> load_le 2 elf 62;
        let shoff = unat (e_shoff :: u64);
        let shentsz = unat (e_shentsize :: u16);
        let shnum = unat (e_shnum :: u16);
        let shstrndx = unat (e_shstrndx :: u16);
        (if take 4 ident \<noteq> [0x7f, 0x45, 0x4c, 0x46] then Some Rc_err
         else if ident ! 4 \<noteq> 2 then Some Rc_err
         else if shnum = 0 \<or> shentsz < 64 then Some Rc_err
         else if shoff = 0 \<or> shoff > length elf then Some Rc_err
         else if shentsz \<noteq> 0 \<and> shnum > (length elf - shoff) div shentsz then Some Rc_err
         else if shstrndx \<ge> shnum then Some Rc_err
         else if szadd (szadd shoff (shstrndx * shentsz)) 64 > length elf then Some Rc_err
         else do {
           let h = szadd shoff (shstrndx * shentsz);
           shstr_off \<leftarrow> load_le 8 elf (h + 24);
           shstr_size \<leftarrow> load_le 8 elf (h + 32);
           let shstr_off = unat (shstr_off :: u64);
           let shstr_size = unat (shstr_size :: u64);
           (if shstr_size = 0 \<or> shstr_off > length elf \<or> szadd shstr_off shstr_size > length elf
            then Some Rc_err
            else sh_walk elf target shoff shentsz shstr_off shstr_size [0..<shnum])
         })
      })"

definition debug_frame_name :: bytes where
  "debug_frame_name = map (of_nat \<circ> of_char) ''.debug_frame'' @ [0]"

definition eh_frame_name :: bytes where
  "eh_frame_name = map (of_nat \<circ> of_char) ''.eh_frame'' @ [0]"

text \<open>\<open>Rc_ok (off, n)\<close>: the slice \<open>elf + off\<close>, \<open>n\<close> bytes long, is handed out.\<close>

definition cfi_extract_debug_frame :: "bytes \<Rightarrow> (nat \<times> nat) rc option" where
  "cfi_extract_debug_frame elf = do {
     r \<leftarrow> elf_find_section elf debug_frame_name;
     Some (case r of Rc_err \<Rightarrow> Rc_err | Rc_ok (off, n, _) \<Rightarrow> Rc_ok (off, n))
   }"

definition cfi_extract_eh_frame :: "bytes \<Rightarrow> (nat \<times> nat \<times> u64) rc option" where
  "cfi_extract_eh_frame elf = elf_find_section elf eh_frame_name"

section \<open>CIEs\<close>

text \<open>The augmentation string: at most seven characters are kept.\<close>

fun cie_aug_string :: "nat \<Rightarrow> dwarf_cur \<Rightarrow> nat \<Rightarrow> u8 list \<Rightarrow> (u8 list \<times> dwarf_cur) rc option" where
  "cie_aug_string 0 c entry_end aug = None"
| "cie_aug_string (Suc fuel) c entry_end aug =
     (if \<not> (\<not> cerr c \<and> cpos c < entry_end)
      then Some (if cerr c then Rc_err else Rc_ok (aug, c))
      else do {
        (b, c) \<leftarrow> dwarf_u8 c;
        (if cerr c then Some Rc_err
         else if b = 0 then Some (Rc_ok (aug, c))
         else cie_aug_string fuel c entry_end (if length aug < 7 then aug @ [b] else aug))
      })"

text \<open>Skipping a LEB128 pointer inside the augmentation data: scan for its last byte.\<close>

fun cie_skip_leb :: "nat \<Rightarrow> dwarf_cur \<Rightarrow> nat \<Rightarrow> dwarf_cur rc option" where
  "cie_skip_leb 0 c aug_end = None"
| "cie_skip_leb (Suc fuel) c aug_end =
     (if \<not> (cpos c < aug_end \<and> \<not> cerr c) then Some (Rc_ok c)
      else do {
        (b, c) \<leftarrow> dwarf_u8 c;
        (if cerr c then Some Rc_err
         else if b AND 0x80 = 0 then Some (Rc_ok c)
         else cie_skip_leb fuel c aug_end)
      })"

definition cie_skip_personality :: "dwarf_cur \<Rightarrow> nat \<Rightarrow> dwarf_cur rc option" where
  "cie_skip_personality c aug_end = do {
     (penc, c) \<leftarrow> dwarf_u8 c;
     (if cerr c then Some Rc_err
      else do {
        let fmt = penc AND 0x0f;
        r \<leftarrow> (if fmt = 0x00 \<or> fmt = 0x04 \<or> fmt = 0x0c then Some (Rc_ok (dwarf_skip c 8))
              else if fmt = 0x02 \<or> fmt = 0x0a then Some (Rc_ok (dwarf_skip c 2))
              else if fmt = 0x03 \<or> fmt = 0x0b then Some (Rc_ok (dwarf_skip c 4))
              else if fmt = 0x09 \<or> fmt = 0x01 then cie_skip_leb (Suc (clen c)) c aug_end
              else Some Rc_err);
        Some (case r of Rc_err \<Rightarrow> Rc_err | Rc_ok c \<Rightarrow> if cerr c then Rc_err else Rc_ok c)
      })
   }"

text \<open>The walk over the augmentation letters after \<open>'z'\<close>, consuming their data.\<close>

fun cie_aug_data :: "u8 list \<Rightarrow> dwarf_cur \<Rightarrow> nat \<Rightarrow> u8 \<Rightarrow> (u8 \<times> dwarf_cur) rc option" where
  "cie_aug_data [] c aug_end enc = Some (Rc_ok (enc, c))"
| "cie_aug_data (l # ls) c aug_end enc =
     (if \<not> cpos c < aug_end then Some (Rc_ok (enc, c))
      else if l = 0x52 then do {
        (enc, c) \<leftarrow> dwarf_u8 c;
        (if cerr c then Some Rc_err else cie_aug_data ls c aug_end enc)
      }
      else if l = 0x50 then do {
        r \<leftarrow> cie_skip_personality c aug_end;
        (case r of Rc_err \<Rightarrow> Some Rc_err | Rc_ok c \<Rightarrow> cie_aug_data ls c aug_end enc)
      }
      else if l = 0x4c then do {
        (_, c) \<leftarrow> dwarf_u8 c;
        (if cerr c then Some Rc_err else cie_aug_data ls c aug_end enc)
      }
      else cie_aug_data ls (c\<lparr>cpos := aug_end\<rparr>) aug_end enc)"

text \<open>The augmentation-data block of a \<open>'z'\<close> CIE: the FDE pointer encoding and the cursor
  behind the block.\<close>

definition cie_aug_block :: "dwarf_cur \<Rightarrow> nat \<Rightarrow> u8 list \<Rightarrow> (u8 \<times> dwarf_cur) rc option" where
  "cie_aug_block c entry_end aug = do {
     (aug_len, c) \<leftarrow> dwarf_uleb c;
     (if cerr c then Some Rc_err
      else do {
        let aug_end = szadd (cpos c) (unat aug_len);
        (if aug_end > entry_end then Some Rc_err
         else do {
           r \<leftarrow> cie_aug_data (tl aug) c aug_end 0xff;
           Some (case r of Rc_err \<Rightarrow> Rc_err
                 | Rc_ok (enc, c) \<Rightarrow>
                     Rc_ok (enc, if cpos c < aug_end then c\<lparr>cpos := aug_end\<rparr> else c))
         })
      })
   }"

text \<open>From the alignment factors to the end of the CIE (\<open>parse_cie\<close>, second half).\<close>

definition cie_tail :: "dwarf_cur \<Rightarrow> nat \<Rightarrow> bool \<Rightarrow> u8 \<Rightarrow> u8 list \<Rightarrow> u8 \<Rightarrow> cfi_cie rc option" where
  "cie_tail c entry_end is_eh version aug asz = do {
     (code_al, c) \<leftarrow> dwarf_uleb c;
     (data_al, c) \<leftarrow> dwarf_sleb c;
     (if cerr c then Some Rc_err
      else do {
        (ra, c) \<leftarrow> (if \<not> is_eh \<and> version = 1
          then do { (r, c) \<leftarrow> dwarf_u8 c; Some (ucast r, c) }
          else do { (r, c) \<leftarrow> dwarf_uleb c; Some (ucast r, c) });
        (if cerr c then Some Rc_err
         else do {
           let z = (is_eh \<and> aug \<noteq> [] \<and> hd aug = 0x7a);
           r \<leftarrow> (if z then cie_aug_block c entry_end aug else Some (Rc_ok (0xff, c)));
           Some (case r of Rc_err \<Rightarrow> Rc_err
                 | Rc_ok (enc, c) \<Rightarrow>
                     if cpos c > entry_end then Rc_err
                     else Rc_ok \<lparr>cie_version = version, addr_size = asz, code_align = code_al,
                       data_align = data_al, ra_reg = ra, cie_insn_off = of_nat (cpos c),
                       cie_insn_len = of_nat (entry_end - cpos c), fde_enc = enc, has_z = z\<rparr>)
         })
      })
   }"

definition parse_cie :: "bytes \<Rightarrow> nat \<Rightarrow> u32 \<Rightarrow> cfi_cie rc option" where
  "parse_cie data len off =
     (if szadd (unat off) 8 > len then Some Rc_err
      else do {
        (ln, c) \<leftarrow> dwarf_u32 ((dwarf_cur_init data len)\<lparr>cpos := unat off\<rparr>);
        let entry_end = szadd (cpos c) (unat ln);
        (if cerr c \<or> ln = 0xffffffff \<or> ln = 0 \<or> entry_end > len then Some Rc_err
         else do {
           (eid, c) \<leftarrow> dwarf_u32 c;
           let is_eh = (eid = 0);
           (if cerr c \<or> (\<not> is_eh \<and> eid \<noteq> 0xffffffff) then Some Rc_err
            else do {
              (version, c) \<leftarrow> dwarf_u8 c;
              (if cerr c then Some Rc_err
               else do {
                 r \<leftarrow> cie_aug_string (Suc len) c entry_end [];
                 (case r of Rc_err \<Rightarrow> Some Rc_err
                  | Rc_ok (aug, c) \<Rightarrow>
                      if \<not> is_eh \<and> aug \<noteq> [] \<and> hd aug = 0x7a then Some Rc_err
                      else if \<not> is_eh \<and> version = 4 then do {
                        (asz, c) \<leftarrow> dwarf_u8 c;
                        (_, c) \<leftarrow> dwarf_u8 c;
                        (if cerr c then Some Rc_err else cie_tail c entry_end is_eh version aug asz)
                      }
                      else cie_tail c entry_end is_eh version aug 8)
               })
            })
         })
      })"

definition cfi_read_cie :: "cfi_section \<Rightarrow> u32 \<Rightarrow> cfi_cie rc option" where
  "cfi_read_cie s off = parse_cie (sdata s) (slen s) off"

section \<open>FDEs and the section index\<close>

definition decode_eh_pe :: "dwarf_cur \<Rightarrow> u8 \<Rightarrow> u64 \<Rightarrow> bool \<Rightarrow> (u64 \<times> dwarf_cur) rc option" where
  "decode_eh_pe c enc field_vaddr apply_pcrel =
     (if enc = 0xff then Some (Rc_ok (0, c))
      else do {
        let fmt = enc AND 0x0f;
        let app = enc AND 0x70;
        r \<leftarrow> (if fmt = 0x00 \<or> fmt = 0x04 \<or> fmt = 0x0c then
                do { (v, c) \<leftarrow> dwarf_u64 c; Some (Rc_ok (v, c)) }
              else if fmt = 0x01 then do { (v, c) \<leftarrow> dwarf_uleb c; Some (Rc_ok (v, c)) }
              else if fmt = 0x02 then do { (v, c) \<leftarrow> dwarf_u16 c; Some (Rc_ok (ucast v, c)) }
              else if fmt = 0x03 then do { (v, c) \<leftarrow> dwarf_u32 c; Some (Rc_ok (ucast v, c)) }
              else if fmt = 0x09 then do { (v, c) \<leftarrow> dwarf_sleb c; Some (Rc_ok (v, c)) }
              else if fmt = 0x0a then do { (v, c) \<leftarrow> dwarf_u16 c; Some (Rc_ok (scast v, c)) }
              else if fmt = 0x0b then do { (v, c) \<leftarrow> dwarf_u32 c; Some (Rc_ok (scast v, c)) }
              else Some Rc_err);
        Some (case r of Rc_err \<Rightarrow> Rc_err
              | Rc_ok (val, c) \<Rightarrow>
                  if cerr c then Rc_err
                  else if \<not> apply_pcrel then Rc_ok (val, c)
                  else if app = 0x00 then Rc_ok (val, c)
                  else if app = 0x10 then Rc_ok (val + field_vaddr, c)
                  else Rc_err)
      })"

text \<open>Is the entry an FDE? \<open>.eh_frame\<close> marks CIEs with id 0, \<open>.debug_frame\<close> with \<open>~0\<close>.\<close>

definition is_fde :: "dialect \<Rightarrow> u32 \<Rightarrow> bool" where
  "is_fde d eid = (case d of Eh_frame \<Rightarrow> eid \<noteq> 0 | Debug_frame \<Rightarrow> eid \<noteq> 0xffffffff)"

text \<open>First pass: count the FDEs. Only \<open>.debug_frame\<close> rejects an entry shorter than its id.\<close>

fun cfi_count :: "dialect \<Rightarrow> nat \<Rightarrow> dwarf_cur \<Rightarrow> nat \<Rightarrow> nat \<Rightarrow> nat rc option" where
  "cfi_count d 0 c len nfde = None"
| "cfi_count d (Suc fuel) c len nfde =
     (if \<not> (\<not> cerr c \<and> cpos c < len) then Some (if cerr c then Rc_err else Rc_ok nfde)
      else do {
        (ln, c) \<leftarrow> dwarf_u32 c;
        (if cerr c \<or> ln = 0xffffffff then Some Rc_err
         else if ln = 0 then Some (Rc_ok nfde)
         else do {
           let entry_end = szadd (cpos c) (unat ln);
           (if entry_end > len then Some Rc_err
            else do {
              (eid, c) \<leftarrow> dwarf_u32 c;
              (if cerr c \<or> (d = Debug_frame \<and> entry_end < cpos c) then Some Rc_err
               else cfi_count d fuel (c\<lparr>cpos := entry_end\<rparr>) len
                      (if is_fde d eid then nfde + 1 else nfde))
            })
         })
      })"

text \<open>The body of one FDE, after its id field; \<open>id_off\<close> is the offset of that field.\<close>

definition eh_fde :: "bytes \<Rightarrow> nat \<Rightarrow> u64 \<Rightarrow> dwarf_cur \<Rightarrow> nat \<Rightarrow> u32 \<Rightarrow> u32 \<Rightarrow> cfi_fde rc option" where
  "eh_fde data len vaddr c entry_end id_off eid =
     (if id_off < eid then Some Rc_err
      else do {
        let coff = id_off - eid;
        r \<leftarrow> parse_cie data len coff;
        (case r of Rc_err \<Rightarrow> Some Rc_err
         | Rc_ok cie \<Rightarrow> do {
             r \<leftarrow> decode_eh_pe c (fde_enc cie) (vaddr + of_nat (cpos c)) True;
             (case r of Rc_err \<Rightarrow> Some Rc_err
              | Rc_ok (lo, c) \<Rightarrow> do {
                  r \<leftarrow> decode_eh_pe c (fde_enc cie) 0 False;
                  (case r of Rc_err \<Rightarrow> Some Rc_err
                   | Rc_ok (rng, c) \<Rightarrow>
                       if cerr c \<or> cpos c > entry_end then Some Rc_err
                       else do {
                         r \<leftarrow> (if \<not> has_z cie then Some (Rc_ok c)
                               else do {
                                 (aug_len, c) \<leftarrow> dwarf_uleb c;
                                 (if cerr c \<or> szadd (cpos c) (unat aug_len) > entry_end
                                  then Some Rc_err
                                  else Some (Rc_ok (c\<lparr>cpos := szadd (cpos c) (unat aug_len)\<rparr>)))
                               });
                         Some (case r of Rc_err \<Rightarrow> Rc_err
                               | Rc_ok c \<Rightarrow> Rc_ok \<lparr>pc_lo = lo, pc_hi = lo + rng, cie_off = coff,
                                   insn_off = of_nat (cpos c), insn_len = of_nat (entry_end - cpos c)\<rparr>)
                       })
                })
           })
      })"

definition debug_fde :: "bytes \<Rightarrow> nat \<Rightarrow> dwarf_cur \<Rightarrow> nat \<Rightarrow> u32 \<Rightarrow> cfi_fde rc option" where
  "debug_fde data len c entry_end eid = do {
     r \<leftarrow> parse_cie data len eid;
     (case r of Rc_err \<Rightarrow> Some Rc_err
      | Rc_ok cie \<Rightarrow> do {
          r \<leftarrow> (if addr_size cie = 8 then do {
                  (lo, c) \<leftarrow> dwarf_u64 c; (rng, c) \<leftarrow> dwarf_u64 c;
                  Some (Rc_ok (lo, rng, c))
                }
                else if addr_size cie = 4 then do {
                  (lo, c) \<leftarrow> dwarf_u32 c; (rng, c) \<leftarrow> dwarf_u32 c;
                  Some (Rc_ok (ucast lo, ucast rng, c))
                }
                else Some Rc_err);
          Some (case r of Rc_err \<Rightarrow> Rc_err
                | Rc_ok (lo, rng, c) \<Rightarrow>
                    if cerr c \<or> cpos c > entry_end then Rc_err
                    else Rc_ok \<lparr>pc_lo = lo, pc_hi = lo + rng, cie_off = eid,
                      insn_off = of_nat (cpos c), insn_len = of_nat (entry_end - cpos c)\<rparr>)
        })
   }"

text \<open>Second pass: fill the table, \<open>nfde\<close> entries at most.\<close>

fun cfi_fill :: "dialect \<Rightarrow> u64 \<Rightarrow> nat \<Rightarrow> dwarf_cur \<Rightarrow> nat \<Rightarrow> nat \<Rightarrow> cfi_fde list \<Rightarrow> cfi_fde list rc option" where
  "cfi_fill d vaddr 0 c len nfde tab = None"
| "cfi_fill d vaddr (Suc fuel) c len nfde tab =
     (if \<not> (\<not> cerr c \<and> cpos c < len) then Some (if cerr c then Rc_err else Rc_ok tab)
      else do {
        (ln, c) \<leftarrow> dwarf_u32 c;
        (if cerr c then Some Rc_err
         else if ln = 0xffffffff \<or> ln = 0 then Some (Rc_ok tab)
         else do {
           let entry_end = szadd (cpos c) (unat ln);
           (if entry_end > len then Some Rc_err
            else do {
              let id_off = of_nat (cpos c);
              (eid, c) \<leftarrow> dwarf_u32 c;
              (if cerr c then Some Rc_err
               else if \<not> is_fde d eid then cfi_fill d vaddr fuel (c\<lparr>cpos := entry_end\<rparr>) len nfde tab
               else if length tab \<ge> nfde then Some Rc_err
               else do {
                 r \<leftarrow> (case d of
                     Eh_frame \<Rightarrow> eh_fde (cbuf c) len vaddr c entry_end id_off eid
                   | Debug_frame \<Rightarrow> debug_fde (cbuf c) len c entry_end eid);
                 (case r of Rc_err \<Rightarrow> Some Rc_err
                  | Rc_ok f \<Rightarrow> cfi_fill d vaddr fuel (c\<lparr>cpos := entry_end\<rparr>) len nfde (tab @ [f]))
               })
            })
         })
      })"

text \<open>Both parsers: returned code (\<open>True\<close> for 0) and the section they leave behind.\<close>

definition cfi_parse :: "(cfi_fde list \<Rightarrow> cfi_fde list) \<Rightarrow> (nat \<Rightarrow> bool) \<Rightarrow> dialect \<Rightarrow> bytes \<Rightarrow> u64 \<Rightarrow> (bool \<times> cfi_section) option" where
  "cfi_parse qs mok d data vaddr = do {
     let len = length data;
     let s = \<lparr>sdata = data, slen = len, fdes = [], section_vaddr = vaddr, owned = False\<rparr>;
     n \<leftarrow> cfi_count d (Suc len) (dwarf_cur_init data len) len 0;
     (case n of Rc_err \<Rightarrow> Some (False, s)
      | Rc_ok nfde \<Rightarrow>
          if nfde = 0 then Some (True, s)
          else if \<not> mok (nfde * 32) then Some (False, s)
          else do {
            r \<leftarrow> cfi_fill d vaddr (Suc len) (dwarf_cur_init data len) len nfde [];
            Some (case r of Rc_err \<Rightarrow> (False, s) | Rc_ok tab \<Rightarrow> (True, s\<lparr>fdes := qs tab\<rparr>))
          })
   }"

definition cfi_parse_eh_frame :: "(cfi_fde list \<Rightarrow> cfi_fde list) \<Rightarrow> (nat \<Rightarrow> bool) \<Rightarrow> bytes \<Rightarrow> u64 \<Rightarrow> (bool \<times> cfi_section) option" where
  "cfi_parse_eh_frame qs mok data vaddr = cfi_parse qs mok Eh_frame data vaddr"

definition cfi_parse_debug_frame :: "(cfi_fde list \<Rightarrow> cfi_fde list) \<Rightarrow> (nat \<Rightarrow> bool) \<Rightarrow> bytes \<Rightarrow> (bool \<times> cfi_section) option" where
  "cfi_parse_debug_frame qs mok data = cfi_parse qs mok Debug_frame data 0"

text \<open>Binary search for the greatest \<open>pc_lo \<le> pc\<close>, then the range check.\<close>

function cfi_bsearch :: "cfi_fde list \<Rightarrow> u64 \<Rightarrow> nat \<Rightarrow> nat \<Rightarrow> nat" where
  "cfi_bsearch fs pc lo hi =
     (if lo + 1 < hi then
        let mid = lo + (hi - lo) div 2 in
        if pc_lo (fs ! mid) \<le> pc then cfi_bsearch fs pc mid hi else cfi_bsearch fs pc lo mid
      else lo)"
  by pat_completeness auto
termination
  by (relation "measure (\<lambda>(fs, pc, lo, hi). hi - lo)") auto

definition cfi_lookup :: "cfi_section \<Rightarrow> u64 \<Rightarrow> cfi_fde option" where
  "cfi_lookup s pc =
     (if fdes s = [] then None
      else let f = fdes s ! cfi_bsearch (fdes s) pc 0 (length (fdes s)) in
           if pc_lo f \<le> pc \<and> pc < pc_hi f then Some f else None)"

definition cfi_section_free :: "cfi_section \<Rightarrow> cfi_section" where
  "cfi_section_free s = s\<lparr>fdes := [], owned := False\<rparr>"

definition cfi_load_elf :: "(cfi_fde list \<Rightarrow> cfi_fde list) \<Rightarrow> (nat \<Rightarrow> bool) \<Rightarrow> bytes \<Rightarrow> cfi_section rc option" where
  "cfi_load_elf qs mok elf = do {
     eh \<leftarrow> cfi_extract_eh_frame elf;
     pick \<leftarrow> (case eh of
         Rc_ok (off, n, vaddr) \<Rightarrow> Some (Rc_ok (off, n, vaddr, Eh_frame))
       | Rc_err \<Rightarrow> do {
           df \<leftarrow> cfi_extract_debug_frame elf;
           Some (case df of Rc_ok (off, n) \<Rightarrow> Rc_ok (off, n, 0, Debug_frame) | Rc_err \<Rightarrow> Rc_err)
         });
     (case pick of Rc_err \<Rightarrow> Some Rc_err
      | Rc_ok (off, n, vaddr, d) \<Rightarrow>
          if \<not> mok n then Some Rc_err
          else do {
            buf \<leftarrow> load_bytes elf off n;
            r \<leftarrow> (case d of Eh_frame \<Rightarrow> cfi_parse_eh_frame qs mok buf vaddr
                  | Debug_frame \<Rightarrow> cfi_parse_debug_frame qs mok buf);
            Some (case r of (False, _) \<Rightarrow> Rc_err | (True, s) \<Rightarrow> Rc_ok (s\<lparr>owned := True\<rparr>))
          })
   }"

declare cie_aug_string.simps [simp del] cie_skip_leb.simps [simp del] cie_aug_data.simps [simp del]
  cfi_count.simps [simp del] cfi_fill.simps [simp del] sh_walk.simps [simp del]
  cfi_bsearch.simps [simp del] dwarf_uleb_loop.simps [simp del] dwarf_sleb_loop.simps [simp del]

section \<open>No access outside the section, and every walk ends\<close>

definition cur_same :: "dwarf_cur \<Rightarrow> dwarf_cur \<Rightarrow> bool" where
  "cur_same c c' \<longleftrightarrow> cbuf c' = cbuf c \<and> clen c' = clen c \<and> cpos c' < 2 ^ 63"

lemma cur_adv_same: "cur_adv k c c' \<Longrightarrow> cur_same c c'"
  by (simp add: cur_adv_def cur_same_def)

lemma cur_same_ok: "cur_ok c \<Longrightarrow> cur_same c c' \<Longrightarrow> cur_ok c'"
  by (simp add: cur_ok_def cur_same_def)

lemma cur_same_trans: "cur_same c c' \<Longrightarrow> cur_same c' c'' \<Longrightarrow> cur_same c c''"
  by (simp add: cur_same_def)

lemma cur_same_setpos: "cur_same c c' \<Longrightarrow> p < 2 ^ 63 \<Longrightarrow> cur_same c (c'\<lparr>cpos := p\<rparr>)"
  by (simp add: cur_same_def)

lemma cur_same_refl: "cur_ok c \<Longrightarrow> cur_same c c"
  by (simp add: cur_ok_def cur_same_def)

lemmas cur_steps = cur_adv_same cur_adv_ok cur_same_ok cur_same_trans cur_same_refl

text \<open>A read that leaves the flag clear has advanced inside the buffer.\<close>

lemma cur_adv_clear: "cur_adv k c c' \<Longrightarrow> \<not> cerr c' \<Longrightarrow> cpos c + k \<le> cpos c' \<and> cpos c' \<le> clen c \<and> clen c' = clen c \<and> \<not> cerr c"
  by (simp add: cur_adv_def)

lemma safe_aug_string:
  assumes "cur_ok c" "0 < fuel" "clen c < fuel + cpos c" "Q Rc_err"
    and "\<And>aug' c'. cur_same c c' \<Longrightarrow> cur_ok c' \<Longrightarrow> Q (Rc_ok (aug', c'))"
  shows "safe (cie_aug_string fuel c entry_end aug) Q"
  using assms
proof (induction fuel arbitrary: c aug)
  case 0
  then show ?case by simp
next
  case (Suc fuel)
  have rec: "safe (cie_aug_string fuel c' entry_end aug') Q" if a: "cur_adv 1 c c'" "\<not> cerr c'" for c' aug'
    using Suc.prems cur_adv_clear [OF a]
    by (intro Suc.IH) (auto intro: cur_adv_ok [OF _ a(1)] Suc.prems(5)
      cur_same_trans [OF cur_adv_same [OF a(1)]])
  show ?case
    using Suc.prems rec
    by (auto simp: safe_simps cie_aug_string.simps intro!: safe_u8 Suc.prems(5) cur_same_refl dest: cur_adv_same)
qed

lemma safe_skip_leb:
  assumes "cur_ok c" "0 < fuel" "clen c < fuel + cpos c" "Q Rc_err"
    and "\<And>c'. cur_same c c' \<Longrightarrow> cur_ok c' \<Longrightarrow> Q (Rc_ok c')"
  shows "safe (cie_skip_leb fuel c aug_end) Q"
  using assms
proof (induction fuel arbitrary: c)
  case 0
  then show ?case by simp
next
  case (Suc fuel)
  have rec: "safe (cie_skip_leb fuel c' aug_end) Q" if a: "cur_adv 1 c c'" "\<not> cerr c'" for c'
    using Suc.prems cur_adv_clear [OF a]
    by (intro Suc.IH) (auto intro: cur_adv_ok [OF _ a(1)] Suc.prems(5)
      cur_same_trans [OF cur_adv_same [OF a(1)]])
  show ?case
    using Suc.prems rec
    by (auto simp: safe_simps cie_skip_leb.simps intro!: safe_u8 Suc.prems(5) cur_same_refl dest: cur_adv_same)
qed

lemma cur_same_skip: "cur_ok c \<Longrightarrow> n < 2 ^ 63 \<Longrightarrow> cur_same c (dwarf_skip c n)"
  by (rule cur_adv_same [OF dwarf_skip_adv])

lemma safe_skip_personality:
  assumes "cur_ok c" "Q Rc_err" "\<And>c'. cur_same c c' \<Longrightarrow> cur_ok c' \<Longrightarrow> Q (Rc_ok c')"
  shows "safe (cie_skip_personality c aug_end) Q"
proof -
  have *: "Q (Rc_ok c'')" if "cur_adv 1 c c'" "cur_same c' c''" for c' c''
    using that assms(1) by (blast intro: assms(3) cur_steps)
  show ?thesis
    unfolding cie_skip_personality_def safe_simps
    using assms(1,2)
    by (intro safe_u8) (auto simp: safe_simps Let_def cur_same_skip cur_adv_ok cur_same_refl
        intro!: safe_skip_leb * assms(2))
qed

lemma safe_aug_data:
  assumes "cur_ok c" "aug_end < 2 ^ 63" "Q Rc_err"
    and "\<And>enc' c'. cur_same c c' \<Longrightarrow> cur_ok c' \<Longrightarrow> Q (Rc_ok (enc', c'))"
  shows "safe (cie_aug_data ls c aug_end enc) Q"
  using assms
proof (induction ls arbitrary: c enc)
  case Nil
  then show ?case by (simp add: cur_same_refl cie_aug_data.simps)
next
  case (Cons l ls)
  have rec: "safe (cie_aug_data ls c' aug_end enc') Q" if "cur_same c c'" for c' enc'
    using Cons.prems that by (intro Cons.IH) (auto intro: cur_steps)
  show ?case
    using Cons.prems rec
    by (auto simp: safe_simps cie_aug_data.simps cur_same_refl cur_same_setpos dest: cur_adv_same
        intro!: safe_u8 safe_skip_personality)
qed

text \<open>What a parsed CIE promises: its instructions lie inside the section (for sections that the
  32-bit offsets can address).\<close>

definition insns_in :: "nat \<Rightarrow> u32 \<Rightarrow> u32 \<Rightarrow> bool" where
  "insns_in len off n \<longleftrightarrow> (len < 2 ^ 32 \<longrightarrow> unat off + unat n \<le> len)"

lemma insns_in_entry:
  assumes "p \<le> e" "e \<le> len"
  shows "insns_in len (of_nat p) (of_nat (e - p))" "insns_in len (of_nat p) (of_nat e - of_nat p)"
proof -
  show "insns_in len (of_nat p) (of_nat (e - p))"
    using assms by (simp add: insns_in_def unat_of_nat take_bit_nat_eq_self del: of_nat_diff)
  then show "insns_in len (of_nat p) (of_nat e - of_nat p)"
    using assms by simp
qed

lemma safe_aug_block:
  assumes "cur_ok c" "entry_end < 2 ^ 63" "Q Rc_err" "\<And>enc c'. cur_same c c' \<Longrightarrow> cur_ok c' \<Longrightarrow> Q (Rc_ok (enc, c'))"
  shows "safe (cie_aug_block c entry_end aug) Q"
proof -
  have *: "Q (Rc_ok (enc, c''))" if "cur_adv 1 c c'" "cur_same c' c''" for enc c' c''
    using that assms(1) by (blast intro: assms(4) cur_steps)
  show ?thesis
    unfolding cie_aug_block_def safe_simps
    using assms(1,2,3)
    by (intro safe_uleb) (auto simp: safe_simps Let_def intro!: safe_aug_data * cur_same_setpos)
qed

lemma safe_cie_tail:
  assumes "cur_ok c" "entry_end \<le> len" "len < 2 ^ 63" "Q Rc_err"
    and fin: "\<And>cie. insns_in len (cie_insn_off cie) (cie_insn_len cie) \<Longrightarrow> Q (Rc_ok cie)"
  shows "safe (cie_tail c entry_end is_eh version aug asz) Q"
  unfolding cie_tail_def safe_simps
  using assms(1-4)
  by (intro safe_uleb)
     (auto simp: safe_simps Let_def cur_adv_ok insns_in_entry
        intro!: safe_uleb safe_sleb safe_u8 safe_aug_block fin)

lemma safe_parse_cie:
  assumes "obj_bytes data" "Q Rc_err"
    and fin: "\<And>cie. insns_in (length data) (cie_insn_off cie) (cie_insn_len cie) \<Longrightarrow> Q (Rc_ok cie)"
  shows "safe (parse_cie data (length data) off) Q"
proof -
  let ?c = "(dwarf_cur_init data (length data))\<lparr>cpos := unat off\<rparr>"
  have "unat off < 2 ^ 32"
    using unsigned_less [of off] by simp
  then have "cur_ok ?c"
    using assms(1) by (simp add: cur_ok_def)
  then show ?thesis
    unfolding parse_cie_def safe_simps
    using assms(1,2)
    by (auto simp: safe_simps Let_def obj_bytes_def cur_adv_def not_less
        intro!: safe_u32 safe_u8 safe_aug_string safe_cie_tail fin)
qed

section \<open>The section index\<close>

lemma safe_decode_eh_pe:
  assumes "cur_ok c" "Q Rc_err" "\<And>v c'. cur_same c c' \<Longrightarrow> cur_ok c' \<Longrightarrow> Q (Rc_ok (v, c'))"
  shows "safe (decode_eh_pe c enc fv pcrel) Q"
  using assms
  by (auto simp: decode_eh_pe_def safe_simps Let_def cur_same_refl cur_adv_same
      intro!: safe_u64 safe_uleb safe_u16 safe_u32 safe_sleb)

text \<open>What an indexed FDE promises: its instructions lie inside the section and its CIE parses.\<close>

definition fde_wf :: "bytes \<Rightarrow> cfi_fde \<Rightarrow> bool" where
  "fde_wf data f \<longleftrightarrow> insns_in (length data) (insn_off f) (insn_len f) \<and>
     (\<exists>cie. parse_cie data (length data) (cie_off f) = Some (Rc_ok cie))"

lemma safe_parse_cie_eq:
  assumes "obj_bytes data" "Q Rc_err"
    and "\<And>cie. parse_cie data (length data) off = Some (Rc_ok cie) \<Longrightarrow> Q (Rc_ok cie)"
  shows "safe (parse_cie data (length data) off) Q"
proof (rule safe_mono_eq [OF safe_parse_cie [where Q = "\<lambda>_. True"]])
  show "Q r" if "parse_cie data (length data) off = Some r" for r
    using assms(2,3) that by (cases r) simp_all
qed (simp_all add: assms(1))

lemma safe_eh_fde:
  assumes "cur_ok c" "cbuf c = data" "entry_end \<le> length data" "Q Rc_err"
    and fin: "\<And>f. fde_wf data f \<Longrightarrow> Q (Rc_ok f)"
  shows "safe (eh_fde data (length data) vaddr c entry_end id_off eid) Q"
  using assms(1-4)
  by (auto simp: eh_fde_def safe_simps Let_def cur_ok_def not_less fde_wf_def insns_in_entry
      intro!: safe_parse_cie_eq safe_decode_eh_pe safe_uleb fin)

lemma safe_debug_fde:
  assumes "cur_ok c" "cbuf c = data" "entry_end \<le> length data" "Q Rc_err"
    and fin: "\<And>f. fde_wf data f \<Longrightarrow> Q (Rc_ok f)"
  shows "safe (debug_fde data (length data) c entry_end eid) Q"
  using assms(1-4)
  by (auto simp: debug_fde_def safe_simps Let_def cur_ok_def not_less fde_wf_def insns_in_entry
      intro!: safe_parse_cie_eq safe_u32 safe_u64 fin)

text \<open>Each entry of the section walk moves the cursor at least four bytes on.\<close>

lemma entry_end_adv:
  assumes "cur_ok c" "cur_adv 4 c c'" "\<not> cerr c'"
  shows "szadd (cpos c') (unat (ln::u32)) = cpos c' + unat ln" "cpos c < cpos c' + unat ln"
proof -
  have "unat ln < 2 ^ 32"
    using unsigned_less [of ln] by simp
  then show "szadd (cpos c') (unat ln) = cpos c' + unat ln"
    using assms(2) by (simp add: cur_adv_def szadd_obj)
  show "cpos c < cpos c' + unat ln"
    using cur_adv_clear [OF assms(2,3)] by simp
qed

lemma safe_cfi_count:
  assumes "cur_ok c" "clen c = len" "0 < fuel" "len < fuel + cpos c" "\<And>r. Q r"
  shows "safe (cfi_count d fuel c len nfde) Q"
  using assms(1-4)
proof (induction fuel arbitrary: c nfde)
  case 0
  then show ?case by simp
next
  case (Suc fuel)
  have rec: "safe (cfi_count d fuel (c''\<lparr>cpos := cpos c' + unat ln\<rparr>) len n) Q"
    if "cur_adv 4 c c'" "\<not> cerr c'" "cur_adv 4 c' c''" "cpos c' + unat ln \<le> len"
      "cpos c < len" for c' c'' n and ln :: u32
    using that Suc.prems entry_end_adv(2) [OF Suc.prems(1) that(1,2), of ln]
    by (intro Suc.IH) (auto simp: cur_adv_def cur_ok_def obj_bytes_def)
  show ?case
    unfolding cfi_count.simps safe_simps
    using Suc.prems(1,3,4)
    by (auto simp: safe_simps Suc.prems(2) assms(5) Let_def entry_end_adv not_less
        intro!: safe_u32 rec)
qed

lemma safe_cfi_fill:
  assumes "cur_ok c" "cbuf c = data" "clen c = len" "0 < fuel" "len < fuel + cpos c"
    "list_all (fde_wf data) tab" "Q Rc_err"
    and fin: "\<And>tab'. list_all (fde_wf data) tab' \<Longrightarrow> Q (Rc_ok tab')"
  shows "safe (cfi_fill d vaddr fuel c len nfde tab) Q"
  using assms(1-7)
proof (induction fuel arbitrary: c tab)
  case 0
  then show ?case by simp
next
  case (Suc fuel)
  have len: "len = length data"
    using Suc.prems(1-3) by (simp add: cur_ok_def)
  have rec: "safe (cfi_fill d vaddr fuel (c''\<lparr>cpos := cpos c' + unat ln\<rparr>) len nfde tab') Q"
    if "cur_adv 4 c c'" "\<not> cerr c'" "cur_adv 4 c' c''" "cpos c' + unat ln \<le> len"
      "cpos c < len" "list_all (fde_wf data) tab'" for c' c'' tab' and ln :: u32
    using that Suc.prems entry_end_adv(2) [OF Suc.prems(1) that(1,2), of ln]
    by (intro Suc.IH) (auto simp: cur_adv_def cur_ok_def obj_bytes_def)
  have fde: "safe (case d of Eh_frame \<Rightarrow> eh_fde (cbuf c'') len vaddr c'' e (of_nat p) eid
        | Debug_frame \<Rightarrow> debug_fde (cbuf c'') len c'' e eid) R"
    if "cur_adv 4 c c'" "cur_adv 4 c' c''" "cur_ok c''" "e \<le> len" "R Rc_err"
      "\<And>f. fde_wf data f \<Longrightarrow> R (Rc_ok f)" for c' c'' e p eid R
    using that Suc.prems(2)
    by (auto simp: len cur_adv_def split: dialect.splits intro!: safe_eh_fde safe_debug_fde)
  show ?case
    unfolding cfi_fill.simps safe_simps
    using Suc.prems(1,4-7)
    by (auto simp: safe_simps Suc.prems(2,3) Let_def entry_end_adv not_less fin intro!: safe_u32 rec fde)
qed

text \<open>The contract of \<open>qsort\<close> on the FDE table can be met.\<close>

interpretation qsort_fde: qsort_impl pc_lo "sort_key pc_lo"
  by unfold_locales simp_all

text \<open>A section index is well formed when it is sorted and every FDE in it is.\<close>

definition section_wf :: "cfi_section \<Rightarrow> bool" where
  "section_wf s \<longleftrightarrow> slen s = length (sdata s) \<and> obj_bytes (sdata s) \<and>
     sorted (map pc_lo (fdes s)) \<and> list_all (fde_wf (sdata s)) (fdes s)"

lemma safe_cfi_parse:
  assumes "qsort_impl pc_lo qs" "obj_bytes data"
    and fin: "\<And>ok s. section_wf s \<Longrightarrow> sdata s = data \<Longrightarrow> \<not> owned s \<Longrightarrow> \<not> ok \<longrightarrow> fdes s = [] \<Longrightarrow> Q (ok, s)"
  shows "safe (cfi_parse qs mok d data vaddr) Q"
proof -
  have c: "cur_ok (dwarf_cur_init data (length data))"
    by (rule cur_ok_init [OF assms(2)])
  show ?thesis
    unfolding cfi_parse_def safe_simps
    by (rule safe_cfi_count [OF c], simp_all add: safe_simps split: rc.splits)
       (auto simp: section_wf_def assms(2) qsort_impl.qs_sorted [OF assms(1)]
         qsort_impl.qs_list_all [OF assms(1)] intro!: safe_cfi_fill [OF c] fin)
qed

section \<open>Lookup\<close>

lemma cfi_bsearch_inv:
  assumes "lo < hi" "hi \<le> length fs" "sorted (map pc_lo fs)"
    and "lo = 0 \<or> pc_lo (fs ! lo) \<le> pc" "hi = length fs \<or> pc < pc_lo (fs ! hi)"
  shows "cfi_bsearch fs pc lo hi < length fs \<and>
    (cfi_bsearch fs pc lo hi = 0 \<or> pc_lo (fs ! cfi_bsearch fs pc lo hi) \<le> pc) \<and>
    (\<forall>j. cfi_bsearch fs pc lo hi < j \<and> j < length fs \<longrightarrow> pc < pc_lo (fs ! j))"
  using assms
proof (induction fs pc lo hi rule: cfi_bsearch.induct)
  case (1 fs pc lo hi)
  let ?mid = "lo + (hi - lo) div 2"
  show ?case
  proof (cases "lo + 1 < hi")
    case True
    then have mid: "lo < ?mid" "?mid < hi" by auto
    show ?thesis
    proof (cases "pc_lo (fs ! ?mid) \<le> pc")
      case le: True
      have "cfi_bsearch fs pc lo hi = cfi_bsearch fs pc ?mid hi"
        using True le by (subst cfi_bsearch.simps) (simp add: Let_def)
      with "1.IH"(1) [OF True refl le] mid "1.prems" le show ?thesis by auto
    next
      case gt: False
      have "cfi_bsearch fs pc lo hi = cfi_bsearch fs pc lo ?mid"
        using True gt by (subst cfi_bsearch.simps) (simp add: Let_def)
      with "1.IH"(2) [OF True refl gt] mid "1.prems" gt show ?thesis by (auto simp: not_le)
    qed
  next
    case False
    with "1.prems"(1) have hi: "hi = Suc lo" by simp
    have "cfi_bsearch fs pc lo hi = lo"
      using False by (subst cfi_bsearch.simps) simp
    moreover have "pc < pc_lo (fs ! j)" if "lo < j" "j < length fs" for j
    proof -
      have "pc < pc_lo (fs ! hi)"
        using "1.prems"(5) that hi by auto
      also have "pc_lo (fs ! hi) \<le> pc_lo (fs ! j)"
        using "1.prems"(3) that hi sorted_nth_mono [of "map pc_lo fs" hi j] by simp
      finally show ?thesis .
    qed
    ultimately show ?thesis using "1.prems"(1,2,4) by auto
  qed
qed

text \<open>The FDE ranges do not overlap (what a compiler emits; the parser does not enforce it).\<close>

definition fdes_disjoint :: "cfi_fde list \<Rightarrow> bool" where
  "fdes_disjoint fs \<longleftrightarrow> sorted_wrt (\<lambda>f g. pc_hi f \<le> pc_lo g) fs"

definition fde_covers :: "u64 \<Rightarrow> cfi_fde \<Rightarrow> bool" where
  "fde_covers pc f \<longleftrightarrow> pc_lo f \<le> pc \<and> pc < pc_hi f"

lemma cfi_lookup_sound:
  assumes "sorted (map pc_lo (fdes s))" "cfi_lookup s pc = Some f"
  shows "f \<in> set (fdes s) \<and> fde_covers pc f"
proof -
  have "fdes s \<noteq> []"
    using assms(2) by (auto simp: cfi_lookup_def split: if_splits)
  then have "cfi_bsearch (fdes s) pc 0 (length (fdes s)) < length (fdes s)"
    using cfi_bsearch_inv [of 0 "length (fdes s)" "fdes s" pc] assms(1) by simp
  then show ?thesis
    using assms(2) by (auto simp: cfi_lookup_def fde_covers_def Let_def split: if_splits)
qed

lemma cfi_lookup_complete:
  assumes "sorted (map pc_lo (fdes s))" "fdes_disjoint (fdes s)" "g \<in> set (fdes s)" "fde_covers pc g"
  shows "cfi_lookup s pc = Some g"
proof -
  let ?fs = "fdes s" and ?r = "cfi_bsearch (fdes s) pc 0 (length (fdes s))"
  have ne: "?fs \<noteq> []" using assms(3) by auto
  then have r: "?r < length ?fs" "?r = 0 \<or> pc_lo (?fs ! ?r) \<le> pc" "\<forall>j. ?r < j \<and> j < length ?fs \<longrightarrow> pc < pc_lo (?fs ! j)"
    using cfi_bsearch_inv [of 0 "length ?fs" ?fs pc] assms(1) by simp_all
  obtain i where i: "i < length ?fs" "?fs ! i = g"
    using assms(3) by (auto simp: in_set_conv_nth)
  have "i \<le> ?r"
    using r(3) i assms(4) by (metis fde_covers_def not_le order_less_le_trans less_irrefl)
  moreover have "\<not> i < ?r"
  proof
    assume lt: "i < ?r"
    then have "pc_hi g \<le> pc_lo (?fs ! ?r)"
      using assms(2) i r(1) by (auto simp: fdes_disjoint_def sorted_wrt_iff_nth_less)
    also have "\<dots> \<le> pc" using lt r(2) by auto
    finally show False using assms(4) by (auto simp: fde_covers_def)
  qed
  ultimately show ?thesis
    using i assms(4) ne by (auto simp: cfi_lookup_def fde_covers_def Let_def)
qed

lemma find_Some_unique:
  assumes "\<And>y. y \<in> set xs \<Longrightarrow> P y \<Longrightarrow> y = x" "x \<in> set xs" "P x"
  shows "find P xs = Some x"
proof -
  obtain y where y: "find P xs = Some y"
    using assms(2,3) by (metis find_None_iff not_None_eq)
  then have "y \<in> set xs" "P y"
    by (auto simp: find_Some_iff)
  then show ?thesis using assms(1) y by simp
qed

lemma cfi_lookup_find:
  assumes "sorted (map pc_lo (fdes s))" "fdes_disjoint (fdes s)"
  shows "cfi_lookup s pc = find (fde_covers pc) (fdes s)"
proof (cases "cfi_lookup s pc")
  case None
  then show ?thesis
    using cfi_lookup_complete [OF assms] by (metis find_None_iff option.distinct(1))
next
  case (Some f)
  have "find (fde_covers pc) (fdes s) = Some f"
    using cfi_lookup_sound [OF assms(1) Some] cfi_lookup_complete [OF assms] Some
    by (intro find_Some_unique) auto
  with Some show ?thesis by simp
qed

section \<open>Extraction from the ELF image\<close>

text \<open>The section-name table's header, as the extractors locate it, and whether its end is
  representable.\<close>

definition shstr_hdr :: "bytes \<Rightarrow> nat" where
  "shstr_hdr elf =
     szadd (unat (le_word (take 8 (drop 40 elf)) :: u64))
       (unat (le_word (take 2 (drop 62 elf)) :: u16) * unat (le_word (take 2 (drop 58 elf)) :: u16))"

definition strtab_nowrap :: "bytes \<Rightarrow> bool" where
  "strtab_nowrap elf \<longleftrightarrow>
     unat (le_word (take 8 (drop (shstr_hdr elf + 24) elf)) :: u64) +
     unat (le_word (take 8 (drop (shstr_hdr elf + 32) elf)) :: u64) < 2 ^ 64"

lemma safe_sh_walk:
  assumes "obj_bytes elf" "shstr_off + shstr_size \<le> length elf"
    and "\<forall>i \<in> set is. shoff + i * shentsz < 2 ^ 63" "Q Rc_err"
    and fin: "\<And>off n a. off \<le> length elf \<Longrightarrow> szadd off n \<le> length elf \<Longrightarrow> Q (Rc_ok (off, n, a))"
  shows "safe (sh_walk elf target shoff shentsz shstr_off shstr_size is) Q"
  using assms(3)
proof (induction "is")
  case Nil
  then show ?case by (simp add: sh_walk.simps assms)
next
  case (Cons i "is")
  have sz: "szadd shoff (i * shentsz) = shoff + i * shentsz" "shoff + i * shentsz + 64 < 2 ^ 64"
    using Cons.prems by simp_all
  have IH: "safe (sh_walk elf target shoff shentsz shstr_off shstr_size is) Q"
    using Cons by simp
  show ?case
    unfolding sh_walk.simps sz Let_def safe_simps
    using IH assms(2,4) sz(2)
    by (auto simp: safe_simps Let_def fin)
qed

lemma shdr_table_bound:
  fixes shentsz shnum len shoff i :: nat
  assumes "shentsz \<noteq> 0 \<longrightarrow> shnum \<le> (len - shoff) div shentsz" "shoff \<le> len" "len < 2 ^ 63" "i < shnum"
  shows "shoff + i * shentsz < 2 ^ 63"
proof (cases "shentsz = 0")
  case False
  then have "shnum * shentsz \<le> len - shoff"
    using assms(1) less_eq_div_iff_mult_less_eq [of shentsz shnum "len - shoff"] by simp
  moreover have "i * shentsz \<le> shnum * shentsz"
    using assms(4) by simp
  ultimately show ?thesis
    using assms(2,3) by linarith
qed (use assms in simp)

lemma safe_find_section:
  assumes "obj_bytes elf" "strtab_nowrap elf" "Q Rc_err"
    and fin: "\<And>off n a. off \<le> length elf \<Longrightarrow> szadd off n \<le> length elf \<Longrightarrow> Q (Rc_ok (off, n, a))"
  shows "safe (elf_find_section elf target) Q"
proof -
  have b: "length elf < 2 ^ 63" using assms(1) by (simp add: obj_bytes_def)
  show ?thesis
  proof (cases "length elf < 64")
    case True
    then show ?thesis by (simp add: elf_find_section_def assms(3))
  next
    case False
    let ?shoff = "unat (le_word (take 8 (drop 40 elf)) :: u64)"
    let ?sz = "unat (le_word (take 2 (drop 58 elf)) :: u16)"
    let ?num = "unat (le_word (take 2 (drop 60 elf)) :: u16)"
    let ?ndx = "unat (le_word (take 2 (drop 62 elf)) :: u16)"
    have walk: "safe (sh_walk elf target ?shoff ?sz so ss [0..<?num]) Q"
      if "?shoff \<le> length elf" "?sz \<noteq> 0 \<longrightarrow> ?num \<le> (length elf - ?shoff) div ?sz"
        "so + ss \<le> length elf" for so ss
      using shdr_table_bound [OF that(2,1) b] that(3)
      by (intro safe_sh_walk) (auto simp: assms(1,3) fin)
    have hdr: "szadd (shstr_hdr elf) 64 = shstr_hdr elf + 64"
      if "?shoff \<le> length elf" "?sz \<noteq> 0 \<longrightarrow> ?num \<le> (length elf - ?shoff) div ?sz" "?ndx < ?num"
      using shdr_table_bound [OF that(2,1) b that(3)] unfolding shstr_hdr_def by simp
    show ?thesis
      using False assms(2,3)
      unfolding elf_find_section_def strtab_nowrap_def shstr_hdr_def [symmetric]
      by (auto simp: safe_simps Let_def not_less shstr_hdr_def [symmetric] hdr intro!: walk)
  qed
qed

lemma safe_extract_debug:
  assumes "obj_bytes elf" "strtab_nowrap elf" "Q Rc_err"
    and "\<And>off n. off \<le> length elf \<Longrightarrow> szadd off n \<le> length elf \<Longrightarrow> Q (Rc_ok (off, n))"
  shows "safe (cfi_extract_debug_frame elf) Q"
  unfolding cfi_extract_debug_frame_def safe_simps
  by (rule safe_find_section) (simp_all add: assms)

lemma safe_load_elf:
  assumes "qsort_impl pc_lo qs" "obj_bytes elf" "strtab_nowrap elf" "\<forall>n. mok n \<longrightarrow> n < 2 ^ 63" "Q Rc_err"
    and fin: "\<And>s off n. section_wf s \<Longrightarrow> owned s \<Longrightarrow> sdata s = take n (drop off elf) \<Longrightarrow> Q (Rc_ok s)"
  shows "safe (cfi_load_elf qs mok elf) Q"
proof -
  have copy: "safe (load_bytes elf off n) R"
    if "off \<le> length elf" "szadd off n \<le> length elf" "mok n" "R (take n (drop off elf))" for off n R
    using that assms(2,4) by (auto simp: obj_bytes_def)
  have parse: "safe (cfi_parse qs mok d (take n (drop off elf)) va)
      (\<lambda>x. Q (case x of (False, _) \<Rightarrow> Rc_err | (True, s) \<Rightarrow> Rc_ok (s\<lparr>owned := True\<rparr>)))" for d n off va
  proof (rule safe_cfi_parse [OF assms(1)])
    show "obj_bytes (take n (drop off elf))"
      using assms(2) by (simp add: obj_bytes_def)
    show "Q (case (ok, s) of (False, _) \<Rightarrow> Rc_err | (True, s) \<Rightarrow> Rc_ok (s\<lparr>owned := True\<rparr>))"
      if "section_wf s" "sdata s = take n (drop off elf)" for ok s
      using that assms(5) fin [of "s\<lparr>owned := True\<rparr>" n off] by (cases ok) (auto simp: section_wf_def)
  qed
  note eh = safe_find_section [OF assms(2,3)] and df = safe_extract_debug [OF assms(2,3)]
  show ?thesis
    unfolding cfi_load_elf_def cfi_extract_eh_frame_def safe_simps
    by (rule eh) (auto simp: safe_simps assms(5) cfi_parse_eh_frame_def cfi_parse_debug_frame_def
        intro!: df copy parse)
qed

section \<open>Properties\<close>

text \<open>A one-function \<open>.eh_frame\<close> as a compiler emits it, used by the witnesses below.\<close>

definition sample_eh_frame :: bytes where
  "sample_eh_frame =
     [0x10, 0, 0, 0,  0, 0, 0, 0,  1, 0x7a, 0x52, 0,  4, 0x78, 0x1e, 1,  0x1b, 0x0c, 0x1f, 0,
      0x14, 0, 0, 0,  0x18, 0, 0, 0,  0xe4, 0x0f, 0, 0,  0x40, 0, 0, 0,  0, 0x41, 0x0e, 0x10,
      0x9d, 2, 0x9e, 1]"

definition sample_section :: cfi_section where
  "sample_section = \<lparr>sdata = sample_eh_frame, slen = 44,
     fdes = [\<lparr>pc_lo = 0x2000, pc_hi = 0x2040, cie_off = 0, insn_off = 37, insn_len = 7\<rparr>],
     section_vaddr = 0x1000, owned = False\<rparr>"


lemmas fuel_numerals =
  cfi_count.simps(2) [where fuel = "pred_numeral k" for k, folded numeral_eq_Suc]
  cfi_fill.simps(2) [where fuel = "pred_numeral k" for k, folded numeral_eq_Suc]
  cie_aug_string.simps(2) [where fuel = "pred_numeral k" for k, folded numeral_eq_Suc]
  cie_skip_leb.simps(2) [where fuel = "pred_numeral k" for k, folded numeral_eq_Suc]
  dwarf_uleb_loop.simps(2) [where fuel = "pred_numeral k" for k, folded numeral_eq_Suc]
  dwarf_sleb_loop.simps(2) [where fuel = "pred_numeral k" for k, folded numeral_eq_Suc]

lemmas dwarf_eval = dwarf_u8_def dwarf_u16_def dwarf_u32_def dwarf_u64_def dwarf_uleb_def
  dwarf_sleb_def avail_def leb_accum_def dwarf_cur_init_def Let_def
  dwarf_uleb_loop.simps(2) dwarf_sleb_loop.simps(2)

lemmas cfi_eval = dwarf_eval fuel_numerals cfi_parse_eh_frame_def cfi_parse_debug_frame_def
  cfi_parse_def cfi_count.simps(2) cfi_fill.simps(2) cie_aug_string.simps(2) cie_skip_leb.simps(2)
  cie_aug_data.simps parse_cie_def cie_tail_def cie_aug_block_def cie_skip_personality_def
  eh_fde_def debug_fde_def decode_eh_pe_def is_fde_def

lemma sample_parse:
  "cfi_parse_eh_frame (sort_key pc_lo) (\<lambda>_. True) sample_eh_frame 0x1000 = Some (True, sample_section)"
  unfolding sample_eh_frame_def sample_section_def
  by (simp add: cfi_eval)


lemma sample_parse_cie: "parse_cie sample_eh_frame 44 0 = Some (Rc_ok
    \<lparr>cie_version = 1, addr_size = 8, code_align = 4, data_align = - 8, ra_reg = 30,
     cie_insn_off = 17, cie_insn_len = 3, fde_enc = 0x1b, has_z = True\<rparr>)"
  unfolding sample_eh_frame_def by (simp add: cfi_eval)

lemma sample_len: "length sample_eh_frame = 44"
  by (simp add: sample_eh_frame_def)

lemma sample_section_wf: "section_wf sample_section"
  using sample_parse_cie
  by (simp add: section_wf_def sample_section_def fde_wf_def insns_in_def obj_bytes_def sample_len)

text \<open>C4: both section parsers, on any section bytes and whatever \<open>malloc\<close> does, never touch memory
  outside the section, always return, and leave a well-formed section behind: the index is sorted
  by \<open>pc_lo\<close>, every FDE's instructions lie inside the section and its CIE parses; on failure the
  index is empty.\<close>

theorem cfi_parse_frame_safe:
  assumes "qsort_impl pc_lo qs" "obj_bytes data"
  shows "(\<exists>ok s. cfi_parse_eh_frame qs mok data va = Some (ok, s) \<and> section_wf s \<and> sdata s = data \<and>
           (\<not> ok \<longrightarrow> fdes s = [])) \<and>
         (\<exists>ok s. cfi_parse_debug_frame qs mok data = Some (ok, s) \<and> section_wf s \<and> sdata s = data \<and>
           (\<not> ok \<longrightarrow> fdes s = []))"
proof -
  have "safe (cfi_parse qs mok d data v)
      (\<lambda>(ok, s). section_wf s \<and> sdata s = data \<and> (\<not> ok \<longrightarrow> fdes s = []))" for d v
    by (rule safe_cfi_parse [OF assms]) simp
  then show ?thesis
    unfolding cfi_parse_eh_frame_def cfi_parse_debug_frame_def safe_iff by fastforce
qed

lemma cfi_parse_frame_safe_witness:
  "\<exists>ok s. cfi_parse_eh_frame (sort_key pc_lo) (\<lambda>_. True) sample_eh_frame 0x1000 = Some (ok, s) \<and>
     section_wf s \<and> sdata s = sample_eh_frame \<and> (\<not> ok \<longrightarrow> fdes s = [])"
  using cfi_parse_frame_safe [OF qsort_fde.qsort_impl_axioms, where data = sample_eh_frame]
  by (simp add: obj_bytes_def sample_len)

text \<open>C5: looking an address up. In a well-formed section the binary search returns only an FDE of
  the index whose range holds the address, and where the ranges do not overlap it is the linear
  search for that FDE.\<close>

theorem cfi_lookup_correct:
  assumes "section_wf s"
  shows "(\<forall>f. cfi_lookup s pc = Some f \<longrightarrow> f \<in> set (fdes s) \<and> fde_covers pc f) \<and>
    (fdes_disjoint (fdes s) \<longrightarrow> cfi_lookup s pc = find (fde_covers pc) (fdes s))"
  using assms cfi_lookup_sound [of s pc] cfi_lookup_find [of s pc] by (auto simp: section_wf_def)

lemma cfi_lookup_correct_witness:
  "cfi_lookup sample_section 0x2010 = find (fde_covers 0x2010) (fdes sample_section) \<and>
   cfi_lookup sample_section 0x2010 = Some (hd (fdes sample_section))"
  using cfi_lookup_correct [OF sample_section_wf, where pc = "0x2010"]
  by (simp add: sample_section_def fdes_disjoint_def fde_covers_def)

text \<open>C6: loading the unwind section of an ELF image. As long as the section-name table's end is
  representable in 64 bits and \<open>malloc\<close> refuses sizes above \<open>PTRDIFF_MAX\<close>, no image makes
  \<open>cfi_load_elf\<close> read outside it; a loaded section is well formed, owns its bytes, and they are a
  slice of the image.\<close>

theorem cfi_load_elf_safe:
  assumes "qsort_impl pc_lo qs" "obj_bytes elf" "strtab_nowrap elf" "\<forall>n. mok n \<longrightarrow> n < 2 ^ 63"
  shows "cfi_load_elf qs mok elf = Some Rc_err \<or>
    (\<exists>s off n. cfi_load_elf qs mok elf = Some (Rc_ok s) \<and> section_wf s \<and> owned s \<and>
       sdata s = take n (drop off elf))"
  using safe_load_elf [OF assms, where Q = "\<lambda>r. r = Rc_err \<or>
    (\<exists>s off n. r = Rc_ok s \<and> section_wf s \<and> owned s \<and> sdata s = take n (drop off elf))"]
  by (auto simp: safe_iff)

text \<open>An image with a \<open>.eh_frame\<close> section: a header, two section headers (the section and the name
  table), the names, and the section above.\<close>

definition sample_elf :: bytes where
  "sample_elf =
     [0x7f, 0x45, 0x4c, 0x46, 2, 0, 0, 0, 0, 0, 0, 0, 0, 0, 0, 0,
      0, 0, 0, 0, 0, 0, 0, 0, 0, 0, 0, 0, 0, 0, 0, 0,
      0, 0, 0, 0, 0, 0, 0, 0, 0x40, 0, 0, 0, 0, 0, 0, 0,
      0, 0, 0, 0, 0, 0, 0, 0, 0, 0, 0x40, 0, 2, 0, 1, 0,
      0, 0, 0, 0, 0, 0, 0, 0, 0, 0, 0, 0, 0, 0, 0, 0,
      0, 0x10, 0, 0, 0, 0, 0, 0, 0xca, 0, 0, 0, 0, 0, 0, 0,
      0x2c, 0, 0, 0, 0, 0, 0, 0, 0, 0, 0, 0, 0, 0, 0, 0,
      0, 0, 0, 0, 0, 0, 0, 0, 0, 0, 0, 0, 0, 0, 0, 0,
      0, 0, 0, 0, 0, 0, 0, 0, 0, 0, 0, 0, 0, 0, 0, 0,
      0, 0, 0, 0, 0, 0, 0, 0, 0xc0, 0, 0, 0, 0, 0, 0, 0,
      0x0a, 0, 0, 0, 0, 0, 0, 0, 0, 0, 0, 0, 0, 0, 0, 0,
      0, 0, 0, 0, 0, 0, 0, 0, 0, 0, 0, 0, 0, 0, 0, 0,
      0x2e, 0x65, 0x68, 0x5f, 0x66, 0x72, 0x61, 0x6d, 0x65, 0] @ sample_eh_frame"

text \<open>An image whose one section header claims a name table of \<open>2 ^ 64 - 64\<close> bytes at offset 64.\<close>

definition wrapping_elf :: bytes where
  "wrapping_elf =
     [0x7f, 0x45, 0x4c, 0x46, 2, 0, 0, 0, 0, 0, 0, 0, 0, 0, 0, 0,
      0, 0, 0, 0, 0, 0, 0, 0, 0, 0, 0, 0, 0, 0, 0, 0,
      0, 0, 0, 0, 0, 0, 0, 0, 0x40, 0, 0, 0, 0, 0, 0, 0,
      0, 0, 0, 0, 0, 0, 0, 0, 0, 0, 0x40, 0, 1, 0, 0, 0,
      0xff, 0xff, 0xff, 0x7f, 0, 0, 0, 0, 0, 0, 0, 0, 0, 0, 0, 0,
      0, 0, 0, 0, 0, 0, 0, 0, 0x40, 0, 0, 0, 0, 0, 0, 0,
      0xc0, 0xff, 0xff, 0xff, 0xff, 0xff, 0xff, 0xff, 0, 0, 0, 0, 0, 0, 0, 0,
      0, 0, 0, 0, 0, 0, 0, 0, 0, 0, 0, 0, 0, 0, 0, 0]"


lemma eh_frame_name_bytes: "eh_frame_name = [0x2e, 0x65, 0x68, 0x5f, 0x66, 0x72, 0x61, 0x6d, 0x65, 0]"
  by (simp add: eh_frame_name_def)

lemma sample_elf_eh_frame: "cfi_extract_eh_frame sample_elf = Some (Rc_ok (202, 44, 0x1000))"
  unfolding cfi_extract_eh_frame_def elf_find_section_def eh_frame_name_bytes sample_elf_def sample_eh_frame_def
  by (simp add: Let_def sh_walk.simps upt_rec)

lemma sample_elf_slice: "take 44 (drop 202 sample_elf) = sample_eh_frame"
  by (simp add: sample_elf_def sample_len)

lemma sample_elf_ok: "obj_bytes sample_elf" "strtab_nowrap sample_elf"
  by (simp_all add: obj_bytes_def strtab_nowrap_def shstr_hdr_def sample_elf_def sample_len)

lemma sample_elf_load:
  "cfi_load_elf (sort_key pc_lo) (\<lambda>n. n < 1000) sample_elf = Some (Rc_ok (sample_section\<lparr>owned := True\<rparr>))"
proof -
  have "load_bytes sample_elf 202 44 = Some sample_eh_frame"
    using sample_elf_slice by (simp add: load_bytes_def sample_elf_def sample_len)
  moreover have "cfi_parse_eh_frame (sort_key pc_lo) (\<lambda>n. n < 1000) sample_eh_frame 0x1000 = Some (True, sample_section)"
    unfolding sample_eh_frame_def sample_section_def by (simp add: cfi_eval)
  ultimately show ?thesis
    unfolding cfi_load_elf_def sample_elf_eh_frame by simp
qed

lemma cfi_load_elf_safe_witness:
  "\<exists>s off n. cfi_load_elf (sort_key pc_lo) (\<lambda>n. n < 1000) sample_elf = Some (Rc_ok s) \<and>
     section_wf s \<and> owned s \<and> sdata s = take n (drop off sample_elf)"
  using cfi_load_elf_safe [OF qsort_fde.qsort_impl_axioms sample_elf_ok, where mok = "\<lambda>n. n < 1000"]
    sample_elf_load by auto

text \<open>The bounds check of the section-name table adds offset and size in 64 bits, and the sum can
  wrap around. On the image above the check passes and the name comparison of the section walk
  reads outside the image.\<close>

theorem cfi_extract_wraps:
  "length wrapping_elf = 128 \<and> cfi_extract_eh_frame wrapping_elf = None \<and>
   cfi_extract_debug_frame wrapping_elf = None"
  unfolding cfi_extract_eh_frame_def cfi_extract_debug_frame_def elf_find_section_def
    eh_frame_name_def debug_frame_name_def wrapping_elf_def
  by (simp add: Let_def sh_walk.simps load_bytes_def szadd_def upt_rec)


end
