(* ===== verification/Cfi_Unwind.thy ===== *)
theory Cfi_Unwind
  imports Cfi_Section
begin

unbundle bit_operations_syntax

text \<open>
  \<open>src/src/common/cfi_unwind.c\<close>, second half: the interpreter of call-frame instructions and
  the one-frame unwind step over a frozen stack window.

  \<^item> \<open>struct cfi_rule\<close> and \<open>struct cfi_cfa_state\<close> are records; the 31 columns are a list.
    Signed 64-bit quantities are kept as two's-complement words.
  \<^item> the \<open>remember_stack\<close> array with its depth is the list of saved states, top first.
  \<^item> \<open>run_step\<close> is the body of the instruction loop, \<open>run_loop\<close> the loop. Each iteration
    consumes at least the opcode byte, so \<open>Suc (slen s)\<close> iterations are enough.
  \<^item> \<open>cfi_step\<close> returns the code's return value with the registers, stack pointer and program
    counter it leaves behind and the diagnostic record it fills.
\<close>

section \<open>The instruction interpreter\<close>

datatype cfi_kind = CFI_UNDEF | CFI_SAME | CFI_AT_CFA

record cfi_rule =
  kind :: cfi_kind
  roff :: u64

record cfi_cfa_state =
  cfa_reg :: u32
  cfa_off :: u64
  cols :: "cfi_rule list"
  ra_signed :: u8

abbreviation CFI_NREG :: nat where "CFI_NREG \<equiv> 31"
abbreviation CFI_REG_SP :: u32 where "CFI_REG_SP \<equiv> 31"
abbreviation CFI_REMEMBER_DEPTH :: nat where "CFI_REMEMBER_DEPTH \<equiv> 8"

datatype run_out =
    Run_err                                                        \<comment> \<open>return -1\<close>
  | Run_stop cfi_cfa_state "cfi_cfa_state list"                    \<comment> \<open>return 0: the row is reached\<close>
  | Run_next dwarf_cur u64 cfi_cfa_state "cfi_cfa_state list"      \<comment> \<open>next iteration\<close>

text \<open>Column updates are ignored for registers the table does not have.\<close>

definition set_col :: "cfi_cfa_state \<Rightarrow> nat \<Rightarrow> cfi_rule \<Rightarrow> cfi_cfa_state" where
  "set_col st r rule = (if r < CFI_NREG then st\<lparr>cols := (cols st)[r := rule]\<rparr> else st)"

definition restore_col :: "cfi_cfa_state \<Rightarrow> cfi_rule list option \<Rightarrow> nat \<Rightarrow> cfi_cfa_state" where
  "restore_col st initial r =
     (case initial of None \<Rightarrow> st
      | Some ic \<Rightarrow> if r < CFI_NREG then st\<lparr>cols := (cols st)[r := ic ! r]\<rparr> else st)"

text \<open>\<open>DW_CFA_advance_loc*\<close>: stop where the row of \<open>stop_loc\<close> is the current one.\<close>

definition advance_loc :: "dwarf_cur \<Rightarrow> u64 \<Rightarrow> u64 \<Rightarrow> u64 \<Rightarrow> cfi_cfa_state \<Rightarrow> cfi_cfa_state list \<Rightarrow> run_out" where
  "advance_loc c loc delta stop_loc st rem =
     (let newloc = loc + delta in
      if newloc > stop_loc then Run_stop st rem else Run_next c newloc st rem)"

definition run_extended ::
  "u8 \<Rightarrow> u64 \<Rightarrow> u64 \<Rightarrow> u64 \<Rightarrow> cfi_rule list option \<Rightarrow> dwarf_cur \<Rightarrow> u64 \<Rightarrow> cfi_cfa_state \<Rightarrow> cfi_cfa_state list \<Rightarrow> run_out option" where
  "run_extended opc code_al data_al stop_loc initial c loc st rem =
     (if opc = 0x00 then Some (Run_next c loc st rem)
      else if opc = 0x02 then do {
        (d, c) \<leftarrow> dwarf_u8 c;
        Some (if cerr c then Run_err else advance_loc c loc (ucast d * code_al) stop_loc st rem)
      }
      else if opc = 0x03 then do {
        (d, c) \<leftarrow> dwarf_u16 c;
        Some (if cerr c then Run_err else advance_loc c loc (ucast d * code_al) stop_loc st rem)
      }
      else if opc = 0x04 then do {
        (d, c) \<leftarrow> dwarf_u32 c;
        Some (if cerr c then Run_err else advance_loc c loc (ucast d * code_al) stop_loc st rem)
      }
      else if opc = 0x05 then do {
        (r, c) \<leftarrow> dwarf_uleb c;
        (n, c) \<leftarrow> dwarf_uleb c;
        Some (if cerr c then Run_err
              else Run_next c loc (set_col st (unat r) \<lparr>kind = CFI_AT_CFA, roff = n * data_al\<rparr>) rem)
      }
      else if opc = 0x06 then do {
        (r, c) \<leftarrow> dwarf_uleb c;
        Some (if cerr c then Run_err else Run_next c loc (restore_col st initial (unat r)) rem)
      }
      else if opc = 0x07 then do {
        (r, c) \<leftarrow> dwarf_uleb c;
        Some (if cerr c then Run_err
              else Run_next c loc (set_col st (unat r) \<lparr>kind = CFI_UNDEF, roff = 0\<rparr>) rem)
      }
      else if opc = 0x08 then do {
        (r, c) \<leftarrow> dwarf_uleb c;
        Some (if cerr c then Run_err
              else Run_next c loc (set_col st (unat r) \<lparr>kind = CFI_SAME, roff = 0\<rparr>) rem)
      }
      else if opc = 0x09 then Some Run_err
      else if opc = 0x0a then
        Some (if length rem \<ge> CFI_REMEMBER_DEPTH then Run_err else Run_next c loc st (st # rem))
      else if opc = 0x0b then
        Some (case rem of [] \<Rightarrow> Run_err | slot # rem' \<Rightarrow> Run_next c loc slot rem')
      else if opc = 0x0c then do {
        (r, c) \<leftarrow> dwarf_uleb c;
        (off, c) \<leftarrow> dwarf_uleb c;
        Some (if cerr c then Run_err
              else Run_next c loc (st\<lparr>cfa_reg := ucast r, cfa_off := off\<rparr>) rem)
      }
      else if opc = 0x0d then do {
        (r, c) \<leftarrow> dwarf_uleb c;
        Some (if cerr c then Run_err else Run_next c loc (st\<lparr>cfa_reg := ucast r\<rparr>) rem)
      }
      else if opc = 0x0e then do {
        (off, c) \<leftarrow> dwarf_uleb c;
        Some (if cerr c then Run_err else Run_next c loc (st\<lparr>cfa_off := off\<rparr>) rem)
      }
      else if opc = 0x2d then Some (Run_next c loc (st\<lparr>ra_signed := ra_signed st XOR 1\<rparr>) rem)
      else Some Run_err)"

definition run_step ::
  "u64 \<Rightarrow> u64 \<Rightarrow> u64 \<Rightarrow> cfi_rule list option \<Rightarrow> dwarf_cur \<Rightarrow> u64 \<Rightarrow> cfi_cfa_state \<Rightarrow> cfi_cfa_state list \<Rightarrow> run_out option" where
  "run_step code_al data_al stop_loc initial c loc st rem = do {
     (opc, c) \<leftarrow> dwarf_u8 c;
     (if cerr c then Some Run_err
      else do {
        let high = opc AND 0xc0;
        let low = opc AND 0x3f;
        (if high = 0x40 then Some (advance_loc c loc (ucast low * code_al) stop_loc st rem)
         else if high = 0x80 then do {
           (n, c) \<leftarrow> dwarf_uleb c;
           Some (if cerr c then Run_err
                 else Run_next c loc (set_col st (unat low) \<lparr>kind = CFI_AT_CFA, roff = n * data_al\<rparr>) rem)
         }
         else if high = 0xc0 then Some (Run_next c loc (restore_col st initial (unat low)) rem)
         else run_extended opc code_al data_al stop_loc initial c loc st rem)
      })
   }"

fun run_loop ::
  "nat \<Rightarrow> u64 \<Rightarrow> u64 \<Rightarrow> u64 \<Rightarrow> cfi_rule list option \<Rightarrow> nat \<Rightarrow> dwarf_cur \<Rightarrow> u64 \<Rightarrow> cfi_cfa_state \<Rightarrow>
   cfi_cfa_state list \<Rightarrow> (cfi_cfa_state \<times> cfi_cfa_state list) rc option" where
  "run_loop 0 code_al data_al stop_loc initial iend c loc st rem = None"
| "run_loop (Suc fuel) code_al data_al stop_loc initial iend c loc st rem =
     (if \<not> (\<not> cerr c \<and> cpos c < iend) then Some (if cerr c then Rc_err else Rc_ok (st, rem))
      else do {
        r \<leftarrow> run_step code_al data_al stop_loc initial c loc st rem;
        (case r of
           Run_err \<Rightarrow> Some Rc_err
         | Run_stop st rem \<Rightarrow> Some (Rc_ok (st, rem))
         | Run_next c loc st rem \<Rightarrow> run_loop fuel code_al data_al stop_loc initial iend c loc st rem)
      })"

text \<open>\<open>size_t end = insn_off + insn_len\<close> adds two \<open>uint32_t\<close>: the sum wraps at 32 bits.\<close>

definition run_program ::
  "cfi_section \<Rightarrow> u32 \<Rightarrow> u32 \<Rightarrow> u64 \<Rightarrow> u64 \<Rightarrow> u64 \<Rightarrow> u64 \<Rightarrow> cfi_cfa_state \<Rightarrow> cfi_rule list option \<Rightarrow>
   cfi_cfa_state list \<Rightarrow> (cfi_cfa_state \<times> cfi_cfa_state list) rc option" where
  "run_program s off n code_al data_al stop_loc start_loc st initial rem =
     run_loop (Suc (slen s)) code_al data_al stop_loc initial (unat (off + n))
       ((dwarf_cur_init (sdata s) (slen s))\<lparr>cpos := unat off\<rparr>) start_loc st rem"

definition cfi_run_program :: "cfi_section \<Rightarrow> u64 \<Rightarrow> cfi_cfa_state rc option" where
  "cfi_run_program s module_pc =
     (case cfi_lookup s module_pc of
        None \<Rightarrow> Some Rc_err
      | Some fde \<Rightarrow> do {
          r \<leftarrow> cfi_read_cie s (cie_off fde);
          (case r of Rc_err \<Rightarrow> Some Rc_err
           | Rc_ok cie \<Rightarrow> do {
               let st0 = \<lparr>cfa_reg = 0, cfa_off = 0,
                 cols = replicate CFI_NREG \<lparr>kind = CFI_UNDEF, roff = 0\<rparr>, ra_signed = 0\<rparr>;
               let st0 = (if unat (ra_reg cie) < CFI_NREG
                 then st0\<lparr>cols := (cols st0)[unat (ra_reg cie) := \<lparr>kind = CFI_SAME, roff = 0\<rparr>]\<rparr>
                 else st0);
               r \<leftarrow> run_program s (cie_insn_off cie) (cie_insn_len cie) (code_align cie)
                      (data_align cie) (- 1) 0 st0 None [];
               (case r of Rc_err \<Rightarrow> Some Rc_err
                | Rc_ok (st, rem) \<Rightarrow> do {
                    r \<leftarrow> run_program s (insn_off fde) (insn_len fde) (code_align cie)
                           (data_align cie) module_pc (pc_lo fde) st (Some (cols st)) rem;
                    Some (case r of Rc_err \<Rightarrow> Rc_err | Rc_ok (st, _) \<Rightarrow> Rc_ok st)
                  })
             })
        })"

section \<open>One frame\<close>

datatype cfi_stop_reason =
  CFI_OK | CFI_NO_FDE | CFI_RA_READFAULT | CFI_BAD_CFA_REG | CFI_RA_UNDEF | CFI_RA_ZERO | CFI_RUN_FAIL
  | CFI_SNAP_PC_ZERO | CFI_SNAP_NO_MAPPING | CFI_SNAP_CFI_GET_NULL

record cfi_step_diag =
  fde_found :: bool
  fde_pc_lo :: u64
  fde_pc_hi :: u64
  d_cfa_reg :: u32
  d_cfa_off :: u64
  d_cfa :: u64
  d_ra_kind :: cfi_kind
  d_ra_off :: u64
  d_ra_slot :: u64
  d_ra_value :: u64
  d_ra_signed :: u8
  stop_reason :: cfi_stop_reason

record frame =
  fx :: "u64 list"
  fsp :: u64
  fpc :: u64

definition anubee_pac_strip :: "u64 \<Rightarrow> u64" where
  "anubee_pac_strip p = p AND 0x0000FFFFFFFFFFFF"

text \<open>\<open>read64\<close>: \<open>Rc_err\<close> is the macro's 0, a slot outside the window.\<close>

definition read64 :: "bytes \<Rightarrow> u64 \<Rightarrow> nat \<Rightarrow> u64 \<Rightarrow> u64 rc option" where
  "read64 stack stack_base stack_len addr =
     (if addr \<ge> stack_base \<and> stack_len \<ge> 8 \<and> unat (addr - stack_base) \<le> stack_len - 8
      then do { v \<leftarrow> load_le 8 stack (unat (addr - stack_base)); Some (Rc_ok v) }
      else Some Rc_err)"

text \<open>The register loop: columns saved at the CFA are re-read, a slot outside the window keeps its
  register. The result is committed by the caller only on success.\<close>

fun restore_regs :: "bytes \<Rightarrow> u64 \<Rightarrow> nat \<Rightarrow> u64 \<Rightarrow> cfi_rule list \<Rightarrow> u64 list \<Rightarrow> u64 list option" where
  "restore_regs stack base len cfa (rule # rules) (v # vs) = do {
     w \<leftarrow> (if kind rule = CFI_AT_CFA
           then do {
             r \<leftarrow> read64 stack base len (cfa + roff rule);
             Some (case r of Rc_ok w \<Rightarrow> w | Rc_err \<Rightarrow> v)
           }
           else Some v);
     ws \<leftarrow> restore_regs stack base len cfa rules vs;
     Some (w # ws)
   }"
| "restore_regs stack base len cfa _ vs = Some vs"

definition cfi_step ::
  "cfi_section \<Rightarrow> u64 \<Rightarrow> frame \<Rightarrow> bytes \<Rightarrow> u64 \<Rightarrow> nat \<Rightarrow> (bool \<times> frame \<times> cfi_step_diag) option" where
  "cfi_step s module_pc fr stack stack_base stack_len = do {
     let diag = \<lparr>fde_found = False, fde_pc_lo = 0, fde_pc_hi = 0, d_cfa_reg = 0, d_cfa_off = 0,
       d_cfa = 0, d_ra_kind = CFI_UNDEF, d_ra_off = 0, d_ra_slot = 0, d_ra_value = 0,
       d_ra_signed = 0, stop_reason = CFI_OK\<rparr>;
     let diag = (case cfi_lookup s module_pc of None \<Rightarrow> diag
       | Some f \<Rightarrow> diag\<lparr>fde_found := True, fde_pc_lo := pc_lo f, fde_pc_hi := pc_hi f\<rparr>);
     r \<leftarrow> cfi_run_program s module_pc;
     (case r of
        Rc_err \<Rightarrow> Some (False, fr, diag\<lparr>stop_reason :=
          (if fde_found diag then CFI_RUN_FAIL else CFI_NO_FDE)\<rparr>)
      | Rc_ok st \<Rightarrow> do {
          let diag = diag\<lparr>d_cfa_reg := cfa_reg st, d_cfa_off := cfa_off st, d_ra_signed := ra_signed st\<rparr>;
          (if cfa_reg st \<noteq> CFI_REG_SP \<and> \<not> unat (cfa_reg st) < CFI_NREG
           then Some (False, fr, diag\<lparr>stop_reason := CFI_BAD_CFA_REG\<rparr>)
           else do {
             let cfa = (if cfa_reg st = CFI_REG_SP then fsp fr else fx fr ! unat (cfa_reg st)) + cfa_off st;
             let rule = cols st ! 30;
             let diag = diag\<lparr>d_cfa := cfa, d_ra_kind := kind rule, d_ra_off := roff rule\<rparr>;
             let diag = (if kind rule = CFI_AT_CFA then diag\<lparr>d_ra_slot := cfa + roff rule\<rparr> else diag);
             ra \<leftarrow> (case kind rule of
                 CFI_AT_CFA \<Rightarrow> do {
                   v \<leftarrow> read64 stack stack_base stack_len (cfa + roff rule);
                   Some (case v of Rc_ok pc \<Rightarrow> Inr pc | Rc_err \<Rightarrow> Inl CFI_RA_READFAULT)
                 }
               | CFI_SAME \<Rightarrow> Some (Inr (fx fr ! 30))
               | CFI_UNDEF \<Rightarrow> Some (Inl CFI_RA_UNDEF));
             (case ra of
                Inl why \<Rightarrow> Some (False, fr, diag\<lparr>stop_reason := why\<rparr>)
              | Inr pc \<Rightarrow> do {
                  let pc = (if ra_signed st \<noteq> 0 then anubee_pac_strip pc else pc);
                  (if pc = 0 then Some (False, fr, diag\<lparr>stop_reason := CFI_RA_ZERO\<rparr>)
                   else do {
                     newx \<leftarrow> restore_regs stack stack_base stack_len cfa (cols st) (fx fr);
                     Some (True, \<lparr>fx = newx, fsp = cfa, fpc = pc\<rparr>, diag\<lparr>d_ra_value := pc\<rparr>)
                   })
                })
           })
        })
   }"

declare run_loop.simps [simp del]

section \<open>The interpreter stays in bounds and ends\<close>

text \<open>Interpreter states: 31 columns, at most eight remembered states.\<close>

definition st_ok :: "cfi_cfa_state \<Rightarrow> bool" where
  "st_ok st \<longleftrightarrow> length (cols st) = CFI_NREG"

definition rem_ok :: "cfi_cfa_state list \<Rightarrow> bool" where
  "rem_ok rem \<longleftrightarrow> length rem \<le> CFI_REMEMBER_DEPTH \<and> list_all st_ok rem"

definition init_ok :: "cfi_rule list option \<Rightarrow> bool" where
  "init_ok ini \<longleftrightarrow> (\<forall>ic. ini = Some ic \<longrightarrow> length ic = CFI_NREG)"

lemma st_ok_set_col [simp]: "st_ok (set_col st r rule) = st_ok st"
  by (simp add: st_ok_def set_col_def)

lemma st_ok_restore_col [simp]: "st_ok (restore_col st ini r) = st_ok st"
  by (simp add: st_ok_def restore_col_def split: option.splits)

lemma st_ok_fields [simp]:
  "st_ok (st\<lparr>cfa_reg := a\<rparr>) = st_ok st" "st_ok (st\<lparr>cfa_off := b\<rparr>) = st_ok st"
  "st_ok (st\<lparr>ra_signed := d\<rparr>) = st_ok st"
  by (simp_all add: st_ok_def)

text \<open>What one iteration promises.\<close>

definition out_ok :: "dwarf_cur \<Rightarrow> run_out \<Rightarrow> bool" where
  "out_ok c r \<longleftrightarrow> (case r of Run_err \<Rightarrow> True
     | Run_stop st rem \<Rightarrow> st_ok st \<and> rem_ok rem
     | Run_next c' loc st rem \<Rightarrow> cur_ok c' \<and> cbuf c' = cbuf c \<and> clen c' = clen c \<and>
         cpos c < cpos c' \<and> \<not> cerr c' \<and> cpos c' \<le> clen c \<and> st_ok st \<and> rem_ok rem)"

lemma out_ok_simps [simp]:
  "out_ok c Run_err"
  "out_ok c (Run_stop st rem) \<longleftrightarrow> st_ok st \<and> rem_ok rem"
  by (simp_all add: out_ok_def)

lemma out_ok_next:
  assumes "cur_adv 1 c c'" "cur_adv k c' c''" "\<not> cerr c''" "cur_ok c''" "st_ok st" "rem_ok rem"
  shows "out_ok c (Run_next c'' loc st rem)"
  using assms by (auto simp: out_ok_def cur_adv_def)

lemma out_ok_advance:
  assumes "cur_adv 1 c c'" "cur_adv k c' c''" "\<not> cerr c''" "cur_ok c''" "st_ok st" "rem_ok rem"
  shows "out_ok c (advance_loc c'' loc d stop st rem)"
  using assms by (auto simp: advance_loc_def Let_def intro: out_ok_next)

lemma cur_adv_refl: "cur_ok c \<Longrightarrow> \<not> cerr c \<Longrightarrow> cpos c \<le> clen c \<Longrightarrow> cur_adv 0 c c"
  by (simp add: cur_adv_def cur_ok_def)

lemma safe_run_extended:
  assumes "cur_adv 1 c c'" "cur_ok c'" "\<not> cerr c'" "st_ok st" "rem_ok rem"
  shows "safe (run_extended opc ca da stop ini c' loc st rem) (out_ok c)"
proof -
  have r0: "cur_adv 0 c' c'"
    using assms(1-3) cur_adv_clear [OF assms(1,3)] by (simp add: cur_adv_refl)
  note nxt = out_ok_next [OF assms(1)] and adv = out_ok_advance [OF assms(1)]
  note two = nxt [OF cur_adv_trans]
  have slot: "st_ok a \<and> rem_ok as" if "rem = a # as" for a as
    using assms(5) that by (auto simp: rem_ok_def)
  have push: "rem_ok (st # rem)" if "\<not> 8 \<le> length rem"
    using assms(4,5) that by (auto simp: rem_ok_def)
  show ?thesis
  proof (cases "opc = 0x0a")
    case True
    then show ?thesis using push r0 assms(2-5)
      by (auto simp: run_extended_def intro: nxt)
  next
    case False
    then show ?thesis
      unfolding run_extended_def
      using assms(2-5) r0
      by (auto simp: safe_simps split: list.splits dest!: slot
          intro!: safe_u8 safe_u16 safe_u32 safe_uleb intro: nxt adv two)
  qed
qed

lemma safe_run_step:
  assumes "cur_ok c" "st_ok st" "rem_ok rem"
  shows "safe (run_step ca da stop ini c loc st rem) (out_ok c)"
proof -
  have e: "safe (run_extended opc ca da stop ini c' loc st rem) (out_ok c)"
    if "cur_adv 1 c c'" "cur_ok c'" "\<not> cerr c'" for opc c'
    using safe_run_extended [OF that assms(2,3)] .
  have z: "cur_adv 0 c' c'" if "cur_adv 1 c c'" "cur_ok c'" "\<not> cerr c'" for c'
    using that cur_adv_clear [OF that(1,3)] by (simp add: cur_adv_refl)
  show ?thesis
    unfolding run_step_def
    using assms
    by (auto simp: safe_simps intro!: safe_u8 safe_uleb e intro: out_ok_next out_ok_advance z)
qed

lemma safe_run_loop:
  assumes "cur_ok c" "st_ok st" "rem_ok rem" "clen c < fuel + cpos c" "0 < fuel"
  shows "safe (run_loop fuel ca da stop ini iend c loc st rem)
    (\<lambda>r. \<forall>st' rem'. r = Rc_ok (st', rem') \<longrightarrow> st_ok st' \<and> rem_ok rem')"
  using assms
proof (induction fuel arbitrary: c loc st rem)
  case (Suc fuel)
  have step: "safe (case r of Run_err \<Rightarrow> Some Rc_err
         | Run_stop st rem \<Rightarrow> Some (Rc_ok (st, rem))
         | Run_next c loc st rem \<Rightarrow> run_loop fuel ca da stop ini iend c loc st rem)
      (\<lambda>r. \<forall>st' rem'. r = Rc_ok (st', rem') \<longrightarrow> st_ok st' \<and> rem_ok rem')" if "out_ok c r" for r
    using that Suc.prems Suc.IH by (auto simp: out_ok_def split: run_out.splits)
  show ?case
    unfolding run_loop.simps
    using Suc.prems step safe_mono [OF safe_run_step]
    by (auto simp: safe_simps)
qed simp

lemma safe_run_program:
  assumes "obj_bytes (sdata s)" "slen s = length (sdata s)" "st_ok st" "rem_ok rem"
  shows "safe (run_program s off n ca da stop start st ini rem)
    (\<lambda>r. \<forall>st' rem'. r = Rc_ok (st', rem') \<longrightarrow> st_ok st' \<and> rem_ok rem')"
  unfolding run_program_def using assms unsigned_less [of off, where 'a = nat]
  by (intro safe_run_loop) (auto simp: cur_ok_def obj_bytes_def)

lemma st_ok_initial:
  "st_ok \<lparr>cfa_reg = a, cfa_off = b, cols = replicate CFI_NREG r, ra_signed = d\<rparr>"
  "st_ok \<lparr>cfa_reg = a, cfa_off = b, cols = (replicate CFI_NREG r)[i := r'], ra_signed = d\<rparr>"
  by (simp_all add: st_ok_def)

lemma safe_cfi_run_program:
  assumes "section_wf s"
  shows "safe (cfi_run_program s pc)
    (\<lambda>r. (\<forall>st. r = Rc_ok st \<longrightarrow> st_ok st) \<and> (cfi_lookup s pc = None \<longrightarrow> r = Rc_err))"
    (is "safe _ ?Q")
proof -
  have wf: "slen s = length (sdata s)" "obj_bytes (sdata s)"
    using assms by (simp_all add: section_wf_def)
  note run = safe_mono [OF safe_run_program [OF wf(2,1)]]
  have cie: "safe (cfi_read_cie s off) (\<lambda>_. True)" for off
    unfolding cfi_read_cie_def wf(1) using wf(2) by (simp add: safe_parse_cie)
  have fde_run: "safe (case r of Rc_err \<Rightarrow> Some Rc_err
      | Rc_ok (st, rem) \<Rightarrow> do {
          r \<leftarrow> run_program s i n ca da pc lo st (Some (cols st)) rem;
          Some (case r of Rc_err \<Rightarrow> Rc_err | Rc_ok (st, _) \<Rightarrow> Rc_ok st)}) (\<lambda>r. \<forall>st. r = Rc_ok st \<longrightarrow> st_ok st)"
    if "\<forall>st' rem'. r = Rc_ok (st', rem') \<longrightarrow> st_ok st' \<and> rem_ok rem'" for r i n ca da lo
    using that by (auto simp: safe_simps split: rc.splits intro!: run)
  have cie_run: "safe (do {
        r \<leftarrow> run_program s i n ca da (- 1) 0 st0 None [];
        (case r of Rc_err \<Rightarrow> Some Rc_err
         | Rc_ok (st, rem) \<Rightarrow> do {
             r \<leftarrow> run_program s i' n' ca da pc lo st (Some (cols st)) rem;
             Some (case r of Rc_err \<Rightarrow> Rc_err | Rc_ok (st, _) \<Rightarrow> Rc_ok st)})})
      (\<lambda>r. \<forall>st. r = Rc_ok st \<longrightarrow> st_ok st)"
    if "st_ok st0" for st0 i n i' n' ca da lo
    unfolding safe_bind using that
    by (intro run) (auto simp: rem_ok_def intro!: fde_run)
  show ?thesis
  proof (cases "cfi_lookup s pc")
    case (Some fde)
    show ?thesis
      unfolding cfi_run_program_def Some option.case safe_bind
      by (rule safe_mono [OF cie])
         (auto simp: Let_def st_ok_initial split: rc.splits intro!: safe_mono [OF cie_run])
  qed (simp add: cfi_run_program_def)
qed

section \<open>One frame: what a step promises\<close>

text \<open>The eight bytes at \<open>addr\<close> lie inside the stack window, and the value there.\<close>

definition in_window :: "u64 \<Rightarrow> nat \<Rightarrow> u64 \<Rightarrow> bool" where
  "in_window base len addr \<longleftrightarrow> base \<le> addr \<and> unat (addr - base) + 8 \<le> len"

definition slot :: "bytes \<Rightarrow> u64 \<Rightarrow> u64 \<Rightarrow> u64" where
  "slot stack base addr = le_word (take 8 (drop (unat (addr - base)) stack))"

lemma read64_eq:
  "read64 stack base (length stack) addr =
     Some (if in_window base (length stack) addr then Rc_ok (slot stack base addr) else Rc_err)"
  by (auto simp: read64_def in_window_def slot_def)

definition restored :: "bytes \<Rightarrow> u64 \<Rightarrow> u64 \<Rightarrow> cfi_rule \<Rightarrow> u64 \<Rightarrow> u64" where
  "restored stack base cfa rule v =
     (if kind rule = CFI_AT_CFA \<and> in_window base (length stack) (cfa + roff rule)
      then slot stack base (cfa + roff rule) else v)"

lemma restore_regs_eq:
  "length rules = length vs \<Longrightarrow>
   restore_regs stack base (length stack) cfa rules vs = Some (map2 (restored stack base cfa) rules vs)"
  by (induction rules vs rule: list_induct2) (simp_all add: read64_eq restored_def)

text \<open>The return address a row prescribes.\<close>

definition return_addr :: "bytes \<Rightarrow> u64 \<Rightarrow> u64 \<Rightarrow> cfi_cfa_state \<Rightarrow> frame \<Rightarrow> u64 option" where
  "return_addr stack base cfa st fr =
     map_option (if ra_signed st \<noteq> 0 then anubee_pac_strip else id)
       (case kind (cols st ! 30) of
          CFI_AT_CFA \<Rightarrow> if in_window base (length stack) (cfa + roff (cols st ! 30))
            then Some (slot stack base (cfa + roff (cols st ! 30))) else None
        | CFI_SAME \<Rightarrow> Some (fx fr ! 30)
        | CFI_UNDEF \<Rightarrow> None)"

definition row_cfa :: "cfi_cfa_state \<Rightarrow> frame \<Rightarrow> u64 option" where
  "row_cfa st fr =
     (if cfa_reg st = CFI_REG_SP then Some (fsp fr + cfa_off st)
      else if unat (cfa_reg st) < CFI_NREG then Some (fx fr ! unat (cfa_reg st) + cfa_off st)
      else None)"

text \<open>A frame is unwound as one atomic update: the row the FDE program gives for \<open>pc\<close>, applied.\<close>

definition unwind_row :: "cfi_cfa_state \<Rightarrow> bytes \<Rightarrow> u64 \<Rightarrow> frame \<Rightarrow> frame option" where
  "unwind_row st stack base fr =
     (case row_cfa st fr of None \<Rightarrow> None
      | Some cfa \<Rightarrow>
         (case return_addr stack base cfa st fr of None \<Rightarrow> None
          | Some pc \<Rightarrow> if pc = 0 then None
              else Some \<lparr>fx = map2 (restored stack base cfa) (cols st) (fx fr), fsp = cfa, fpc = pc\<rparr>))"

definition step_refines :: "(bool \<times> frame \<times> cfi_step_diag) \<Rightarrow> frame \<Rightarrow> frame option \<Rightarrow> bool" where
  "step_refines out fr res \<longleftrightarrow> (case out of (ret, fr', d) \<Rightarrow>
     case res of None \<Rightarrow> \<not> ret \<and> fr' = fr \<and> stop_reason d \<noteq> CFI_OK
     | Some fr'' \<Rightarrow> ret \<and> fr' = fr'' \<and> stop_reason d = CFI_OK \<and> d_cfa d = fsp fr' \<and> d_ra_value d = fpc fr')"

lemma cfi_step_row:
  assumes run: "cfi_run_program s pc = Some (Rc_ok st)" and st: "st_ok st" and len: "length (fx fr) = CFI_NREG"
  shows "safe (cfi_step s pc fr stack base (length stack)) (\<lambda>out. step_refines out fr (unwind_row st stack base fr))"
proof -
  note defs = cfi_step_def run Let_def read64_eq unwind_row_def row_cfa_def step_refines_def
  have regs: "restore_regs stack base (length stack) cfa (cols st) (fx fr) =
      Some (map2 (restored stack base cfa) (cols st) (fx fr))" for cfa
    using st len by (simp add: restore_regs_eq st_ok_def)
  have lk: "stop_reason (case cfi_lookup s pc of None \<Rightarrow> d
      | Some f \<Rightarrow> d\<lparr>fde_found := True, fde_pc_lo := pc_lo f, fde_pc_hi := pc_hi f\<rparr>) = stop_reason d" for d
    by (simp split: option.split)
  consider (sp) "cfa_reg st = CFI_REG_SP"
    | (reg) "cfa_reg st \<noteq> CFI_REG_SP" "unat (cfa_reg st) < CFI_NREG"
    | (bad) "cfa_reg st \<noteq> CFI_REG_SP" "\<not> unat (cfa_reg st) < CFI_NREG"
    by blast
  then show ?thesis
    by cases (cases "kind (cols st ! 30)"; simp add: defs regs lk return_addr_def)+
qed

lemma cfi_step_no_row:
  assumes "cfi_run_program s pc = Some Rc_err"
  shows "safe (cfi_step s pc fr stack base (length stack)) (\<lambda>out. step_refines out fr None)"
  using assms by (simp add: cfi_step_def Let_def step_refines_def)

text \<open>C1: on a well-formed section, one unwind step over a frozen stack window always returns, without
  touching memory outside the section or the window, and is atomic: with the row that the CIE and FDE
  programs yield for \<open>pc\<close>, it either applies the row completely (CFA, return address with the
  signature bits stripped, registers re-read from the window, a register whose slot lies outside kept)
  and reports \<open>CFI_OK\<close>, or it changes no register at all and reports why.\<close>

theorem cfi_step_refines:
  assumes "section_wf s" "length (fx fr) = CFI_NREG"
  shows "\<exists>r out. cfi_run_program s pc = Some r \<and>
    cfi_step s pc fr stack base (length stack) = Some out \<and>
    step_refines out fr (case r of Rc_err \<Rightarrow> None | Rc_ok st \<Rightarrow> unwind_row st stack base fr)"
proof -
  obtain r where r: "cfi_run_program s pc = Some r" "\<And>st. r = Rc_ok st \<Longrightarrow> st_ok st"
    using safe_cfi_run_program [OF assms(1), of pc] by (auto simp: safe_iff)
  show ?thesis
    using r cfi_step_row [of s pc _ fr stack base] cfi_step_no_row [of s pc fr stack base] assms(2)
    by (cases r) (auto simp: safe_iff)
qed

section \<open>Early stop against the full row table\<close>

text \<open>The reference reading of a frame program: run it to its end and collect every row, the address
  a row starts at with the state that holds there.\<close>

fun row_table ::
  "nat \<Rightarrow> u64 \<Rightarrow> u64 \<Rightarrow> cfi_rule list option \<Rightarrow> nat \<Rightarrow> dwarf_cur \<Rightarrow> u64 \<Rightarrow> cfi_cfa_state \<Rightarrow>
   cfi_cfa_state list \<Rightarrow> (u64 \<times> cfi_cfa_state) list rc option" where
  "row_table 0 ca da ini iend c loc st rem = None"
| "row_table (Suc fuel) ca da ini iend c loc st rem =
     (if \<not> (\<not> cerr c \<and> cpos c < iend) then Some (if cerr c then Rc_err else Rc_ok [(loc, st)])
      else do {
        r \<leftarrow> run_step ca da (- 1) ini c loc st rem;
        (case r of
           Run_err \<Rightarrow> Some Rc_err
         | Run_stop st rem \<Rightarrow> Some (Rc_ok [(loc, st)])
         | Run_next c' loc' st' rem' \<Rightarrow> do {
             rows \<leftarrow> row_table fuel ca da ini iend c' loc' st' rem';
             Some (case rows of Rc_err \<Rightarrow> Rc_err
                   | Rc_ok rs \<Rightarrow> Rc_ok (if loc' = loc then rs else (loc, st) # rs))
           })
      })"

declare row_table.simps [simp del]

definition row_at :: "u64 \<Rightarrow> (u64 \<times> cfi_cfa_state) list \<Rightarrow> cfi_cfa_state" where
  "row_at pc rows = snd (last (takeWhile (\<lambda>r. fst r \<le> pc) rows))"

text \<open>Cutting an unbounded step off at \<open>stop\<close>.\<close>

definition cut_at :: "u64 \<Rightarrow> run_out \<Rightarrow> run_out" where
  "cut_at stop r = (case r of Run_next c loc st rem \<Rightarrow> if loc > stop then Run_stop st rem else r | _ \<Rightarrow> r)"

lemma cut_at_simps [simp]:
  "cut_at stop Run_err = Run_err" "cut_at stop (Run_stop st rem) = Run_stop st rem"
  "cut_at stop (Run_next c loc st rem) = (if loc > stop then Run_stop st rem else Run_next c loc st rem)"
  by (simp_all add: cut_at_def)

lemma advance_loc_cut: "advance_loc c loc d stop st rem = cut_at stop (advance_loc c loc d (- 1) st rem)"
  by (simp add: advance_loc_def Let_def)

lemma run_extended_cut:
  assumes "loc \<le> stop"
  shows "run_extended opc ca da stop ini c loc st rem =
    map_option (cut_at stop) (run_extended opc ca da (- 1) ini c loc st rem)"
  unfolding run_extended_def map_option_if map_option_bind map_option_prod
  using assms
  by (simp add: not_less [THEN iffD2] advance_loc_cut [of _ _ _ stop] if_distrib [where f = "cut_at stop"]
      split: list.split cong: if_cong)

lemma run_step_cut:
  assumes "loc \<le> stop"
  shows "run_step ca da stop ini c loc st rem = map_option (cut_at stop) (run_step ca da (- 1) ini c loc st rem)"
  unfolding run_step_def Let_def map_option_if map_option_bind map_option_prod
    run_extended_cut [OF assms, symmetric]
  using assms
  by (simp add: not_less [THEN iffD2] advance_loc_cut [of _ _ _ stop] if_distrib [where f = "cut_at stop"] cong: if_cong)

lemma run_step_no_stop:
  assumes "run_step ca da (- 1) ini c loc st rem = Some r"
  shows "r \<noteq> Run_stop st' rem'"
proof -
  have "\<exists>c l st rem. advance_loc c' l' d (- 1) st'' rem'' = Run_next c l st rem" for c' l' d st'' rem''
    by (simp add: advance_loc_def Let_def)
  then show ?thesis
    using assms
    by (auto simp: run_step_def run_extended_def Let_def bind_eq_Some_conv advance_loc_def
        split: if_splits list.splits)
qed

lemma run_step_new_row:
  assumes "run_step ca da stop ini c loc st rem = Some (Run_next c' loc' st' rem')" "loc' \<noteq> loc"
  shows "st' = st"
  using assms
  by (auto simp: run_step_def run_extended_def Let_def bind_eq_Some_conv advance_loc_def
      split: if_splits list.splits)

lemma row_table_step:
  assumes "row_table (Suc fuel) ca da ini iend c loc st rem = Some (Rc_ok rows)" "\<not> cerr c \<and> cpos c < iend"
  obtains c' loc' st' rem' rs where
    "run_step ca da (- 1) ini c loc st rem = Some (Run_next c' loc' st' rem')"
    "row_table fuel ca da ini iend c' loc' st' rem' = Some (Rc_ok rs)"
    "rows = (if loc' = loc then rs else (loc, st) # rs)"
proof -
  obtain r where r: "run_step ca da (- 1) ini c loc st rem = Some r"
    using assms by (auto simp: row_table.simps bind_eq_Some_conv)
  then obtain c' loc' st' rem' where nx: "r = Run_next c' loc' st' rem'"
    using assms run_step_no_stop [OF r] by (cases r) (auto simp: row_table.simps)
  then obtain rs where "row_table fuel ca da ini iend c' loc' st' rem' = Some (Rc_ok rs)"
    "rows = (if loc' = loc then rs else (loc, st) # rs)"
    using assms r by (auto simp: row_table.simps bind_eq_Some_conv rc_map_conv)
  with r nx show thesis using that by blast
qed

lemma row_table_hd:
  "row_table fuel ca da ini iend c loc st rem = Some (Rc_ok rows) \<Longrightarrow> \<exists>rs st0. rows = (loc, st0) # rs"
proof (induction fuel arbitrary: c loc st rem rows)
  case (Suc fuel)
  show ?case
  proof (cases "\<not> cerr c \<and> cpos c < iend")
    case True
    show ?thesis by (rule row_table_step [OF Suc.prems True]) (use Suc.IH in auto)
  qed (use Suc.prems in \<open>auto simp: row_table.simps split: if_splits\<close>)
qed (simp add: row_table.simps)

lemma row_at_Cons:
  assumes "loc \<le> pc"
  shows "row_at pc ((loc, st) # rs) = (if rs \<noteq> [] \<and> fst (hd rs) \<le> pc then row_at pc rs else st)"
  using assms by (cases rs) (auto simp: row_at_def)

lemma run_loop_row:
  assumes "row_table fuel ca da ini iend c loc st rem = Some (Rc_ok rows)"
    and "sorted_wrt (<) (map fst rows)" and "loc \<le> stop"
  shows "\<exists>rem'. run_loop fuel ca da stop ini iend c loc st rem = Some (Rc_ok (row_at stop rows, rem'))"
  using assms
proof (induction fuel arbitrary: c loc st rem rows)
  case (Suc fuel)
  show ?case
  proof (cases "\<not> cerr c \<and> cpos c < iend")
    case True
    from row_table_step [OF Suc.prems(1) True] obtain c' loc' st' rem' rs where
      step: "run_step ca da (- 1) ini c loc st rem = Some (Run_next c' loc' st' rem')"
      and rest: "row_table fuel ca da ini iend c' loc' st' rem' = Some (Rc_ok rs)"
      and rows: "rows = (if loc' = loc then rs else (loc, st) # rs)"
      by blast
    have loop: "run_loop (Suc fuel) ca da stop ini iend c loc st rem =
        (if loc' > stop then Some (Rc_ok (st', rem'))
         else run_loop fuel ca da stop ini iend c' loc' st' rem')"
      using True by (simp add: run_loop.simps run_step_cut [OF Suc.prems(3)] step)
    obtain st0 rs' where hd: "rs = (loc', st0) # rs'"
      using row_table_hd [OF rest] by blast
    have IH: "loc' \<le> stop \<Longrightarrow>
        \<exists>rem''. run_loop fuel ca da stop ini iend c' loc' st' rem' = Some (Rc_ok (row_at stop rs, rem''))"
      using Suc.IH [OF rest] Suc.prems(2) by (auto simp: rows split: if_splits)
    show ?thesis
      using IH Suc.prems(3) run_step_new_row [OF step]
      by (auto simp: loop rows hd row_at_Cons)
  qed (use Suc.prems in \<open>auto simp: row_table.simps run_loop.simps row_at_def split: if_splits\<close>)
qed (simp add: row_table.simps)

text \<open>The row table of an FDE: its CIE's initial program, then its own program from \<open>pc_lo\<close>.\<close>

definition fde_rows :: "cfi_section \<Rightarrow> cfi_fde \<Rightarrow> (u64 \<times> cfi_cfa_state) list rc option" where
  "fde_rows s fde = do {
     r \<leftarrow> cfi_read_cie s (cie_off fde);
     (case r of Rc_err \<Rightarrow> Some Rc_err
      | Rc_ok cie \<Rightarrow> do {
          let st0 = \<lparr>cfa_reg = 0, cfa_off = 0,
            cols = (replicate CFI_NREG \<lparr>kind = CFI_UNDEF, roff = 0\<rparr>)
                     [unat (ra_reg cie) := \<lparr>kind = CFI_SAME, roff = 0\<rparr>], ra_signed = 0\<rparr>;
          r \<leftarrow> run_program s (cie_insn_off cie) (cie_insn_len cie) (code_align cie)
                 (data_align cie) (- 1) 0 st0 None [];
          (case r of Rc_err \<Rightarrow> Some Rc_err
           | Rc_ok (st, rem) \<Rightarrow>
               row_table (Suc (slen s)) (code_align cie) (data_align cie) (Some (cols st))
                 (unat (insn_off fde + insn_len fde))
                 ((dwarf_cur_init (sdata s) (slen s))\<lparr>cpos := unat (insn_off fde)\<rparr>) (pc_lo fde) st rem)
        })
   }"

lemma run_program_rows:
  assumes "cfi_lookup s pc = Some fde" "pc_lo fde \<le> pc"
    and "fde_rows s fde = Some (Rc_ok rows)" "sorted_wrt (<) (map fst rows)"
  shows "cfi_run_program s pc = Some (Rc_ok (row_at pc rows))"
proof -
  let ?st0 = "\<lambda>cie. \<lparr>cfa_reg = 0, cfa_off = 0,
     cols = (replicate CFI_NREG \<lparr>kind = CFI_UNDEF, roff = 0\<rparr>)
              [unat (ra_reg cie) := \<lparr>kind = CFI_SAME, roff = 0\<rparr>], ra_signed = 0\<rparr>"
  obtain cie st rem where cie: "cfi_read_cie s (cie_off fde) = Some (Rc_ok cie)"
    and ini: "run_program s (cie_insn_off cie) (cie_insn_len cie) (code_align cie)
                 (data_align cie) (- 1) 0 (?st0 cie) None [] = Some (Rc_ok (st, rem))"
    and tab: "row_table (Suc (slen s)) (code_align cie) (data_align cie) (Some (cols st))
                 (unat (insn_off fde + insn_len fde))
                 ((dwarf_cur_init (sdata s) (slen s))\<lparr>cpos := unat (insn_off fde)\<rparr>) (pc_lo fde) st rem
              = Some (Rc_ok rows)"
    using assms(3) by (auto simp: fde_rows_def Let_def bind_eq_Some_conv rc_ok_conv)
  obtain rem' where "run_program s (insn_off fde) (insn_len fde) (code_align cie) (data_align cie)
      pc (pc_lo fde) st (Some (cols st)) rem = Some (Rc_ok (row_at pc rows, rem'))"
    using run_loop_row [OF tab assms(4,2)] by (auto simp: run_program_def)
  then show ?thesis
    using assms(1) cie ini
    by (cases "unat (ra_reg cie) < CFI_NREG") (simp_all add: cfi_run_program_def Let_def list_update_beyond)
qed

text \<open>C2: the interpreter stops early, at the first row past \<open>pc\<close>. On a well-formed section it
  nevertheless returns exactly the row that the complete table of the FDE assigns to \<open>pc\<close>, whenever
  the table's addresses increase.\<close>

theorem cfi_run_program_row:
  assumes "section_wf s" "cfi_lookup s pc = Some fde"
    and "fde_rows s fde = Some (Rc_ok rows)" "sorted_wrt (<) (map fst rows)"
  shows "cfi_run_program s pc = Some (Rc_ok (row_at pc rows))"
  using run_program_rows [OF assms(2) _ assms(3,4)] cfi_lookup_sound assms(1,2)
  by (auto simp: section_wf_def fde_covers_def)

text \<open>The sample section at \<open>0x2010\<close>, after the prologue: the CFA is \<open>sp + 16\<close>, \<open>x29\<close> and
  the return address are saved below it.\<close>

definition sample_row :: "u64 \<Rightarrow> cfi_rule \<Rightarrow> cfi_rule \<Rightarrow> cfi_cfa_state" where
  "sample_row off r29 r30 = \<lparr>cfa_reg = 31, cfa_off = off,
     cols = replicate 29 \<lparr>kind = CFI_UNDEF, roff = 0\<rparr> @ [r29, r30], ra_signed = 0\<rparr>"

lemmas run_eval = dwarf_eval fuel_numerals run_step_def run_extended_def advance_loc_def set_col_def
  run_loop.simps(2) run_loop.simps(2) [where fuel = "pred_numeral k" for k, folded numeral_eq_Suc]
  row_table.simps(2) row_table.simps(2) [where fuel = "pred_numeral k" for k, folded numeral_eq_Suc]

lemma sample_cie_run:
  "run_program sample_section 17 3 4 (- 8) (- 1) 0
     \<lparr>cfa_reg = 0, cfa_off = 0, cols = (replicate 31 \<lparr>kind = CFI_UNDEF, roff = 0\<rparr>)
        [30 := \<lparr>kind = CFI_SAME, roff = 0\<rparr>], ra_signed = 0\<rparr> None [] =
   Some (Rc_ok (sample_row 0 \<lparr>kind = CFI_UNDEF, roff = 0\<rparr> \<lparr>kind = CFI_SAME, roff = 0\<rparr>, []))"
  unfolding sample_section_def run_program_def sample_row_def sample_eh_frame_def
  by (simp add: run_eval) (simp add: numeral_eq_Suc)

lemma sample_rows:
  "fde_rows sample_section (hd (fdes sample_section)) = Some (Rc_ok
     [(0x2000, sample_row 0 \<lparr>kind = CFI_UNDEF, roff = 0\<rparr> \<lparr>kind = CFI_SAME, roff = 0\<rparr>),
      (0x2004, sample_row 16 \<lparr>kind = CFI_AT_CFA, roff = - 16\<rparr> \<lparr>kind = CFI_AT_CFA, roff = - 8\<rparr>)])"
proof -
  have "cfi_read_cie sample_section 0 = parse_cie sample_eh_frame 44 0"
    by (simp add: cfi_read_cie_def sample_section_def)
  moreover have "row_table 45 4 (- 8) ini 44
     ((dwarf_cur_init sample_eh_frame 44)\<lparr>cpos := 37\<rparr>) 0x2000
     (sample_row 0 \<lparr>kind = CFI_UNDEF, roff = 0\<rparr> \<lparr>kind = CFI_SAME, roff = 0\<rparr>) [] = Some (Rc_ok
     [(0x2000, sample_row 0 \<lparr>kind = CFI_UNDEF, roff = 0\<rparr> \<lparr>kind = CFI_SAME, roff = 0\<rparr>),
      (0x2004, sample_row 16 \<lparr>kind = CFI_AT_CFA, roff = - 16\<rparr> \<lparr>kind = CFI_AT_CFA, roff = - 8\<rparr>)])" for ini
    unfolding sample_row_def sample_eh_frame_def by (simp add: run_eval list_update_append)
  ultimately show ?thesis
    using sample_cie_run
    unfolding fde_rows_def
    by (simp add: sample_parse_cie) (simp add: sample_section_def)
qed

lemma sample_run:
  "cfi_run_program sample_section 0x2010 = Some (Rc_ok
     (sample_row 16 \<lparr>kind = CFI_AT_CFA, roff = - 16\<rparr> \<lparr>kind = CFI_AT_CFA, roff = - 8\<rparr>))"
proof -
  have "cfi_lookup sample_section 0x2010 = Some (hd (fdes sample_section))" "pc_lo (hd (fdes sample_section)) = 0x2000"
    using cfi_lookup_find [of sample_section "0x2010"] sample_section_wf
    by (simp_all add: section_wf_def) (simp_all add: sample_section_def fdes_disjoint_def fde_covers_def)
  from run_program_rows [OF this(1) _ sample_rows] this(2) show ?thesis
    by (simp add: row_at_def)
qed

lemma cfi_run_program_row_witness:
  "cfi_run_program sample_section 0x2010 = Some (Rc_ok (row_at 0x2010
     [(0x2000, sample_row 0 \<lparr>kind = CFI_UNDEF, roff = 0\<rparr> \<lparr>kind = CFI_SAME, roff = 0\<rparr>),
      (0x2004, sample_row 16 \<lparr>kind = CFI_AT_CFA, roff = - 16\<rparr> \<lparr>kind = CFI_AT_CFA, roff = - 8\<rparr>)]))"
proof -
  have "cfi_lookup sample_section 0x2010 = Some (hd (fdes sample_section))"
    using cfi_lookup_find [of sample_section "0x2010"] sample_section_wf
    by (simp add: section_wf_def) (simp add: sample_section_def fdes_disjoint_def fde_covers_def)
  from cfi_run_program_row [OF sample_section_wf this sample_rows] show ?thesis by simp
qed

text \<open>A stack window of 32 bytes at \<open>0x7000\<close>: \<open>x29\<close> at its start, a return address after it.\<close>

definition sample_stack :: bytes where
  "sample_stack = [0x30, 0x71, 0, 0, 0, 0, 0, 0,  0x44, 0x33, 0, 0, 0, 0, 0, 0] @ replicate 16 0"

definition sample_frame :: frame where
  "sample_frame = \<lparr>fx = replicate 29 5 @ [5, 5], fsp = 0x7000, fpc = 0x2010\<rparr>"

lemma length_sample_frame: "length (fx sample_frame) = CFI_NREG"
  by (simp add: sample_frame_def)

lemma sample_unwind:
  "unwind_row (sample_row 16 \<lparr>kind = CFI_AT_CFA, roff = - 16\<rparr> \<lparr>kind = CFI_AT_CFA, roff = - 8\<rparr>)
     sample_stack 0x7000 sample_frame =
   Some \<lparr>fx = replicate 29 5 @ [0x7130, 0x3344], fsp = 0x7010, fpc = 0x3344\<rparr>"
  by (simp add: unwind_row_def row_cfa_def return_addr_def sample_row_def sample_frame_def sample_stack_def
      in_window_def slot_def restored_def nth_append)

lemma cfi_step_refines_witness:
  "\<exists>d. cfi_step sample_section 0x2010 sample_frame sample_stack 0x7000 (length sample_stack) =
     Some (True, \<lparr>fx = replicate 29 5 @ [0x7130, 0x3344], fsp = 0x7010, fpc = 0x3344\<rparr>, d)"
  using cfi_step_refines [OF sample_section_wf, of sample_frame "0x2010" sample_stack "0x7000"]
  by (auto simp: sample_run sample_unwind step_refines_def length_sample_frame)

end
