(* ===== verification/Evqueue.thy ===== *)
theory Evqueue
  imports Anubee_Prelude
begin

unbundle bit_operations_syntax

text \<open>
  \<open>src/src/common/evqueue.c\<close>: the byte ring that decouples the ring-buffer callback (producer)
  from the worker thread (consumer). A record is framed as four length bytes and its payload.

  \<^item> \<open>struct anubee_evq\<close> is the record \<open>anubee_evq\<close>; the mutex makes each critical section one
    atomic step, so the operations are functions on the record, and a run of the two threads is a
    sequence of such steps (\<open>evq_step\<close>).
  \<^item> \<open>anubee_evq_pop\<close> blocks on the condition variable while the queue is empty and not done:
    \<open>Pop_wait\<close> is the thread parked there; when it is woken it runs the loop again.
  \<^item> each turn of the loop takes a frame of at least four bytes out of the ring, so \<open>Suc used\<close>
    turns are enough.
\<close>

record anubee_evq =
  qbuf :: bytes
  cap :: nat
  head :: nat
  tail :: nat
  used :: nat
  qdone :: bool
  dropped :: u64
  pushed :: u64
  popped :: u64

definition q_in :: "anubee_evq \<Rightarrow> bytes \<Rightarrow> anubee_evq option" where
  "q_in q src = do {
     let n = length src;
     let f = min (szsub (cap q) (head q)) n;
     b \<leftarrow> store_bytes (qbuf q) (head q) (take f src);
     b \<leftarrow> (if n > f then store_bytes b 0 (drop f src) else Some b);
     Some (q\<lparr>qbuf := b, head := szadd (head q) n mod cap q, used := szadd (used q) n\<rparr>)
   }"

definition q_out :: "anubee_evq \<Rightarrow> nat \<Rightarrow> (bytes \<times> anubee_evq) option" where
  "q_out q n = do {
     let f = min (szsub (cap q) (tail q)) n;
     a \<leftarrow> load_bytes (qbuf q) (tail q) f;
     b \<leftarrow> (if n > f then load_bytes (qbuf q) 0 (n - f) else Some []);
     Some (a @ b, q\<lparr>tail := szadd (tail q) n mod cap q, used := szsub (used q) n\<rparr>)
   }"

text \<open>\<open>fresh\<close> is what \<open>malloc\<close> returns: nothing, or a buffer of \<open>sz\<close> indeterminate bytes.\<close>

definition anubee_evq_init :: "bytes option \<Rightarrow> nat \<Rightarrow> anubee_evq rc" where
  "anubee_evq_init fresh sz =
     (case fresh of None \<Rightarrow> Rc_err
      | Some b \<Rightarrow> Rc_ok \<lparr>qbuf = b, cap = sz, head = 0, tail = 0, used = 0, qdone = False,
          dropped = 0, pushed = 0, popped = 0\<rparr>)"

definition anubee_evq_push :: "anubee_evq \<Rightarrow> bytes \<Rightarrow> (bool \<times> anubee_evq) option" where
  "anubee_evq_push q rec = do {
     let len = length rec;
     let s = (of_nat len :: u32);
     let total = szadd 4 len;
     (if szsub (cap q) (used q) < total
      then Some (False, q\<lparr>dropped := dropped q + 1\<rparr>)
      else do {
        q \<leftarrow> q_in q (le_bytes 4 s);
        q \<leftarrow> q_in q rec;
        Some (True, q\<lparr>pushed := pushed q + 1\<rparr>)
      })
   }"

datatype pop_result = Pop_wait | Pop_done | Pop_rec bytes

fun evq_pop_loop :: "nat \<Rightarrow> anubee_evq \<Rightarrow> nat \<Rightarrow> (pop_result \<times> anubee_evq) option" where
  "evq_pop_loop 0 q outcap = None"
| "evq_pop_loop (Suc fuel) q outcap =
     (if used q = 0 \<and> \<not> qdone q then Some (Pop_wait, q)
      else if used q = 0 \<and> qdone q then Some (Pop_done, q)
      else do {
        (b, q) \<leftarrow> q_out q 4;
        let sz = unat (le_word b :: u32);
        (if sz \<le> outcap then do {
           (out, q) \<leftarrow> q_out q sz;
           Some (Pop_rec out, q\<lparr>popped := popped q + 1\<rparr>)
         }
         else evq_pop_loop fuel
           (q\<lparr>tail := szadd (tail q) sz mod cap q, used := szsub (used q) sz, dropped := dropped q + 1\<rparr>) outcap)
      })"

definition anubee_evq_pop :: "anubee_evq \<Rightarrow> nat \<Rightarrow> (pop_result \<times> anubee_evq) option" where
  "anubee_evq_pop q outcap = evq_pop_loop (Suc (used q)) q outcap"

text \<open>The producer's teardown: \<open>q.done = 1\<close> under the lock, then a signal.\<close>

definition evq_finish :: "anubee_evq \<Rightarrow> anubee_evq" where
  "evq_finish q = q\<lparr>qdone := True\<rparr>"

declare evq_pop_loop.simps [simp del]

section \<open>A byte ring as an interface\<close>

text \<open>What the framing relies on: bytes come out in the order they went in.\<close>

locale byte_ring =
  fixes ok :: "'q \<Rightarrow> bool"
    and content :: "'q \<Rightarrow> bytes"
    and room :: "'q \<Rightarrow> nat"
    and put :: "'q \<Rightarrow> bytes \<Rightarrow> 'q option"
    and get :: "'q \<Rightarrow> nat \<Rightarrow> (bytes \<times> 'q) option"
  assumes put_safe: "ok q \<Longrightarrow> length bs \<le> room q \<Longrightarrow>
      safe (put q bs) (\<lambda>q'. ok q' \<and> content q' = content q @ bs \<and> room q' + length bs = room q)"
    and get_safe: "ok q \<Longrightarrow> n \<le> length (content q) \<Longrightarrow>
      safe (get q n) (\<lambda>(bs, q'). ok q' \<and> bs = take n (content q) \<and> content q' = drop n (content q))"
begin

text \<open>Two consecutive writes append both blocks; reading the first block's length gives it back.\<close>

lemma put_put:
  assumes "ok q" "length a + length b \<le> room q"
  shows "safe (Option.bind (put q a) (\<lambda>q. put q b))
    (\<lambda>q'. ok q' \<and> content q' = content q @ a @ b \<and> room q' + length a + length b = room q)"
  unfolding safe_bind
proof (rule safe_mono [OF put_safe [OF assms(1), of a]])
  show "length a \<le> room q" using assms(2) by simp
  fix q1 assume q1: "ok q1 \<and> content q1 = content q @ a \<and> room q1 + length a = room q"
  then have "length b \<le> room q1" using assms(2) by linarith
  then show "safe (put q1 b) (\<lambda>q'. ok q' \<and> content q' = content q @ a @ b \<and> room q' + length a + length b = room q)"
    using q1 by (intro safe_mono [OF put_safe]) auto
qed

lemma get_prefix:
  assumes "ok q" "content q = a @ b"
  shows "safe (get q (length a)) (\<lambda>(bs, q'). ok q' \<and> bs = a \<and> content q' = b)"
  using get_safe [OF assms(1), of "length a"] assms(2) by simp

end

section \<open>The ring invariant\<close>

definition evq_ok :: "anubee_evq \<Rightarrow> bool" where
  "evq_ok q \<longleftrightarrow> 0 < cap q \<and> length (qbuf q) = cap q \<and> obj_bytes (qbuf q) \<and> tail q < cap q \<and>
     used q \<le> cap q \<and> head q = (tail q + used q) mod cap q"

text \<open>The bytes in the ring, oldest first.\<close>

definition ring :: "anubee_evq \<Rightarrow> bytes" where
  "ring q = take (used q) (rotate (tail q) (qbuf q))"

definition ring_room :: "anubee_evq \<Rightarrow> nat" where
  "ring_room q = cap q - used q"

text \<open>The two-part copy of \<open>q_in\<close>, index by index around the ring.\<close>

lemma store_wrap:
  assumes "h < c" "length b = c" "length src = n" "n \<le> c" "f = min (c - h) n"
    and b1: "b1 = take h b @ take f src @ drop (h + f) b"
    and b2: "b2 = (if n > f then drop f src @ drop (n - f) b1 else b1)"
    and j: "j < c"
  shows "b2 ! ((h + j) mod c) = (if j < n then src ! j else b ! ((h + j) mod c))"
proof -
  have i: "(h + j) mod c = (if h + j < c then h + j else h + j - c)"
    using assms(1) j by (simp add: mod_if)
  show ?thesis
    using assms(1-4) j unfolding i b2 b1 assms(5)
    by (auto simp: nth_append min_def)
qed

lemma load_wrap:
  assumes "t < c" "length b = c" "n \<le> c" "f = min (c - t) n"
  shows "take f (drop t b) @ (if n > f then take (n - f) b else []) = take n (rotate t b)"
  using assms by (cases "c - t \<le> n") (auto simp: rotate_drop_take min_def)

lemma q_in_safe:
  assumes "evq_ok q" "length src \<le> ring_room q"
  shows "safe (q_in q src) (\<lambda>q'. evq_ok q' \<and> ring q' = ring q @ src \<and> ring_room q' + length src = ring_room q)"
proof -
  let ?c = "cap q" and ?h = "head q" and ?n = "length src"
  define f where "f = min (?c - ?h) ?n"
  define b1 where "b1 = take ?h (qbuf q) @ take f src @ drop (?h + f) (qbuf q)"
  define b2 where "b2 = (if ?n > f then drop f src @ drop (?n - f) b1 else b1)"
  have q: "0 < ?c" "length (qbuf q) = ?c" "?c < 2 ^ 63" "tail q < ?c" "used q \<le> ?c"
    "?h = (tail q + used q) mod ?c" "?n \<le> ?c - used q"
    using assms by (auto simp: evq_ok_def obj_bytes_def ring_room_def)
  have h: "?h < ?c" using q(1,6) by simp
  have lb: "length b2 = ?c" "f \<le> ?n" "?h + f \<le> ?c" "?n - f \<le> ?c"
    using h q(2,5,7) by (auto simp: b2_def b1_def f_def min_def)
  have sz: "szsub ?c ?h = ?c - ?h" "szadd ?h ?n = ?h + ?n" "szadd (used q) ?n = used q + ?n"
    using h q(3,5,7) by (simp_all add: szsub_ge)
  have run: "q_in q src = Some (q\<lparr>qbuf := b2, head := (?h + ?n) mod ?c, used := used q + ?n\<rparr>)"
    using lb q(2) h
    by (auto simp: q_in_def Let_def sz f_def [symmetric] store_bytes_def b2_def b1_def)
  have nth: "b2 ! ((?h + j) mod ?c) = (if j < ?n then src ! j else qbuf q ! ((?h + j) mod ?c))" if "j < ?c" for j
    using store_wrap [OF h q(2) refl _ f_def b1_def b2_def that] q(7) by simp
  have old: "b2 ! ((tail q + k) mod ?c) = qbuf q ! ((tail q + k) mod ?c)" if "k < used q" for k
  proof -
    have "(?h + (?c - used q + k)) mod ?c = (tail q + used q + (?c - used q + k)) mod ?c"
      by (simp add: q(6) mod_simps)
    also have "tail q + used q + (?c - used q + k) = tail q + k + ?c" using q(5) by simp
    also have "(tail q + k + ?c) mod ?c = (tail q + k) mod ?c" by (rule mod_add_self2)
    finally have e: "(?h + (?c - used q + k)) mod ?c = (tail q + k) mod ?c" .
    have "?c - used q + k < ?c" and ge: "\<not> ?c - used q + k < ?n" using that q(5,7) by linarith+
    from nth [OF this(1)] show ?thesis by (simp only: e if_not_P [OF ge])
  qed
  have new: "b2 ! ((tail q + i) mod ?c) = src ! (i - used q)" if "\<not> i < used q" "i < used q + ?n" for i
  proof -
    have "(?h + (i - used q)) mod ?c = (tail q + used q + (i - used q)) mod ?c"
      by (simp only: q(6) mod_add_left_eq)
    also have "tail q + used q + (i - used q) = tail q + i" using that by simp
    finally have e: "(?h + (i - used q)) mod ?c = (tail q + i) mod ?c" .
    have "i - used q < ?c" and lt: "i - used q < ?n" using that q(5,7) by linarith+
    from nth [OF this(1)] show ?thesis by (simp only: e if_P [OF lt])
  qed
  have "take (used q + ?n) (rotate (tail q) b2) = take (used q) (rotate (tail q) (qbuf q)) @ src"
    using q(2,5,7) lb(1) old new
    by (intro nth_equalityI) (auto simp: nth_append nth_rotate)
  then show ?thesis
    using q lb(1)
    by (auto simp: run evq_ok_def ring_def ring_room_def obj_bytes_def mod_simps add.assoc)
qed

lemma ring_length: "evq_ok q \<Longrightarrow> length (ring q) = used q"
  by (simp add: evq_ok_def ring_def)

text \<open>Moving the tail: what \<open>q_out\<close> and the draining of an oversized record do.\<close>

lemma ring_advance:
  assumes "evq_ok q" "n \<le> used q"
    and "q' = q\<lparr>tail := szadd (tail q) n mod cap q, used := szsub (used q) n\<rparr>"
  shows "evq_ok q'" "ring q' = drop n (ring q)"
proof -
  let ?c = "cap q"
  have q: "0 < ?c" "length (qbuf q) = ?c" "?c < 2 ^ 63" "tail q < ?c" "used q \<le> ?c"
    "head q = (tail q + used q) mod ?c"
    using assms(1) by (auto simp: evq_ok_def obj_bytes_def)
  have sz: "szadd (tail q) n = tail q + n" "szsub (used q) n = used q - n"
    using q assms(2) by (simp_all add: szsub_ge)
  have "((tail q + n) mod ?c + (used q - n)) mod ?c = (tail q + used q) mod ?c"
    using assms(2) mod_add_left_eq [of "tail q + n" ?c "used q - n"] by simp
  then show "evq_ok q'"
    using q assms(2) by (auto simp: evq_ok_def assms(3) sz obj_bytes_def)
  show "ring q' = drop n (ring q)"
    using q assms(2)
    by (intro nth_equalityI) (auto simp: ring_def assms(3) sz nth_rotate mod_simps add.assoc)
qed

lemma q_out_safe:
  assumes "evq_ok q" "n \<le> length (ring q)"
  shows "safe (q_out q n) (\<lambda>(bs, q'). evq_ok q' \<and> bs = take n (ring q) \<and> ring q' = drop n (ring q))"
proof -
  let ?c = "cap q"
  have q: "length (qbuf q) = ?c" "?c < 2 ^ 63" "tail q < ?c" "used q \<le> ?c" "n \<le> used q"
    using assms by (auto simp: evq_ok_def obj_bytes_def ring_length)
  have sz: "szsub ?c (tail q) = ?c - tail q" using q by (simp add: szsub_ge)
  have "q_out q n = Some (take n (rotate (tail q) (qbuf q)),
      q\<lparr>tail := szadd (tail q) n mod ?c, used := szsub (used q) n\<rparr>)"
    using load_wrap [OF q(3,1) _ refl, of n] q
    by (auto simp: q_out_def Let_def sz split: if_splits)
  then show ?thesis
    using ring_advance [OF assms(1) q(5) refl] q(5) by (simp add: ring_def min_def)
qed

interpretation evq_ring: byte_ring evq_ok ring ring_room q_in q_out
  by unfold_locales (rule q_in_safe q_out_safe; assumption)+

section \<open>Framed records\<close>

definition frame_rec :: "bytes \<Rightarrow> bytes" where
  "frame_rec r = le_bytes 4 (of_nat (length r) :: u32) @ r"

definition frames :: "bytes list \<Rightarrow> bytes" where
  "frames rs = concat (map frame_rec rs)"

text \<open>The abstract queue: the records in the ring, oldest first.\<close>

definition evq_rel :: "anubee_evq \<Rightarrow> bytes list \<Rightarrow> bool" where
  "evq_rel q rs \<longleftrightarrow> evq_ok q \<and> ring q = frames rs \<and> (\<forall>r \<in> set rs. length r < 2 ^ 32)"

definition fits :: "nat \<Rightarrow> bytes \<Rightarrow> bool" where
  "fits outcap r \<longleftrightarrow> length r \<le> outcap"

definition spec_pop :: "nat \<Rightarrow> bool \<Rightarrow> bytes list \<Rightarrow> pop_result \<times> bytes list" where
  "spec_pop outcap d rs =
     (case dropWhile (\<lambda>r. \<not> fits outcap r) rs of
        [] \<Rightarrow> (if d then Pop_done else Pop_wait, [])
      | r # rs' \<Rightarrow> (Pop_rec r, rs'))"

definition spec_skipped :: "nat \<Rightarrow> bytes list \<Rightarrow> nat" where
  "spec_skipped outcap rs = length (takeWhile (\<lambda>r. \<not> fits outcap r) rs)"

definition spec_taken :: "pop_result \<Rightarrow> nat" where
  "spec_taken res = (case res of Pop_rec _ \<Rightarrow> 1 | _ \<Rightarrow> 0)"

lemma frames_simps [simp]: "frames [] = []" "frames (r # rs) = frame_rec r @ frames rs"
  "frames (rs @ rs') = frames rs @ frames rs'"
  by (simp_all add: frames_def)

lemma length_frame_rec [simp]: "length (frame_rec r) = 4 + length r"
  by (simp add: frame_rec_def)

lemma frame_len_word: "length r < 2 ^ 32 \<Longrightarrow> unat (le_word (le_bytes 4 (of_nat (length r) :: u32)) :: u32) = length r"
  by (simp add: le_word_le_bytes take_bit_word_eq_self unat_of_nat take_bit_nat_eq_self)

lemma q_in_fields:
  assumes "q_in q src = Some q'"
  shows "cap q' = cap q \<and> qdone q' = qdone q \<and> dropped q' = dropped q \<and> pushed q' = pushed q \<and> popped q' = popped q"
  using assms by (auto simp: q_in_def Let_def bind_eq_Some_conv split: if_splits)

lemma q_out_fields:
  assumes "q_out q n = Some (b, q')"
  shows "cap q' = cap q \<and> qdone q' = qdone q \<and> dropped q' = dropped q \<and> pushed q' = pushed q \<and> popped q' = popped q"
  using assms by (auto simp: q_out_def Let_def bind_eq_Some_conv split: if_splits)

lemma evq_ok_counters [simp]:
  "evq_ok (q\<lparr>dropped := a\<rparr>) = evq_ok q" "ring (q\<lparr>dropped := a\<rparr>) = ring q"
  "evq_ok (q\<lparr>pushed := a\<rparr>) = evq_ok q" "ring (q\<lparr>pushed := a\<rparr>) = ring q"
  "evq_ok (q\<lparr>popped := a\<rparr>) = evq_ok q" "ring (q\<lparr>popped := a\<rparr>) = ring q"
  "evq_ok (q\<lparr>qdone := d\<rparr>) = evq_ok q" "ring (q\<lparr>qdone := d\<rparr>) = ring q"
  by (simp_all add: evq_ok_def ring_def)

lemma evq_room: "evq_rel q rs \<Longrightarrow> ring_room q = cap q - length (frames rs)"
  using ring_length [of q] by (simp add: evq_rel_def ring_room_def)

lemma push_refines:
  assumes "evq_rel q rs" "obj_bytes rec" "cap q \<le> 2 ^ 32"
  shows "safe (anubee_evq_push q rec) (\<lambda>(okay, q').
    cap q' = cap q \<and> qdone q' = qdone q \<and> popped q' = popped q \<and>
    (if 4 + length rec \<le> cap q - length (frames rs)
     then okay \<and> evq_rel q' (rs @ [rec]) \<and> pushed q' = pushed q + 1 \<and> dropped q' = dropped q
     else \<not> okay \<and> evq_rel q' rs \<and> pushed q' = pushed q \<and> dropped q' = dropped q + 1))"
proof -
  have q: "evq_ok q" "used q \<le> cap q" "cap q < 2 ^ 63" "ring q = frames rs"
    using assms(1) by (auto simp: evq_rel_def evq_ok_def obj_bytes_def)
  have sz: "szadd 4 (length rec) = 4 + length rec" "szsub (cap q) (used q) = cap q - length (frames rs)"
    using assms(2) q ring_length [OF q(1)] by (simp_all add: obj_bytes_def szsub_ge)
  show ?thesis
  proof (cases "4 + length rec \<le> cap q - length (frames rs)")
    case True
    have "4 + length rec \<le> ring_room q" using True evq_room [OF assms(1)] by simp
    then obtain q2 q1 where run: "q_in q (le_bytes 4 (of_nat (length rec) :: u32)) = Some q1" "q_in q1 rec = Some q2"
      and q2: "evq_ok q2" "ring q2 = frames rs @ frame_rec rec"
      using evq_ring.put_put [OF q(1), of "le_bytes 4 (of_nat (length rec) :: u32)" rec]
      by (auto simp: safe_iff bind_eq_Some_conv frame_rec_def q(4))
    have "evq_rel q2 (rs @ [rec])"
      using assms(1,3) True q2 by (auto simp: evq_rel_def)
    then show ?thesis
      using True run q_in_fields [OF run(1)] q_in_fields [OF run(2)]
      by (auto simp: anubee_evq_push_def Let_def sz evq_rel_def not_less)
  next
    case False
    then show ?thesis using assms(1) by (auto simp: anubee_evq_push_def Let_def sz evq_rel_def not_le)
  qed
qed

lemma spec_skip:
  assumes "\<not> fits outcap r"
  shows "spec_pop outcap d (r # rs) = spec_pop outcap d rs"
    "spec_skipped outcap (r # rs) = Suc (spec_skipped outcap rs)"
  using assms by (simp_all add: spec_pop_def spec_skipped_def)

lemma pop_refines_loop:
  assumes "evq_rel q rs" "length (frames rs) < fuel"
  shows "safe (evq_pop_loop fuel q outcap) (\<lambda>(res, q').
    cap q' = cap q \<and> qdone q' = qdone q \<and> pushed q' = pushed q \<and>
    fst (spec_pop outcap (qdone q) rs) = res \<and> evq_rel q' (snd (spec_pop outcap (qdone q) rs)) \<and>
    dropped q' = dropped q + of_nat (spec_skipped outcap rs) \<and>
    popped q' = popped q + of_nat (spec_taken res))"
  using assms
proof (induction fuel arbitrary: q rs)
  case (Suc fuel)
  have ok: "evq_ok q" "used q = length (frames rs)" "ring q = frames rs"
    using Suc.prems(1) ring_length [of q] by (auto simp: evq_rel_def)
  show ?case
  proof (cases rs)
    case Nil
    then show ?thesis
      using Suc.prems(1) ok
      by (simp add: evq_pop_loop.simps spec_pop_def spec_skipped_def spec_taken_def)
  next
    case (Cons r rs')
    have r: "length r < 2 ^ 32" and rs': "\<forall>r \<in> set rs'. length r < 2 ^ 32"
      using Suc.prems(1) Cons by (auto simp: evq_rel_def)
    let ?hdr = "le_bytes 4 (of_nat (length r) :: u32)"
    obtain q1 where q1: "q_out q 4 = Some (?hdr, q1)" "evq_ok q1" "ring q1 = r @ frames rs'"
      using evq_ring.get_prefix [OF ok(1), of ?hdr "r @ frames rs'"] ok(3) Cons
      by (auto simp: safe_iff frame_rec_def)
    note f1 = q_out_fields [OF q1(1)]
    have used: "used q \<noteq> 0" using ok(2) Cons by simp
    show ?thesis
    proof (cases "fits outcap r")
      case True
      obtain q2 where q2: "q_out q1 (length r) = Some (r, q2)" "evq_ok q2" "ring q2 = frames rs'"
        using evq_ring.get_prefix [OF q1(2,3)] by (auto simp: safe_iff)
      show ?thesis
        using True q1(1) q2 used f1 q_out_fields [OF q2(1)] rs' Cons
        by (simp add: evq_pop_loop.simps frame_len_word [OF r, simplified] fits_def evq_rel_def
            spec_pop_def spec_skipped_def spec_taken_def)
    next
      case False
      define q2 where "q2 = q1\<lparr>tail := szadd (tail q1) (length r) mod cap q1, used := szsub (used q1) (length r)\<rparr>"
      have "length r \<le> used q1" using ring_length [OF q1(2)] q1(3) by simp
      from ring_advance [OF q1(2) this q2_def]
      have rel: "evq_rel (q2\<lparr>dropped := dropped q1 + 1\<rparr>) rs'"
        using q1(3) rs' by (simp add: evq_rel_def)
      have loop: "evq_pop_loop (Suc fuel) q outcap = evq_pop_loop fuel (q2\<lparr>dropped := dropped q1 + 1\<rparr>) outcap"
        using False q1(1) used
        by (simp add: evq_pop_loop.simps frame_len_word [OF r, simplified] fits_def q2_def Let_def)
      have f2: "cap q2 = cap q" "qdone q2 = qdone q" "pushed q2 = pushed q" "popped q2 = popped q"
        using f1 by (simp_all add: q2_def)
      show ?thesis
        unfolding loop
        by (rule safe_mono [OF Suc.IH [OF rel]])
           (use Suc.prems(2) Cons False f1 f2 in \<open>auto simp: spec_skip\<close>)
    qed
  qed
qed simp

lemma pop_refines:
  assumes "evq_rel q rs"
  shows "safe (anubee_evq_pop q outcap) (\<lambda>(res, q').
    cap q' = cap q \<and> qdone q' = qdone q \<and> pushed q' = pushed q \<and>
    fst (spec_pop outcap (qdone q) rs) = res \<and> evq_rel q' (snd (spec_pop outcap (qdone q) rs)) \<and>
    dropped q' = dropped q + of_nat (spec_skipped outcap rs) \<and>
    popped q' = popped q + of_nat (spec_taken res))"
  unfolding anubee_evq_pop_def
  using pop_refines_loop [OF assms, of "Suc (used q)" outcap] assms ring_length [of q]
  by (simp add: evq_rel_def)

section \<open>Producer and consumer\<close>

text \<open>The two threads, one critical section at a time, with the history a test would keep: the records
  whose push succeeded, the records handed to the worker, and how often a push was refused.\<close>

record evq_sys =
  sq :: anubee_evq
  accepted :: "bytes list"
  delivered :: "bytes list"
  refused :: nat

inductive evq_step :: "nat \<Rightarrow> evq_sys \<Rightarrow> evq_sys \<Rightarrow> bool" for outcap where
  push_ok: "obj_bytes r \<Longrightarrow> anubee_evq_push (sq s) r = Some (True, q') \<Longrightarrow>
    evq_step outcap s (s\<lparr>sq := q', accepted := accepted s @ [r]\<rparr>)"
| push_full: "obj_bytes r \<Longrightarrow> anubee_evq_push (sq s) r = Some (False, q') \<Longrightarrow>
    evq_step outcap s (s\<lparr>sq := q', refused := Suc (refused s)\<rparr>)"
| pop_rec: "anubee_evq_pop (sq s) outcap = Some (Pop_rec r, q') \<Longrightarrow>
    evq_step outcap s (s\<lparr>sq := q', delivered := delivered s @ [r]\<rparr>)"
| pop_none: "anubee_evq_pop (sq s) outcap = Some (res, q') \<Longrightarrow> res = Pop_wait \<or> res = Pop_done \<Longrightarrow>
    evq_step outcap s (s\<lparr>sq := q'\<rparr>)"
| finish: "evq_step outcap s (s\<lparr>sq := evq_finish (sq s)\<rparr>)"

definition sys_init :: "anubee_evq \<Rightarrow> evq_sys" where
  "sys_init q = \<lparr>sq = q, accepted = [], delivered = [], refused = 0\<rparr>"

text \<open>What is true after any run: the accepted records are the ones already taken out followed by
  the ones still in the ring; those taken out were delivered, in order, unless too large.\<close>

definition sys_inv :: "nat \<Rightarrow> nat \<Rightarrow> evq_sys \<Rightarrow> bool" where
  "sys_inv outcap n s \<longleftrightarrow> (\<exists>taken pending. accepted s = taken @ pending \<and>
     delivered s = filter (fits outcap) taken \<and> evq_rel (sq s) pending \<and> cap (sq s) = n \<and>
     pushed (sq s) = of_nat (length (accepted s)) \<and> popped (sq s) = of_nat (length (delivered s)) \<and>
     dropped (sq s) = of_nat (refused s + length (filter (\<lambda>r. \<not> fits outcap r) taken)))"

lemma evq_init_rel:
  assumes "anubee_evq_init (Some b) n = Rc_ok q" "length b = n" "0 < n" "n \<le> 2 ^ 32"
  shows "evq_rel q []" "sys_inv outcap n (sys_init q)"
  using assms
  by (auto simp: anubee_evq_init_def evq_rel_def evq_ok_def ring_def obj_bytes_def sys_inv_def sys_init_def)

lemma spec_pop_split:
  assumes "spec_pop outcap d rs = (res, rs')"
  obtains sk where "filter (fits outcap) sk = (case res of Pop_rec r \<Rightarrow> [r] | _ \<Rightarrow> [])" "rs = sk @ rs'"
    "length sk = spec_skipped outcap rs + spec_taken res"
proof (cases "dropWhile (\<lambda>r. \<not> fits outcap r) rs")
  case Nil
  then have "\<forall>r \<in> set rs. \<not> fits outcap r" by simp
  with assms Nil show thesis
    by (intro that [of rs]) (auto simp: spec_pop_def spec_skipped_def spec_taken_def filter_empty_conv
        takeWhile_eq_all_conv [THEN iffD2] split: if_splits)
next
  case (Cons r rs'')
  let ?tw = "takeWhile (\<lambda>r. \<not> fits outcap r) rs"
  have "rs = (?tw @ [r]) @ rs''" using takeWhile_dropWhile_id [of "\<lambda>r. \<not> fits outcap r" rs] Cons by simp
  moreover have "filter (fits outcap) ?tw = []" by (auto simp: filter_empty_conv dest: set_takeWhileD)
  moreover have "fits outcap r" using hd_dropWhile [of "\<lambda>r. \<not> fits outcap r" rs] Cons by auto
  ultimately show thesis
    using assms Cons by (intro that [of "?tw @ [r]"]) (auto simp: spec_pop_def spec_skipped_def spec_taken_def)
qed

lemma sys_inv_pop:
  assumes inv: "sys_inv outcap n s" and pop: "anubee_evq_pop (sq s) outcap = Some (res, q')"
  shows "sys_inv outcap n (s\<lparr>sq := q', delivered := delivered s @ (case res of Pop_rec r \<Rightarrow> [r] | _ \<Rightarrow> [])\<rparr>)"
proof -
  obtain taken pending where h: "accepted s = taken @ pending" "delivered s = filter (fits outcap) taken"
    "evq_rel (sq s) pending" "cap (sq s) = n" "pushed (sq s) = of_nat (length (accepted s))"
    "popped (sq s) = of_nat (length (delivered s))"
    "dropped (sq s) = of_nat (refused s + length (filter (\<lambda>r. \<not> fits outcap r) taken))"
    using inv unfolding sys_inv_def by blast
  obtain p' where sp: "spec_pop outcap (qdone (sq s)) pending = (res, p')"
    and q': "evq_rel q' p'" "cap q' = n" "pushed q' = pushed (sq s)"
      "dropped q' = dropped (sq s) + of_nat (spec_skipped outcap pending)"
      "popped q' = popped (sq s) + of_nat (spec_taken res)"
    using pop_refines [OF h(3), of outcap] pop h(4) by (auto simp: safe_iff prod_eq_iff)
  obtain sk where sk: "filter (fits outcap) sk = (case res of Pop_rec r \<Rightarrow> [r] | _ \<Rightarrow> [])" "pending = sk @ p'"
    "length sk = spec_skipped outcap pending + spec_taken res"
    by (rule spec_pop_split [OF sp])
  have t: "length (filter (fits outcap) sk) = spec_taken res" by (simp add: sk(1) spec_taken_def split: pop_result.split)
  then have "length (filter (\<lambda>r. \<not> fits outcap r) sk) = spec_skipped outcap pending"
    using sum_length_filter_compl [of "fits outcap" sk] sk(3) by simp
  then show ?thesis
    unfolding sys_inv_def using h q' sk t
    by (intro exI [of _ "taken @ sk"] exI [of _ p']) simp
qed

lemma sys_inv_push:
  assumes inv: "sys_inv outcap n s" and "n \<le> 2 ^ 32" "obj_bytes r"
    and push: "anubee_evq_push (sq s) r = Some (okay, q')"
  shows "sys_inv outcap n (if okay then s\<lparr>sq := q', accepted := accepted s @ [r]\<rparr>
    else s\<lparr>sq := q', refused := Suc (refused s)\<rparr>)"
proof -
  obtain taken pending where h: "accepted s = taken @ pending" "delivered s = filter (fits outcap) taken"
    "evq_rel (sq s) pending" "cap (sq s) = n" "pushed (sq s) = of_nat (length (accepted s))"
    "popped (sq s) = of_nat (length (delivered s))"
    "dropped (sq s) = of_nat (refused s + length (filter (\<lambda>r. \<not> fits outcap r) taken))"
    using inv unfolding sys_inv_def by blast
  have r: "cap q' = n" "popped q' = popped (sq s)"
    "if 4 + length r \<le> n - length (frames pending)
     then okay \<and> evq_rel q' (pending @ [r]) \<and> pushed q' = pushed (sq s) + 1 \<and> dropped q' = dropped (sq s)
     else \<not> okay \<and> evq_rel q' pending \<and> pushed q' = pushed (sq s) \<and> dropped q' = dropped (sq s) + 1"
    using push_refines [OF h(3) assms(3)] push h(4) assms(2) by (auto simp: safe_iff)
  show ?thesis
  proof (cases okay)
    case True
    then show ?thesis
      unfolding sys_inv_def using h r
      by (intro exI [of _ taken] exI [of _ "pending @ [r]"]) (simp split: if_splits)
  next
    case False
    then show ?thesis
      unfolding sys_inv_def using h r
      by (intro exI [of _ taken] exI [of _ pending]) (simp split: if_splits)
  qed
qed

lemma sys_inv_step:
  assumes "evq_step outcap s s'" "sys_inv outcap n s" "n \<le> 2 ^ 32"
  shows "sys_inv outcap n s'"
  using assms
proof cases
  case (push_ok r q')
  then show ?thesis using sys_inv_push [OF assms(2,3)] by fastforce
next
  case (push_full r q')
  then show ?thesis using sys_inv_push [OF assms(2,3)] by fastforce
next
  case (pop_rec r q')
  then show ?thesis using sys_inv_pop [OF assms(2)] by fastforce
next
  case (pop_none res q')
  then show ?thesis using sys_inv_pop [OF assms(2) pop_none(2)] by auto
next
  case finish
  then show ?thesis using assms(2) by (simp add: sys_inv_def evq_rel_def evq_finish_def)
qed

lemma sys_inv_steps:
  assumes "(evq_step outcap)\<^sup>*\<^sup>* s s'" "sys_inv outcap n s" "n \<le> 2 ^ 32"
  shows "sys_inv outcap n s'"
  using assms by (induction rule: rtranclp_induct) (auto intro: sys_inv_step)

text \<open>The worker loop, \<open>while (anubee_evq_pop(...)) handle(record)\<close>, after the producer has finished.\<close>

fun evq_worker :: "nat \<Rightarrow> anubee_evq \<Rightarrow> nat \<Rightarrow> bytes list option" where
  "evq_worker 0 q outcap = None"
| "evq_worker (Suc fuel) q outcap = do {
     (res, q) \<leftarrow> anubee_evq_pop q outcap;
     (case res of Pop_rec r \<Rightarrow> do { rs \<leftarrow> evq_worker fuel q outcap; Some (r # rs) }
      | Pop_done \<Rightarrow> Some []
      | Pop_wait \<Rightarrow> None)
   }"

declare evq_worker.simps [simp del]

lemma evq_worker_all:
  assumes "evq_rel q rs" "qdone q" "length rs < fuel"
  shows "evq_worker fuel q outcap = Some (filter (fits outcap) rs)"
  using assms
proof (induction fuel arbitrary: q rs)
  case (Suc fuel)
  obtain res p' q' where pop: "anubee_evq_pop q outcap = Some (res, q')" "spec_pop outcap True rs = (res, p')"
    "evq_rel q' p'" "qdone q'"
    using pop_refines [OF Suc.prems(1), of outcap] Suc.prems(2) by (auto simp: safe_iff prod_eq_iff)
  obtain sk where sk: "filter (fits outcap) sk = (case res of Pop_rec r \<Rightarrow> [r] | _ \<Rightarrow> [])" "rs = sk @ p'"
    "length sk = spec_skipped outcap rs + spec_taken res"
    by (rule spec_pop_split [OF pop(2)])
  show ?case
  proof (cases res)
    case (Pop_rec r)
    then have "evq_worker fuel q' outcap = Some (filter (fits outcap) p')"
      using Suc.prems(3) sk pop(3,4) by (intro Suc.IH) (auto simp: spec_taken_def)
    then show ?thesis using pop(1) Pop_rec sk by (simp add: evq_worker.simps)
  next
    case Pop_done
    then show ?thesis using pop(1,2) sk
      by (auto simp: spec_pop_def evq_worker.simps split: list.splits)
  next
    case Pop_wait
    then show ?thesis using pop(2) by (auto simp: spec_pop_def split: list.splits)
  qed
qed simp

section \<open>Properties\<close>

text \<open>C8: the byte ring implements a bounded first-in first-out queue of records. A push succeeds
  exactly when the frame fits into the free bytes, and then appends the record; otherwise it only
  counts a drop. A pop removes the oldest record that fits the caller's buffer, counting the larger
  ones before it as dropped; on an empty queue it waits, or reports the end once the queue is done.
  Neither touches memory outside the ring, for records that wrap around its end too.\<close>

theorem evq_refines_fifo:
  assumes "evq_rel q rs" "obj_bytes rec" "cap q \<le> 2 ^ 32"
  shows "(\<exists>okay q'. anubee_evq_push q rec = Some (okay, q') \<and>
      okay = (4 + length rec \<le> cap q - length (frames rs)) \<and>
      evq_rel q' (if okay then rs @ [rec] else rs) \<and>
      pushed q' = pushed q + of_bool okay \<and> dropped q' = dropped q + of_bool (\<not> okay)) \<and>
    (\<exists>res q'. anubee_evq_pop q outcap = Some (res, q') \<and>
      res = fst (spec_pop outcap (qdone q) rs) \<and> evq_rel q' (snd (spec_pop outcap (qdone q) rs)) \<and>
      dropped q' = dropped q + of_nat (spec_skipped outcap rs) \<and>
      popped q' = popped q + of_nat (spec_taken res))"
  using push_refines [OF assms] pop_refines [OF assms(1), of outcap]
  by (fastforce simp: safe_iff split: if_splits)

definition sample_q :: anubee_evq where
  "sample_q = \<lparr>qbuf = [0, 0, 0, 0, 0, 0, 0, 0, 0, 0, 0, 0], cap = 12, head = 0, tail = 0, used = 0, qdone = False,
     dropped = 0, pushed = 0, popped = 0\<rparr>"

definition sample_q1 :: anubee_evq where
  "sample_q1 = sample_q\<lparr>qbuf := [3, 0, 0, 0, 7, 8, 9, 0, 0, 0, 0, 0], head := 7, used := 7, pushed := 1\<rparr>"

lemma sample_q_init: "anubee_evq_init (Some ([0, 0, 0, 0, 0, 0, 0, 0, 0, 0, 0, 0])) 12 = Rc_ok sample_q"
  by (simp add: anubee_evq_init_def sample_q_def)

lemma sample_q_rel: "evq_rel sample_q []"
  using evq_init_rel(1) [OF sample_q_init] by simp

lemma sample_push: "anubee_evq_push sample_q [7, 8, 9] = Some (True, sample_q1)"
  by (simp add: anubee_evq_push_def q_in_def sample_q_def sample_q1_def szsub_def store_bytes_def
      Let_def le_bytes_numeral)

lemma evq_refines_fifo_witness:
  "\<exists>q'. anubee_evq_push sample_q [7, 8, 9] = Some (True, q') \<and> evq_rel q' [[7, 8, 9]] \<and> pushed q' = 1"
  using evq_refines_fifo [OF sample_q_rel, of "[7, 8, 9]" 16]
  by (simp add: obj_bytes_def sample_push) (simp add: sample_q_def)

text \<open>C7: in any interleaving of producer and consumer steps, nothing is lost, duplicated or reordered:
  the accepted records are the ones taken out so far followed by the ones in the ring, the worker
  received the former in order except those larger than its buffer, and the three counters count
  (modulo 2^64) the accepted, the delivered, and the refused or oversized records. No reachable
  state makes a push or pop touch memory outside the ring.\<close>

theorem evq_run_fifo:
  assumes "anubee_evq_init (Some b) n = Rc_ok q0" "length b = n" "0 < n" "n \<le> 2 ^ 32"
    and "(evq_step outcap)\<^sup>*\<^sup>* (sys_init q0) s"
  shows "(\<exists>taken pending. accepted s = taken @ pending \<and> evq_rel (sq s) pending \<and>
      delivered s = filter (fits outcap) taken \<and>
      pushed (sq s) = of_nat (length (accepted s)) \<and> popped (sq s) = of_nat (length (delivered s)) \<and>
      dropped (sq s) = of_nat (refused s + length (filter (\<lambda>r. \<not> fits outcap r) taken))) \<and>
    (\<forall>r. obj_bytes r \<longrightarrow> anubee_evq_push (sq s) r \<noteq> None) \<and> anubee_evq_pop (sq s) outcap \<noteq> None"
proof -
  have inv: "sys_inv outcap n s"
    using sys_inv_steps [OF assms(5)] evq_init_rel(2) [OF assms(1-4)] assms(4) by blast
  then obtain p where "evq_rel (sq s) p" "cap (sq s) \<le> 2 ^ 32" using assms(4) by (auto simp: sys_inv_def)
  then have "\<forall>r. obj_bytes r \<longrightarrow> anubee_evq_push (sq s) r \<noteq> None" "anubee_evq_pop (sq s) outcap \<noteq> None"
    using push_refines pop_refines by (blast dest: safe_not_None)+
  then show ?thesis using inv unfolding sys_inv_def by blast
qed

lemma sample_run_evq: "(evq_step 16)\<^sup>*\<^sup>* (sys_init sample_q) ((sys_init sample_q)\<lparr>sq := sample_q1, accepted := [[7, 8, 9]]\<rparr>)"
proof -
  have "evq_step 16 (sys_init sample_q) ((sys_init sample_q)\<lparr>sq := sample_q1, accepted := accepted (sys_init sample_q) @ [[7, 8, 9]]\<rparr>)"
    by (rule push_ok) (simp_all add: sys_init_def sample_push obj_bytes_def)
  then show ?thesis by (simp add: sys_init_def r_into_rtranclp)
qed

lemma evq_run_fifo_witness: "popped sample_q1 = 0 \<and> (\<exists>r. evq_rel sample_q1 r) \<and> anubee_evq_pop sample_q1 16 \<noteq> None"
proof -
  have "length [0, 0, 0, 0, 0, 0, 0, 0, 0, 0, 0, 0 :: u8] = 12" "0 < (12::nat)" "(12::nat) \<le> 2 ^ 32"
    by simp_all
  from evq_run_fifo [OF sample_q_init this sample_run_evq] show ?thesis
    by (elim conjE exE) (auto simp: sys_init_def)
qed

text \<open>C9: once the producer has marked the queue done, the worker loop ends, and then every record
  whose push succeeded has been handed over exactly once and in order (those larger than the worker's
  buffer apart).\<close>

theorem evq_worker_drains:
  assumes "anubee_evq_init (Some b) n = Rc_ok q0" "length b = n" "0 < n" "n \<le> 2 ^ 32"
    and "(evq_step outcap)\<^sup>*\<^sup>* (sys_init q0) s"
  shows "\<exists>rest. evq_worker (Suc (used (sq s))) (evq_finish (sq s)) outcap = Some rest \<and>
    delivered s @ rest = filter (fits outcap) (accepted s)"
proof -
  have "sys_inv outcap n s"
    using sys_inv_steps [OF assms(5)] evq_init_rel(2) [OF assms(1-4)] assms(4) by blast
  then obtain taken pending where h: "accepted s = taken @ pending" "delivered s = filter (fits outcap) taken"
    "evq_rel (sq s) pending"
    unfolding sys_inv_def by blast
  have rel: "evq_rel (evq_finish (sq s)) pending" "qdone (evq_finish (sq s))"
    using h(3) by (simp_all add: evq_rel_def evq_finish_def)
  have "length pending \<le> length (frames pending)" by (induction pending) simp_all
  then have "length pending < Suc (used (sq s))"
    using h(3) ring_length [of "sq s"] by (simp add: evq_rel_def)
  from evq_worker_all [OF rel this] show ?thesis using h by simp
qed

lemma evq_worker_drains_witness:
  "\<exists>rest. evq_worker (Suc (used sample_q1)) (evq_finish sample_q1) 16 = Some rest \<and> rest = [[7, 8, 9]]"
  using evq_worker_drains [OF sample_q_init _ _ _ sample_run_evq]
  by (simp add: sys_init_def fits_def)

end
