(* ===== verification/Sha256.thy ===== *)
theory Sha256
  imports Anubee_Prelude
begin

unbundle bit_operations_syntax

text \<open>
  \<open>src/src/common/sha256.c\<close>: the vendored SHA-256 that digests a module's executable segments.

  \<^item> \<open>struct sha256_ctx\<close> is the record \<open>sha256_ctx\<close>; the 64-byte buffer is a list of 64 bytes
    and only its first \<open>buflen\<close> bytes are meaningful.
  \<^item> the copy loop of \<open>sha256_update\<close> takes at least one byte per turn while \<open>buflen < 64\<close>, so
    \<open>Suc (length data)\<close> turns are enough.
  \<^item> the specification is the padding and block iteration of FIPS 180-4 (\<open>sha256_spec\<close>), with the
    round constants tied to the cube and square roots they are defined by.
\<close>

record sha256_ctx =
  state :: "u32 list"
  bitlen :: u64
  sbuf :: bytes
  buflen :: nat

text \<open>The round constants, a list for each line of the table.\<close>

definition sha_K :: "u32 list" where
  "sha_K = concat [
     [0x428a2f98, 0x71374491, 0xb5c0fbcf, 0xe9b5dba5, 0x3956c25b, 0x59f111f1],
     [0x923f82a4, 0xab1c5ed5, 0xd807aa98, 0x12835b01, 0x243185be, 0x550c7dc3],
     [0x72be5d74, 0x80deb1fe, 0x9bdc06a7, 0xc19bf174, 0xe49b69c1, 0xefbe4786],
     [0x0fc19dc6, 0x240ca1cc, 0x2de92c6f, 0x4a7484aa, 0x5cb0a9dc, 0x76f988da],
     [0x983e5152, 0xa831c66d, 0xb00327c8, 0xbf597fc7, 0xc6e00bf3, 0xd5a79147],
     [0x06ca6351, 0x14292967, 0x27b70a85, 0x2e1b2138, 0x4d2c6dfc, 0x53380d13],
     [0x650a7354, 0x766a0abb, 0x81c2c92e, 0x92722c85, 0xa2bfe8a1, 0xa81a664b],
     [0xc24b8b70, 0xc76c51a3, 0xd192e819, 0xd6990624, 0xf40e3585, 0x106aa070],
     [0x19a4c116, 0x1e376c08, 0x2748774c, 0x34b0bcb5, 0x391c0cb3, 0x4ed8aa4a],
     [0x5b9cca4f, 0x682e6ff3, 0x748f82ee, 0x78a5636f, 0x84c87814, 0x8cc70208],
     [0x90befffa, 0xa4506ceb, 0xbef9a3f7, 0xc67178f2]]"

definition ROR :: "u32 \<Rightarrow> nat \<Rightarrow> u32" where
  "ROR x n = (drop_bit n x) OR (push_bit (32 - n) x)"

definition big_S0 :: "u32 \<Rightarrow> u32" where "big_S0 x = ROR x 2 XOR ROR x 13 XOR ROR x 22"
definition big_S1 :: "u32 \<Rightarrow> u32" where "big_S1 x = ROR x 6 XOR ROR x 11 XOR ROR x 25"
definition small_s0 :: "u32 \<Rightarrow> u32" where "small_s0 x = ROR x 7 XOR ROR x 18 XOR drop_bit 3 x"
definition small_s1 :: "u32 \<Rightarrow> u32" where "small_s1 x = ROR x 17 XOR ROR x 19 XOR drop_bit 10 x"

definition sha_word :: "bytes \<Rightarrow> nat \<Rightarrow> u32" where
  "sha_word p i = push_bit 24 (ucast (p ! (i * 4))) OR push_bit 16 (ucast (p ! (i * 4 + 1))) OR
     push_bit 8 (ucast (p ! (i * 4 + 2))) OR ucast (p ! (i * 4 + 3))"

definition sha_schedule :: "bytes \<Rightarrow> u32 list" where
  "sha_schedule p = foldl (\<lambda>w i. w @
       [small_s1 (w ! (i - 2)) + w ! (i - 7) + small_s0 (w ! (i - 15)) + w ! (i - 16)])
     (map (sha_word p) [0..<16]) [16..<64]"

fun sha_round :: "u32 list \<Rightarrow> u32 \<times> u32 \<Rightarrow> u32 list" where
  "sha_round [a, b, cc, d, e, f, g, h] (k, w) =
     (let t1 = h + big_S1 e + ((e AND f) XOR (NOT e AND g)) + k + w;
          t2 = big_S0 a + ((a AND b) XOR (a AND cc) XOR (b AND cc))
      in [t1 + t2, a, b, cc, d + t1, e, f, g])"
| "sha_round st _ = st"

definition sha256_block :: "u32 list \<Rightarrow> bytes \<Rightarrow> u32 list" where
  "sha256_block st p = map2 (+) st (foldl sha_round st (zip sha_K (sha_schedule p)))"

definition sha256_init :: sha256_ctx where
  "sha256_init = \<lparr>state = [0x6a09e667, 0xbb67ae85, 0x3c6ef372, 0xa54ff53a,
      0x510e527f, 0x9b05688c, 0x1f83d9ab, 0x5be0cd19],
     bitlen = 0, sbuf = replicate 64 0, buflen = 0\<rparr>"

fun sha256_update_loop :: "nat \<Rightarrow> sha256_ctx \<Rightarrow> bytes \<Rightarrow> sha256_ctx option" where
  "sha256_update_loop 0 c p = None"
| "sha256_update_loop (Suc fuel) c p =
     (if p = [] then Some c
      else do {
        let want = szsub 64 (buflen c);
        let n = min (length p) want;
        b \<leftarrow> store_bytes (sbuf c) (buflen c) (take n p);
        let c = c\<lparr>sbuf := b, buflen := szadd (buflen c) n\<rparr>;
        let c = (if buflen c = 64 then c\<lparr>state := sha256_block (state c) (sbuf c), buflen := 0\<rparr> else c);
        sha256_update_loop fuel c (drop n p)
      })"

definition sha256_update :: "sha256_ctx \<Rightarrow> bytes \<Rightarrow> sha256_ctx option" where
  "sha256_update c data =
     sha256_update_loop (Suc (length data)) (c\<lparr>bitlen := bitlen c + of_nat (length data) * 8\<rparr>) data"

definition hx :: "nat \<Rightarrow> char" where
  "hx n = ''0123456789abcdef'' ! n"

definition hex_byte :: "u8 \<Rightarrow> string" where
  "hex_byte b = [hx (unat (drop_bit 4 b)), hx (unat (b AND 0xf))]"

definition hex_word :: "u32 \<Rightarrow> string" where
  "hex_word s = concat (map hex_byte [ucast (drop_bit 24 s), ucast (drop_bit 16 s), ucast (drop_bit 8 s), ucast s])"

definition be64 :: "u64 \<Rightarrow> bytes" where
  "be64 bits = map (\<lambda>i. ucast (drop_bit (56 - i * 8) bits)) [0..<8]"

definition sha256_final_hex :: "sha256_ctx \<Rightarrow> string option" where
  "sha256_final_hex c = do {
     let bits = bitlen c;
     b \<leftarrow> store_bytes (sbuf c) (buflen c) [0x80];
     let c = c\<lparr>sbuf := b, buflen := szadd (buflen c) 1\<rparr>;
     c \<leftarrow> (if buflen c > 56 then do {
             b \<leftarrow> store_bytes (sbuf c) (buflen c) (replicate (szsub 64 (buflen c)) 0);
             Some (c\<lparr>sbuf := b, state := sha256_block (state c) b, buflen := 0\<rparr>)
           } else Some c);
     b \<leftarrow> store_bytes (sbuf c) (buflen c) (replicate (szsub 56 (buflen c)) 0);
     b \<leftarrow> store_bytes b 56 (be64 bits);
     Some (concat (map hex_word (sha256_block (state c) b)))
   }"

declare sha256_update_loop.simps [simp del]

section \<open>The standard\<close>

text \<open>Iterating the compression function over 64-byte blocks.\<close>

fun sha_blocks :: "u32 list \<Rightarrow> bytes \<Rightarrow> u32 list" where
  "sha_blocks st m = (if length m < 64 then st else sha_blocks (sha256_block st (take 64 m)) (drop 64 m))"

declare sha_blocks.simps [simp del]

definition sha_pad :: "bytes \<Rightarrow> bytes" where
  "sha_pad m = m @ [0x80] @ replicate ((119 - length m mod 64) mod 64) 0 @ be64 (of_nat (8 * length m))"

definition sha256_spec :: "bytes \<Rightarrow> string" where
  "sha256_spec m = concat (map hex_word (sha_blocks (state sha256_init) (sha_pad m)))"

section \<open>Streaming equals one shot\<close>

lemma sha_blocks_short [simp]: "length m < 64 \<Longrightarrow> sha_blocks st m = st"
  by (simp add: sha_blocks.simps)

lemma sha_blocks_block: "length m = 64 \<Longrightarrow> sha_blocks st (m @ m') = sha_blocks (sha256_block st m) m'"
  by (subst sha_blocks.simps) simp

lemma sha_blocks_append:
  "64 dvd length a \<Longrightarrow> sha_blocks st (a @ b) = sha_blocks (sha_blocks st a) b"
proof (induction st a rule: sha_blocks.induct)
  case (1 st a)
  show ?case
  proof (cases "length a < 64")
    case True
    then have "a = []" using 1(2) by (auto dest: dvd_imp_le)
    then show ?thesis by simp
  next
    case False
    then have d: "64 dvd length (drop 64 a)" using 1(2) by (simp add: dvd_diff_nat)
    have l: "length (take 64 a) = 64" using False by simp
    have "sha_blocks st (a @ b) = sha_blocks (sha256_block st (take 64 a)) (drop 64 a @ b)"
      using sha_blocks_block [OF l, of st "drop 64 a @ b"] by (metis append.assoc append_take_drop_id)
    also have "\<dots> = sha_blocks (sha_blocks (sha256_block st (take 64 a)) (drop 64 a)) b"
      using 1(1) [OF False d] .
    also have "sha_blocks (sha256_block st (take 64 a)) (drop 64 a) = sha_blocks st a"
      using sha_blocks_block [OF l, of st "drop 64 a"] by simp
    finally show ?thesis .
  qed
qed

text \<open>The context after the message \<open>m\<close>: whole blocks are compressed, the rest is buffered.\<close>

definition ctx_at :: "sha256_ctx \<Rightarrow> bytes \<Rightarrow> bool" where
  "ctx_at c m \<longleftrightarrow> (\<exists>a r. m = a @ r \<and> 64 dvd length a \<and> length r < 64 \<and>
     state c = sha_blocks (state sha256_init) a \<and> buflen c = length r \<and> length (sbuf c) = 64 \<and>
     take (length r) (sbuf c) = r)"

lemma ctx_at_bitlen [simp]: "ctx_at (c\<lparr>bitlen := b\<rparr>) m = ctx_at c m"
  by (simp add: ctx_at_def)

lemma ctx_at_init: "ctx_at sha256_init []"
  by (simp add: ctx_at_def sha256_init_def)

lemma ctx_at_buffer:
  assumes c: "ctx_at c m" and n: "n = min (length p) (64 - buflen c)"
  shows "\<exists>b. store_bytes (sbuf c) (buflen c) (take n p) = Some b \<and>
    ctx_at (let c = c\<lparr>sbuf := b, buflen := buflen c + n\<rparr>
            in if buflen c = 64 then c\<lparr>state := sha256_block (state c) (sbuf c), buflen := 0\<rparr> else c)
      (m @ take n p) \<and> buflen c < 64"
proof -
  obtain a r where m: "m = a @ r" "64 dvd length a" "length r < 64"
    "state c = sha_blocks (state sha256_init) a" "buflen c = length r" "length (sbuf c) = 64"
    "take (length r) (sbuf c) = r"
    using c by (auto simp: ctx_at_def)
  define b where "b = r @ take n p @ drop (length r + n) (sbuf c)"
  have n': "length r + n \<le> 64" "length (take n p) = n" using m(3,5) n by auto
  have st: "store_bytes (sbuf c) (buflen c) (take n p) = Some b"
    using m n' by (simp add: store_bytes_def b_def)
  have lb: "length b = 64" using m n' by (simp add: b_def)
  show ?thesis
  proof (cases "length r + n = 64")
    case True
    have b: "b = r @ take n p" using True m(6) by (simp add: b_def)
    have "sha_blocks (state sha256_init) (a @ b) = sha256_block (state c) b"
      using sha_blocks_append [OF m(2), of "state sha256_init" b] sha_blocks_block [OF lb, of _ "[]"] m(4) by simp
    moreover have "64 dvd length (a @ b)" using m(2) lb by (simp add: dvd_add)
    ultimately show ?thesis
      using st True m(1,3,5,6) lb unfolding ctx_at_def
      by (intro exI [of _ b] conjI exI [of _ "a @ b"] exI [of _ "[]"]) (auto simp: b)
  next
    case False
    then show ?thesis
      using st m n' lb unfolding ctx_at_def
      by (intro exI [of _ b] conjI exI [of _ a] exI [of _ "r @ take n p"]) (auto simp: b_def)
  qed
qed

lemma sha256_update_loop_at:
  assumes "ctx_at c m" "length p < fuel"
  shows "\<exists>c'. sha256_update_loop fuel c p = Some c' \<and> ctx_at c' (m @ p) \<and> bitlen c' = bitlen c"
  using assms
proof (induction fuel arbitrary: c m p)
  case (Suc fuel)
  show ?case
  proof (cases "p = []")
    case False
    define n where "n = min (length p) (64 - buflen c)"
    obtain b where b: "store_bytes (sbuf c) (buflen c) (take n p) = Some b"
      and at: "ctx_at (let c = c\<lparr>sbuf := b, buflen := buflen c + n\<rparr>
            in if buflen c = 64 then c\<lparr>state := sha256_block (state c) (sbuf c), buflen := 0\<rparr> else c)
      (m @ take n p)" (is "ctx_at ?c' _") and lt: "buflen c < 64"
      using ctx_at_buffer [OF Suc.prems(1) n_def] by auto
    have n: "0 < n" "n \<le> length p" "n \<le> 64" using False lt by (auto simp: n_def)
    have sz: "szsub 64 (buflen c) = 64 - buflen c" "szadd (buflen c) n = buflen c + n"
      using lt n(3) by (simp_all add: szsub_ge)
    have "length (drop n p) < fuel" using n Suc.prems(2) by simp
    from Suc.IH [OF at this] show ?thesis
      using False b by (simp add: sha256_update_loop.simps sz Let_def flip: n_def split: if_splits)
  qed (use Suc.prems in \<open>simp add: sha256_update_loop.simps\<close>)
qed simp

lemma sha256_update_at:
  assumes "ctx_at c m" "bitlen c = of_nat (8 * length m)"
  shows "\<exists>c'. sha256_update c d = Some c' \<and> ctx_at c' (m @ d) \<and> bitlen c' = of_nat (8 * length (m @ d))"
  unfolding sha256_update_def
  using sha256_update_loop_at [of "c\<lparr>bitlen := bitlen c + of_nat (length d) * 8\<rparr>" m d "Suc (length d)"] assms
  by (auto simp: algebra_simps)

lemma length_be64 [simp]: "length (be64 b) = 8"
  by (simp add: be64_def)

lemma sha_blocks_two:
  "length x = 64 \<Longrightarrow> length y = 64 \<Longrightarrow> sha_blocks st (x @ y) = sha256_block (sha256_block st x) y"
  using sha_blocks_block [of x st y] sha_blocks_block [of y "sha256_block st x" "[]"] by simp

lemma sha256_final_at:
  assumes "ctx_at c m" "bitlen c = of_nat (8 * length m)"
  shows "sha256_final_hex c = Some (sha256_spec m)"
proof -
  obtain a r where m: "m = a @ r" "64 dvd length a" "length r < 64"
    "state c = sha_blocks (state sha256_init) a" "buflen c = length r" "length (sbuf c) = 64"
    "take (length r) (sbuf c) = r"
    using assms(1) by (auto simp: ctx_at_def)
  let ?L = "be64 (of_nat (8 * length m))"
  have mod: "length m mod 64 = length r"
    using m(1-3) by (simp add: mod_add_left_eq [of "length a", symmetric])
  have spec: "sha256_spec m = concat (map hex_word (sha_blocks (state c)
      (r @ [0x80] @ replicate ((119 - length r) mod 64) 0 @ ?L)))"
    unfolding sha256_spec_def sha_pad_def mod using m(1,4) sha_blocks_append [OF m(2)] by simp
  have d: "take (length r) (sbuf c) @ [0x80] @ drop (length r + 1) (sbuf c) = r @ [0x80] @ drop (length r + 1) (sbuf c)"
    by (simp add: m(7))
  show ?thesis
  proof (cases "length r \<le> 55")
    case True
    then have "(119 - length r) mod 64 = 55 - length r" by (simp add: mod_if)
    moreover have "56 - length r = Suc (55 - length r)" using True by simp
    moreover have "sha256_final_hex c = Some (concat (map hex_word
        (sha256_block (state c) (r @ [0x80] @ replicate (55 - length r) 0 @ ?L))))"
      using True m(5-7) assms(2) \<open>56 - length r = Suc (55 - length r)\<close>
      by (simp add: sha256_final_hex_def store_bytes_def Let_def szsub_ge)
    ultimately show ?thesis
      using spec True sha_blocks_block [of "r @ [0x80] @ replicate (55 - length r) 0 @ ?L" "state c" "[]"] by simp
  next
    case False
    then have "(119 - length r) mod 64 = (63 - length r) + 56" using m(3) by (simp add: mod_if)
    then have e: "replicate ((119 - length r) mod 64) (0::u8) = replicate (63 - length r) 0 @ replicate 56 0"
      by (simp only: replicate_add)
    have "sha256_final_hex c = Some (concat (map hex_word
        (sha256_block (sha256_block (state c) (r @ [0x80] @ replicate (63 - length r) 0)) (replicate 56 0 @ ?L))))"
      using False m(3,5-7) assms(2)
      by (simp add: sha256_final_hex_def store_bytes_def Let_def szsub_ge)
    then show ?thesis
      using spec [unfolded e] False m(3)
        sha_blocks_two [of "r @ [0x80] @ replicate (63 - length r) 0" "replicate 56 0 @ ?L" "state c"]
      by simp
  qed
qed

text \<open>A run over several pieces.\<close>

fun sha256_updates :: "sha256_ctx \<Rightarrow> bytes list \<Rightarrow> sha256_ctx option" where
  "sha256_updates c [] = Some c"
| "sha256_updates c (d # ds) = do { c \<leftarrow> sha256_update c d; sha256_updates c ds }"

lemma sha256_updates_at:
  assumes "ctx_at c m" "bitlen c = of_nat (8 * length m)"
  shows "\<exists>c'. sha256_updates c ds = Some c' \<and> ctx_at c' (m @ concat ds) \<and>
    bitlen c' = of_nat (8 * length (m @ concat ds))"
  using assms
proof (induction ds arbitrary: c m)
  case (Cons d ds)
  obtain c1 where "sha256_update c d = Some c1" "ctx_at c1 (m @ d)" "bitlen c1 = of_nat (8 * length (m @ d))"
    using sha256_update_at [OF Cons.prems] by blast
  then show ?case using Cons.IH by fastforce
qed simp


definition sha_primes :: "nat list" where
  "sha_primes = [2, 3, 5, 7, 11, 13, 17, 19, 23, 29, 31, 37, 41, 43, 47, 53, 59, 61, 67, 71, 73, 79, 83, 89,
     97, 101, 103, 107, 109, 113, 127, 131, 137, 139, 149, 151, 157, 163, 167, 173, 179, 181, 191, 193,
     197, 199, 211, 223, 227, 229, 233, 239, 241, 251, 257, 263, 269, 271, 277, 281, 283, 293, 307, 311]"

text \<open>\<open>k\<close> is the first 32 bits of the fractional part of the \<open>e\<close>-th root of \<open>p\<close>.\<close>

definition int_root :: "nat \<Rightarrow> nat \<Rightarrow> nat" where
  "int_root e p = length (filter (\<lambda>j. j ^ e \<le> p) [1, 2, 3, 4, 5, 6, 7])"

definition root_frac :: "nat \<Rightarrow> nat \<Rightarrow> nat \<Rightarrow> bool" where
  "root_frac e p k \<longleftrightarrow>
     (let n = int_root e p * 2 ^ 32 + k; q = p * 2 ^ (32 * e) in k < 2 ^ 32 \<and> n ^ e \<le> q \<and> q < (n + 1) ^ e)"

lemma root_frac_eval:
  "root_frac e p k = (let n = int_root e p * 4294967296 + k in
     k < 4294967296 \<and> n ^ e \<le> p * 2 ^ (32 * e) \<and> p * 2 ^ (32 * e) < (n + 1) ^ e)"
  by (simp add: root_frac_def Let_def)

text \<open>The constants are those of the standard: the round constants are the first 32 bits of the
  fractional parts of the cube roots of the first 64 primes, the initial state those of the square
  roots of the first eight.\<close>

theorem sha256_constants:
  "length sha_K = 64 \<and> list_all2 (\<lambda>p k. root_frac 3 p (unat k)) sha_primes sha_K \<and>
   list_all2 (\<lambda>p k. root_frac 2 p (unat k)) (take 8 sha_primes) (state sha256_init)"
proof (intro conjI)
  show "length sha_K = 64" by (simp add: sha_K_def)
  show "list_all2 (\<lambda>p k. root_frac 3 p (unat k)) sha_primes sha_K"
    unfolding sha_primes_def sha_K_def by (simp add: root_frac_eval int_root_def Let_def)
  show "list_all2 (\<lambda>p k. root_frac 2 p (unat k)) (take 8 sha_primes) (state sha256_init)"
    unfolding sha_primes_def sha256_init_def by (simp add: root_frac_eval int_root_def Let_def)
qed

end
