(* ===== verification/C_Text.thy ===== *)
theory C_Text
  imports Anubee_Prelude
begin

text \<open>
  Text in C buffers: what the components that format text use of the C library.

  \<^item> a NUL-terminated string is the list of the characters before the terminator; \<open>snprintf n s\<close> is what
    \<open>snprintf(out, n, "%s", s)\<close> leaves in \<open>out\<close> for a positive \<open>n\<close>, the first \<open>n - 1\<close> characters;
  \<^item> \<open>show_base\<close> is the unsigned conversions (\<open>%llx\<close>, \<open>%llo\<close>, \<open>%llu\<close>): no leading zeros, lower-case
    digits; \<open>read_base\<close> reads them back;
  \<^item> \<open>cstr\<close> is the string that starts a block of bytes.
\<close>

definition snprintf :: "nat \<Rightarrow> string \<Rightarrow> string" where
  "snprintf n s = take (n - 1) s"

definition cstr :: "bytes \<Rightarrow> string" where
  "cstr bs = map (char_of \<circ> unat) (takeWhile (\<lambda>b. b \<noteq> 0) bs)"

lemma snprintf_fits [simp]: "length s < n \<Longrightarrow> snprintf n s = s"
  by (simp add: snprintf_def)

lemma length_snprintf: "0 < n \<Longrightarrow> length (snprintf n s) < n"
  by (auto simp: snprintf_def)

lemma length_cstr: "length (cstr bs) \<le> length bs"
  by (simp add: cstr_def length_takeWhile_le)

subsection \<open>Numbers\<close>

definition dg :: "nat \<Rightarrow> char" where
  "dg n = ''0123456789abcdef'' ! n"

function show_base :: "nat \<Rightarrow> nat \<Rightarrow> string" where
  "show_base b n = (if b < 2 \<or> n < b then [dg n] else show_base b (n div b) @ [dg (n mod b)])"
  by auto
termination by (relation "measure snd") (auto intro: div_less_dividend)

declare show_base.simps [simp del]

text \<open>Evaluation on literals only.\<close>

lemmas show_base_eval = show_base.simps [of b 0 for b] show_base.simps [of b "Suc 0" for b]
  show_base.simps [of b "numeral k" for b k]

abbreviation show_hex :: "u64 \<Rightarrow> string" where "show_hex v \<equiv> show_base 16 (unat v)"
abbreviation show_oct :: "u64 \<Rightarrow> string" where "show_oct v \<equiv> show_base 8 (unat v)"
abbreviation show_dec :: "u64 \<Rightarrow> string" where "show_dec v \<equiv> show_base 10 (unat v)"

text \<open>The digit values, and a number read most significant digit first.\<close>

definition digit_val :: "char \<Rightarrow> nat option" where
  "digit_val c =
     (let k = of_char c :: nat
      in if 48 \<le> k \<and> k \<le> 57 then Some (k - 48)
         else if 97 \<le> k \<and> k \<le> 102 then Some (k - 87)
         else None)"

definition read_base :: "nat \<Rightarrow> string \<Rightarrow> nat option" where
  "read_base b s = foldl (\<lambda>acc c. do { a \<leftarrow> acc; d \<leftarrow> digit_val c; (if d < b then Some (a * b + d) else None) })
     (Some 0) s"

lemma digit_cases: "n < 16 \<Longrightarrow> n \<in> {0, 1, 2, 3, 4, 5, 6, 7, 8, 9, 10, 11, 12, 13, 14, 15 :: nat}"
  by (simp only: insert_iff empty_iff) presburger

lemma digit_val_dg [simp]: "n < 16 \<Longrightarrow> digit_val (dg n) = Some n"
  by (drule digit_cases) (elim insertE emptyE; simp add: dg_def digit_val_def)

lemma read_base_snoc:
  "read_base b (s @ [c]) = do { a \<leftarrow> read_base b s; d \<leftarrow> digit_val c; (if d < b then Some (a * b + d) else None) }"
  by (simp add: read_base_def)

lemma read_show_base: "2 \<le> b \<Longrightarrow> b \<le> 16 \<Longrightarrow> read_base b (show_base b n) = Some n"
proof (induction b n rule: show_base.induct)
  case (1 b n)
  show ?case
  proof (cases "n < b")
    case True
    then show ?thesis
      using 1(3) read_base_snoc [of b "[]" "dg n"] by (simp add: show_base.simps) (simp add: read_base_def)
  next
    case False
    then have "read_base b (show_base b (n div b)) = Some (n div b)" using 1 by simp
    moreover have "n mod b < 16" "n mod b < b" using 1(2,3) by (auto intro: less_le_trans [OF mod_less_divisor])
    ultimately show ?thesis
      using False 1(2) by (simp add: show_base.simps [of b n] read_base_snoc)
  qed
qed

lemma show_base_ne [simp]: "show_base b n \<noteq> []"
  by (subst show_base.simps) simp

lemma set_show_base: "b \<le> 16 \<Longrightarrow> 2 \<le> b \<Longrightarrow> set (show_base b n) \<subseteq> dg ` {..<16}"
proof (induction b n rule: show_base.induct)
  case (1 b n)
  have m: "n mod b < 16" if "2 \<le> b" using 1(2) that by (auto intro: less_le_trans [OF mod_less_divisor])
  show ?case
  proof (cases "n < b")
    case True
    then show ?thesis using 1(2) by (subst show_base.simps) auto
  next
    case False
    then show ?thesis using 1 m by (subst show_base.simps) auto
  qed
qed

lemma length_show_base: "2 \<le> b \<Longrightarrow> 0 < k \<Longrightarrow> n < b ^ k \<Longrightarrow> length (show_base b n) \<le> k"
proof (induction b n arbitrary: k rule: show_base.induct)
  case (1 b n)
  show ?case
  proof (cases "n < b")
    case True
    then show ?thesis using 1(3) by (subst show_base.simps) auto
  next
    case False
    then have k: "1 < k" using 1(4) 1(3) by (cases "k = 1") auto
    then have "n div b < b ^ (k - 1)"
      using 1(2,4) by (cases k) (auto simp: less_mult_imp_div_less mult.commute)
    then have "length (show_base b (n div b)) \<le> k - 1" using 1 False k by simp
    then show ?thesis using False k 1(2) by (subst show_base.simps) auto
  qed
qed

lemma length_show_hex: "length (show_hex v) \<le> 16"
  using length_show_base [of 16 16 "unat v"] unsigned_less [of v] by simp

lemma length_show_dec: "length (show_dec v) \<le> 20"
proof -
  have "unat v < 2 ^ LENGTH(64)" by (rule unsigned_less)
  then have "unat v < 10 ^ 20" by simp
  then show ?thesis by (intro length_show_base) simp_all
qed

end
