(* ===== verification/Flag_Decode.thy ===== *)
theory Flag_Decode
  imports C_Text
begin

unbundle bit_operations_syntax

text \<open>
  \<open>src/src/common/decode.c\<close>: the syscall-argument decoders. A flag or enumeration argument becomes
  text by way of a table of (value, name) pairs.

  \<^item> \<open>struct flagdef\<close> is the record \<open>flagdef\<close>; the tables hold the values the arm64 Linux headers give the
    macros, with every guarded entry present (a sysroot that lacks a macro has a shorter table);
  \<^item> an output buffer is its size \<open>n\<close>, positive as at every call site, and the C string left in it;
    \<open>bits_str\<close> keeps the string together with the write position \<open>pos\<close>;
  \<^item> \<open>SIGRTMIN\<close> is a call into the C library on Android and is the parameter \<open>rtmin\<close>;
  \<^item> a decoder that returns 0 is \<open>Rc_err\<close>.
\<close>

record flagdef =
  fval :: u64
  fname :: string

abbreviation FD :: "u64 \<Rightarrow> string \<Rightarrow> flagdef" where "FD v n \<equiv> \<lparr>fval = v, fname = n\<rparr>"

section \<open>Generic formatters\<close>

text \<open>One turn of the loop of \<open>bits_str\<close>: \<open>snprintf\<close> at \<open>out + pos\<close>, then advance only if the piece fitted.\<close>

definition bits_put :: "nat \<Rightarrow> string \<times> nat \<Rightarrow> string \<Rightarrow> string \<times> nat" where
  "bits_put outsz = (\<lambda>(out, pos) piece.
     (let w = length piece; out = take pos out @ snprintf (szsub outsz pos) piece
      in (out, if w > 0 \<and> w < szsub outsz pos then pos + w else pos)))"

fun bits_loop :: "nat \<Rightarrow> flagdef list \<Rightarrow> string \<times> nat \<Rightarrow> bool \<Rightarrow> u64 \<Rightarrow> u64 \<times> string" where
  "bits_loop outsz [] buf first rem = (rem, fst buf)"
| "bits_loop outsz (f # t) buf first rem =
     (if fval f = 0 \<or> (rem AND fval f) \<noteq> fval f then bits_loop outsz t buf first rem
      else bits_loop outsz t (bits_put outsz buf ((if first then '''' else ''|'') @ fname f)) False
             (rem AND NOT (fval f)))"

definition bits_str :: "u64 \<Rightarrow> flagdef list \<Rightarrow> nat \<Rightarrow> u64 \<times> string" where
  "bits_str v t outsz = bits_loop outsz t ('''', 0) True v"

definition dec_bits :: "u64 \<Rightarrow> flagdef list \<Rightarrow> string option \<Rightarrow> nat \<Rightarrow> string" where
  "dec_bits v t zero n =
     (let (rem, buf) = bits_str v t 256
      in if buf = '''' then
           (case zero of
              Some z \<Rightarrow> if v = 0 then snprintf n z else snprintf n (''0x'' @ show_hex v)
            | None \<Rightarrow> snprintf n (''0x'' @ show_hex v))
         else if rem \<noteq> 0 then snprintf n (buf @ ''|0x'' @ show_hex rem)
         else snprintf n buf)"

fun dec_enum :: "u64 \<Rightarrow> flagdef list \<Rightarrow> nat \<Rightarrow> string" where
  "dec_enum v [] n = snprintf n (''0x'' @ show_hex v)"
| "dec_enum v (f # t) n = (if fval f = v then snprintf n (fname f) else dec_enum v t n)"

section \<open>Tables\<close>

definition t_prot :: "flagdef list" where
  "t_prot = [FD 1 ''PROT_READ'', FD 2 ''PROT_WRITE'', FD 4 ''PROT_EXEC'', FD 8 ''PROT_SEM'',
     FD 0x01000000 ''PROT_GROWSDOWN'', FD 0x02000000 ''PROT_GROWSUP'', FD 0x10 ''PROT_BTI'']"

definition t_map :: "flagdef list" where
  "t_map = [FD 1 ''MAP_SHARED'', FD 2 ''MAP_PRIVATE'', FD 3 ''MAP_SHARED_VALIDATE'', FD 0x10 ''MAP_FIXED'',
     FD 0x20 ''MAP_ANONYMOUS'', FD 0x4000 ''MAP_NORESERVE'', FD 0x8000 ''MAP_POPULATE'',
     FD 0x100 ''MAP_GROWSDOWN'', FD 0x800 ''MAP_DENYWRITE'', FD 0x2000 ''MAP_LOCKED'',
     FD 0x10000 ''MAP_NONBLOCK'', FD 0x20000 ''MAP_STACK'', FD 0x40000 ''MAP_HUGETLB'',
     FD 0x100000 ''MAP_FIXED_NOREPLACE'']"

definition t_oflags :: "flagdef list" where
  "t_oflags = [FD 0x40 ''O_CREAT'', FD 0x80 ''O_EXCL'', FD 0x100 ''O_NOCTTY'', FD 0x200 ''O_TRUNC'',
     FD 0x400 ''O_APPEND'', FD 0x800 ''O_NONBLOCK'', FD 0x1000 ''O_DSYNC'', FD 0x80000 ''O_CLOEXEC'',
     FD 0x4000 ''O_DIRECTORY'', FD 0x8000 ''O_NOFOLLOW'', FD 0x10000 ''O_DIRECT'', FD 0x20000 ''O_LARGEFILE'',
     FD 0x200000 ''O_PATH'', FD 0x404000 ''O_TMPFILE'', FD 0x40000 ''O_NOATIME'', FD 0x100000 ''O_SYNC'']"

definition t_cloexec :: "flagdef list" where
  "t_cloexec = [FD 0x80000 ''O_CLOEXEC'', FD 0x800 ''O_NONBLOCK'', FD 0x10000 ''O_DIRECT'']"

definition t_msg :: "flagdef list" where
  "t_msg = [FD 1 ''MSG_OOB'', FD 2 ''MSG_PEEK'', FD 4 ''MSG_DONTROUTE'', FD 8 ''MSG_CTRUNC'',
     FD 0x20 ''MSG_TRUNC'', FD 0x40 ''MSG_DONTWAIT'', FD 0x80 ''MSG_EOR'', FD 0x100 ''MSG_WAITALL'',
     FD 0x4000 ''MSG_NOSIGNAL'', FD 0x8000 ''MSG_MORE'', FD 0x40000000 ''MSG_CMSG_CLOEXEC'']"

definition t_at :: "flagdef list" where
  "t_at = [FD 0x100 ''AT_SYMLINK_NOFOLLOW'', FD 0x200 ''AT_REMOVEDIR'', FD 0x400 ''AT_SYMLINK_FOLLOW'',
     FD 0x800 ''AT_NO_AUTOMOUNT'', FD 0x1000 ''AT_EMPTY_PATH'', FD 0x200 ''AT_EACCESS'']"

definition t_access :: "flagdef list" where
  "t_access = [FD 4 ''R_OK'', FD 2 ''W_OK'', FD 1 ''X_OK'']"

definition t_clone :: "flagdef list" where
  "t_clone = [FD 0x100 ''CLONE_VM'', FD 0x200 ''CLONE_FS'', FD 0x400 ''CLONE_FILES'', FD 0x800 ''CLONE_SIGHAND'',
     FD 0x2000 ''CLONE_PTRACE'', FD 0x4000 ''CLONE_VFORK'', FD 0x8000 ''CLONE_PARENT'',
     FD 0x10000 ''CLONE_THREAD'', FD 0x20000 ''CLONE_NEWNS'', FD 0x40000 ''CLONE_SYSVSEM'',
     FD 0x80000 ''CLONE_SETTLS'', FD 0x100000 ''CLONE_PARENT_SETTID'', FD 0x200000 ''CLONE_CHILD_CLEARTID'',
     FD 0x800000 ''CLONE_UNTRACED'', FD 0x1000000 ''CLONE_CHILD_SETTID'', FD 0x2000000 ''CLONE_NEWCGROUP'',
     FD 0x4000000 ''CLONE_NEWUTS'', FD 0x8000000 ''CLONE_NEWIPC'', FD 0x10000000 ''CLONE_NEWUSER'',
     FD 0x20000000 ''CLONE_NEWPID'', FD 0x40000000 ''CLONE_NEWNET'', FD 0x80000000 ''CLONE_IO'']"

definition t_madv :: "flagdef list" where
  "t_madv = [FD 0 ''MADV_NORMAL'', FD 1 ''MADV_RANDOM'', FD 2 ''MADV_SEQUENTIAL'', FD 3 ''MADV_WILLNEED'',
     FD 4 ''MADV_DONTNEED'', FD 8 ''MADV_FREE'', FD 9 ''MADV_REMOVE'', FD 10 ''MADV_DONTFORK'',
     FD 11 ''MADV_DOFORK'', FD 14 ''MADV_HUGEPAGE'', FD 15 ''MADV_NOHUGEPAGE'', FD 16 ''MADV_DONTDUMP'',
     FD 17 ''MADV_DODUMP'', FD 18 ''MADV_WIPEONFORK'', FD 19 ''MADV_KEEPONFORK'', FD 20 ''MADV_COLD'',
     FD 21 ''MADV_PAGEOUT'']"

definition t_whence :: "flagdef list" where
  "t_whence = [FD 0 ''SEEK_SET'', FD 1 ''SEEK_CUR'', FD 2 ''SEEK_END'', FD 3 ''SEEK_DATA'', FD 4 ''SEEK_HOLE'']"

definition t_fcntl :: "flagdef list" where
  "t_fcntl = [FD 0 ''F_DUPFD'', FD 1 ''F_GETFD'', FD 2 ''F_SETFD'', FD 3 ''F_GETFL'', FD 4 ''F_SETFL'',
     FD 5 ''F_GETLK'', FD 6 ''F_SETLK'', FD 7 ''F_SETLKW'', FD 9 ''F_GETOWN'', FD 8 ''F_SETOWN'',
     FD 1030 ''F_DUPFD_CLOEXEC'', FD 1031 ''F_SETPIPE_SZ'', FD 1032 ''F_GETPIPE_SZ'',
     FD 1033 ''F_ADD_SEALS'', FD 1034 ''F_GET_SEALS'', FD 11 ''F_GETSIG'', FD 10 ''F_SETSIG'']"

definition t_af :: "flagdef list" where
  "t_af = [FD 0 ''AF_UNSPEC'', FD 1 ''AF_UNIX'', FD 2 ''AF_INET'', FD 10 ''AF_INET6'', FD 16 ''AF_NETLINK'',
     FD 17 ''AF_PACKET'', FD 31 ''AF_BLUETOOTH'', FD 40 ''AF_VSOCK'']"

definition t_socktype :: "flagdef list" where
  "t_socktype = [FD 1 ''SOCK_STREAM'', FD 2 ''SOCK_DGRAM'', FD 3 ''SOCK_RAW'', FD 5 ''SOCK_SEQPACKET'',
     FD 4 ''SOCK_RDM'']"

definition t_prctl :: "flagdef list" where
  "t_prctl = [FD 1 ''PR_SET_PDEATHSIG'', FD 2 ''PR_GET_PDEATHSIG'', FD 3 ''PR_GET_DUMPABLE'',
     FD 4 ''PR_SET_DUMPABLE'', FD 7 ''PR_GET_KEEPCAPS'', FD 8 ''PR_SET_KEEPCAPS'', FD 15 ''PR_SET_NAME'',
     FD 16 ''PR_GET_NAME'', FD 21 ''PR_GET_SECCOMP'', FD 22 ''PR_SET_SECCOMP'', FD 23 ''PR_CAPBSET_READ'',
     FD 24 ''PR_CAPBSET_DROP'', FD 38 ''PR_SET_NO_NEW_PRIVS'', FD 39 ''PR_GET_NO_NEW_PRIVS'',
     FD 0x59616d61 ''PR_SET_PTRACER'', FD 29 ''PR_SET_TIMERSLACK'', FD 30 ''PR_GET_TIMERSLACK'',
     FD 0x53564d41 ''PR_SET_VMA'']"

definition t_mfd :: "flagdef list" where
  "t_mfd = [FD 1 ''MFD_CLOEXEC'', FD 2 ''MFD_ALLOW_SEALING'', FD 4 ''MFD_HUGETLB'']"

definition t_mremap :: "flagdef list" where
  "t_mremap = [FD 1 ''MREMAP_MAYMOVE'', FD 2 ''MREMAP_FIXED'']"

section \<open>Specialised decoders\<close>

text \<open>\<open>dec_apnd\<close>: the text in \<open>out\<close> and \<open>*pos\<close>.\<close>

definition dec_apnd :: "nat \<Rightarrow> string \<times> nat \<Rightarrow> string \<Rightarrow> string \<times> nat" where
  "dec_apnd n = (\<lambda>(out, pos) piece.
     (if pos \<ge> n then (out, pos)
      else let w = length piece; avail = n - pos
           in (take pos out @ snprintf avail piece, pos + (if w < avail then w else avail - 1))))"

definition dec_open :: "u64 \<Rightarrow> nat \<Rightarrow> string" where
  "dec_open v n =
     (let acc = (if v AND 3 = 0 then ''O_RDONLY'' else if v AND 3 = 1 then ''O_WRONLY''
                 else if v AND 3 = 2 then ''O_RDWR'' else ''O_ACCMODE'');
          (rem, buf) = bits_str (v AND NOT 3) t_oflags 256
      in if buf \<noteq> '''' \<and> rem \<noteq> 0 then snprintf n (acc @ ''|'' @ buf @ ''|0x'' @ show_hex rem)
         else if buf \<noteq> '''' then snprintf n (acc @ ''|'' @ buf)
         else if rem \<noteq> 0 then snprintf n (acc @ ''|0x'' @ show_hex rem)
         else snprintf n acc)"

abbreviation SOCK_NONBLOCK :: u64 where "SOCK_NONBLOCK \<equiv> 0x800"
abbreviation SOCK_CLOEXEC :: u64 where "SOCK_CLOEXEC \<equiv> 0x80000"

definition dec_socktype :: "u64 \<Rightarrow> nat \<Rightarrow> string" where
  "dec_socktype v n =
     (let b = dec_enum (v AND NOT (SOCK_NONBLOCK OR SOCK_CLOEXEC)) t_socktype 64;
          f = ('''', 0);
          f = (if v AND SOCK_NONBLOCK \<noteq> 0 then dec_apnd 64 f ''|SOCK_NONBLOCK'' else f);
          f = (if v AND SOCK_CLOEXEC \<noteq> 0 then dec_apnd 64 f ''|SOCK_CLOEXEC'' else f)
      in snprintf n (b @ fst f))"

definition t_sig :: "flagdef list" where
  "t_sig = [FD 1 ''SIGHUP'', FD 2 ''SIGINT'', FD 3 ''SIGQUIT'', FD 4 ''SIGILL'', FD 5 ''SIGTRAP'', FD 6 ''SIGABRT'',
     FD 7 ''SIGBUS'', FD 8 ''SIGFPE'', FD 9 ''SIGKILL'', FD 10 ''SIGUSR1'', FD 11 ''SIGSEGV'', FD 12 ''SIGUSR2'',
     FD 13 ''SIGPIPE'', FD 14 ''SIGALRM'', FD 15 ''SIGTERM'', FD 17 ''SIGCHLD'', FD 18 ''SIGCONT'',
     FD 19 ''SIGSTOP'', FD 20 ''SIGTSTP'', FD 21 ''SIGTTIN'', FD 22 ''SIGTTOU'', FD 23 ''SIGURG'',
     FD 24 ''SIGXCPU'', FD 25 ''SIGXFSZ'', FD 26 ''SIGVTALRM'', FD 27 ''SIGPROF'', FD 28 ''SIGWINCH'',
     FD 29 ''SIGIO'', FD 31 ''SIGSYS'']"

definition signame :: "u64 \<Rightarrow> string option" where
  "signame s = map_option fname (find (\<lambda>f. fval f = s) t_sig)"

definition dec_signal :: "u64 \<Rightarrow> u64 \<Rightarrow> nat \<Rightarrow> string" where
  "dec_signal rtmin v n =
     (case signame v of
        Some s \<Rightarrow> snprintf n s
      | None \<Rightarrow> if v \<ge> rtmin \<and> v \<le> 64 then snprintf n (''SIGRT'' @ show_dec (v - rtmin))
                else snprintf n (show_dec v))"

definition dec_clone :: "u64 \<Rightarrow> u64 \<Rightarrow> nat \<Rightarrow> string" where
  "dec_clone rtmin v n =
     (let (rem, buf) = bits_str (v AND NOT 0xff) t_clone 256;
          sigpart = (if v AND 0xff \<noteq> 0 then dec_signal rtmin (v AND 0xff) 32 else '''');
          p = ('''', 0);
          p = (if buf \<noteq> '''' then dec_apnd n p buf else p);
          p = (if rem \<noteq> 0 then dec_apnd n p ((if snd p \<noteq> 0 then ''|'' else '''') @ ''0x'' @ show_hex rem) else p);
          p = (if sigpart \<noteq> '''' then dec_apnd n p ((if snd p \<noteq> 0 then ''|'' else '''') @ sigpart) else p)
      in if fst p = '''' then snprintf n ''0'' else fst p)"

definition dec_mode :: "u64 \<Rightarrow> nat \<Rightarrow> string" where
  "dec_mode v n = snprintf n (''0'' @ show_oct v)"

section \<open>Dispatch\<close>

text \<open>The switch over the syscall number (arm64 numbers), one case per line.\<close>

definition flags_decode_arg :: "u64 \<Rightarrow> int \<Rightarrow> int \<Rightarrow> u64 \<Rightarrow> nat \<Rightarrow> string rc" where
  "flags_decode_arg rtmin nr arg v n =
     (let bits = (\<lambda>t zero. Rc_ok (dec_bits v t zero n)); enum = (\<lambda>t. Rc_ok (dec_enum v t n));
          mode = Rc_ok (dec_mode v n); sock = Rc_ok (dec_socktype v n); sig = Rc_ok (dec_signal rtmin v n)
      in
      if nr = 56 then (if arg = 2 then Rc_ok (dec_open v n) else if arg = 3 then mode else Rc_err)
      else if nr = 222 then
        (if arg = 2 then bits t_prot (Some ''PROT_NONE'') else if arg = 3 then bits t_map None else Rc_err)
      else if nr = 226 then (if arg = 2 then bits t_prot (Some ''PROT_NONE'') else Rc_err)
      else if nr = 288 then (if arg = 2 then bits t_prot (Some ''PROT_NONE'') else Rc_err)
      else if nr = 216 then (if arg = 3 then bits t_mremap (Some ''0'') else Rc_err)
      else if nr = 233 then (if arg = 2 then enum t_madv else Rc_err)
      else if nr = 62 then (if arg = 2 then enum t_whence else Rc_err)
      else if nr = 25 then (if arg = 1 then enum t_fcntl else Rc_err)
      else if nr = 198 then (if arg = 0 then enum t_af else if arg = 1 then sock else Rc_err)
      else if nr = 199 then (if arg = 0 then enum t_af else if arg = 1 then sock else Rc_err)
      else if nr = 48 then (if arg = 2 then bits t_access (Some ''F_OK'') else Rc_err)
      else if nr = 439 then
        (if arg = 2 then bits t_access (Some ''F_OK'') else if arg = 3 then bits t_at (Some ''0'') else Rc_err)
      else if nr = 79 then (if arg = 3 then bits t_at (Some ''0'') else Rc_err)
      else if nr = 291 then (if arg = 2 then bits t_at (Some ''0'') else Rc_err)
      else if nr = 35 then (if arg = 2 then bits t_at (Some ''0'') else Rc_err)
      else if nr = 54 then (if arg = 4 then bits t_at (Some ''0'') else Rc_err)
      else if nr = 37 then (if arg = 4 then bits t_at (Some ''0'') else Rc_err)
      else if nr = 34 then (if arg = 2 then mode else Rc_err)
      else if nr = 53 then (if arg = 2 then mode else Rc_err)
      else if nr = 52 then (if arg = 1 then mode else Rc_err)
      else if nr = 59 then (if arg = 1 then bits t_cloexec (Some ''0'') else Rc_err)
      else if nr = 24 then (if arg = 2 then bits t_cloexec (Some ''0'') else Rc_err)
      else if nr = 19 then (if arg = 1 then bits t_cloexec (Some ''0'') else Rc_err)
      else if nr = 26 then (if arg = 0 then bits t_cloexec (Some ''0'') else Rc_err)
      else if nr = 242 then (if arg = 3 then sock else Rc_err)
      else if nr = 206 then (if arg = 3 then bits t_msg (Some ''0'') else Rc_err)
      else if nr = 207 then (if arg = 3 then bits t_msg (Some ''0'') else Rc_err)
      else if nr = 211 then (if arg = 2 then bits t_msg (Some ''0'') else Rc_err)
      else if nr = 212 then (if arg = 2 then bits t_msg (Some ''0'') else Rc_err)
      else if nr = 220 then (if arg = 0 then Rc_ok (dec_clone rtmin v n) else Rc_err)
      else if nr = 129 then (if arg = 1 then sig else Rc_err)
      else if nr = 130 then (if arg = 1 then sig else Rc_err)
      else if nr = 131 then (if arg = 2 then sig else Rc_err)
      else if nr = 134 then (if arg = 0 then sig else Rc_err)
      else if nr = 279 then (if arg = 1 then bits t_mfd (Some ''0'') else Rc_err)
      else if nr = 167 then (if arg = 0 then enum t_prctl else Rc_err)
      else Rc_err)"

section \<open>Reading the text back\<close>

text \<open>The reference reader: the text is a list of tokens separated by bars, each a name of the table or a
  hexadecimal number; it denotes the union of their values.\<close>

fun join_bar :: "string list \<Rightarrow> string" where
  "join_bar [] = ''''"
| "join_bar (x # xs) = x @ concat (map (\<lambda>y. ''|'' @ y) xs)"

fun split_bar :: "string \<Rightarrow> string list" where
  "split_bar [] = [[]]"
| "split_bar (c # s) = (if c = CHR ''|'' then [] # split_bar s
     else case split_bar s of [] \<Rightarrow> [[c]] | t # ts \<Rightarrow> (c # t) # ts)"

definition token_val :: "flagdef list \<Rightarrow> string \<Rightarrow> u64 option" where
  "token_val t tok =
     (case map_of (map (\<lambda>f. (fname f, fval f)) t) tok of
        Some v \<Rightarrow> Some v
      | None \<Rightarrow> if take 2 tok = ''0x'' then map_option of_nat (read_base 16 (drop 2 tok)) else None)"

fun or_all :: "u64 option list \<Rightarrow> u64 option" where
  "or_all [] = Some 0"
| "or_all (x # xs) = do { a \<leftarrow> x; b \<leftarrow> or_all xs; Some (a OR b) }"

definition flags_value :: "flagdef list \<Rightarrow> string \<Rightarrow> u64 option" where
  "flags_value t s = or_all (map (token_val t) (split_bar s))"

definition plain_token :: "string \<Rightarrow> bool" where
  "plain_token s \<longleftrightarrow> CHR ''|'' \<notin> set s"

lemma split_bar_ne: "split_bar s \<noteq> []"
  by (cases s) (auto split: list.splits)

lemma split_bar_plain: "plain_token s \<Longrightarrow> split_bar s = [s]"
  by (induction s) (auto simp: plain_token_def)

lemma split_bar_app: "plain_token x \<Longrightarrow> split_bar (x @ CHR ''|'' # s) = x # split_bar s"
  by (induction x) (auto simp: plain_token_def)

lemma split_join: "list_all plain_token xs \<Longrightarrow> xs \<noteq> [] \<Longrightarrow> split_bar (join_bar xs) = xs"
proof (induction xs rule: join_bar.induct)
  case (2 x xs)
  then show ?case
  proof (induction xs arbitrary: x)
    case (Cons y ys)
    then show ?case by (simp add: split_bar_app)
  qed (simp add: split_bar_plain)
qed simp

lemma plain_hex: "plain_token (''0x'' @ show_hex v)"
proof -
  have "CHR ''|'' \<notin> dg ` {..<16}"
    by (auto dest!: digit_cases simp: dg_def)
  then show ?thesis using set_show_base [of 16 "unat v"] by (auto simp: plain_token_def)
qed

section \<open>What the bit decoder prints\<close>

text \<open>The entries of the table that are printed, and the bits left over.\<close>

fun picked :: "flagdef list \<Rightarrow> u64 \<Rightarrow> flagdef list \<times> u64" where
  "picked [] rem = ([], rem)"
| "picked (f # t) rem =
     (if fval f = 0 \<or> (rem AND fval f) \<noteq> fval f then picked t rem
      else let (fs, r) = picked t (rem AND NOT (fval f)) in (f # fs, r))"

definition names_len :: "flagdef list \<Rightarrow> nat" where
  "names_len t = sum_list (map (\<lambda>f. Suc (length (fname f))) t)"

lemma names_len_simps [simp]:
  "names_len [] = 0" "names_len (f # t) = Suc (length (fname f)) + names_len t"
  by (simp_all add: names_len_def)

lemma names_len_picked: "names_len (fst (picked t rem)) \<le> names_len t"
  by (induction t rem rule: picked.induct) (auto simp: case_prod_beta Let_def)

lemma set_picked: "set (fst (picked t rem)) \<subseteq> set t"
  by (induction t rem rule: picked.induct) (auto simp: case_prod_beta Let_def)

lemma or_split: "(rem :: u64) AND v = v \<Longrightarrow> v OR (rem AND NOT v) = rem"
proof (rule bit_word_eqI)
  fix n assume "rem AND v = v" "n < LENGTH(64)"
  then have "bit v n \<longleftrightarrow> bit rem n \<and> bit v n" by (metis bit_and_iff)
  then show "bit (v OR (rem AND NOT v)) n \<longleftrightarrow> bit rem n"
    using \<open>n < LENGTH(64)\<close> by (auto simp: bit_simps)
qed

text \<open>No bit is lost or invented: the printed values and the leftover make up the argument.\<close>

lemma picked_or: "or_all (map (\<lambda>f. Some (fval f)) (fst (picked t rem)) @ [Some (snd (picked t rem))]) = Some rem"
proof (induction t rem rule: picked.induct)
  case (2 f t rem)
  show ?case
  proof (cases "fval f = 0 \<or> (rem AND fval f) \<noteq> fval f")
    case False
    then have "or_all (map (\<lambda>f. Some (fval f)) (fst (picked t (rem AND NOT (fval f)))) @
        [Some (snd (picked t (rem AND NOT (fval f))))]) = Some (rem AND NOT (fval f))"
      using 2(2) by simp
    then show ?thesis using False or_split [of rem "fval f"] by (simp add: case_prod_beta Let_def)
  qed (use 2(1) in simp)
qed simp

lemma picked_rem_0: "snd (picked t rem) = 0 \<Longrightarrow> or_all (map (\<lambda>f. Some (fval f)) (fst (picked t rem))) = Some rem"
proof -
  assume z: "snd (picked t rem) = 0"
  have "or_all (xs @ [Some 0]) = or_all xs" for xs
    by (induction xs) (auto split: bind_splits)
  then show ?thesis using picked_or [of t rem] z by simp
qed

lemma picked_none: "fst (picked t rem) = [] \<Longrightarrow> snd (picked t rem) = rem"
  by (induction t rem rule: picked.induct) (auto simp: case_prod_beta Let_def split: if_splits)

lemma bits_put_fits:
  "length out + length piece < outsz \<Longrightarrow> outsz < 2 ^ 64 \<Longrightarrow> piece \<noteq> [] \<Longrightarrow>
   bits_put outsz (out, length out) piece = (out @ piece, length (out @ piece))"
  by (auto simp: bits_put_def szsub_ge Let_def)

lemma bits_loop_rest:
  "length out + names_len (fst (picked t rem)) < outsz \<Longrightarrow> outsz < 2 ^ 64 \<Longrightarrow>
   bits_loop outsz t (out, length out) False rem =
     (snd (picked t rem), out @ concat (map (\<lambda>f. ''|'' @ fname f) (fst (picked t rem))))"
proof (induction t arbitrary: out rem)
  case (Cons f t)
  show ?case
  proof (cases "fval f = 0 \<or> (rem AND fval f) \<noteq> fval f")
    case False
    let ?out = "out @ ''|'' @ fname f"
    have fits: "length ?out + names_len (fst (picked t (rem AND NOT (fval f)))) < outsz"
      using Cons.prems False by (simp add: case_prod_beta Let_def)
    then have "bits_put outsz (out, length out) (''|'' @ fname f) = (?out, length ?out)"
      using Cons.prems(2) by (intro bits_put_fits) auto
    then show ?thesis using False Cons.IH [OF fits Cons.prems(2)] by (simp add: case_prod_beta Let_def)
  qed (use Cons in simp)
qed simp

lemma bits_loop_first:
  assumes "names_len (fst (picked t rem)) \<le> outsz" "outsz < 2 ^ 64" "list_all (\<lambda>f. fname f \<noteq> []) t"
  shows "bits_loop outsz t ('''', 0) True rem = (snd (picked t rem), join_bar (map fname (fst (picked t rem))))"
  using assms
proof (induction t arbitrary: rem)
  case (Cons f t)
  show ?case
  proof (cases "fval f = 0 \<or> (rem AND fval f) \<noteq> fval f")
    case False
    have fits: "length (fname f) + names_len (fst (picked t (rem AND NOT (fval f)))) < outsz"
      using Cons.prems False by (simp add: case_prod_beta Let_def)
    then have "bits_put outsz ('''', 0) (fname f) = (fname f, length (fname f))"
      using bits_put_fits [of "[]" "fname f" outsz] Cons.prems by auto
    then show ?thesis
      using False bits_loop_rest [OF fits Cons.prems(2)] by (simp add: case_prod_beta Let_def comp_def)
  qed (use Cons in simp)
qed simp
section \<open>Round trip\<close>

text \<open>A table of short names without the separator, and one whose whole text fits the 256-byte buffer.\<close>

definition names_ok :: "flagdef list \<Rightarrow> bool" where
  "names_ok t \<longleftrightarrow> list_all (\<lambda>f. fname f \<noteq> [] \<and> plain_token (fname f) \<and> length (fname f) < 32) t"

definition table_ok :: "flagdef list \<Rightarrow> bool" where
  "table_ok t \<longleftrightarrow> names_ok t \<and> names_len t \<le> 256"

text \<open>A table that reads a superset of the names of \<open>t\<close>, with the same values.\<close>

definition reads :: "flagdef list \<Rightarrow> flagdef list \<Rightarrow> bool" where
  "reads t' t \<longleftrightarrow> list_all (\<lambda>f. token_val t' (fname f) = Some (fval f)) t \<and>
     list_all (\<lambda>f. take 2 (fname f) \<noteq> ''0x'') t'"

lemma token_val_hex: "list_all (\<lambda>f. take 2 (fname f) \<noteq> ''0x'') t \<Longrightarrow> token_val t (''0x'' @ show_hex v) = Some v"
proof -
  assume "list_all (\<lambda>f. take 2 (fname f) \<noteq> ''0x'') t"
  then have "map_of (map (\<lambda>f. (fname f, fval f)) t) (''0x'' @ show_hex v) = None"
    by (induction t) (auto dest: sym)
  then show ?thesis using read_show_base [of 16 "unat v"] by (simp add: token_val_def)
qed

lemma flags_value_join:
  assumes "list_all plain_token xs" "xs \<noteq> []"
  shows "flags_value t (join_bar xs) = or_all (map (token_val t) xs)"
  using split_join [OF assms] by (simp add: flags_value_def)

lemma join_bar_snoc: "xs \<noteq> [] \<Longrightarrow> join_bar (xs @ [y]) = join_bar xs @ ''|'' @ y"
  by (cases xs) simp_all

lemma length_join_bar: "length (join_bar (map fname t)) \<le> names_len t"
proof (cases t)
  case (Cons f r)
  have "length (concat (map (\<lambda>y. ''|'' @ fname y) r)) \<le> names_len r" by (induction r) auto
  then show ?thesis using Cons by (simp add: comp_def)
qed simp

lemma join_bar_eq_Nil: "list_all (\<lambda>f. fname f \<noteq> []) t \<Longrightarrow> join_bar (map fname t) = [] \<longleftrightarrow> t = []"
  by (cases t) auto

text \<open>What the generic decoders print, given that the table fits.\<close>

lemma bits_str_picked:
  assumes "table_ok t"
  shows "bits_str v t 256 = (snd (picked t v), join_bar (map fname (fst (picked t v))))"
    and "join_bar (map fname (fst (picked t v))) = [] \<longleftrightarrow> fst (picked t v) = []"
    and "length (join_bar (map fname (fst (picked t v)))) \<le> 256"
    and "list_all plain_token (map fname (fst (picked t v)))"
proof -
  have "names_len (fst (picked t v)) \<le> 256"
    using names_len_picked [of t v] assms by (simp add: table_ok_def)
  then show "bits_str v t 256 = (snd (picked t v), join_bar (map fname (fst (picked t v))))"
    "length (join_bar (map fname (fst (picked t v)))) \<le> 256"
    using assms bits_loop_first [of t v 256] length_join_bar [of "fst (picked t v)"]
    by (auto simp: bits_str_def table_ok_def names_ok_def list_all_iff)
  show "join_bar (map fname (fst (picked t v))) = [] \<longleftrightarrow> fst (picked t v) = []"
    using assms set_picked [of t v] by (intro join_bar_eq_Nil) (auto simp: table_ok_def names_ok_def list_all_iff)
  show "list_all plain_token (map fname (fst (picked t v)))"
    using assms set_picked [of t v] by (auto simp: table_ok_def names_ok_def list_all_iff)
qed

lemma reads_picked:
  assumes "reads t' t"
  shows "map (token_val t') (map fname (fst (picked t v))) = map (\<lambda>f. Some (fval f)) (fst (picked t v))"
  using assms set_picked [of t v] by (auto simp: reads_def list_all_iff)

lemma reads_hex: "reads t' t \<Longrightarrow> token_val t' (''0x'' @ show_hex v) = Some v"
  by (rule token_val_hex) (simp add: reads_def)

lemma flags_value_plain: "plain_token x \<Longrightarrow> flags_value t x = token_val t x"
  by (cases "token_val t x") (simp_all add: flags_value_def split_bar_plain)

lemma or_all_append: "or_all (xs @ ys) = do { a \<leftarrow> or_all xs; b \<leftarrow> or_all ys; Some (a OR b) }"
  by (induction xs) (auto simp: or.assoc split: bind_splits)

text \<open>The tokens of a decoded bit set: those of the text in the buffer and the leftover bits.\<close>

definition bit_tokens :: "flagdef list \<Rightarrow> u64 \<Rightarrow> string list" where
  "bit_tokens t v = map fname (fst (picked t v)) @
     (if snd (picked t v) \<noteq> 0 then [''0x'' @ show_hex (snd (picked t v))] else [])"

lemma bit_tokens_value:
  assumes "reads t' t"
  shows "or_all (map (token_val t') (bit_tokens t v)) = Some v"
  unfolding bit_tokens_def map_append reads_picked [OF assms]
  using picked_or [of t v] picked_rem_0 [of t v] reads_hex [OF assms] by (auto simp: or_all_append)

lemma bit_tokens_plain: "table_ok t \<Longrightarrow> list_all plain_token (bit_tokens t v)"
  using bits_str_picked(4) plain_hex by (simp add: bit_tokens_def)

lemma dec_bits_text:
  assumes "table_ok t" "280 \<le> n"
  shows "dec_bits v t zero n =
     (if fst (picked t v) = [] then (case zero of Some z \<Rightarrow> if v = 0 then snprintf n z else ''0x'' @ show_hex v
        | None \<Rightarrow> ''0x'' @ show_hex v)
      else join_bar (bit_tokens t v))"
  using bits_str_picked [OF assms(1), of v] assms(2) length_show_hex [of v] length_show_hex [of "snd (picked t v)"]
  by (auto simp: dec_bits_def bit_tokens_def join_bar_snoc split: option.splits)
lemma join_bar_value:
  assumes "table_ok t" "reads t' t" "fst (picked t v) \<noteq> []"
  shows "flags_value t' (join_bar (bit_tokens t v)) = Some v"
  using flags_value_join [OF bit_tokens_plain [OF assms(1)], of v t'] bit_tokens_value [OF assms(2), of v] assms(3)
  by (simp add: bit_tokens_def)

lemma hex_value: "reads t' t \<Longrightarrow> flags_value t' (''0x'' @ show_hex v) = Some v"
  using flags_value_plain [OF plain_hex, of t' v] reads_hex [of t' t v] by simp

lemma dec_bits_value:
  assumes "table_ok t" "reads t' t" "280 \<le> n"
    and "\<And>z. zero = Some z \<Longrightarrow> plain_token z \<and> length z < n \<and> token_val t' z = Some 0"
  shows "flags_value t' (dec_bits v t zero n) = Some v"
proof (cases "fst (picked t v) = [] \<and> v = 0 \<and> zero \<noteq> None")
  case True
  then show ?thesis
    using assms(4) by (auto simp: dec_bits_text [OF assms(1,3)] flags_value_plain)
next
  case False
  then show ?thesis
    using join_bar_value [OF assms(1,2), of v] hex_value [OF assms(2), of v]
    by (auto simp: dec_bits_text [OF assms(1,3)] simp del: join_bar.simps append.simps split: option.splits)
qed

lemma dec_enum_token:
  assumes "names_ok t" "reads t' t" "32 \<le> n"
  shows "plain_token (dec_enum v t n) \<and> token_val t' (dec_enum v t n) = Some v \<and> length (dec_enum v t n) < 32"
proof -
  have "plain_token (dec_enum v u n) \<and> token_val t' (dec_enum v u n) = Some v \<and> length (dec_enum v u n) < 32"
    if "set u \<subseteq> set t" for u
    using that
  proof (induction u)
    case Nil
    show ?case using plain_hex [of v] reads_hex [OF assms(2), of v] assms(3) length_show_hex [of v] by simp
  next
    case (Cons f u)
    have "plain_token (fname f)" "token_val t' (fname f) = Some (fval f)" "length (fname f) < 32"
      using Cons.prems assms(1,2) by (auto simp: names_ok_def reads_def list_all_iff)
    then show ?case using Cons assms(3) by auto
  qed
  then show ?thesis by simp
qed

lemma dec_enum_value: "names_ok t \<Longrightarrow> reads t' t \<Longrightarrow> 32 \<le> n \<Longrightarrow> flags_value t' (dec_enum v t n) = Some v"
  using dec_enum_token [of t t' n v] by (simp add: flags_value_plain)

definition t_acc :: "flagdef list" where
  "t_acc = [FD 0 ''O_RDONLY'', FD 1 ''O_WRONLY'', FD 2 ''O_RDWR'', FD 3 ''O_ACCMODE'']"

lemmas table_defs = t_prot_def t_map_def t_oflags_def t_cloexec_def t_msg_def t_at_def t_access_def
  t_clone_def t_madv_def t_whence_def t_fcntl_def t_af_def t_socktype_def t_prctl_def t_mfd_def
  t_mremap_def t_sig_def t_acc_def

lemma plain_token_simps [simp]: "plain_token []" "plain_token (c # s) \<longleftrightarrow> c \<noteq> CHR ''|'' \<and> plain_token s"
  by (auto simp: plain_token_def)

lemma tables_ok:
  "table_ok t_prot" "table_ok t_map" "table_ok t_oflags" "table_ok t_cloexec" "table_ok t_msg" "table_ok t_at"
  "table_ok t_access" "table_ok t_mfd" "table_ok t_mremap"
  by (simp_all add: table_ok_def names_ok_def table_defs)

lemma names_ok:
  "names_ok t_madv" "names_ok t_whence" "names_ok t_fcntl" "names_ok t_af" "names_ok t_socktype"
  "names_ok t_prctl" "names_ok t_sig"
  by (simp_all add: names_ok_def table_defs)

text \<open>A zero name is read last.\<close>

lemma reads_self:
  "reads (t_prot @ [FD 0 ''PROT_NONE'']) t_prot" "reads t_map t_map" "reads (t_mremap @ [FD 0 ''0'']) t_mremap"
  "reads (t_access @ [FD 0 ''F_OK'']) t_access" "reads (t_at @ [FD 0 ''0'']) t_at"
  "reads (t_cloexec @ [FD 0 ''0'']) t_cloexec" "reads (t_msg @ [FD 0 ''0'']) t_msg" "reads (t_mfd @ [FD 0 ''0'']) t_mfd"
  by (simp_all add: reads_def table_defs token_val_def)

lemma reads_enum:
  "reads t_madv t_madv" "reads t_whence t_whence" "reads t_fcntl t_fcntl" "reads t_af t_af" "reads t_prctl t_prctl"
  by (simp_all add: reads_def table_defs token_val_def)

lemma reads_open: "reads (t_acc @ t_oflags) t_oflags"
  by (simp add: reads_def table_defs token_val_def)

lemma join_bar_Cons: "ts \<noteq> [] \<Longrightarrow> join_bar (x # ts) = x @ ''|'' @ join_bar ts"
  by (cases ts) simp_all

lemma low2_cases: "v AND 3 \<in> {0, 1, 2, 3 :: u64}"
proof -
  have "v AND 3 = take_bit 2 v" by (simp add: take_bit_eq_mask mask_numeral)
  moreover have "unat (take_bit 2 v) < 4" using take_bit_nat_less_exp [of 2 "unat v"] by (simp add: unsigned_take_bit_eq)
  ultimately have "unat (v AND 3) \<in> {0, 1, 2, 3}" by auto
  then show ?thesis by (auto simp: word_unat_eq_iff)
qed

lemma low2_or: "(v AND 3) OR (v AND NOT 3) = (v :: u64)"
  by (rule bit_word_eqI) (auto simp: bit_simps)

definition acc_name :: "u64 \<Rightarrow> string" where
  "acc_name a = (if a = 0 then ''O_RDONLY'' else if a = 1 then ''O_WRONLY''
     else if a = 2 then ''O_RDWR'' else ''O_ACCMODE'')"

lemma acc_name:
  "plain_token (acc_name (v AND 3))" "length (acc_name (v AND 3)) < 16"
  "token_val (t_acc @ t_oflags) (acc_name (v AND 3)) = Some (v AND 3)"
  using low2_cases [of v] by (auto simp: acc_name_def token_val_def table_defs)

lemma dec_open_text:
  assumes "300 \<le> n"
  shows "dec_open v n = join_bar (acc_name (v AND 3) # bit_tokens t_oflags (v AND NOT 3))"
proof -
  let ?w = "v AND NOT 3" and ?acc = "acc_name (v AND 3)"
  note b = bits_str_picked [OF tables_ok(3), of ?w] length_show_hex [of "snd (picked t_oflags ?w)"] acc_name(2) [of v]
  have acc: "(if v AND 3 = 0 then ''O_RDONLY'' else if v AND 3 = 1 then ''O_WRONLY''
      else if v AND 3 = 2 then ''O_RDWR'' else ''O_ACCMODE'') = ?acc"
    by (simp add: acc_name_def)
  show ?thesis
    unfolding dec_open_def acc using b assms
    by (auto simp: Let_def bit_tokens_def join_bar_Cons join_bar_snoc simp del: join_bar.simps(2))
       (simp_all add: join_bar.simps(2))
qed

lemma dec_open_value:
  assumes "300 \<le> n"
  shows "flags_value (t_acc @ t_oflags) (dec_open v n) = Some v"
proof -
  let ?w = "v AND NOT 3"
  have "flags_value (t_acc @ t_oflags) (dec_open v n) =
      or_all (map (token_val (t_acc @ t_oflags)) (acc_name (v AND 3) # bit_tokens t_oflags ?w))"
    unfolding dec_open_text [OF assms]
    using bit_tokens_plain [OF tables_ok(3), of ?w] acc_name(1) [of v] by (intro flags_value_join) auto
  also have "\<dots> = Some v"
    using bit_tokens_value [OF reads_open, of ?w] acc_name(3) [of v] low2_or [of v] by simp
  finally show ?thesis .
qed

definition t_sock :: "flagdef list" where
  "t_sock = t_socktype @ [FD SOCK_NONBLOCK ''SOCK_NONBLOCK'', FD SOCK_CLOEXEC ''SOCK_CLOEXEC'']"

lemma and_exp: "v AND 2 ^ k = (if bit v k then 2 ^ k else 0 :: u64)"
  by (rule bit_word_eqI) (auto simp: bit_simps)

lemma two_bits_or:
  "(v AND NOT (2 ^ j OR 2 ^ k)) OR ((if v AND 2 ^ j \<noteq> 0 then 2 ^ j else 0) OR
     (if v AND 2 ^ k \<noteq> 0 then 2 ^ k else 0)) = (v :: u64)"
  unfolding and_exp by (rule bit_word_eqI) (auto simp: bit_simps)

lemmas sock_or = two_bits_or [of v 11 19 for v, simplified]

lemma dec_socktype_value:
  assumes "64 \<le> n"
  shows "flags_value t_sock (dec_socktype v n) = Some v"
proof -
  let ?b = "v AND NOT (SOCK_NONBLOCK OR SOCK_CLOEXEC)" and ?e = "dec_enum (v AND NOT (SOCK_NONBLOCK OR SOCK_CLOEXEC)) t_socktype 64"
  let ?fs = "(if v AND SOCK_NONBLOCK \<noteq> 0 then [''SOCK_NONBLOCK''] else []) @ (if v AND SOCK_CLOEXEC \<noteq> 0 then [''SOCK_CLOEXEC''] else [])"
  have r: "reads t_sock t_socktype" by (simp add: reads_def token_val_def t_sock_def table_defs)
  note e = dec_enum_token [OF names_ok(5) r, of 64 ?b, simplified]
  have "dec_socktype v n = join_bar (?e # ?fs)"
    using e assms by (simp add: dec_socktype_def dec_apnd_def Let_def)
  moreover have "list_all plain_token (?e # ?fs)" using e by simp
  ultimately have "flags_value t_sock (dec_socktype v n) = or_all (map (token_val t_sock) (?e # ?fs))"
    by (simp only: flags_value_join list.distinct not_False_eq_True)
  also have "\<dots> = Some v"
    using e sock_or [of v] by (auto simp: token_val_def t_sock_def table_defs split: if_splits)
  finally show ?thesis .
qed

lemma token_not_in: "list_all (\<lambda>f. take k (fname f) \<noteq> take k s) t \<Longrightarrow> map_of (map (\<lambda>f. (fname f, fval f)) t) s = None"
  by (induction t) auto

definition signal_value :: "u64 \<Rightarrow> string \<Rightarrow> u64 option" where
  "signal_value rtmin s =
     (case map_of (map (\<lambda>f. (fname f, fval f)) t_sig) s of
        Some v \<Rightarrow> Some v
      | None \<Rightarrow> if take 5 s = ''SIGRT'' then map_option (\<lambda>k. rtmin + of_nat k) (read_base 10 (drop 5 s))
                else map_option of_nat (read_base 10 s))"

lemma signame_Some: "signame v = Some s \<Longrightarrow> map_of (map (\<lambda>f. (fname f, fval f)) t_sig) s = Some v \<and> length s < 32"
proof -
  assume "signame v = Some s"
  then obtain f where f: "f \<in> set t_sig" "fval f = v" "fname f = s"
    by (auto simp: signame_def find_Some_iff intro: nth_mem)
  have "distinct (map fname t_sig)" by (simp add: t_sig_def)
  then have "map_of (map (\<lambda>f. (fname f, fval f)) t_sig) s = Some v"
    using f by (intro map_of_is_SomeI) (auto simp: comp_def)
  then show ?thesis using f names_ok(7) by (auto simp: names_ok_def list_all_iff)
qed

lemma hd_show_base: "hd (show_base 10 n) \<in> dg ` {..<16}"
  using set_show_base [of 10 n] hd_in_set [OF show_base_ne, of 10 n] by auto

lemma not_signame: "map_of (map (\<lambda>f. (fname f, fval f)) t_sig) (show_dec v) = None" "take 5 (show_dec v) \<noteq> ''SIGRT''"
proof -
  have h: "hd (show_dec v) \<noteq> CHR ''S''"
    using hd_show_base [of "unat v"] by (auto dest!: digit_cases simp: dg_def)
  obtain c s where cs: "show_dec v = c # s" "c \<noteq> CHR ''S''" using h by (cases "show_dec v") auto
  show "map_of (map (\<lambda>f. (fname f, fval f)) t_sig) (show_dec v) = None" "take 5 (show_dec v) \<noteq> ''SIGRT''"
    using cs by (auto simp: t_sig_def)
qed

lemma dec_signal_value:
  assumes "32 \<le> n"
  shows "signal_value rtmin (dec_signal rtmin v n) = Some v"
proof (cases "signame v")
  case None
  have "map_of (map (\<lambda>f. (fname f, fval f)) t_sig) (''SIGRT'' @ show_dec (v - rtmin)) = None"
    by (rule token_not_in [of 5]) (simp add: t_sig_def)
  then show ?thesis
    using None not_signame [of v] read_show_base [of 10 "unat (v - rtmin)"] read_show_base [of 10 "unat v"]
      length_show_dec [of v] length_show_dec [of "v - rtmin"] assms
    by (simp add: dec_signal_def signal_value_def)
next
  case (Some s)
  then show ?thesis using signame_Some [OF Some] assms by (simp add: dec_signal_def signal_value_def)
qed

lemma dec_mode_value: "32 \<le> n \<Longrightarrow> map_option of_nat (read_base 8 (dec_mode v n)) = Some v"
proof -
  assume n: "32 \<le> n"
  have "length (show_oct v) \<le> 22"
    using length_show_base [of 8 22 "unat v"] unsigned_less [of v, where 'a = nat] by simp
  moreover have "read_base 8 (CHR ''0'' # s) = read_base 8 s" for s
    by (simp add: read_base_def digit_val_def)
  ultimately show ?thesis using n read_show_base [of 8 "unat v"] by (simp add: dec_mode_def)
qed

section \<open>The dispatcher\<close>

text \<open>What each decoded argument is, by syscall and position, and the reader of its text.\<close>

datatype arg_kind = K_flags "flagdef list" | K_octal | K_signal

definition arg_kinds :: "((int \<times> int) \<times> arg_kind) list" where
  "arg_kinds =
    [((56, 2), K_flags (t_acc @ t_oflags)), ((56, 3), K_octal),
     ((222, 2), K_flags (t_prot @ [FD 0 ''PROT_NONE''])), ((222, 3), K_flags t_map),
     ((226, 2), K_flags (t_prot @ [FD 0 ''PROT_NONE''])), ((288, 2), K_flags (t_prot @ [FD 0 ''PROT_NONE''])),
     ((216, 3), K_flags (t_mremap @ [FD 0 ''0''])), ((233, 2), K_flags t_madv), ((62, 2), K_flags t_whence),
     ((25, 1), K_flags t_fcntl), ((198, 0), K_flags t_af), ((198, 1), K_flags t_sock),
     ((199, 0), K_flags t_af), ((199, 1), K_flags t_sock),
     ((48, 2), K_flags (t_access @ [FD 0 ''F_OK''])), ((439, 2), K_flags (t_access @ [FD 0 ''F_OK''])),
     ((439, 3), K_flags (t_at @ [FD 0 ''0''])), ((79, 3), K_flags (t_at @ [FD 0 ''0''])),
     ((291, 2), K_flags (t_at @ [FD 0 ''0''])), ((35, 2), K_flags (t_at @ [FD 0 ''0''])),
     ((54, 4), K_flags (t_at @ [FD 0 ''0''])), ((37, 4), K_flags (t_at @ [FD 0 ''0''])),
     ((34, 2), K_octal), ((53, 2), K_octal), ((52, 1), K_octal),
     ((59, 1), K_flags (t_cloexec @ [FD 0 ''0''])), ((24, 2), K_flags (t_cloexec @ [FD 0 ''0''])),
     ((19, 1), K_flags (t_cloexec @ [FD 0 ''0''])), ((26, 0), K_flags (t_cloexec @ [FD 0 ''0''])),
     ((242, 3), K_flags t_sock),
     ((206, 3), K_flags (t_msg @ [FD 0 ''0''])), ((207, 3), K_flags (t_msg @ [FD 0 ''0''])),
     ((211, 2), K_flags (t_msg @ [FD 0 ''0''])), ((212, 2), K_flags (t_msg @ [FD 0 ''0''])),
     ((129, 1), K_signal), ((130, 1), K_signal), ((131, 2), K_signal), ((134, 0), K_signal),
     ((279, 1), K_flags (t_mfd @ [FD 0 ''0''])), ((167, 0), K_flags t_prctl)]"

fun read_arg :: "u64 \<Rightarrow> arg_kind \<Rightarrow> string \<Rightarrow> u64 option" where
  "read_arg rtmin (K_flags t) s = flags_value t s"
| "read_arg rtmin K_octal s = map_option of_nat (read_base 8 s)"
| "read_arg rtmin K_signal s = signal_value rtmin s"

lemma zero_tokens:
  "token_val (t_prot @ [FD 0 ''PROT_NONE'']) ''PROT_NONE'' = Some 0" "token_val (t_mremap @ [FD 0 ''0'']) ''0'' = Some 0"
  "token_val (t_access @ [FD 0 ''F_OK'']) ''F_OK'' = Some 0" "token_val (t_at @ [FD 0 ''0'']) ''0'' = Some 0"
  "token_val (t_cloexec @ [FD 0 ''0'']) ''0'' = Some 0" "token_val (t_msg @ [FD 0 ''0'']) ''0'' = Some 0"
  "token_val (t_mfd @ [FD 0 ''0'']) ''0'' = Some 0"
  by (simp_all add: token_val_def table_defs)

text \<open>The decoder each of them gets.\<close>

lemma flags_decode_arg_cases:
  "flags_decode_arg rtmin 56 2 v n = Rc_ok (dec_open v n)"
  "flags_decode_arg rtmin 56 3 v n = Rc_ok (dec_mode v n)"
  "flags_decode_arg rtmin 222 2 v n = Rc_ok (dec_bits v t_prot (Some ''PROT_NONE'') n)"
  "flags_decode_arg rtmin 222 3 v n = Rc_ok (dec_bits v t_map None n)"
  "flags_decode_arg rtmin 226 2 v n = Rc_ok (dec_bits v t_prot (Some ''PROT_NONE'') n)"
  "flags_decode_arg rtmin 288 2 v n = Rc_ok (dec_bits v t_prot (Some ''PROT_NONE'') n)"
  "flags_decode_arg rtmin 216 3 v n = Rc_ok (dec_bits v t_mremap (Some ''0'') n)"
  "flags_decode_arg rtmin 233 2 v n = Rc_ok (dec_enum v t_madv n)"
  "flags_decode_arg rtmin 62 2 v n = Rc_ok (dec_enum v t_whence n)"
  "flags_decode_arg rtmin 25 1 v n = Rc_ok (dec_enum v t_fcntl n)"
  "flags_decode_arg rtmin 198 0 v n = Rc_ok (dec_enum v t_af n)"
  "flags_decode_arg rtmin 198 1 v n = Rc_ok (dec_socktype v n)"
  "flags_decode_arg rtmin 199 0 v n = Rc_ok (dec_enum v t_af n)"
  "flags_decode_arg rtmin 199 1 v n = Rc_ok (dec_socktype v n)"
  "flags_decode_arg rtmin 48 2 v n = Rc_ok (dec_bits v t_access (Some ''F_OK'') n)"
  "flags_decode_arg rtmin 439 2 v n = Rc_ok (dec_bits v t_access (Some ''F_OK'') n)"
  "flags_decode_arg rtmin 439 3 v n = Rc_ok (dec_bits v t_at (Some ''0'') n)"
  "flags_decode_arg rtmin 79 3 v n = Rc_ok (dec_bits v t_at (Some ''0'') n)"
  "flags_decode_arg rtmin 291 2 v n = Rc_ok (dec_bits v t_at (Some ''0'') n)"
  "flags_decode_arg rtmin 35 2 v n = Rc_ok (dec_bits v t_at (Some ''0'') n)"
  "flags_decode_arg rtmin 54 4 v n = Rc_ok (dec_bits v t_at (Some ''0'') n)"
  "flags_decode_arg rtmin 37 4 v n = Rc_ok (dec_bits v t_at (Some ''0'') n)"
  "flags_decode_arg rtmin 34 2 v n = Rc_ok (dec_mode v n)"
  "flags_decode_arg rtmin 53 2 v n = Rc_ok (dec_mode v n)"
  "flags_decode_arg rtmin 52 1 v n = Rc_ok (dec_mode v n)"
  "flags_decode_arg rtmin 59 1 v n = Rc_ok (dec_bits v t_cloexec (Some ''0'') n)"
  "flags_decode_arg rtmin 24 2 v n = Rc_ok (dec_bits v t_cloexec (Some ''0'') n)"
  "flags_decode_arg rtmin 19 1 v n = Rc_ok (dec_bits v t_cloexec (Some ''0'') n)"
  "flags_decode_arg rtmin 26 0 v n = Rc_ok (dec_bits v t_cloexec (Some ''0'') n)"
  "flags_decode_arg rtmin 242 3 v n = Rc_ok (dec_socktype v n)"
  "flags_decode_arg rtmin 206 3 v n = Rc_ok (dec_bits v t_msg (Some ''0'') n)"
  "flags_decode_arg rtmin 207 3 v n = Rc_ok (dec_bits v t_msg (Some ''0'') n)"
  "flags_decode_arg rtmin 211 2 v n = Rc_ok (dec_bits v t_msg (Some ''0'') n)"
  "flags_decode_arg rtmin 212 2 v n = Rc_ok (dec_bits v t_msg (Some ''0'') n)"
  "flags_decode_arg rtmin 129 1 v n = Rc_ok (dec_signal rtmin v n)"
  "flags_decode_arg rtmin 130 1 v n = Rc_ok (dec_signal rtmin v n)"
  "flags_decode_arg rtmin 131 2 v n = Rc_ok (dec_signal rtmin v n)"
  "flags_decode_arg rtmin 134 0 v n = Rc_ok (dec_signal rtmin v n)"
  "flags_decode_arg rtmin 279 1 v n = Rc_ok (dec_bits v t_mfd (Some ''0'') n)"
  "flags_decode_arg rtmin 167 0 v n = Rc_ok (dec_enum v t_prctl n)"
  unfolding flags_decode_arg_def Let_def by simp_all

lemma dec_flags_value:
  assumes "300 \<le> n"
  shows "flags_value (t_prot @ [FD 0 ''PROT_NONE'']) (dec_bits v t_prot (Some ''PROT_NONE'') n) = Some v"
    "flags_value t_map (dec_bits v t_map None n) = Some v"
    "flags_value (t_mremap @ [FD 0 ''0'']) (dec_bits v t_mremap (Some ''0'') n) = Some v"
    "flags_value (t_access @ [FD 0 ''F_OK'']) (dec_bits v t_access (Some ''F_OK'') n) = Some v"
    "flags_value (t_at @ [FD 0 ''0'']) (dec_bits v t_at (Some ''0'') n) = Some v"
    "flags_value (t_cloexec @ [FD 0 ''0'']) (dec_bits v t_cloexec (Some ''0'') n) = Some v"
    "flags_value (t_msg @ [FD 0 ''0'']) (dec_bits v t_msg (Some ''0'') n) = Some v"
    "flags_value (t_mfd @ [FD 0 ''0'']) (dec_bits v t_mfd (Some ''0'') n) = Some v"
  by (rule dec_bits_value [OF tables_ok(1) reads_self(1)] dec_bits_value [OF tables_ok(2) reads_self(2)]
        dec_bits_value [OF tables_ok(9) reads_self(3)] dec_bits_value [OF tables_ok(7) reads_self(4)]
        dec_bits_value [OF tables_ok(6) reads_self(5)] dec_bits_value [OF tables_ok(4) reads_self(6)]
        dec_bits_value [OF tables_ok(5) reads_self(7)] dec_bits_value [OF tables_ok(8) reads_self(8)];
      use assms in \<open>auto simp: zero_tokens\<close>)+

lemma dec_enums_value:
  assumes "300 \<le> n"
  shows "flags_value t_madv (dec_enum v t_madv n) = Some v" "flags_value t_whence (dec_enum v t_whence n) = Some v"
    "flags_value t_fcntl (dec_enum v t_fcntl n) = Some v" "flags_value t_af (dec_enum v t_af n) = Some v"
    "flags_value t_prctl (dec_enum v t_prctl n) = Some v"
  using assms by (simp_all add: dec_enum_value names_ok reads_enum)

lemma arg_kinds_read:
  assumes "300 \<le> n"
  shows "list_all (\<lambda>((nr, arg), k). \<exists>s. flags_decode_arg rtmin nr arg v n = Rc_ok s \<and> read_arg rtmin k s = Some v) arg_kinds"
  unfolding arg_kinds_def list.pred_inject prod.case flags_decode_arg_cases rc.inject
  using assms dec_flags_value [OF assms, of v] dec_enums_value [OF assms, of v] dec_open_value [OF assms, of v]
    dec_socktype_value [of n v] dec_signal_value [of n rtmin v] dec_mode_value [of n v]
  by simp

lemma arg_kinds_complete:
  "flags_decode_arg rtmin nr arg v n = Rc_ok s \<Longrightarrow> (nr, arg) \<in> insert (220, 0) (fst ` set arg_kinds)"
  unfolding arg_kinds_def by (simp add: flags_decode_arg_def Let_def split: if_splits)

lemma bits_put_len:
  "pos < outsz \<Longrightarrow> outsz < 2 ^ 64 \<Longrightarrow>
   length (fst (bits_put outsz (out, pos) piece)) < outsz \<and> snd (bits_put outsz (out, pos) piece) < outsz"
  by (auto simp: bits_put_def Let_def szsub_ge snprintf_def)

lemma bits_loop_len:
  "length (fst buf) < outsz \<Longrightarrow> snd buf < outsz \<Longrightarrow> outsz < 2 ^ 64 \<Longrightarrow>
   length (snd (bits_loop outsz t buf first rem)) < outsz"
proof (induction t arbitrary: buf first rem)
  case (Cons f t)
  obtain out pos where "buf = (out, pos)" by (cases buf)
  then show ?case using Cons bits_put_len [of pos outsz out] by auto
qed simp

lemma dec_apnd_len:
  "length (fst p) < n \<Longrightarrow> snd p < n \<Longrightarrow> length (fst (dec_apnd n p piece)) < n \<and> snd (dec_apnd n p piece) < n"
  by (cases p) (auto simp: dec_apnd_def Let_def snprintf_def)

lemma dec_bits_len: "0 < n \<Longrightarrow> length (dec_bits v t zero n) < n"
  by (auto simp: dec_bits_def case_prod_beta length_snprintf split: option.splits)

lemma dec_enum_len: "0 < n \<Longrightarrow> length (dec_enum v t n) < n"
  by (induction t) (auto simp: length_snprintf)

lemma dec_signal_len: "0 < n \<Longrightarrow> length (dec_signal rtmin v n) < n"
  by (auto simp: dec_signal_def length_snprintf split: option.splits)

lemma dec_clone_len:
  assumes "0 < n"
  shows "length (dec_clone rtmin v n) < n"
proof -
  define fits where "fits p \<longleftrightarrow> length (fst p) < n \<and> snd p < n" for p :: "string \<times> nat"
  have "fits ('''', 0)" "\<And>p s. fits p \<Longrightarrow> fits (dec_apnd n p s)"
    using assms dec_apnd_len by (auto simp: fits_def)
  then have "fits (let (rem, buf) = bits_str (v AND NOT 0xff) t_clone 256;
          sigpart = (if v AND 0xff \<noteq> 0 then dec_signal rtmin (v AND 0xff) 32 else '''');
          p = ('''', 0);
          p = (if buf \<noteq> '''' then dec_apnd n p buf else p);
          p = (if rem \<noteq> 0 then dec_apnd n p ((if snd p \<noteq> 0 then ''|'' else '''') @ ''0x'' @ show_hex rem) else p)
      in (if sigpart \<noteq> '''' then dec_apnd n p ((if snd p \<noteq> 0 then ''|'' else '''') @ sigpart) else p))"
    by (simp add: Let_def case_prod_beta del: append.simps)
  then show ?thesis
    using assms length_snprintf [of n] by (simp add: dec_clone_def Let_def case_prod_beta fits_def)
qed

text \<open>The text of a decoded argument never overruns its buffer, whatever the argument and however
  small the buffer, and the intermediate 256-byte buffer of the bit decoder is never overrun either.\<close>

theorem flags_decode_bounds:
  assumes "0 < n"
  shows "(\<forall>s. flags_decode_arg rtmin nr arg v n = Rc_ok s \<longrightarrow> length s < n) \<and> length (snd (bits_str v t 256)) < 256"
proof (intro conjI allI impI)
  fix s assume "flags_decode_arg rtmin nr arg v n = Rc_ok s"
  then show "length s < n"
    using assms dec_bits_len dec_enum_len dec_signal_len dec_clone_len length_snprintf [OF assms]
    by (auto simp: flags_decode_arg_def Let_def dec_open_def dec_mode_def dec_socktype_def case_prod_beta split: if_splits)
next
  show "length (snd (bits_str v t 256)) < 256"
    using bits_loop_len [of "('''', 0)" 256] by (simp add: bits_str_def)
qed

lemma flags_decode_bounds_witness:
  "\<exists>s. flags_decode_arg 35 220 0 0xffffffff 16 = Rc_ok s \<and> length s < 16 \<and> length (snd (bits_str 0xffffffff t_clone 256)) < 256"
proof -
  obtain s where "flags_decode_arg 35 220 0 0xffffffff 16 = Rc_ok s" by (simp add: flags_decode_arg_def)
  then show ?thesis using flags_decode_bounds [of 16 35 220 0 "0xffffffff" t_clone] by auto
qed



text \<open>Three table entries can never be printed, because the bits they share with an earlier entry are
  already consumed: a shared-validate mapping reads as shared and private at once, an unnamed temporary
  file as a directory with an unknown bit, and an effective-ids access check as a directory removal.\<close>

theorem flags_decode_shadowed:
  "flags_decode_arg rtmin 222 3 3 64 = Rc_ok ''MAP_SHARED|MAP_PRIVATE'' \<and>
   flags_decode_arg rtmin 56 2 0x404002 64 = Rc_ok ''O_RDWR|O_DIRECTORY|0x400000'' \<and>
   flags_decode_arg rtmin 439 3 0x200 64 = Rc_ok ''AT_REMOVEDIR''"
  unfolding flags_decode_arg_cases
  by (simp add: dec_bits_def dec_open_def bits_str_def bits_put_def table_defs szsub_def snprintf_def Let_def
      show_base.simps dg_def)

end
