(* ===== verification/Probe_Table.thy ===== *)
theory Probe_Table
  imports Anubee_Prelude
begin

unbundle bit_operations_syntax

text \<open>
  Open addressing with linear probing over a table whose size is a power of two, as the program's caches use it:
  the loop that stops at the first slot that is free or has the key, the loop that looks for a free slot, and the rehash
  of every used slot into a larger table. The loops have as many probes as the table has slots; \<open>None\<close> is a loop that
  found nothing, which the code's unbounded loops would turn into never returning.

  The locale \<open>probing\<close> holds the laws, for any entry type with a used flag, a key and a hash of the key.
\<close>

fun lp_probe :: "('e \<Rightarrow> bool) \<Rightarrow> ('e \<Rightarrow> 'k) \<Rightarrow> 'e list \<Rightarrow> 'k \<Rightarrow> nat \<Rightarrow> nat \<Rightarrow> nat option" where
  "lp_probe used key t k 0 i = None"
| "lp_probe used key t k (Suc n) i =
     (if \<not> used (t ! i) \<or> key (t ! i) = k then Some i else lp_probe used key t k n ((i + 1) AND (length t - 1)))"

definition lp_slot :: "('e \<Rightarrow> bool) \<Rightarrow> ('e \<Rightarrow> 'k) \<Rightarrow> ('k \<Rightarrow> nat) \<Rightarrow> 'e list \<Rightarrow> 'k \<Rightarrow> nat option" where
  "lp_slot used key hash t k = (if t = [] then None else lp_probe used key t k (length t) (hash k AND (length t - 1)))"

definition lp_find :: "('e \<Rightarrow> bool) \<Rightarrow> ('e \<Rightarrow> 'k) \<Rightarrow> ('k \<Rightarrow> nat) \<Rightarrow> 'e list \<Rightarrow> 'k \<Rightarrow> nat option" where
  "lp_find used key hash t k =
     (case lp_slot used key hash t k of None \<Rightarrow> None | Some i \<Rightarrow> if used (t ! i) \<and> key (t ! i) = k then Some i else None)"

fun lp_free :: "('e \<Rightarrow> bool) \<Rightarrow> 'e list \<Rightarrow> nat \<Rightarrow> nat \<Rightarrow> nat option" where
  "lp_free used t 0 j = None"
| "lp_free used t (Suc n) j = (if used (t ! j) then lp_free used t n ((j + 1) AND (length t - 1)) else Some j)"

fun lp_rehash :: "('e \<Rightarrow> bool) \<Rightarrow> ('e \<Rightarrow> nat) \<Rightarrow> 'e list \<Rightarrow> 'e list \<Rightarrow> 'e list option" where
  "lp_rehash used ehash [] ng = Some ng"
| "lp_rehash used ehash (e # es) ng =
     (if \<not> used e then lp_rehash used ehash es ng
      else do { j \<leftarrow> lp_free used ng (length ng) (ehash e AND (length ng - 1)); lp_rehash used ehash es (ng[j := e]) })"

definition pow2_len :: "'e list \<Rightarrow> bool" where "pow2_len t \<longleftrightarrow> (\<exists>k. length t = 2 ^ k)"

definition at :: "'e list \<Rightarrow> nat \<Rightarrow> nat \<Rightarrow> 'e" where "at t h d = t ! ((h + d) mod length t)"

lemma and_mask: "pow2_len t \<Longrightarrow> x AND (length t - 1) = x mod length t"
proof -
  assume "pow2_len t"
  then obtain k where k: "length t = 2 ^ k" by (auto simp: pow2_len_def)
  then have "length t - 1 = mask k" by (simp add: mask_eq_exp_minus_1)
  then show ?thesis using k by (simp add: take_bit_eq_mod flip: take_bit_eq_mask)
qed

lemma pow2_len_pos: "pow2_len t \<Longrightarrow> 0 < length t"
  by (auto simp: pow2_len_def)

lemma at_Suc: "at t h (Suc d) = at t (Suc h mod length t) d"
  by (simp add: at_def mod_add_left_eq)

lemma at_0: "h < length t \<Longrightarrow> at t h 0 = t ! h"
  by (simp add: at_def)

text \<open>Every slot is reached from every home.\<close>

lemma at_surj:
  assumes "i < length t" "h < length t"
  shows "\<exists>d<length t. (h + d) mod length t = i \<and> at t h d = t ! i"
proof -
  let ?d = "(i + length t - h) mod length t"
  have "(h + ?d) mod length t = (h + (i + length t - h)) mod length t" by (simp add: mod_add_right_eq)
  also have "h + (i + length t - h) = i + length t" using assms by simp
  finally have "(h + ?d) mod length t = i" using assms by simp
  moreover have "?d < length t" using assms by (intro mod_less_divisor) auto
  ultimately show ?thesis unfolding at_def by (intro exI [of _ ?d]) simp
qed

lemma at_update: "at (t[i := x]) h d = (if (h + d) mod length t = i \<and> i < length t then x else at t h d)"
  by (cases "i < length t") (auto simp: at_def nth_list_update list_update_beyond leI)

text \<open>The laws of a table: entries with a flag, a key and a value; \<open>hash\<close> is the hash of a key, \<open>empty\<close> a cleared slot.\<close>

locale probing =
  fixes used :: "'e \<Rightarrow> bool" and key :: "'e \<Rightarrow> 'k" and hash :: "'k \<Rightarrow> nat" and val :: "'e \<Rightarrow> 'v" and empty :: 'e
  assumes empty_free: "\<not> used empty"
begin

abbreviation probe where "probe \<equiv> lp_probe used key"
abbreviation slot where "slot \<equiv> lp_slot used key hash"
abbreviation look where "look \<equiv> lp_find used key hash"
abbreviation free_slot where "free_slot \<equiv> lp_free used"
abbreviation rehash where "rehash \<equiv> lp_rehash used (\<lambda>e. hash (key e))"

definition home :: "'e list \<Rightarrow> 'k \<Rightarrow> nat" where "home t k = hash k mod length t"

definition entries :: "'e list \<Rightarrow> 'e set" where "entries t = {e \<in> set t. used e}"

text \<open>The probe loop stops at the first entry that is free or has the key.\<close>

definition stops :: "'k \<Rightarrow> 'e \<Rightarrow> bool" where "stops k e \<longleftrightarrow> \<not> used e \<or> key e = k"

lemma probe_Some:
  assumes "pow2_len t"
  shows "h < length t \<Longrightarrow> probe t k n h = Some i \<Longrightarrow>
    \<exists>d<n. i = (h + d) mod length t \<and> stops k (at t h d) \<and> (\<forall>e<d. \<not> stops k (at t h e))"
proof (induction n arbitrary: h)
  case (Suc n)
  show ?case
  proof (cases "stops k (t ! h)")
    case True
    then have "i = h" using Suc.prems(2) by (auto simp: stops_def split: if_splits)
    then show ?thesis using True Suc.prems(1) by (intro exI [of _ 0]) (simp add: at_def)
  next
    case False
    let ?h = "(h + 1) mod length t"
    have "probe t k n ?h = Some i"
      using False Suc.prems(2) and_mask [OF assms, of "h + 1"] by (auto simp: stops_def split: if_splits)
    then obtain d where d: "d < n" "i = (?h + d) mod length t" "stops k (at t ?h d)"
      "\<forall>e<d. \<not> stops k (at t ?h e)"
      using Suc.IH [of ?h] pow2_len_pos [OF assms] by auto
    have "\<forall>e<Suc d. \<not> stops k (at t h e)"
      using d(4) False Suc.prems(1) by (auto simp: less_Suc_eq_0_disj at_Suc at_0)
    moreover have "i = (h + Suc d) mod length t" using d(2) by (simp add: mod_add_left_eq)
    ultimately show ?thesis using d(1,3) by (intro exI [of _ "Suc d"]) (simp add: at_Suc)
  qed
qed simp

lemma probe_None:
  assumes "pow2_len t"
  shows "h < length t \<Longrightarrow> probe t k n h = None \<Longrightarrow> \<forall>d<n. \<not> stops k (at t h d)"
proof (induction n arbitrary: h)
  case (Suc n)
  let ?h = "(h + 1) mod length t"
  have ns: "\<not> stops k (t ! h)" "probe t k n ?h = None"
    using Suc.prems(2) and_mask [OF assms, of "h + 1"] by (auto simp: stops_def split: if_splits)
  have "\<forall>d<n. \<not> stops k (at t ?h d)"
    using Suc.IH [of ?h] ns(2) pow2_len_pos [OF assms] by auto
  then show ?case using ns(1) Suc.prems(1) by (auto simp: less_Suc_eq_0_disj at_Suc at_0)
qed simp

lemma home_less: "pow2_len t \<Longrightarrow> home t k < length t"
  using pow2_len_pos [of t] by (simp add: home_def)

lemma slot_home:
  "pow2_len t \<Longrightarrow> slot t k = probe t k (length t) (home t k)"
  using and_mask [of t] pow2_len_pos [of t] by (auto simp: lp_slot_def home_def)

lemma slot_Some:
  assumes "pow2_len t" "slot t k = Some i"
  shows "\<exists>d<length t. i = (home t k + d) mod length t \<and> i < length t \<and> stops k (t ! i) \<and>
    (\<forall>e<d. \<not> stops k (at t (home t k) e))"
  using probe_Some [OF assms(1) home_less [OF assms(1)], of k "length t" k i] assms
    pow2_len_pos [OF assms(1)]
  by (fastforce simp: slot_home at_def)

lemma slot_None:
  assumes "pow2_len t" "slot t k = None" "i < length t"
  shows "\<not> stops k (t ! i)"
  using probe_None [OF assms(1) home_less [OF assms(1)], of k "length t" k] assms
    at_surj [OF assms(3) home_less [OF assms(1)], of k]
  by (auto simp: slot_home)

lemma look_Some:
  assumes "pow2_len t" "look t k = Some i"
  shows "i < length t \<and> used (t ! i) \<and> key (t ! i) = k"
  using assms slot_Some [OF assms(1), of k i]
  by (auto simp: lp_find_def split: option.splits if_splits)

text \<open>Every entry is found from its home slot: the probes before it meet only other keys.\<close>

definition chained :: "'e list \<Rightarrow> bool" where
  "chained t \<longleftrightarrow> (\<forall>i<length t. used (t ! i) \<longrightarrow>
     (\<exists>d<length t. (home t (key (t ! i)) + d) mod length t = i \<and>
        (\<forall>e<d. \<not> stops (key (t ! i)) (at t (home t (key (t ! i))) e))))"

lemma home_update [simp]: "home (t[i := x]) k = home t k"
  by (simp add: home_def)

lemma chained_look:
  assumes "pow2_len t" "chained t" "i < length t" "used (t ! i)" "key (t ! i) = k"
  shows "look t k = Some i"
proof -
  let ?h = "home t k"
  obtain d where d: "d < length t" "(?h + d) mod length t = i" "\<forall>e<d. \<not> stops k (at t ?h e)"
    using assms(2-5) unfolding chained_def by metis
  have s: "stops k (t ! i)" using assms(5) by (simp add: stops_def)
  then obtain j where j: "slot t k = Some j"
    using slot_None [OF assms(1) _ assms(3)] by (cases "slot t k") auto
  then obtain d' where d': "j = (?h + d') mod length t" "stops k (t ! j)"
    "\<forall>e<d'. \<not> stops k (at t ?h e)"
    using slot_Some [OF assms(1)] by blast
  have "d' = d"
    using d(2,3) d' s by (metis at_def linorder_neqE_nat)
  then show ?thesis using j d(2) d'(1) assms(4,5) by (auto simp: lp_find_def)
qed

lemma chained_unique:
  assumes "pow2_len t" "chained t" "i < length t" "j < length t" "used (t ! i)" "used (t ! j)" "key (t ! i) = key (t ! j)"
  shows "i = j"
  using chained_look [OF assms(1,2,3,5) refl] chained_look [OF assms(1,2,4,6) refl] unfolding assms(7) by (metis option.inject)

lemma entries_update:
  assumes "i < length t"
  shows "entries (t[i := x]) \<subseteq> insert x (entries t)"
    and "used x \<Longrightarrow> x \<in> entries (t[i := x])"
    and "e \<in> entries t \<Longrightarrow> e \<noteq> t ! i \<Longrightarrow> e \<in> entries (t[i := x])"
  using assms set_update_subset_insert [of t i x]
  by (auto simp: entries_def set_update_memI in_set_conv_nth nth_list_update)

text \<open>Writing an entry at the slot its probe found.\<close>

lemma chained_insert:
  assumes p: "pow2_len t" and c: "chained t" and s: "slot t (key x) = Some i" and u: "used x"
  shows "chained (t[i := x])"
proof -
  let ?h = "home t (key x)"
  obtain d where d: "d < length t" "i = (?h + d) mod length t" "i < length t" "stops (key x) (t ! i)"
    "\<forall>e<d. \<not> stops (key x) (at t ?h e)"
    using slot_Some [OF p s] by blast
  have new: "\<forall>e<d. \<not> stops (key x) (at (t[i := x]) ?h e)"
    using d(4,5) by (auto simp: at_update) (metis at_def)
  have old: "\<not> stops (key (t ! j)) (at (t[i := x]) h e)"
    if "j \<noteq> i" "j < length t" "used (t ! j)" "\<not> stops (key (t ! j)) (at t h e)" for j h e
  proof (cases "(h + e) mod length t = i")
    case True
    then have i: "used (t ! i)" "key (t ! i) \<noteq> key (t ! j)"
      using that(4) by (auto simp: stops_def at_def)
    then have "key (t ! i) = key x" using d(4) by (simp add: stops_def)
    then show ?thesis using i that u True d(3) by (simp add: at_update stops_def)
  qed (use that(4) in \<open>simp add: at_update\<close>)
  show ?thesis
    unfolding chained_def
  proof (intro allI impI)
    fix j assume j: "j < length (t[i := x])" "used (t[i := x] ! j)"
    show "\<exists>d<length (t[i := x]). (home (t[i := x]) (key (t[i := x] ! j)) + d) mod length (t[i := x]) = j \<and>
        (\<forall>e<d. \<not> stops (key (t[i := x] ! j)) (at (t[i := x]) (home (t[i := x]) (key (t[i := x] ! j))) e))"
    proof (cases "j = i")
      case True
      then show ?thesis using d(1-3) new by (intro exI [of _ d]) simp
    next
      case False
      then have "j < length t" "used (t ! j)" using j by simp_all
      then obtain d' where "d' < length t" "(home t (key (t ! j)) + d') mod length t = j"
        "\<forall>e<d'. \<not> stops (key (t ! j)) (at t (home t (key (t ! j))) e)"
        using c unfolding chained_def by blast
      then show ?thesis using False old [OF False \<open>j < length t\<close> \<open>used (t ! j)\<close>] by (intro exI [of _ d']) simp
    qed
  qed
qed

text \<open>The occupied slots.\<close>

definition slots :: "'e list \<Rightarrow> nat set" where "slots t = {i. i < length t \<and> used (t ! i)}"

lemma slots_sub: "slots t \<subseteq> {..<length t}"
  by (auto simp: slots_def)

lemma finite_slots [simp]: "finite (slots t)"
  using finite_subset [OF slots_sub] by simp

lemma slots_update:
  assumes "i < length t" "used x"
  shows "slots (t[i := x]) = insert i (slots t)"
  using assms by (auto simp: slots_def nth_list_update)

lemma slots_Cons: "card (slots (e # es)) = (if used e then 1 else 0) + card (slots es)"
proof -
  have "slots (e # es) = (if used e then {0} else {}) \<union> Suc ` slots es"
  proof (rule set_eqI)
    fix i show "i \<in> slots (e # es) \<longleftrightarrow> i \<in> (if used e then {0} else {}) \<union> Suc ` slots es"
      by (cases i) (auto simp: slots_def)
  qed
  then show ?thesis by (cases "used e") (simp_all add: card_image card_insert_disjoint)
qed

lemma slots_free: "card (slots t) < length t \<Longrightarrow> \<exists>i<length t. \<not> used (t ! i)"
  using card_mono [OF finite_slots, of "{..<length t}" t] by (force simp: slots_def)

lemma slot_free:
  assumes "pow2_len t" "card (slots t) < length t"
  shows "\<exists>i. slot t k = Some i"
  using slots_free [OF assms(2)] slot_None [OF assms(1), of k]
  by (cases "slot t k") (auto simp: stops_def)

text \<open>For a key the table does not hold, the rehash loop finds the slot a lookup probes to.\<close>

lemma free_slot_probe:
  assumes "pow2_len t" "k \<notin> key ` entries t"
  shows "h < length t \<Longrightarrow> free_slot t n h = probe t k n h"
proof (induction n arbitrary: h)
  case (Suc n)
  have "used (t ! h) \<Longrightarrow> key (t ! h) \<noteq> k"
    using assms(2) Suc.prems by (force simp: entries_def image_iff)
  moreover have "(h + 1) AND (length t - 1) < length t"
    using and_mask [OF assms(1), of "h + 1"] pow2_len_pos [OF assms(1)] by simp
  ultimately show ?case using Suc.IH by auto
qed simp

text \<open>The entries still to be moved have keys of their own.\<close>

definition fresh_keys :: "'e list \<Rightarrow> 'e list \<Rightarrow> bool" where
  "fresh_keys es ng \<longleftrightarrow> sorted_wrt (\<lambda>x y. used x \<longrightarrow> used y \<longrightarrow> key x \<noteq> key y) es \<and>
     (\<forall>x \<in> entries es. key x \<notin> key ` entries ng)"

lemma rehash_ok:
  assumes "pow2_len ng" "chained ng" "fresh_keys es ng" "card (slots ng) + length es < length ng"
  shows "\<exists>ng'. rehash es ng = Some ng' \<and> pow2_len ng' \<and> length ng' = length ng \<and> chained ng' \<and>
    entries ng' = entries ng \<union> entries es \<and> card (slots ng') = card (slots ng) + card (slots es)"
  using assms
proof (induction es arbitrary: ng)
  case Nil
  then show ?case by (simp add: entries_def slots_def)
next
  case (Cons e es)
  show ?case
  proof (cases "used e")
    case False
    then have "entries (e # es) = entries es" by (auto simp: entries_def)
    then show ?thesis using False Cons by (auto simp: fresh_keys_def slots_Cons)
  next
    case True
    let ?k = "key e"
    have new: "?k \<notin> key ` entries ng"
      using Cons.prems(3) True by (auto simp: fresh_keys_def entries_def)
    obtain j where j: "slot ng (key e) = Some j"
      using slot_free [OF Cons.prems(1)] Cons.prems(4) by fastforce
    have jl: "j < length ng" "stops ?k (ng ! j)" using slot_Some [OF Cons.prems(1) j] by auto
    have free: "\<not> used (ng ! j)"
    proof
      assume u: "used (ng ! j)"
      then have "ng ! j \<in> entries ng" "key (ng ! j) = ?k" using jl by (auto simp: stops_def entries_def)
      then show False using new by (metis image_eqI)
    qed
    have fs: "free_slot ng (length ng) (hash (key e) AND (length ng - 1)) = Some j"
      using j free_slot_probe [OF Cons.prems(1) new home_less [OF Cons.prems(1)], of "length ng" ?k]
        and_mask [OF Cons.prems(1)] by (simp add: slot_home [OF Cons.prems(1)] home_def)
    let ?ng = "ng[j := e]"
    have en: "entries ?ng = insert e (entries ng)"
    proof -
      have "x \<in> entries ?ng" if "x \<in> entries ng" for x
        using entries_update(3) [OF jl(1) that, of e] that free by (auto simp: entries_def)
      then show ?thesis using entries_update(1,2) [OF jl(1), of e] True by blast
    qed
    have c: "card (slots ?ng) = Suc (card (slots ng))"
      using free jl(1) True by (simp add: slots_update) (simp add: slots_def)
    have "pow2_len ?ng" "chained ?ng"
      using Cons.prems(1) chained_insert [OF Cons.prems(1,2) j True] by (simp_all add: pow2_len_def)
    moreover have "fresh_keys es ?ng"
      using Cons.prems(3) True en by (auto simp: fresh_keys_def entries_def)
    moreover have "card (slots ?ng) + length es < length ?ng" using Cons.prems(4) c by simp
    ultimately obtain ng' where "rehash es ?ng = Some ng'" "pow2_len ng'" "length ng' = length ng" "chained ng'"
      "entries ng' = entries ?ng \<union> entries es" "card (slots ng') = card (slots ?ng) + card (slots es)"
      using Cons.IH [of ?ng] by auto
    moreover have "entries (e # es) = insert e (entries es)" using True by (auto simp: entries_def)
    ultimately show ?thesis using True fs en c by (auto simp: slots_Cons)
  qed
qed

lemma empty_table: "pow2_len (replicate (2 ^ k) empty)" "chained (replicate n empty)"
  "entries (replicate n empty) = {}" "slots (replicate n empty) = {}"
  by (auto simp: pow2_len_def chained_def entries_def slots_def empty_free)

lemma chained_fresh:
  assumes "pow2_len t" "chained t"
  shows "fresh_keys t (replicate n empty)"
proof -
  have "key (t ! i) \<noteq> key (t ! j)" if "i < j" "j < length t" "used (t ! i)" "used (t ! j)" for i j
    using chained_unique [OF assms, of i j] that by auto
  then show ?thesis by (simp add: fresh_keys_def sorted_wrt_iff_nth_less empty_table)
qed

lemma free_slot_Some:
  assumes "pow2_len t"
  shows "h < length t \<Longrightarrow> free_slot t n h = Some j \<Longrightarrow> j < length t \<and> \<not> used (t ! j)"
proof (induction n arbitrary: h)
  case (Suc n)
  then show ?case
    using and_mask [OF assms, of "h + 1"] pow2_len_pos [OF assms] Suc.IH [of "Suc h mod length t"]
    by (auto split: if_splits)
qed simp

lemma free_slot_None:
  assumes "pow2_len t"
  shows "h < length t \<Longrightarrow> free_slot t n h = None \<Longrightarrow> \<forall>d<n. used (at t h d)"
proof (induction n arbitrary: h)
  case (Suc n)
  have u: "used (t ! h)" "free_slot t n (Suc h mod length t) = None"
    using Suc.prems(2) and_mask [OF assms, of "h + 1"] by (auto split: if_splits)
  then have "\<forall>d<n. used (at t (Suc h mod length t) d)"
    using Suc.IH [of "Suc h mod length t"] pow2_len_pos [OF assms] by auto
  then show ?case using u(1) Suc.prems(1) by (auto simp: less_Suc_eq_0_disj at_Suc at_0)
qed simp

lemma rehash_total:
  assumes "pow2_len ng" "card (slots ng) + length es < length ng"
  shows "\<exists>ng'. rehash es ng = Some ng' \<and> length ng' = length ng \<and> entries ng' \<subseteq> entries ng \<union> entries es"
  using assms
proof (induction es arbitrary: ng)
  case (Cons e es)
  show ?case
  proof (cases "used e")
    case True
    let ?h = "hash (key e) AND (length ng - 1)"
    have h: "?h < length ng" using and_mask [OF Cons.prems(1)] pow2_len_pos [OF Cons.prems(1)] by simp
    obtain i where "i < length ng" "\<not> used (ng ! i)" using slots_free [of ng] Cons.prems(2) by auto
    then obtain j where j: "free_slot ng (length ng) ?h = Some j"
      using free_slot_None [OF Cons.prems(1) h, of "length ng"] at_surj [OF _ h, of i] by fastforce
    then have jl: "j < length ng" "\<not> used (ng ! j)" using free_slot_Some [OF Cons.prems(1) h] by auto
    have "card (slots (ng[j := e])) + length es < length (ng[j := e])"
      using Cons.prems(2) jl True card_insert_le_m1 [of "Suc (card (slots ng))" "slots ng" j]
      by (simp add: slots_update)
    then obtain ng' where "rehash es (ng[j := e]) = Some ng'" "length ng' = length ng"
      "entries ng' \<subseteq> entries (ng[j := e]) \<union> entries es"
      using Cons.IH [of "ng[j := e]"] Cons.prems(1) by (auto simp: pow2_len_def)
    moreover have "entries (ng[j := e]) \<subseteq> insert e (entries ng)" "entries (e # es) = insert e (entries es)"
      using entries_update(1) [OF jl(1)] True by (auto simp: entries_def)
    ultimately show ?thesis using True j by auto
  next
    case False
    then have "entries (e # es) = entries es" by (auto simp: entries_def)
    then show ?thesis using False Cons by auto
  qed
qed simp

text \<open>The table as a map.\<close>

definition tmap :: "'e list \<Rightarrow> 'k \<rightharpoonup> 'v" where
  "tmap t k = map_option (\<lambda>i. val (t ! i)) (look t k)"

lemma tmap_iff:
  assumes "pow2_len t" "chained t"
  shows "tmap t k = Some p \<longleftrightarrow> (\<exists>e \<in> entries t. key e = k \<and> val e = p)"
proof
  assume "tmap t k = Some p"
  then obtain i where "look t k = Some i" "val (t ! i) = p" by (auto simp: tmap_def)
  then show "\<exists>e \<in> entries t. key e = k \<and> val e = p"
    using look_Some [OF assms(1)] by (fastforce simp: entries_def)
next
  assume "\<exists>e \<in> entries t. key e = k \<and> val e = p"
  then obtain i where "i < length t" "used (t ! i)" "key (t ! i) = k" "val (t ! i) = p"
    by (auto simp: entries_def in_set_conv_nth)
  then show "tmap t k = Some p" using chained_look [OF assms] by (simp add: tmap_def)
qed

lemma tmap_entries:
  assumes "pow2_len t" "chained t" "pow2_len t'" "chained t'" "entries t = entries t'"
  shows "tmap t = tmap t'"
proof
  fix k show "tmap t k = tmap t' k"
    using tmap_iff [OF assms(1,2), of k] tmap_iff [OF assms(3,4), of k] assms(5) by (metis not_Some_eq)
qed

lemma tmap_Nil [simp]: "tmap [] = Map.empty"
  by (auto simp: tmap_def lp_find_def lp_slot_def)

lemma tmap_empty: "tmap (replicate (2 ^ k) empty) = Map.empty"
proof
  fix x show "tmap (replicate (2 ^ k) empty) x = None"
    using tmap_iff [OF empty_table(1,2), of k x] by (auto simp: empty_table not_Some_eq [symmetric] simp del: not_Some_eq)
qed

text \<open>An insertion at the slot its probe found updates the map and occupies at most one slot more.\<close>

lemma tmap_insert:
  assumes p: "pow2_len t" and c: "chained t" and s: "slot t (key x) = Some i" and u: "used x"
  shows "tmap (t[i := x]) = (tmap t)(key x \<mapsto> val x)"
proof
  fix k
  have i: "i < length t" "stops (key x) (t ! i)" using slot_Some [OF p s] by auto
  have p': "pow2_len (t[i := x])" using p by (simp add: pow2_len_def)
  note iff = tmap_iff [OF p' chained_insert [OF p c s u]] tmap_iff [OF p c]
  show "tmap (t[i := x]) k = ((tmap t)(key x \<mapsto> val x)) k"
  proof (cases "k = key x")
    case True
    then show ?thesis using iff(1) entries_update(2) [OF i(1) u] by auto
  next
    case False
    have used: "e \<in> entries t \<Longrightarrow> used e" for e by (simp add: entries_def)
    have "e \<in> entries (t[i := x]) \<and> key e = k \<longleftrightarrow> e \<in> entries t \<and> key e = k" for e
      using entries_update(1) [OF i(1), of x] entries_update(3) [OF i(1), of e x] i(2) False used [of e]
      by (auto simp: stops_def)
    then have "tmap (t[i := x]) k = Some q \<longleftrightarrow> tmap t k = Some q" for q using iff by blast
    then show ?thesis using False by (metis fun_upd_other not_Some_eq)
  qed
qed

lemma slots_insert:
  assumes "i < length t" "used x"
  shows "card (slots (t[i := x])) = (if used (t ! i) then card (slots t) else card (slots t) + 1)"
proof -
  have "i \<in> slots t \<longleftrightarrow> used (t ! i)" using assms(1) by (simp add: slots_def)
  then show ?thesis using assms by (simp add: slots_update insert_absorb)
qed

text \<open>Doubling the table keeps the map and leaves room.\<close>

lemma double_table:
  assumes p: "pow2_len t" and c: "chained t" and l: "2 \<le> length t"
  shows "\<exists>ng. rehash t (replicate (2 * length t) empty) = Some ng \<and> pow2_len ng \<and> length ng = 2 * length t \<and> chained ng \<and>
    tmap ng = tmap t \<and> card (slots ng) = card (slots t) \<and> card (slots ng) < length ng"
proof -
  let ?e = "replicate (2 * length t) empty"
  obtain k where "length t = 2 ^ k" using p by (auto simp: pow2_len_def)
  then have "pow2_len ?e" "t \<noteq> []" using empty_table(1) [of "Suc k"] l by auto
  then obtain ng where ng: "rehash t ?e = Some ng" "pow2_len ng" "length ng = 2 * length t" "chained ng"
    "entries ng = entries t" "card (slots ng) = card (slots t)"
    using rehash_ok [OF _ empty_table(2) chained_fresh [OF p c], of "2 * length t"] by (auto simp: empty_table)
  have "card (slots t) \<le> length t" using card_mono [OF _ slots_sub, of t] by simp
  then have "card (slots ng) < length ng" using ng(3,6) l by simp
  then show ?thesis using ng tmap_entries [OF ng(2,4) p c ng(5)] by blast
qed

text \<open>Tables in which a key may occur twice: every entry is reached from its home over used slots only. A lookup then finds an
  entry with the key whenever there is one.\<close>

definition linked :: "'e list \<Rightarrow> bool" where
  "linked t \<longleftrightarrow> (\<forall>i<length t. used (t ! i) \<longrightarrow>
     (\<exists>d<length t. (home t (key (t ! i)) + d) mod length t = i \<and> (\<forall>e<d. used (at t (home t (key (t ! i))) e))))"

lemma linked_look:
  assumes "pow2_len t" "linked t" "i < length t" "used (t ! i)" "key (t ! i) = k"
  shows "\<exists>j. look t k = Some j"
proof -
  let ?h = "home t k"
  obtain d where d: "(?h + d) mod length t = i" "\<forall>e<d. used (at t ?h e)" using assms(2-5) unfolding linked_def by metis
  have s: "stops k (t ! i)" using assms(5) by (simp add: stops_def)
  then obtain j where j: "slot t k = Some j" using slot_None [OF assms(1) _ assms(3)] by (cases "slot t k") auto
  then obtain d' where d': "j = (?h + d') mod length t" "stops k (t ! j)" "\<forall>e<d'. \<not> stops k (at t ?h e)"
    using slot_Some [OF assms(1)] by blast
  have "\<not> d < d'" using d(1) d'(3) s by (metis at_def)
  then have "used (t ! j)" using d d'(1) assms(4) by (cases "d' = d") (auto simp: at_def)
  then show ?thesis using j d'(2) by (auto simp: lp_find_def stops_def)
qed

lemma free_slot_at:
  assumes "pow2_len t"
  shows "h < length t \<Longrightarrow> free_slot t n h = Some j \<Longrightarrow> \<exists>d<n. j = (h + d) mod length t \<and> \<not> used (t ! j) \<and> (\<forall>e<d. used (at t h e))"
proof (induction n arbitrary: h)
  case (Suc n)
  show ?case
  proof (cases "used (t ! h)")
    case False
    then show ?thesis using Suc.prems by (intro exI [of _ 0]) simp
  next
    case True
    let ?h = "Suc h mod length t"
    have "free_slot t n ?h = Some j" using True Suc.prems(2) and_mask [OF assms, of "h + 1"] by simp
    then obtain d where d: "d < n" "j = (?h + d) mod length t" "\<not> used (t ! j)" "\<forall>e<d. used (at t ?h e)"
      using Suc.IH [of ?h] pow2_len_pos [OF assms] by auto
    have "\<forall>e<Suc d. used (at t h e)" using d(4) True Suc.prems(1) by (auto simp: less_Suc_eq_0_disj at_Suc at_0)
    moreover have "j = (h + Suc d) mod length t" using d(2) by (simp add: mod_add_left_eq)
    ultimately show ?thesis using d(1,3) by blast
  qed
qed simp

lemma free_slot_home: "pow2_len t \<Longrightarrow> hash k AND (length t - 1) = home t k"
  using and_mask [of t "hash k"] by (simp add: home_def)

lemma free_slot_ex:
  assumes "pow2_len t" "card (slots t) < length t"
  shows "\<exists>j. free_slot t (length t) (home t k) = Some j"
proof -
  obtain i where "i < length t" "\<not> used (t ! i)" using slots_free [OF assms(2)] by auto
  then show ?thesis using free_slot_None [OF assms(1) home_less [OF assms(1), of k], of "length t"] at_surj [OF _ home_less [OF assms(1), of k], of i] by (cases "free_slot t (length t) (home t k)") auto
qed

lemma linked_insert:
  assumes "pow2_len t" "linked t" "free_slot t (length t) (home t (key x)) = Some j" "used x"
  shows "linked (t[j := x])" "entries (t[j := x]) = insert x (entries t)" "card (slots (t[j := x])) = Suc (card (slots t))" "pow2_len (t[j := x])"
proof -
  obtain d where d: "d < length t" "j = (home t (key x) + d) mod length t" "\<not> used (t ! j)" "\<forall>e<d. used (at t (home t (key x)) e)"
    using free_slot_at [OF assms(1) home_less [OF assms(1)] assms(3)] by blast
  have j: "j < length t" using d(2) pow2_len_pos [OF assms(1)] by simp
  have keep: "used (at t h e) \<Longrightarrow> used (at (t[j := x]) h e)" for h e using assms(4) by (simp add: at_update)
  show "linked (t[j := x])"
    unfolding linked_def
  proof (intro allI impI)
    fix i assume i: "i < length (t[j := x])" "used (t[j := x] ! i)"
    show "\<exists>d<length (t[j := x]). (home (t[j := x]) (key (t[j := x] ! i)) + d) mod length (t[j := x]) = i \<and>
      (\<forall>e<d. used (at (t[j := x]) (home (t[j := x]) (key (t[j := x] ! i))) e))"
    proof (cases "i = j")
      case True
      then show ?thesis using d j keep by (intro exI [of _ d]) simp
    next
      case False
      then have "i < length t" "used (t ! i)" using i by simp_all
      then obtain d' where "d' < length t" "(home t (key (t ! i)) + d') mod length t = i" "\<forall>e<d'. used (at t (home t (key (t ! i))) e)"
        using assms(2) unfolding linked_def by blast
      then show ?thesis using False keep by (intro exI [of _ d']) simp
    qed
  qed
  have "e \<in> entries (t[j := x])" if "e \<in> entries t" for e
    using entries_update(3) [OF j that, of x] that d(3) by (auto simp: entries_def)
  then show "entries (t[j := x]) = insert x (entries t)" using entries_update(1,2) [OF j, of x] assms(4) by blast
  show "card (slots (t[j := x])) = Suc (card (slots t))" using slots_insert [OF j assms(4)] d(3) by simp
  show "pow2_len (t[j := x])" using assms(1) by (simp add: pow2_len_def)
qed

lemma rehash_linked:
  assumes "pow2_len ng" "linked ng" "rehash es ng = Some ng'"
  shows "pow2_len ng' \<and> length ng' = length ng \<and> linked ng' \<and> entries ng' = entries ng \<union> entries es \<and> card (slots ng') = card (slots ng) + card (slots es)"
  using assms
proof (induction es arbitrary: ng)
  case Nil
  then show ?case by (simp add: entries_def slots_def)
next
  case (Cons e es)
  show ?case
  proof (cases "used e")
    case True
    then obtain j where j: "free_slot ng (length ng) (home ng (key e)) = Some j" "rehash es (ng[j := e]) = Some ng'"
      using Cons.prems(3) free_slot_home [OF Cons.prems(1)] by (auto split: Option.bind_splits)
    note l = linked_insert [OF Cons.prems(1,2) j(1) True]
    have "entries (e # es) = insert e (entries es)" using True by (auto simp: entries_def)
    then show ?thesis using Cons.IH [OF l(4,1) j(2)] l True by (auto simp: slots_Cons)
  next
    case False
    then have "entries (e # es) = entries es" by (auto simp: entries_def)
    then show ?thesis using False Cons by (auto simp: slots_Cons)
  qed
qed

lemma double_linked:
  assumes p: "pow2_len t" and l: "linked t" "2 \<le> length t"
  shows "\<exists>ng. rehash t (replicate (2 * length t) empty) = Some ng \<and> pow2_len ng \<and> length ng = 2 * length t \<and> linked ng \<and>
    entries ng = entries t \<and> card (slots ng) = card (slots t)"
proof -
  let ?e = "replicate (2 * length t) empty"
  obtain k where "length t = 2 ^ k" using p by (auto simp: pow2_len_def)
  then have e: "pow2_len ?e" using empty_table(1) [of "Suc k"] by simp
  have le: "linked ?e" by (simp add: linked_def empty_free)
  have "t \<noteq> []" using l(2) by auto
  then obtain ng where "rehash t ?e = Some ng" using rehash_total [OF e, of t] by (auto simp: empty_table)
  then show ?thesis using rehash_linked [OF e le, of t ng] by (simp add: empty_table)
qed

text \<open>Filling a free slot does not change what a successful lookup finds.\<close>

lemma look_insert_free:
  assumes "pow2_len t" "look t k = Some i" "j < length t" "\<not> used (t ! j)"
  shows "look (t[j := x]) k = Some i"
proof -
  have s: "slot t k = Some i" using assms(2) by (auto simp: lp_find_def split: option.splits if_splits)
  have i: "i < length t" "used (t ! i)" "key (t ! i) = k" using look_Some [OF assms(1,2)] by auto
  have p: "pow2_len (t[j := x])" using assms(1) by (simp add: pow2_len_def)
  have ij: "i \<noteq> j" using i(2) assms(4) by auto
  obtain d where d: "i = (home t k + d) mod length t" "\<forall>e<d. \<not> stops k (at t (home t k) e)" using slot_Some [OF assms(1) s] by blast
  have st: "stops k (t[j := x] ! i)" using i ij by (simp add: stops_def)
  then obtain i' where s': "slot (t[j := x]) k = Some i'" using slot_None [OF p] i(1) by (cases "slot (t[j := x]) k") fastforce+
  obtain d' where d': "i' = (home t k + d') mod length t" "stops k (t[j := x] ! i')" "\<forall>e<d'. \<not> stops k (at (t[j := x]) (home t k) e)"
    using slot_Some [OF p s'] by auto
  have before: "\<not> stops k (at (t[j := x]) (home t k) e)" if "e < d" for e
  proof -
    have "\<not> stops k (at t (home t k) e)" using d(2) that by blast
    then have "(home t k + e) mod length t \<noteq> j" using assms(4) by (auto simp: stops_def at_def)
    then show ?thesis using d(2) that by (simp add: at_update)
  qed
  have here: "at (t[j := x]) (home t k) d = t[j := x] ! i" using d(1) by (simp add: at_def)
  have there: "at (t[j := x]) (home t k) d' = t[j := x] ! i'" using d'(1) by (simp add: at_def)
  have "\<not> d < d'" using d'(3) st here by auto
  moreover have "\<not> d' < d" using before [of d'] d'(2) there by auto
  ultimately have "i' = i" using d(1) d'(1) by simp
  then show ?thesis using s' i ij by (simp add: lp_find_def)
qed

end

end
