(* ===== verification/Fd_Render.thy ===== *)
theory Fd_Render
  imports C_Text Probe_Table
begin

unbundle bit_operations_syntax

text \<open>
  \<open>src/src/common/decode.c\<close>, second half: the socket-address decoder and the descriptor-to-path cache
  with its renderer.

  \<^item> \<open>decode_sockaddr\<close> reads the captured bytes through \<open>load_bytes\<close>, so a read past them is \<open>None\<close>; the
    text of an IPv6 address is the C library's and is the parameter \<open>ntop6\<close>.
  \<^item> the cache is the record \<open>fdcache\<close>: the table (empty before the first insertion, its length is
    \<open>g_fdc_cap\<close>) and \<open>g_fdc_used\<close>. Process ids and descriptors are the 32-bit words the hash reads them
    as. \<open>calloc_ok\<close> says which table sizes the allocator grants, \<open>readlink\<close> what
    \<open>/proc/<pid>/fd/<fd>\<close> resolves to.
\<close>

section \<open>Socket addresses\<close>

definition ntop4 :: "bytes \<Rightarrow> string" where
  "ntop4 a = show_base 10 (unat (a ! 0)) @ ''.'' @ show_base 10 (unat (a ! 1)) @ ''.'' @
     show_base 10 (unat (a ! 2)) @ ''.'' @ show_base 10 (unat (a ! 3))"

text \<open>\<open>ntohs\<close> of the two bytes at \<open>sa + 2\<close>.\<close>

definition ntohs :: "bytes \<Rightarrow> nat" where
  "ntohs p = 256 * unat (p ! 0) + unat (p ! 1)"

definition decode_unix :: "bytes \<Rightarrow> nat \<Rightarrow> nat \<Rightarrow> string option" where
  "decode_unix sa len outsz =
     (let plen = len - 2 in
      if plen = 0 then Some (snprintf outsz ''unix:<unnamed>'')
      else do {
        c \<leftarrow> byte_at sa 2;
        (if c = 0 then do {
           let m = (if plen - 1 < 64 - 1 then plen - 1 else 64 - 1);
           buf \<leftarrow> load_bytes sa 3 m;
           Some (snprintf outsz (''unix:@'' @ cstr buf))
         }
         else do {
           let m = (if plen < 64 then plen else 64 - 1);
           buf \<leftarrow> load_bytes sa 2 m;
           Some (snprintf outsz (''unix:'' @ cstr buf))
         })
      })"

definition decode_sockaddr :: "(bytes \<Rightarrow> string) \<Rightarrow> bytes \<Rightarrow> nat \<Rightarrow> nat \<Rightarrow> string rc option" where
  "decode_sockaddr ntop6 sa len outsz =
     (if len < 2 then Some Rc_err
      else do {
        fam \<leftarrow> (load_le 2 sa 0 :: u16 option);
        (if fam = 2 \<and> len \<ge> 8 then do {
           port \<leftarrow> load_bytes sa 2 2;
           ip \<leftarrow> load_bytes sa 4 4;
           Some (Rc_ok (snprintf outsz (ntop4 ip @ '':'' @ show_base 10 (ntohs port))))
         }
         else if fam = 10 \<and> len \<ge> 24 then do {
           port \<leftarrow> load_bytes sa 2 2;
           ip \<leftarrow> load_bytes sa 8 16;
           Some (Rc_ok (snprintf outsz (''['' @ ntop6 ip @ '']:'' @ show_base 10 (ntohs port))))
         }
         else if fam = 1 then map_option Rc_ok (decode_unix sa len outsz)
         else Some (Rc_ok (snprintf outsz (''family='' @ show_base 10 (unat fam)))))
      })"

section \<open>The descriptor cache\<close>

record fdc_ent =
  used :: bool
  epid :: u32
  efd :: u32
  epath :: string

record fdcache =
  g_fdc :: "fdc_ent list"
  g_fdc_used :: nat

definition fdc_empty :: fdc_ent where
  "fdc_empty = \<lparr>used = False, epid = 0, efd = 0, epath = ''''\<rparr>"

definition fdc_start :: fdcache where
  "fdc_start = \<lparr>g_fdc = [], g_fdc_used = 0\<rparr>"

definition fdc_hash :: "u32 \<Rightarrow> u32 \<Rightarrow> u64" where
  "fdc_hash pid fd = (ucast pid * 2654435761) XOR (ucast fd * 40503)"

text \<open>The probe loop from slot \<open>i\<close>, with the number of probes left.\<close>

fun fdc_probe :: "fdc_ent list \<Rightarrow> u32 \<Rightarrow> u32 \<Rightarrow> nat \<Rightarrow> nat \<Rightarrow> nat option" where
  "fdc_probe t pid fd 0 i = None"
| "fdc_probe t pid fd (Suc n) i =
     (let e = t ! i
      in if \<not> used e \<or> (epid e = pid \<and> efd e = fd) then Some i
         else fdc_probe t pid fd n ((i + 1) AND (length t - 1)))"

definition fdc_slot :: "fdc_ent list \<Rightarrow> u32 \<Rightarrow> u32 \<Rightarrow> nat option" where
  "fdc_slot t pid fd =
     (if t = [] then None
      else fdc_probe t pid fd (length t) (unat (fdc_hash pid fd) AND (length t - 1)))"

text \<open>Rehashing an entry: \<open>while (ng[j].used) j = (j + 1) & nmask\<close>, with fuel; \<open>None\<close> when no slot is free.\<close>

fun fdc_free_slot :: "fdc_ent list \<Rightarrow> nat \<Rightarrow> nat \<Rightarrow> nat option" where
  "fdc_free_slot ng 0 j = None"
| "fdc_free_slot ng (Suc n) j = (if used (ng ! j) then fdc_free_slot ng n ((j + 1) AND (length ng - 1)) else Some j)"

fun fdc_rehash :: "fdc_ent list \<Rightarrow> fdc_ent list \<Rightarrow> fdc_ent list option" where
  "fdc_rehash [] ng = Some ng"
| "fdc_rehash (e # es) ng =
     (if \<not> used e then fdc_rehash es ng
      else do {
        j \<leftarrow> fdc_free_slot ng (length ng) (unat (fdc_hash (epid e) (efd e)) AND (length ng - 1));
        fdc_rehash es (ng[j := e])
      })"

definition fdc_grow :: "(nat \<Rightarrow> bool) \<Rightarrow> fdcache \<Rightarrow> fdcache option" where
  "fdc_grow calloc_ok s =
     (if (g_fdc_used s + 1) * 4 \<ge> length (g_fdc s) * 3 \<and> calloc_ok (2 * length (g_fdc s))
      then do {
        ng \<leftarrow> fdc_rehash (g_fdc s) (replicate (2 * length (g_fdc s)) fdc_empty);
        Some (s\<lparr>g_fdc := ng\<rparr>)
      }
      else Some s)"

definition fdc_store :: "fdcache \<Rightarrow> u32 \<Rightarrow> u32 \<Rightarrow> string \<Rightarrow> fdcache" where
  "fdc_store s pid fd path =
     (case fdc_slot (g_fdc s) pid fd of
        None \<Rightarrow> s
      | Some i \<Rightarrow> \<lparr>g_fdc = (g_fdc s)[i := \<lparr>used = True, epid = pid, efd = fd, epath = snprintf 256 path\<rparr>],
           g_fdc_used = (if used (g_fdc s ! i) then g_fdc_used s else g_fdc_used s + 1)\<rparr>)"

definition fdc_put :: "(nat \<Rightarrow> bool) \<Rightarrow> fdcache \<Rightarrow> u32 \<Rightarrow> u32 \<Rightarrow> string \<Rightarrow> fdcache option" where
  "fdc_put calloc_ok s pid fd path =
     (if g_fdc s = [] \<and> \<not> calloc_ok 4096 then Some s
      else do {
        let s = (if g_fdc s = [] then s\<lparr>g_fdc := replicate 4096 fdc_empty\<rparr> else s);
        s \<leftarrow> fdc_grow calloc_ok s;
        Some (fdc_store s pid fd path)
      })"

text \<open>The entry a lookup finds, as in \<open>render_fd\<close> and \<open>fdc_drop\<close>.\<close>

definition fdc_find :: "fdc_ent list \<Rightarrow> u32 \<Rightarrow> u32 \<Rightarrow> nat option" where
  "fdc_find t pid fd =
     (case fdc_slot t pid fd of
        None \<Rightarrow> None
      | Some i \<Rightarrow> if used (t ! i) \<and> epid (t ! i) = pid \<and> efd (t ! i) = fd then Some i else None)"

definition fdc_drop :: "fdcache \<Rightarrow> u32 \<Rightarrow> u32 \<Rightarrow> fdcache" where
  "fdc_drop s pid fd =
     (case fdc_find (g_fdc s) pid fd of
        None \<Rightarrow> s
      | Some i \<Rightarrow> \<lparr>g_fdc = (g_fdc s)[i := (g_fdc s ! i)\<lparr>used := False\<rparr>], g_fdc_used = szsub (g_fdc_used s) 1\<rparr>)"

definition fd_text :: "u32 \<Rightarrow> string \<Rightarrow> string" where
  "fd_text fd path = ''fd='' @ show_base 10 (unat fd) @ '' <'' @ path @ ''>''"

definition render_fd :: "(nat \<Rightarrow> bool) \<Rightarrow> (u32 \<Rightarrow> u32 \<Rightarrow> string option) \<Rightarrow> fdcache \<Rightarrow> u32 \<Rightarrow> u64 \<Rightarrow> nat \<Rightarrow> (string \<times> fdcache) option" where
  "render_fd calloc_ok readlink s pid val outsz =
     (let fd = (ucast val :: u32) in
      if sint fd = - 100 then Some (snprintf outsz ''AT_FDCWD'', s)
      else if sint fd < 0 then Some (snprintf outsz (''-'' @ show_base 10 (nat (- sint fd))), s)
      else case fdc_find (g_fdc s) pid fd of
        Some i \<Rightarrow> Some (snprintf outsz (fd_text fd (epath (g_fdc s ! i))), s)
      | None \<Rightarrow>
         (case readlink pid fd of
            Some tgt \<Rightarrow> do {
              s \<leftarrow> fdc_put calloc_ok s pid fd (take 255 tgt);
              Some (snprintf outsz (fd_text fd (take 255 tgt)), s)
            }
          | None \<Rightarrow> Some (snprintf outsz (''fd='' @ show_base 10 (unat fd)), s)))"

section \<open>The table\<close>

type_synonym fd_key = "u32 \<times> u32"

definition ekey :: "fdc_ent \<Rightarrow> fd_key" where "ekey e = (epid e, efd e)"

interpretation fdt: probing used ekey "\<lambda>k. unat (fdc_hash (fst k) (snd k))" epath fdc_empty
  by unfold_locales (simp add: fdc_empty_def)

lemma fdc_probe_lp: "fdc_probe t pid fd n i = fdt.probe t (pid, fd) n i"
  by (induction t pid fd n i rule: fdc_probe.induct) (auto simp: Let_def ekey_def)

lemma fdc_slot_lp: "fdc_slot t pid fd = fdt.slot t (pid, fd)"
  by (simp add: fdc_slot_def lp_slot_def fdc_probe_lp)

lemma fdc_find_lp: "fdc_find t pid fd = fdt.look t (pid, fd)"
  by (simp add: fdc_find_def lp_find_def fdc_slot_lp ekey_def split: option.split)

lemma fdc_free_slot_lp: "fdc_free_slot t n j = fdt.free_slot t n j"
  by (induction t n j rule: fdc_free_slot.induct) auto

lemma fdc_rehash_lp: "fdc_rehash es ng = fdt.rehash es ng"
  by (induction es ng rule: fdc_rehash.induct) (auto simp: fdc_free_slot_lp ekey_def split: Option.bind_splits)

lemmas fdc_lp = fdc_probe_lp fdc_slot_lp fdc_find_lp fdc_rehash_lp

text \<open>The cache as a map.\<close>

definition fdc_map :: "fdc_ent list \<Rightarrow> fd_key \<rightharpoonup> string" where
  "fdc_map t k = map_option (\<lambda>i. epath (t ! i)) (fdc_find t (fst k) (snd k))"

lemma fdc_map_lp: "fdc_map = fdt.tmap"
  by (intro ext) (simp add: fdc_map_def fdt.tmap_def fdc_find_lp)

text \<open>The state invariant: nothing allocated yet, or a fdt.chained table whose occupancy is counted.\<close>

definition fdc_ok :: "fdcache \<Rightarrow> bool" where
  "fdc_ok s \<longleftrightarrow> (g_fdc s = [] \<and> g_fdc_used s = 0) \<or>
     (pow2_len (g_fdc s) \<and> 4 \<le> length (g_fdc s) \<and> fdt.chained (g_fdc s) \<and> g_fdc_used s = card (fdt.slots (g_fdc s)))"

lemma fdc_grow_ok:
  assumes p: "pow2_len (g_fdc s)" and l: "4 \<le> length (g_fdc s)" and c: "fdt.chained (g_fdc s)"
    and u: "g_fdc_used s = card (fdt.slots (g_fdc s))"
  shows "\<exists>s'. fdc_grow calloc_ok s = Some s' \<and> pow2_len (g_fdc s') \<and> 4 \<le> length (g_fdc s') \<and> fdt.chained (g_fdc s') \<and>
    g_fdc_used s' = card (fdt.slots (g_fdc s')) \<and> fdc_map (g_fdc s') = fdc_map (g_fdc s) \<and>
    ((\<forall>n. calloc_ok n) \<longrightarrow> card (fdt.slots (g_fdc s')) < length (g_fdc s'))"
proof (cases "(g_fdc_used s + 1) * 4 \<ge> length (g_fdc s) * 3 \<and> calloc_ok (2 * length (g_fdc s))")
  case True
  obtain ng where "fdc_rehash (g_fdc s) (replicate (2 * length (g_fdc s)) fdc_empty) = Some ng" "pow2_len ng" "length ng = 2 * length (g_fdc s)"
    "fdt.chained ng" "fdc_map ng = fdc_map (g_fdc s)" "card (fdt.slots ng) = card (fdt.slots (g_fdc s))" "card (fdt.slots ng) < length ng"
    using fdt.double_table [OF p c] l by (auto simp: fdc_lp fdc_map_lp)
  then show ?thesis using True u l by (auto simp: fdc_grow_def)
next
  case False
  then show ?thesis using assms by (auto simp: fdc_grow_def)
qed

lemma fdc_store_ok:
  assumes p: "pow2_len (g_fdc s)" and c: "fdt.chained (g_fdc s)" and u: "g_fdc_used s = card (fdt.slots (g_fdc s))"
  shows "pow2_len (g_fdc (fdc_store s pid fd path)) \<and> length (g_fdc (fdc_store s pid fd path)) = length (g_fdc s) \<and>
    fdt.chained (g_fdc (fdc_store s pid fd path)) \<and>
    g_fdc_used (fdc_store s pid fd path) = card (fdt.slots (g_fdc (fdc_store s pid fd path))) \<and>
    (case fdc_slot (g_fdc s) pid fd of
       None \<Rightarrow> fdc_store s pid fd path = s \<and> card (fdt.slots (g_fdc s)) = length (g_fdc s)
     | Some i \<Rightarrow> fdc_map (g_fdc (fdc_store s pid fd path)) = (fdc_map (g_fdc s))((pid, fd) \<mapsto> snprintf 256 path))"
proof (cases "fdc_slot (g_fdc s) pid fd")
  case None
  then have "fdt.slots (g_fdc s) = {..<length (g_fdc s)}"
    using fdt.slot_None [OF p None [unfolded fdc_slot_lp]] by (auto simp: fdt.slots_def fdt.stops_def)
  then show ?thesis using None assms by (simp add: fdc_store_def)
next
  case (Some i)
  let ?x = "\<lparr>used = True, epid = pid, efd = fd, epath = snprintf 256 path\<rparr>"
  have s: "fdt.slot (g_fdc s) (ekey ?x) = Some i" using Some by (simp add: fdc_slot_lp ekey_def)
  have i: "i < length (g_fdc s)" using fdt.slot_Some [OF p s] by auto
  show ?thesis
    using Some p u fdt.slots_insert [OF i, of ?x] fdt.chained_insert [OF p c s] fdt.tmap_insert [OF p c s]
    by (auto simp: fdc_store_def pow2_len_def ekey_def fdc_map_lp)
qed

lemma fdc_map_Nil: "fdc_map [] = Map.empty"
  by (simp add: fdc_map_lp)

lemma fdc_map_empty: "fdc_map (replicate (2 ^ k) fdc_empty) = Map.empty"
  by (simp add: fdc_map_lp fdt.tmap_empty)

text \<open>Insertion implements a map update, unless the allocator refuses a table.\<close>

lemma fdc_put_ok:
  assumes "fdc_ok s"
  shows "\<exists>s'. fdc_put calloc_ok s pid fd path = Some s' \<and> fdc_ok s' \<and>
    (fdc_map (g_fdc s') = (fdc_map (g_fdc s))((pid, fd) \<mapsto> snprintf 256 path) \<or>
     (\<exists>n. \<not> calloc_ok n) \<and> fdc_map (g_fdc s') = fdc_map (g_fdc s))"
proof (cases "g_fdc s = [] \<and> \<not> calloc_ok 4096")
  case True
  then show ?thesis using assms by (auto simp: fdc_put_def)
next
  case False
  define s1 where "s1 = (if g_fdc s = [] then s\<lparr>g_fdc := replicate 4096 fdc_empty\<rparr> else s)"
  have s1: "pow2_len (g_fdc s1)" "4 \<le> length (g_fdc s1)" "fdt.chained (g_fdc s1)"
    "g_fdc_used s1 = card (fdt.slots (g_fdc s1))" "fdc_map (g_fdc s1) = fdc_map (g_fdc s)"
    using assms fdt.empty_table(1) [of 12] fdt.empty_table(2-4) [of 4096] fdc_map_empty [of 12]
    by (auto simp: s1_def fdc_ok_def fdc_map_Nil)
  obtain s2 where s2: "fdc_grow calloc_ok s1 = Some s2" "pow2_len (g_fdc s2)" "4 \<le> length (g_fdc s2)"
    "fdt.chained (g_fdc s2)" "g_fdc_used s2 = card (fdt.slots (g_fdc s2))" "fdc_map (g_fdc s2) = fdc_map (g_fdc s1)"
    "(\<forall>n. calloc_ok n) \<longrightarrow> card (fdt.slots (g_fdc s2)) < length (g_fdc s2)"
    using fdc_grow_ok [OF s1(1-4)] by blast
  have put: "fdc_put calloc_ok s pid fd path = Some (fdc_store s2 pid fd path)"
    using False s2(1) by (auto simp: fdc_put_def Let_def simp flip: s1_def)
  note st = fdc_store_ok [OF s2(2,4,5), of pid fd path]
  have "fdc_ok (fdc_store s2 pid fd path)" using st s2(3) by (simp add: fdc_ok_def)
  moreover have "fdc_map (g_fdc (fdc_store s2 pid fd path)) = (fdc_map (g_fdc s))((pid, fd) \<mapsto> snprintf 256 path) \<or>
     (\<exists>n. \<not> calloc_ok n) \<and> fdc_map (g_fdc (fdc_store s2 pid fd path)) = fdc_map (g_fdc s)"
    using st s2(6,7) s1(5) by (cases "fdc_slot (g_fdc s2) pid fd") auto
  ultimately show ?thesis using put by blast
qed

section \<open>The cache as a map\<close>

fun put_all :: "('s \<Rightarrow> u32 \<Rightarrow> u32 \<Rightarrow> string \<Rightarrow> 's option) \<Rightarrow> (fd_key \<times> string) list \<Rightarrow> 's \<Rightarrow> 's option" where
  "put_all put [] s = Some s"
| "put_all put ((k, path) # kvs) s = Option.bind (put s (fst k) (snd k) path) (put_all put kvs)"

text \<open>What the renderer relies on: an insertion that updates a map. The value kept is the path as the entry
  stores it.\<close>

locale path_cache =
  fixes ok :: "'s \<Rightarrow> bool" and cmap :: "'s \<Rightarrow> fd_key \<rightharpoonup> string"
    and put :: "'s \<Rightarrow> u32 \<Rightarrow> u32 \<Rightarrow> string \<Rightarrow> 's option" and kept :: "string \<Rightarrow> string"
  assumes put_law: "ok s \<Longrightarrow> \<exists>s'. put s pid fd path = Some s' \<and> ok s' \<and> cmap s' = (cmap s)((pid, fd) \<mapsto> kept path)"
begin

lemma puts_map:
  "ok s \<Longrightarrow> \<exists>s'. put_all put kvs s = Some s' \<and> ok s' \<and>
     cmap s' = cmap s ++ map_of (rev (map (\<lambda>(k, path). (k, kept path)) kvs))"
proof (induction kvs arbitrary: s)
  case (Cons kv kvs)
  obtain k path where kv: "kv = (k, path)" by (cases kv)
  obtain s1 where s1: "put s (fst k) (snd k) path = Some s1" "ok s1" "cmap s1 = (cmap s)(k \<mapsto> kept path)"
    using put_law [OF Cons.prems, of "fst k" "snd k" path] by auto
  then obtain s' where "put_all put kvs s1 = Some s'" "ok s'"
    "cmap s' = cmap s1 ++ map_of (rev (map (\<lambda>(k, path). (k, kept path)) kvs))"
    using Cons.IH [OF s1(2)] by blast
  then show ?case using s1 kv by (auto simp: map_add_assoc map_add_upd_left)
qed simp

end

interpretation fdc: path_cache fdc_ok "\<lambda>s. fdc_map (g_fdc s)" "fdc_put (\<lambda>_. True)" "snprintf 256"
  by unfold_locales (use fdc_put_ok [of _ "\<lambda>_. True"] in auto)

text \<open>C15: the descriptor cache is a map. Any sequence of insertions into the empty cache, however many
  times the table grows, succeeds, and afterwards a lookup finds for every key the path inserted last
  (cut to the 255 characters an entry holds) and nothing for any other key.\<close>

theorem fdc_puts_map:
  "\<exists>s. put_all (fdc_put (\<lambda>_. True)) kvs fdc_start = Some s \<and>
     fdc_map (g_fdc s) = map_of (rev (map (\<lambda>(k, path). (k, snprintf 256 path)) kvs))"
  using fdc.puts_map [of fdc_start kvs] by (auto simp: fdc_ok_def fdc_start_def fdc_map_Nil)

section \<open>Rendering\<close>

text \<open>What a render would print without the cache.\<close>

definition uncached_text :: "(u32 \<Rightarrow> u32 \<Rightarrow> string option) \<Rightarrow> u32 \<Rightarrow> u64 \<Rightarrow> nat \<Rightarrow> string" where
  "uncached_text readlink pid val outsz =
     (let fd = (ucast val :: u32) in
      if sint fd = - 100 then snprintf outsz ''AT_FDCWD''
      else if sint fd < 0 then snprintf outsz (''-'' @ show_base 10 (nat (- sint fd)))
      else case readlink pid fd of
        Some tgt \<Rightarrow> snprintf outsz (fd_text fd (take 255 tgt))
      | None \<Rightarrow> snprintf outsz (''fd='' @ show_base 10 (unat fd)))"

datatype fd_op = Op_render u32 u64 | Op_close u32 u32

fun fd_run :: "(nat \<Rightarrow> bool) \<Rightarrow> (u32 \<Rightarrow> u32 \<Rightarrow> string option) \<Rightarrow> nat \<Rightarrow> fd_op list \<Rightarrow> fdcache \<Rightarrow> (string list \<times> fdcache) option" where
  "fd_run calloc_ok readlink outsz [] s = Some ([], s)"
| "fd_run calloc_ok readlink outsz (Op_render pid val # ops) s = do {
     (x, s) \<leftarrow> render_fd calloc_ok readlink s pid val outsz;
     (xs, s) \<leftarrow> fd_run calloc_ok readlink outsz ops s;
     Some (x # xs, s)
   }"
| "fd_run calloc_ok readlink outsz (Op_close pid fd # ops) s = fd_run calloc_ok readlink outsz ops (fdc_drop s pid fd)"

text \<open>Entries agree with the targets. Closes break the probe chains, so this is an invariant of the
  fdt.entries and not of the map.\<close>

definition coherent :: "(u32 \<Rightarrow> u32 \<Rightarrow> string option) \<Rightarrow> fdcache \<Rightarrow> bool" where
  "coherent readlink s \<longleftrightarrow> (g_fdc s = [] \<or> pow2_len (g_fdc s) \<and> 4 \<le> length (g_fdc s)) \<and>
     (\<forall>e \<in> fdt.entries (g_fdc s). map_option (take 255) (readlink (epid e) (efd e)) = Some (epath e))"

lemma fdc_grow_coherent:
  assumes "coherent readlink s" "g_fdc s \<noteq> []"
  shows "\<exists>s'. fdc_grow calloc_ok s = Some s' \<and> coherent readlink s' \<and> g_fdc s' \<noteq> []"
proof (cases "(g_fdc_used s + 1) * 4 \<ge> length (g_fdc s) * 3 \<and> calloc_ok (2 * length (g_fdc s))")
  case True
  have t: "pow2_len (g_fdc s)" "4 \<le> length (g_fdc s)" using assms by (auto simp: coherent_def)
  then obtain k where "length (g_fdc s) = 2 ^ k" by (auto simp: pow2_len_def)
  then have p: "pow2_len (replicate (2 * length (g_fdc s)) fdc_empty)" using fdt.empty_table(1) [of "Suc k"] by simp
  then obtain ng where "fdc_rehash (g_fdc s) (replicate (2 * length (g_fdc s)) fdc_empty) = Some ng"
    "length ng = 2 * length (g_fdc s)" "fdt.entries ng \<subseteq> fdt.entries (g_fdc s)"
    using fdt.rehash_total [OF p, of "g_fdc s"] t(2) assms(2) by (auto simp: fdt.empty_table fdc_lp)
  then show ?thesis
    using True assms t(2) p by (auto simp: fdc_grow_def coherent_def pow2_len_def)
qed (use assms in \<open>auto simp: fdc_grow_def\<close>)

lemma fdc_store_coherent:
  assumes "coherent readlink s" "g_fdc s \<noteq> []" "readlink pid fd = Some tgt"
  shows "coherent readlink (fdc_store s pid fd (take 255 tgt))"
proof (cases "fdc_slot (g_fdc s) pid fd")
  case (Some i)
  let ?x = "\<lparr>used = True, epid = pid, efd = fd, epath = snprintf 256 (take 255 tgt)\<rparr>"
  have "pow2_len (g_fdc s)" using assms by (auto simp: coherent_def)
  then have i: "i < length (g_fdc s)" using fdt.slot_Some [OF _ Some [unfolded fdc_slot_lp]] by auto
  have "fdt.entries ((g_fdc s)[i := ?x]) \<subseteq> insert ?x (fdt.entries (g_fdc s))" by (rule fdt.entries_update(1) [OF i])
  moreover have "snprintf 256 (take 255 tgt) = take 255 tgt" by (simp add: snprintf_def)
  ultimately show ?thesis
    using Some assms by (auto simp: fdc_store_def coherent_def pow2_len_def)
qed (use assms in \<open>simp add: fdc_store_def\<close>)

lemma fdc_put_coherent:
  assumes "coherent readlink s" "readlink pid fd = Some tgt"
  shows "\<exists>s'. fdc_put calloc_ok s pid fd (take 255 tgt) = Some s' \<and> coherent readlink s'"
proof (cases "g_fdc s = [] \<and> \<not> calloc_ok 4096")
  case False
  define s1 where "s1 = (if g_fdc s = [] then s\<lparr>g_fdc := replicate 4096 fdc_empty\<rparr> else s)"
  have "coherent readlink s1" "g_fdc s1 \<noteq> []"
    using assms(1) fdt.empty_table(1) [of 12] by (auto simp: s1_def coherent_def fdt.empty_table)
  then obtain s2 where "fdc_grow calloc_ok s1 = Some s2" "coherent readlink s2" "g_fdc s2 \<noteq> []"
    using fdc_grow_coherent by blast
  then show ?thesis
    using False fdc_store_coherent [of readlink s2 pid fd tgt] assms(2)
    by (auto simp: fdc_put_def Let_def simp flip: s1_def)
qed (use assms in \<open>auto simp: fdc_put_def\<close>)

lemma fdc_find_coherent:
  assumes "coherent readlink s" "fdc_find (g_fdc s) pid fd = Some i"
  shows "i < length (g_fdc s) \<and> map_option (take 255) (readlink pid fd) = Some (epath (g_fdc s ! i))"
proof -
  have "g_fdc s \<noteq> []" using assms(2) by (auto simp: fdc_find_def fdc_slot_def)
  then have "pow2_len (g_fdc s)" using assms(1) by (auto simp: coherent_def)
  from fdt.look_Some [OF this assms(2) [unfolded fdc_find_lp]] show ?thesis
    using assms(1) by (auto simp: coherent_def fdt.entries_def ekey_def)
qed

lemma render_fd_coherent:
  assumes "coherent readlink s"
  shows "\<exists>s'. render_fd calloc_ok readlink s pid val outsz = Some (uncached_text readlink pid val outsz, s') \<and>
    coherent readlink s'"
proof (cases "fdc_find (g_fdc s) pid (ucast val)")
  case (Some i)
  then show ?thesis
    using fdc_find_coherent [OF assms Some] assms by (auto simp: render_fd_def uncached_text_def Let_def)
next
  case None
  then show ?thesis
    using fdc_put_coherent [OF assms, of pid "ucast val" _ calloc_ok] assms
    by (auto simp: render_fd_def uncached_text_def Let_def split: option.splits)
qed

lemma fdc_drop_coherent:
  assumes "coherent readlink s"
  shows "coherent readlink (fdc_drop s pid fd)"
proof (cases "fdc_find (g_fdc s) pid fd")
  case (Some i)
  let ?x = "(g_fdc s ! i)\<lparr>used := False\<rparr>"
  have i: "i < length (g_fdc s)" using fdc_find_coherent [OF assms Some] by simp
  have "fdt.entries ((g_fdc s)[i := ?x]) \<subseteq> fdt.entries (g_fdc s)"
    using fdt.entries_update(1) [OF i, of ?x] by (auto simp: fdt.entries_def)
  then show ?thesis using Some assms by (auto simp: fdc_drop_def coherent_def pow2_len_def)
qed (use assms in \<open>simp add: fdc_drop_def\<close>)

fun uncached_run :: "(u32 \<Rightarrow> u32 \<Rightarrow> string option) \<Rightarrow> nat \<Rightarrow> fd_op list \<Rightarrow> string list" where
  "uncached_run readlink outsz [] = []"
| "uncached_run readlink outsz (Op_render pid val # ops) =
     uncached_text readlink pid val outsz # uncached_run readlink outsz ops"
| "uncached_run readlink outsz (Op_close pid fd # ops) = uncached_run readlink outsz ops"

lemma fd_run_coherent:
  "coherent readlink s \<Longrightarrow>
   \<exists>s'. fd_run calloc_ok readlink outsz ops s = Some (uncached_run readlink outsz ops, s') \<and> coherent readlink s'"
proof (induction calloc_ok readlink outsz ops s rule: fd_run.induct)
  case (2 calloc_ok readlink outsz pid val ops s)
  then show ?case using render_fd_coherent [OF 2(2), of calloc_ok pid val outsz] by fastforce
qed (auto simp: fdc_drop_coherent)

text \<open>Rendering through the cache prints exactly what reading the link each time would, in any
  sequence of renders and closes, whatever tables the allocator grants, as long as the targets of the
  descriptors do not change; the probe and rehash loops always end.\<close>

theorem render_fd_stable:
  "map_option fst (fd_run calloc_ok readlink outsz ops fdc_start) = Some (uncached_run readlink outsz ops)"
proof -
  have "coherent readlink fdc_start" by (simp add: coherent_def fdc_start_def fdt.entries_def)
  from fd_run_coherent [OF this] show ?thesis by fastforce
qed

lemma fdc_probe_step:
  "0 < n \<Longrightarrow> fdc_probe t pid fd n i =
     (if fdt.stops (pid, fd) (t ! i) then Some i else fdc_probe t pid fd (n - 1) ((i + 1) AND (length t - 1)))"
  by (cases n) (auto simp: Let_def fdt.stops_def ekey_def)

text \<open>Descriptor 3 of the processes 1000 and 5096 has the same home slot.\<close>

lemma fdc_slot_sample:
  assumes "length t = 4096" "pid = 1000 \<or> pid = 5096"
  shows "fdc_slot t pid 3 = (if fdt.stops (pid, 3) (t ! 461) then Some 461
     else if fdt.stops (pid, 3) (t ! 462) then Some 462 else fdc_probe t pid 3 4094 463)"
proof -
  have "unat (fdc_hash pid 3) AND 4095 = 461" using assms(2) by (auto simp: fdc_hash_def)
  then show ?thesis
    using assms(1) fdc_probe_step [of 4096 t pid 3 461] fdc_probe_step [of 4095 t pid 3 462]
    by (auto simp: fdc_slot_def)
qed

lemma render_fd_miss:
  assumes "g_fdc s \<noteq> []" "fdc_slot (g_fdc s) pid 3 = Some i" "\<not> used (g_fdc s ! i)" "(g_fdc_used s + 1) * 4 < length (g_fdc s) * 3"
  shows "render_fd (\<lambda>_. True) (\<lambda>_ _. Some p) s pid 3 n =
    Some (snprintf n (fd_text 3 (take 255 p)),
      \<lparr>g_fdc = (g_fdc s)[i := \<lparr>used = True, epid = pid, efd = 3, epath = take 255 p\<rparr>], g_fdc_used = g_fdc_used s + 1\<rparr>)"
  using assms by (simp add: render_fd_def fdc_find_def fdc_put_def fdc_grow_def fdc_store_def snprintf_def)

lemma render_fd_hit:
  assumes "fdc_slot (g_fdc s) pid 3 = Some i" "used (g_fdc s ! i)" "ekey (g_fdc s ! i) = (pid, 3)"
  shows "render_fd c r s pid 3 n = Some (snprintf n (fd_text 3 (epath (g_fdc s ! i))), s)"
  using assms by (simp add: render_fd_def fdc_find_def ekey_def)

lemma fdc_drop_hit:
  assumes "fdc_slot (g_fdc s) pid 3 = Some i" "used (g_fdc s ! i)" "ekey (g_fdc s ! i) = (pid, 3)"
  shows "fdc_drop s pid 3 = \<lparr>g_fdc = (g_fdc s)[i := (g_fdc s ! i)\<lparr>used := False\<rparr>], g_fdc_used = szsub (g_fdc_used s) 1\<rparr>"
  using assms by (simp add: fdc_drop_def fdc_find_def ekey_def)

lemma render_fd_first:
  "render_fd (\<lambda>_. True) (\<lambda>_ _. Some p) fdc_start pid 3 n =
     render_fd (\<lambda>_. True) (\<lambda>_ _. Some p) \<lparr>g_fdc = replicate 4096 fdc_empty, g_fdc_used = 0\<rparr> pid 3 n"
proof -
  have "fdc_find (replicate 4096 fdc_empty) pid 3 = None"
    using fun_cong [OF fdc_map_empty [of 12], of "(pid, 3)"] by (simp add: fdc_map_def)
  then show ?thesis
    by (simp add: render_fd_def fdc_start_def fdc_find_def [of "[]"] fdc_slot_def [of "[]"] fdc_put_def)
qed

text \<open>Dropping an entry leaves no mark in the table, so it cuts the probe chain behind it and the
  next render of a displaced key inserts that key a second time. After the descriptor is closed one copy
  remains, and once the slot before it is filled again the renderer finds it: it reports the path the
  descriptor had before it was closed.\<close>

theorem fdc_drop_stale:
  "(do {
      (_, s) \<leftarrow> render_fd (\<lambda>_. True) (\<lambda>_ _. Some ''/a'') fdc_start 1000 3 64;
      (_, s) \<leftarrow> render_fd (\<lambda>_. True) (\<lambda>_ _. Some ''/b'') s 5096 3 64;
      (_, s) \<leftarrow> render_fd (\<lambda>_. True) (\<lambda>_ _. Some ''/b'') (fdc_drop s 1000 3) 5096 3 64;
      (_, s) \<leftarrow> render_fd (\<lambda>_. True) (\<lambda>_ _. Some ''/c'') (fdc_drop s 5096 3) 1000 3 64;
      (text, s) \<leftarrow> render_fd (\<lambda>_. True) (\<lambda>_ _. Some ''/d'') s 5096 3 64;
      Some text
    }) = Some ''fd=3 </b>''"
proof -
  define T where "T = replicate 4096 fdc_empty"
  have T: "length T = 4096" "T \<noteq> []" "T ! 461 = fdc_empty" "T ! 462 = fdc_empty"
    unfolding T_def by (simp_all)
  show ?thesis
    unfolding render_fd_first T_def [symmetric]
    by (simp add: T render_fd_miss render_fd_hit fdc_drop_hit fdc_slot_sample fdt.stops_def ekey_def fdc_empty_def
        nth_list_update szsub_def fd_text_def show_base_eval dg_def snprintf_def)
qed

section \<open>Decoding socket addresses\<close>

lemma load_bytes_take: "j + k \<le> len \<Longrightarrow> len \<le> length sa \<Longrightarrow>
    load_bytes (take len sa) j k = load_bytes sa j k \<and> load_bytes sa j k = Some (take k (drop j sa))"
  by (simp add: load_bytes_def drop_take min_def)

lemma decode_unix_safe:
  assumes "2 \<le> len" "len \<le> length sa" "0 < n"
  shows "safe (decode_unix sa len n) (\<lambda>s. length s < n \<and> decode_unix (take len sa) len n = Some s)"
proof (cases "len = 2")
  case False
  let ?m = "if len - 2 - 1 < 64 - 1 then len - 2 - 1 else 64 - 1" and ?m' = "if len - 2 < 64 then len - 2 else 64 - 1"
  have "3 + ?m \<le> len" "2 + ?m' \<le> len" using assms(1) False by auto
  note b = load_bytes_take [OF this(1) assms(2)] load_bytes_take [OF this(2) assms(2)]
  have "byte_at (take len sa) 2 = Some (sa ! 2)" "byte_at sa 2 = Some (sa ! 2)" "len - 2 \<noteq> 0"
    using assms(1,2) False by (simp_all add: byte_at_def)
  then show ?thesis
    unfolding decode_unix_def Let_def using b length_snprintf [OF assms(3)] by (cases "sa ! 2 = 0") simp_all
qed (use assms in \<open>simp add: decode_unix_def length_snprintf\<close>)

text \<open>C16: the socket-address decoder fails exactly on a capture shorter than the family field, and
  otherwise yields text that fits the buffer; it reads only the captured bytes, whatever follows them in
  the event.\<close>

theorem decode_sockaddr_safe:
  assumes "len \<le> length sa" "0 < n"
  shows "safe (decode_sockaddr ntop6 sa len n) (\<lambda>r.
    (r = Rc_err \<longleftrightarrow> len < 2) \<and> (\<forall>s. r = Rc_ok s \<longrightarrow> length s < n) \<and>
    decode_sockaddr ntop6 (take len sa) len n = Some r)"
proof (cases "len < 2")
  case True
  then show ?thesis by (simp add: decode_sockaddr_def)
next
  case False
  note t = load_bytes_take [OF _ assms(1)]
  obtain fam where fam: "load_le 2 sa 0 = Some (fam :: u16)" "load_le 2 (take len sa) 0 = Some fam"
    using t [of 0 2] False by (auto simp: load_le_def)
  show ?thesis
  proof (cases "fam = 1")
    case True
    then show ?thesis
      using decode_unix_safe [of len sa n] False assms fam by (auto simp: decode_sockaddr_def safe_iff)
  next
    case False': False
    show ?thesis
      unfolding decode_sockaddr_def fam bind.bind_lunit
      using False False' assms(2) t [of 2 2] t [of 4 4] t [of 8 16] by (auto simp: length_snprintf)
  qed
qed

lemma decode_sockaddr_safe_witness:
  "decode_sockaddr (\<lambda>_. ''::'') [2, 0, 0x1f, 0x90, 127, 0, 0, 1, 9, 9] 8 32 = Some (Rc_ok ''127.0.0.1:8080'') \<and>
   safe (decode_sockaddr (\<lambda>_. ''::'') [2, 0, 0x1f, 0x90, 127, 0, 0, 1, 9, 9] 8 32) (\<lambda>r. r \<noteq> Rc_err)"
proof
  show "decode_sockaddr (\<lambda>_. ''::'') [2, 0, 0x1f, 0x90, 127, 0, 0, 1, 9, 9] 8 32 = Some (Rc_ok ''127.0.0.1:8080'')"
    by (simp add: decode_sockaddr_def load_le_def load_bytes_def ntop4_def ntohs_def show_base_eval dg_def snprintf_def)
  show "safe (decode_sockaddr (\<lambda>_. ''::'') [2, 0, 0x1f, 0x90, 127, 0, 0, 1, 9, 9] 8 32) (\<lambda>r. r \<noteq> Rc_err)"
    using decode_sockaddr_safe [of 8 "[2, 0, 0x1f, 0x90, 127, 0, 0, 1, 9, 9]" 32 "\<lambda>_. ''::''"]
    by (auto elim: safe_mono)
qed

end
