(* ===== verification/Dump_Check.thy ===== *)
theory Dump_Check
  imports C_Text Sha256
begin

unbundle bit_operations_syntax

text \<open>
  \<open>src/src/common/proc_mem.c\<close> and the integrity check of \<open>src/src/dump/rebuild.c\<close>: reading another
  process's memory page by page, digesting the executable segments of an ELF image, and the verdict that
  compares a module in memory with the file it came from.

  \<^item> the kernel is the parameter \<open>pread\<close>: the bytes a read of \<open>/proc/<pid>/mem\<close> returns, \<open>None\<close> when it
    returns an error or nothing. Reading the backing file and the stored APK member are parameters too.
  \<^item> an ELF header is its 64 bytes and a program header a record; both are read with the offsets of
    \<open><elf.h>\<close>.
  \<^item> \<open>dump_check_cb\<close> returns the verdict record it emits: the state, the two digests, \<open>None\<close> for an
    empty one.
\<close>

section \<open>Reading process memory\<close>

abbreviation PROC_MEM_PAGE :: nat where "PROC_MEM_PAGE \<equiv> 0x1000"

definition mem_chunk :: "u64 \<Rightarrow> nat \<Rightarrow> nat \<Rightarrow> nat" where
  "mem_chunk va len off =
     (let chunk = PROC_MEM_PAGE - unat ((va + of_nat off) AND 0xfff)
      in if chunk > len - off then len - off else chunk)"

lemma mem_chunk_pos: "off < len \<Longrightarrow> 0 < mem_chunk va len off"
proof -
  have "unat ((va + of_nat off) AND mask 12) < 2 ^ 12"
    using take_bit_nat_less_exp [of 12 "unat (va + of_nat off)"] by (simp add: unsigned_take_bit_eq flip: take_bit_eq_mask)
  then have "unat ((va + of_nat off) AND 0xfff) < 0x1000" by (simp add: mask_numeral)
  then show "off < len \<Longrightarrow> 0 < mem_chunk va len off" by (auto simp: mem_chunk_def Let_def)
qed

function mem_read_loop :: "(u64 \<Rightarrow> nat \<Rightarrow> bytes option) \<Rightarrow> u64 \<Rightarrow> nat \<Rightarrow> nat \<Rightarrow> bytes \<Rightarrow> nat \<Rightarrow> (bytes \<times> nat) option" where
  "mem_read_loop pread va len off dst got =
     (if off \<ge> len then Some (dst, got)
      else let chunk = mem_chunk va len off in
        case pread (va + of_nat off) chunk of
          None \<Rightarrow> mem_read_loop pread va len (off + chunk) dst got
        | Some r \<Rightarrow>
            if r = [] then mem_read_loop pread va len (off + chunk) dst got
            else (case store_bytes dst off r of
                    None \<Rightarrow> None
                  | Some dst \<Rightarrow> mem_read_loop pread va len (off + length r) dst (got + length r)))"
  by auto
termination
  by (relation "measure (\<lambda>(pread, va, len, off, dst, got). len - off)") (auto simp: mem_chunk_pos diff_less_mono2)

definition proc_mem_read :: "(u64 \<Rightarrow> nat \<Rightarrow> bytes option) \<Rightarrow> u64 \<Rightarrow> bytes \<Rightarrow> nat \<Rightarrow> (bytes \<times> nat) option" where
  "proc_mem_read pread va dst len = mem_read_loop pread va len 0 dst 0"

section \<open>ELF headers\<close>

definition elf64_magic :: "bytes \<Rightarrow> bool" where
  "elf64_magic eh \<longleftrightarrow> take 4 eh = [0x7f, 0x45, 0x4c, 0x46] \<and> eh ! 4 = 2"

definition e_phoff :: "bytes \<Rightarrow> u64" where "e_phoff eh = le_word (take 8 (drop 32 eh))"
definition e_phentsize :: "bytes \<Rightarrow> u16" where "e_phentsize eh = le_word (take 2 (drop 54 eh))"
definition e_phnum :: "bytes \<Rightarrow> u16" where "e_phnum eh = le_word (take 2 (drop 56 eh))"

record phdr =
  p_type :: u32
  p_flags :: u32
  p_offset :: u64
  p_vaddr :: u64
  p_paddr :: u64
  p_filesz :: u64
  p_memsz :: u64
  p_align :: u64

definition phdr_of :: "bytes \<Rightarrow> phdr" where
  "phdr_of b = \<lparr>p_type = le_word (take 4 b), p_flags = le_word (take 4 (drop 4 b)),
     p_offset = le_word (take 8 (drop 8 b)), p_vaddr = le_word (take 8 (drop 16 b)),
     p_paddr = le_word (take 8 (drop 24 b)), p_filesz = le_word (take 8 (drop 32 b)),
     p_memsz = le_word (take 8 (drop 40 b)), p_align = le_word (take 8 (drop 48 b))\<rparr>"

abbreviation PT_LOAD :: u32 where "PT_LOAD \<equiv> 1"
abbreviation PT_DYNAMIC :: u32 where "PT_DYNAMIC \<equiv> 2"
abbreviation PF_X :: u32 where "PF_X \<equiv> 1"

definition phdrs_usable :: "bytes \<Rightarrow> bool" where
  "phdrs_usable eh \<longleftrightarrow> \<not> (e_phoff eh = 0 \<or> e_phnum eh = 0 \<or> unat (e_phentsize eh) < 56)"

section \<open>Digesting the executable segments\<close>

fun hash_segs :: "bytes \<Rightarrow> bytes \<Rightarrow> nat list \<Rightarrow> sha256_ctx \<Rightarrow> nat \<Rightarrow> (sha256_ctx \<times> nat) rc option" where
  "hash_segs img eh [] c nexec = Some (Rc_ok (c, nexec))"
| "hash_segs img eh (i # is) c nexec = do {
     b \<leftarrow> load_bytes img (unat (e_phoff eh) + i * unat (e_phentsize eh)) 56;
     let p = phdr_of b;
     (if p_type p \<noteq> PT_LOAD \<or> p_flags p AND PF_X = 0 then hash_segs img eh is c nexec
      else if unat (p_offset p) > length img \<or> unat (p_filesz p) > length img - unat (p_offset p) then Some Rc_err
      else do {
        seg \<leftarrow> load_bytes img (unat (p_offset p)) (unat (p_filesz p));
        c \<leftarrow> sha256_update c seg;
        hash_segs img eh is c (nexec + 1)
      })
   }"

definition hash_exec_segments :: "bytes \<Rightarrow> string rc option" where
  "hash_exec_segments img =
     (if length img < 64 then Some Rc_err
      else let eh = take 64 img in
        if \<not> elf64_magic eh then Some Rc_err
        else if \<not> phdrs_usable eh then Some Rc_err
        else if unat (e_phoff eh) > length img \<or>
                unat (e_phnum eh) * unat (e_phentsize eh) > length img - unat (e_phoff eh) then Some Rc_err
        else do {
          r \<leftarrow> hash_segs img eh [0..<unat (e_phnum eh)] sha256_init 0;
          (case r of
             Rc_err \<Rightarrow> Some Rc_err
           | Rc_ok (c, nexec) \<Rightarrow> if nexec = 0 then Some Rc_err else map_option Rc_ok (sha256_final_hex c))
        })"

definition dump_check_image :: "bytes \<Rightarrow> bytes \<Rightarrow> (string \<times> string \<times> string) option" where
  "dump_check_image mem file = do {
     m \<leftarrow> hash_exec_segments mem;
     (case m of
        Rc_err \<Rightarrow> Some (''unreadable'', '''', '''')
      | Rc_ok mem_hex \<Rightarrow> do {
          f \<leftarrow> hash_exec_segments file;
          (case f of
             Rc_err \<Rightarrow> Some (''unreadable'', mem_hex, '''')
           | Rc_ok file_hex \<Rightarrow> Some (if mem_hex = file_hex then ''match'' else ''differ'', mem_hex, file_hex))
        })
   }"

section \<open>The check of one module\<close>

definition basename_of :: "string \<Rightarrow> string" where
  "basename_of p = (if CHR ''/'' \<in> set p then rev (takeWhile (\<lambda>c. c \<noteq> CHR ''/'') (rev p)) else p)"

text \<open>\<open>strstr\<close>: the part before the first occurrence.\<close>

fun before_sub :: "string \<Rightarrow> string \<Rightarrow> string option" where
  "before_sub needle s =
     (if take (length needle) s = needle then Some ''''
      else case s of [] \<Rightarrow> None | c # s \<Rightarrow> map_option ((#) c) (before_sub needle s))"

definition bare_name :: "string \<Rightarrow> string \<times> bool" where
  "bare_name path =
     (let bn = snprintf 256 (basename_of path)
      in case before_sub '' (deleted)'' bn of Some b \<Rightarrow> (b, True) | None \<Rightarrow> (bn, False))"

text \<open>The backing bytes of the module: a stored member when the path is an APK, else the whole file; \<open>Inl\<close>
  is the state reported when there are none.\<close>

definition check_baseline :: "(string \<Rightarrow> bytes option) \<Rightarrow> (string \<Rightarrow> u64 \<Rightarrow> bytes option) \<Rightarrow> string \<Rightarrow> u64 \<Rightarrow> string + bytes" where
  "check_baseline read_whole_file dump_read_apk_member path file_off =
     (if (case path of [] \<Rightarrow> True | c # _ \<Rightarrow> c \<noteq> CHR ''/'') \<or> snd (bare_name path) then Inl ''nofile''
      else if length path \<ge> 4 \<and> drop (length path - 4) path = ''.apk'' then
        (case dump_read_apk_member path file_off of None \<Rightarrow> Inl ''apk'' | Some b \<Rightarrow> Inr b)
      else (case read_whole_file path of None \<Rightarrow> Inl ''nofile'' | Some b \<Rightarrow> Inr b))"

definition dump_check_cb ::
  "(nat \<Rightarrow> bool) \<Rightarrow> (u64 \<Rightarrow> nat \<Rightarrow> bytes option) \<Rightarrow> (string \<Rightarrow> bytes option) \<Rightarrow> (string \<Rightarrow> u64 \<Rightarrow> bytes option) \<Rightarrow>
   u64 \<Rightarrow> string \<Rightarrow> u64 \<Rightarrow> (string \<times> string \<times> string option \<times> string option) option" where
  "dump_check_cb calloc_ok pread read_whole_file dump_read_apk_member base path file_off = do {
     let bn = fst (bare_name path);
     let opt = (\<lambda>h. if h = '''' then None else Some h);
     (case check_baseline read_whole_file dump_read_apk_member path file_off of
        Inl st \<Rightarrow> Some (bn, st, None, None)
      | Inr file \<Rightarrow>
          if \<not> calloc_ok (length file) then Some (bn, ''unreadable'', None, None)
          else do {
            (mem, got) \<leftarrow> proc_mem_read pread base (replicate (length file) 0) (length file);
            (if got \<noteq> length file then Some (bn, ''unreadable'', None, None)
             else do {
               (st, mem_hex, file_hex) \<leftarrow> dump_check_image mem file;
               Some (bn, st, opt mem_hex, opt file_hex)
             })
          })
   }"

section \<open>What a memory read returns\<close>

text \<open>The memory of a process: a byte or nothing at each address, readable page by page; and what \<open>pread\<close>
  returns for a request that stays within a page: nothing if the page is not readable, otherwise some
  of the requested bytes, at least one.\<close>

definition mem_paged :: "(u64 \<Rightarrow> u8 option) \<Rightarrow> bool" where
  "mem_paged m \<longleftrightarrow> (\<forall>a b. drop_bit 12 a = drop_bit 12 b \<longrightarrow> (m a = None \<longleftrightarrow> m b = None))"

definition pread_of :: "(u64 \<Rightarrow> u8 option) \<Rightarrow> (u64 \<Rightarrow> nat \<Rightarrow> bytes option) \<Rightarrow> bool" where
  "pread_of m pread \<longleftrightarrow> (\<forall>va n. 0 < n \<longrightarrow> unat (va AND 0xfff) + n \<le> PROC_MEM_PAGE \<longrightarrow>
     (case pread va n of
        None \<Rightarrow> m va = None
      | Some r \<Rightarrow> r \<noteq> [] \<and> length r \<le> n \<and> (\<forall>i<length r. m (va + of_nat i) = Some (r ! i))))"

lemma unat_low12: "unat (a AND 0xfff) = unat a mod 4096" for a :: u64
proof -
  have "a AND 0xfff = take_bit 12 a" by (simp add: take_bit_eq_mask mask_numeral)
  then have "unat (a AND 0xfff) = take_bit 12 (unat a)" by (simp only: unsigned_take_bit_eq)
  then show ?thesis by (simp add: take_bit_eq_mod)
qed

lemma same_page:
  assumes "unat (a AND 0xfff) + k < 4096"
  shows "drop_bit 12 (a + of_nat k) = drop_bit 12 (a :: u64)"
proof -
  define q r where "q = unat a div 4096" and "r = unat a mod 4096"
  have a: "unat a = 4096 * q + r" "r + k < 4096" using assms by (simp_all add: q_def r_def unat_low12)
  have "unat a < 2 ^ 52 * 4096" using unsigned_less [of a, where 'a = nat] by simp
  then have "q < 2 ^ 52" unfolding q_def by (rule less_mult_imp_div_less)
  then have "unat a + k < 2 ^ 64" using a by simp
  then have s: "unat (a + of_nat k) = unat a + k" by (simp add: unat_word_ariths unat_of_nat)
  have "unat (drop_bit 12 (a + of_nat k)) = unat (drop_bit 12 a)"
    unfolding drop_bit_eq_div unat_div_distrib s using a by simp
  then show ?thesis by (simp add: word_unat_eq_iff)
qed

lemma mem_chunk_bounds:
  assumes "off < len"
  shows "0 < mem_chunk va len off" "off + mem_chunk va len off \<le> len"
    "unat ((va + of_nat off) AND 0xfff) + mem_chunk va len off \<le> 4096"
proof -
  have "unat ((va + of_nat off) AND 0xfff) < 4096" by (simp add: unat_low12)
  then show "0 < mem_chunk va len off" "off + mem_chunk va len off \<le> len"
    "unat ((va + of_nat off) AND 0xfff) + mem_chunk va len off \<le> 4096"
    using assms mem_chunk_pos [OF assms] by (auto simp: mem_chunk_def Let_def)
qed

text \<open>The buffer after the bytes of the indices \<open>is\<close> have been read over \<open>dst\<close>.\<close>

definition seen :: "(u64 \<Rightarrow> u8 option) \<Rightarrow> u64 \<Rightarrow> bytes \<Rightarrow> nat list \<Rightarrow> bytes" where
  "seen m va dst is = map (\<lambda>i. case m (va + of_nat i) of Some b \<Rightarrow> b | None \<Rightarrow> dst ! i) is"

abbreviation readable :: "(u64 \<Rightarrow> u8 option) \<Rightarrow> u64 \<Rightarrow> nat \<Rightarrow> bool" where
  "readable m va i \<equiv> m (va + of_nat i) \<noteq> None"

declare mem_read_loop.simps [simp del]

lemma upt_split: "off \<le> k \<Longrightarrow> k \<le> len \<Longrightarrow> [off..<len] = [off..<k] @ [k..<len]"
  using upt_add_eq_append [of off k "len - k"] by simp

lemma seen_hole: "(\<And>i. i \<in> set is \<Longrightarrow> m (va + of_nat i) = None) \<Longrightarrow> seen m va dst is = map ((!) dst) is"
  by (simp add: seen_def)

lemma seen_cong: "(\<And>i. i \<in> set is \<Longrightarrow> dst ! i = dst' ! i) \<Longrightarrow> seen m va dst is = seen m va dst' is"
  by (auto simp: seen_def split: option.splits)

lemma seen_append: "seen m va dst (is @ js) = seen m va dst is @ seen m va dst js"
  by (simp add: seen_def)

lemma take_upt: "k \<le> length dst \<Longrightarrow> off \<le> k \<Longrightarrow> take off dst @ map ((!) dst) [off..<k] = take k dst"
  by (intro nth_equalityI) (auto simp: nth_append)

lemma mem_read_loop_exact:
  assumes "mem_paged m" "pread_of m pread"
  shows "off \<le> len \<Longrightarrow> length dst = len \<Longrightarrow>
    mem_read_loop pread va len off dst got =
      Some (take off dst @ seen m va dst [off..<len], got + length (filter (readable m va) [off..<len]))"
proof (induction "len - off" arbitrary: off dst got rule: less_induct)
  case less
  show ?case
  proof (cases "off < len")
    case False
    then show ?thesis using less(2,3) by (simp add: mem_read_loop.simps seen_def)
  next
    case True
    let ?c = "mem_chunk va len off" and ?a = "va + of_nat off"
    note c = mem_chunk_bounds [OF True, of va]
    have p: "case pread ?a ?c of None \<Rightarrow> m ?a = None
      | Some r \<Rightarrow> r \<noteq> [] \<and> length r \<le> ?c \<and> (\<forall>i<length r. m (?a + of_nat i) = Some (r ! i))"
      using assms(2) c unfolding pread_of_def by blast
    have ai: "va + of_nat i = ?a + of_nat (i - off)" if "off \<le> i" for i
      using that by (simp add: of_nat_diff)
    show ?thesis
    proof (cases "pread ?a ?c")
      case None
      have hole: "m (va + of_nat i) = None" if "i \<in> set [off..<off + ?c]" for i
      proof -
        have "drop_bit 12 (va + of_nat i) = drop_bit 12 ?a"
          unfolding ai [of i, OF that [simplified, THEN conjunct1]] using that c(3) by (intro same_page) auto
        then have "m (va + of_nat i) = None \<longleftrightarrow> m ?a = None" using assms(1) unfolding mem_paged_def by blast
        then show ?thesis using None p by simp
      qed
      have "seen m va dst [off..<len] = map ((!) dst) [off..<off + ?c] @ seen m va dst [off + ?c..<len]"
        using seen_hole [of "[off..<off + ?c]" m va dst, OF hole] c(2) by (simp add: upt_split [of off "off + ?c" len] seen_append)
      moreover have "filter (readable m va) [off..<len] = filter (readable m va) [off + ?c..<len]"
        using hole c(2) by (auto simp: upt_split [of off "off + ?c" len] filter_empty_conv)
      ultimately show ?thesis
        using less(1) [of "off + ?c" dst got] True None c less(3) take_upt [of "off + ?c" dst off]
        by (simp add: mem_read_loop.simps [of pread va len off] Let_def)
    next
      case (Some r)
      then have r: "r \<noteq> []" "length r \<le> ?c" "\<And>i. i < length r \<Longrightarrow> m (?a + of_nat i) = Some (r ! i)"
        using p by auto
      let ?k = "off + length r" and ?d = "take off dst @ r @ drop (off + length r) dst"
      have k: "?k \<le> len" "off < ?k" using r c by auto
      have st: "store_bytes dst off r = Some ?d" using k less(3) by (simp add: store_bytes_def)
      have got: "m (va + of_nat i) = Some (r ! (i - off))" if "i \<in> set [off..<?k]" for i
        using ai [of i] r(3) [of "i - off"] that by auto
      have s1: "seen m va dst [off..<?k] = r"
        by (intro nth_equalityI) (auto simp: seen_def r(3) [unfolded add.assoc])
      have s2: "seen m va ?d [?k..<len] = seen m va dst [?k..<len]"
        using k less(3) by (intro seen_cong) (auto simp: nth_append)
      have f: "filter (readable m va) [off..<?k] = [off..<?k]" using got by (intro filter_True) auto
      have "mem_read_loop pread va len ?k ?d (got + length r) =
          Some (take ?k ?d @ seen m va ?d [?k..<len], got + length r + length (filter (readable m va) [?k..<len]))"
      proof (rule less(1))
        show "len - ?k < len - off" "?k \<le> len" using k by linarith+
        show "length ?d = len" using k less(3) by simp
      qed
      moreover have "mem_read_loop pread va len off dst got = mem_read_loop pread va len ?k ?d (got + length r)"
        using True Some r(1) st by (simp add: mem_read_loop.simps [of pread va len off] Let_def)
      ultimately show ?thesis
        using s1 s2 f k less(3) by (simp add: upt_split [of off ?k len] seen_append)
    qed
  qed
qed

lemma proc_mem_read_seen:
  assumes "mem_paged m" "pread_of m pread"
  shows "proc_mem_read pread va dst (length dst) =
    Some (seen m va dst [0..<length dst], length (filter (readable m va) [0..<length dst]))"
  using mem_read_loop_exact [OF assms, of 0 "length dst" dst va 0] by (simp add: proc_mem_read_def)

text \<open>Reading process memory page by page is exact. Whatever short reads the kernel returns, the
  loop ends, no byte outside the destination is written, every readable byte of the range is copied to its
  place, unreadable pages leave the buffer as it was, and the count is the number of bytes copied.\<close>

theorem proc_mem_read_exact:
  assumes "mem_paged m" "pread_of m pread" "length dst = len"
  shows "proc_mem_read pread va dst len =
    Some (map (\<lambda>i. case m (va + of_nat i) of Some b \<Rightarrow> b | None \<Rightarrow> dst ! i) [0..<len],
          length (filter (readable m va) [0..<len]))"
  using proc_mem_read_seen [OF assms(1,2), of va dst] assms(3) by (simp add: seen_def)

text \<open>A process with one readable page at 0x1000, and a kernel that returns one byte at a time.\<close>

definition sample_mem :: "u64 \<Rightarrow> u8 option" where
  "sample_mem a = (if drop_bit 12 a = 1 then Some (ucast a) else None)"

definition sample_pread :: "u64 \<Rightarrow> nat \<Rightarrow> bytes option" where
  "sample_pread va n = map_option (\<lambda>b. [b]) (sample_mem va)"

lemma sample_mem_ok: "mem_paged sample_mem" "pread_of sample_mem sample_pread"
  by (auto simp: mem_paged_def pread_of_def sample_mem_def sample_pread_def)

lemma proc_mem_read_exact_witness:
  "proc_mem_read sample_pread 0xffe [7, 7, 7, 7] 4 = Some ([7, 7, 0, 1], 2)"
  using proc_mem_read_exact [OF sample_mem_ok, of "[7, 7, 7, 7]" 4 "0xffe"]
  by (simp add: upt_rec sample_mem_def drop_bit_eq_div)

section \<open>The digest of the executable segments\<close>

text \<open>The specification: the bytes of the executable segments in header order, or nothing when the headers
  or the image do not allow an honest digest.\<close>

definition phdr_at :: "bytes \<Rightarrow> nat \<Rightarrow> phdr" where
  "phdr_at img i = phdr_of (take 56 (drop (unat (e_phoff (take 64 img)) + i * unat (e_phentsize (take 64 img))) img))"

definition exec_phdrs :: "bytes \<Rightarrow> phdr list" where
  "exec_phdrs img = filter (\<lambda>p. p_type p = PT_LOAD \<and> p_flags p AND PF_X \<noteq> 0)
     (map (phdr_at img) [0..<unat (e_phnum (take 64 img))])"

definition headers_ok :: "bytes \<Rightarrow> bool" where
  "headers_ok img \<longleftrightarrow> 64 \<le> length img \<and> elf64_magic (take 64 img) \<and> phdrs_usable (take 64 img) \<and>
     unat (e_phoff (take 64 img)) + unat (e_phnum (take 64 img)) * unat (e_phentsize (take 64 img)) \<le> length img"

definition exec_bytes :: "bytes \<Rightarrow> bytes option" where
  "exec_bytes img =
     (if headers_ok img \<and> exec_phdrs img \<noteq> [] \<and>
         list_all (\<lambda>p. unat (p_offset p) + unat (p_filesz p) \<le> length img) (exec_phdrs img)
      then Some (concat (map (\<lambda>p. take (unat (p_filesz p)) (drop (unat (p_offset p)) img)) (exec_phdrs img)))
      else None)"

lemma hash_segs_ok:
  assumes "\<And>i. i \<in> set is \<Longrightarrow> unat (e_phoff (take 64 img)) + i * unat (e_phentsize (take 64 img)) + 56 \<le> length img"
    and "ctx_at c m" "bitlen c = of_nat (8 * length m)"
  defines "ps \<equiv> filter (\<lambda>p. p_type p = PT_LOAD \<and> p_flags p AND PF_X \<noteq> 0) (map (phdr_at img) is)"
  shows "\<exists>r. hash_segs img (take 64 img) is c n = Some r \<and>
    (if list_all (\<lambda>p. unat (p_offset p) + unat (p_filesz p) \<le> length img) ps
     then \<exists>c'. r = Rc_ok (c', n + length ps) \<and>
       sha256_final_hex c' = Some (sha256_spec (m @ concat (map (\<lambda>p. take (unat (p_filesz p)) (drop (unat (p_offset p)) img)) ps)))
     else r = Rc_err)"
  using assms(1-3) unfolding ps_def
proof (induction "is" arbitrary: c m n)
  case Nil
  then show ?case using sha256_final_at by simp
next
  case (Cons i "is")
  let ?p = "phdr_at img i"
  have ld: "load_bytes img (unat (e_phoff (take 64 img)) + i * unat (e_phentsize (take 64 img))) 56 =
      Some (take 56 (drop (unat (e_phoff (take 64 img)) + i * unat (e_phentsize (take 64 img))) img))"
    using Cons.prems(1) by simp
  show ?case
  proof (cases "p_type ?p = PT_LOAD \<and> p_flags ?p AND PF_X \<noteq> 0")
    case False
    then show ?thesis
      using Cons.IH [OF Cons.prems(1) Cons.prems(2,3), of n] ld by (auto simp: phdr_at_def Let_def)
  next
    case True
    show ?thesis
    proof (cases "unat (p_offset ?p) + unat (p_filesz ?p) \<le> length img")
      case False
      then show ?thesis using True ld by (auto simp: phdr_at_def Let_def)
    next
      case fits: True
      let ?seg = "take (unat (p_filesz ?p)) (drop (unat (p_offset ?p)) img)"
      obtain c' where c': "sha256_update c ?seg = Some c'" "ctx_at c' (m @ ?seg)"
        "bitlen c' = of_nat (8 * length (m @ ?seg))"
        using sha256_update_at [OF Cons.prems(2,3)] by blast
      have "hash_segs img (take 64 img) (i # is) c n = hash_segs img (take 64 img) is c' (n + 1)"
        using True fits ld c'(1) by (auto simp: phdr_at_def Let_def)
      then show ?thesis
        using Cons.IH [OF Cons.prems(1) c'(2,3), of "n + 1"] True fits by auto
    qed
  qed
qed

lemma hash_exec_segments_spec:
  "hash_exec_segments img = Some (case exec_bytes img of None \<Rightarrow> Rc_err | Some b \<Rightarrow> Rc_ok (sha256_spec b))"
proof (cases "headers_ok img")
  case False
  then show ?thesis
    by (auto simp: hash_exec_segments_def headers_ok_def exec_bytes_def Let_def)
next
  case True
  let ?e = "take 64 img"
  have h: "64 \<le> length img" "elf64_magic ?e" "phdrs_usable ?e"
    "unat (e_phoff ?e) + unat (e_phnum ?e) * unat (e_phentsize ?e) \<le> length img"
    using True by (simp_all add: headers_ok_def)
  have ent: "56 \<le> unat (e_phentsize ?e)" using h(3) by (auto simp: phdrs_usable_def)
  have fits: "unat (e_phoff ?e) + i * unat (e_phentsize ?e) + 56 \<le> length img" if "i \<in> set [0..<unat (e_phnum ?e)]" for i
  proof -
    have "Suc i * unat (e_phentsize ?e) \<le> unat (e_phnum ?e) * unat (e_phentsize ?e)"
      using that by (intro mult_le_mono1) auto
    then show ?thesis using ent h(4) by simp
  qed
  have b0: "bitlen sha256_init = of_nat (8 * length ([] :: bytes))" by (simp add: sha256_init_def)
  obtain r where r: "hash_segs img ?e [0..<unat (e_phnum ?e)] sha256_init 0 = Some r"
    "if list_all (\<lambda>p. unat (p_offset p) + unat (p_filesz p) \<le> length img) (exec_phdrs img)
     then \<exists>c'. r = Rc_ok (c', 0 + length (exec_phdrs img)) \<and>
       sha256_final_hex c' = Some (sha256_spec ([] @ concat (map (\<lambda>p. take (unat (p_filesz p)) (drop (unat (p_offset p)) img)) (exec_phdrs img))))
     else r = Rc_err"
    using hash_segs_ok [of "[0..<unat (e_phnum ?e)]" img sha256_init "[]" 0, OF fits ctx_at_init b0, folded exec_phdrs_def]
    by blast
  have "hash_exec_segments img = (case r of Rc_err \<Rightarrow> Some Rc_err
      | Rc_ok (c, nexec) \<Rightarrow> if nexec = 0 then Some Rc_err else map_option Rc_ok (sha256_final_hex c))"
    using h r(1) by (auto simp: hash_exec_segments_def Let_def)
  then show ?thesis using r(2) True by (auto simp: exec_bytes_def split: if_splits)
qed

text \<open>The verdict on a module is honest. The comparison never reads outside either image; it says
  \<open>unreadable\<close> exactly when one of the images does not hold all of its executable segments, \<open>match\<close> exactly
  when both do and the SHA-256 digests of the segments agree, and \<open>differ\<close> only when the executable bytes
  really differ; both digests are then reported.\<close>

theorem dump_check_image_verdict:
  "\<exists>st mh fh. dump_check_image mem file = Some (st, mh, fh) \<and>
     (st = ''unreadable'' \<longleftrightarrow> exec_bytes mem = None \<or> exec_bytes file = None) \<and>
     (st = ''match'' \<longleftrightarrow> (\<exists>a b. exec_bytes mem = Some a \<and> exec_bytes file = Some b \<and> sha256_spec a = sha256_spec b)) \<and>
     (st \<noteq> ''unreadable'' \<and> st \<noteq> ''match'' \<longleftrightarrow> st = ''differ'') \<and>
     \<not> (st = ''differ'' \<and> exec_bytes mem = exec_bytes file) \<and>
     (st = ''unreadable'' \<or> Some mh = map_option sha256_spec (exec_bytes mem) \<and> Some fh = map_option sha256_spec (exec_bytes file))"
  unfolding dump_check_image_def hash_exec_segments_spec
  by (cases "exec_bytes mem"; cases "exec_bytes file") auto

section \<open>The check of a mapped module\<close>

text \<open>A module mapped unmodified: every byte of the file is readable at the load base plus its offset.\<close>

definition mapped_at :: "(u64 \<Rightarrow> u8 option) \<Rightarrow> u64 \<Rightarrow> bytes \<Rightarrow> bool" where
  "mapped_at m base file \<longleftrightarrow> (\<forall>i<length file. m (base + of_nat i) = Some (file ! i))"

lemma sha256_spec_ne: "sha256_spec b \<noteq> ''''"
proof
  assume "sha256_spec b = ''''"
  then have "sha_blocks (state sha256_init) (sha_pad b) = []"
    by (simp add: sha256_spec_def hex_word_def hex_byte_def)
  moreover have "length st = 8 \<Longrightarrow> length (sha_blocks st mm) = 8" for st mm
  proof (induction st mm rule: sha_blocks.induct)
    case (1 st mm)
    have "length (foldl sha_round s kws) = length s" if "length s = 8" for s and kws :: "(u32 \<times> u32) list"
      using that
    proof (induction kws arbitrary: s)
      case (Cons kw kws)
      have "length (sha_round s kw) = 8" using Cons.prems by (cases "(s, kw)" rule: sha_round.cases) (auto simp: Let_def)
      then show ?case using Cons by simp
    qed simp
    then have "length (sha256_block st (take 64 mm)) = 8" using 1(2) by (simp add: sha256_block_def)
    then show ?case using 1 by (subst sha_blocks.simps) simp
  qed
  then have "length (sha_blocks (state sha256_init) (sha_pad b)) = 8" by (simp add: sha256_init_def)
  ultimately show False by simp
qed

lemma length_filter_all: "length (filter P xs) = length xs \<longleftrightarrow> (\<forall>x \<in> set xs. P x)"
  by (metis filter_id_conv filter_True length_filter_less nat_neq_iff)

text \<open>C17: the check of a mapped module reports a false modification to nobody. Whatever the kernel's short
  reads, the result is a verdict record; it is \<open>match\<close> or \<open>differ\<close> only when every byte of the range was
  read and both digests are reported with it, and a module that is mapped unmodified at file offsets, with
  its executable segments inside the file, matches.\<close>

theorem dump_check_cb_verdict:
  assumes "mem_paged m" "pread_of m pread"
    and "check_baseline read_whole_file dump_read_apk_member path file_off = Inr file" "calloc_ok (length file)"
  shows "\<exists>bn st mh fh. dump_check_cb calloc_ok pread read_whole_file dump_read_apk_member base path file_off = Some (bn, st, mh, fh) \<and>
    (st = ''match'' \<or> st = ''differ'' \<or> st = ''unreadable'') \<and>
    (st \<noteq> ''unreadable'' \<longrightarrow> (\<forall>i<length file. readable m base i) \<and> mh \<noteq> None \<and> fh \<noteq> None) \<and>
    (mapped_at m base file \<and> exec_bytes file \<noteq> None \<longrightarrow> st = ''match'')"
proof -
  let ?mem = "seen m base (replicate (length file) 0) [0..<length file]"
  let ?got = "length (filter (readable m base) [0..<length file])"
  have rd: "proc_mem_read pread base (replicate (length file) 0) (length file) = Some (?mem, ?got)"
    using proc_mem_read_seen [OF assms(1,2), of base "replicate (length file) 0"] by simp
  have full: "?got = length file \<longleftrightarrow> (\<forall>i<length file. readable m base i)"
    using length_filter_all [of "readable m base" "[0..<length file]"] by auto
  have clean: "?mem = file" "?got = length file" if "mapped_at m base file"
    using that full by (auto simp: mapped_at_def seen_def intro: nth_equalityI)
  have img: "dump_check_image ?mem file = Some (case (exec_bytes ?mem, exec_bytes file) of
      (None, _) \<Rightarrow> (''unreadable'', '''', '''')
    | (Some a, None) \<Rightarrow> (''unreadable'', sha256_spec a, '''')
    | (Some a, Some b) \<Rightarrow> (if sha256_spec a = sha256_spec b then ''match'' else ''differ'', sha256_spec a, sha256_spec b))"
    unfolding dump_check_image_def hash_exec_segments_spec by (auto split: option.splits)
  show ?thesis
  proof (cases "?got = length file")
    case False
    then show ?thesis using assms(3,4) rd full clean by (auto simp: dump_check_cb_def Let_def)
  next
    case True
    then show ?thesis
      using assms(3,4) rd full clean img sha256_spec_ne
      by (cases "exec_bytes ?mem"; cases "exec_bytes file") (auto simp: dump_check_cb_def Let_def)
  qed
qed

text \<open>A library of 124 bytes with one executable segment, mapped at 0x1000, and a kernel that returns one
  byte at a time.\<close>

definition clean_so :: bytes where
  "clean_so = [
     0x7f, 0x45, 0x4c, 0x46, 2, 1, 1, 0, 0, 0, 0, 0, 0, 0, 0, 0,
     0, 0, 0, 0, 0, 0, 0, 0, 0, 0, 0, 0, 0, 0, 0, 0,
     0x40, 0, 0, 0, 0, 0, 0, 0, 0, 0, 0, 0, 0, 0, 0, 0,
     0, 0, 0, 0, 0, 0, 0x38, 0, 1, 0, 0, 0, 0, 0, 0, 0,
     1, 0, 0, 0, 5, 0, 0, 0, 0x78, 0, 0, 0, 0, 0, 0, 0,
     0, 0, 0, 0, 0, 0, 0, 0, 0, 0, 0, 0, 0, 0, 0, 0,
     4, 0, 0, 0, 0, 0, 0, 0, 0, 0, 0, 0, 0, 0, 0, 0,
     0, 0, 0, 0, 0, 0, 0, 0, 0xc0, 3, 0x5f, 0xd6]"

definition clean_mem :: "u64 \<Rightarrow> u8 option" where
  "clean_mem a = (if drop_bit 12 a = 1
     then Some (if unat (a - 0x1000) < length clean_so then clean_so ! unat (a - 0x1000) else 0) else None)"

lemma clean_so_exec: "exec_bytes clean_so = Some [0xc0, 0x03, 0x5f, 0xd6]"
proof -
  have h: "e_phoff (take 64 clean_so) = 64" "e_phnum (take 64 clean_so) = 1" "e_phentsize (take 64 clean_so) = 56"
    "elf64_magic (take 64 clean_so)" "length clean_so = 124"
    by (simp_all add: e_phoff_def e_phnum_def e_phentsize_def elf64_magic_def clean_so_def)
  have "phdr_at clean_so 0 = \<lparr>p_type = 1, p_flags = 5, p_offset = 120, p_vaddr = 0, p_paddr = 0, p_filesz = 4, p_memsz = 0, p_align = 0\<rparr>"
    unfolding phdr_at_def h by (simp add: phdr_of_def clean_so_def)
  then have "exec_phdrs clean_so = [\<lparr>p_type = 1, p_flags = 5, p_offset = 120, p_vaddr = 0, p_paddr = 0, p_filesz = 4, p_memsz = 0, p_align = 0\<rparr>]"
    unfolding exec_phdrs_def h by simp
  then show ?thesis by (simp add: exec_bytes_def headers_ok_def phdrs_usable_def h) (simp add: clean_so_def)
qed

lemma clean_mem_ok: "mem_paged clean_mem" "pread_of clean_mem (\<lambda>va n. map_option (\<lambda>b. [b]) (clean_mem va))"
  by (auto simp: mem_paged_def pread_of_def clean_mem_def)

lemma clean_mapped: "mapped_at clean_mem 0x1000 clean_so"
proof -
  have "length clean_so = 124" by (simp add: clean_so_def)
  moreover have "clean_mem (0x1000 + of_nat i) = Some (clean_so ! i)" if "i < 124" for i
  proof -
    have "drop_bit 12 (0x1000 + of_nat i :: u64) = drop_bit 12 0x1000"
      using that by (intro same_page) (simp add: unat_low12)
    moreover have "unat (of_nat i :: u64) = i" using that by (simp add: unat_of_nat)
    ultimately show ?thesis using that \<open>length clean_so = 124\<close> by (simp add: clean_mem_def drop_bit_eq_div)
  qed
  ultimately show ?thesis by (simp add: mapped_at_def)
qed

lemma dump_check_cb_verdict_witness:
  "\<exists>bn mh fh. dump_check_cb (\<lambda>_. True) (\<lambda>va n. map_option (\<lambda>b. [b]) (clean_mem va)) (\<lambda>_. Some clean_so) (\<lambda>_ _. None)
     0x1000 ''/a.so'' 0 = Some (bn, ''match'', mh, fh)"
proof -
  have "check_baseline (\<lambda>_. Some clean_so) (\<lambda>_ _. None) ''/a.so'' 0 = Inr clean_so"
    by (simp add: check_baseline_def bare_name_def basename_of_def snprintf_def Let_def)
  from dump_check_cb_verdict [OF clean_mem_ok this, of "\<lambda>_. True" "0x1000"]
  show ?thesis using clean_mapped clean_so_exec by auto
qed

end
