(* ===== verification/Dump_Walk.thy ===== *)
theory Dump_Walk
  imports Dump_Check
begin

text \<open>
  Which modules of a process are dumped or checked: \<open>src/src/common/pattern_match.c\<close>, the module-base
  search of \<open>src/src/common/maps.c\<close>, and the selection and walk of \<open>src/src/dump/rebuild.c\<close>.

  \<^item> the C library's matchers are parameters: \<open>fnmatch\<close>, and \<open>regcomp\<close>, which is \<open>None\<close> for a pattern that
    does not compile and otherwise the predicate \<open>regexec\<close> decides;
  \<^item> \<open>struct anubee_map_line\<close> and \<open>struct dump_sel\<close> are records; the optional hit tracker is a list with
    one flag per pattern, \<open>None\<close> for a null pointer;
  \<^item> the walk takes the parsed mapping lines; the callback is the parameter \<open>fn\<close>, which returns its code
    and the end address it reports (0 when it leaves \<open>covered_end\<close> alone). The walk returns its count and,
    as a ghost, the calls it made in order.
\<close>

section \<open>Pattern matching\<close>

definition pm_is_glob :: "string \<Rightarrow> bool" where
  "pm_is_glob pattern \<longleftrightarrow> list_ex (\<lambda>c. c \<in> set ''*?['') pattern"

definition pm_is_regex :: "string \<Rightarrow> bool" where
  "pm_is_regex pattern \<longleftrightarrow> length pattern \<ge> 2 \<and> pattern ! 0 = CHR ''/'' \<and> pattern ! (length pattern - 1) = CHR ''/''"

definition pm_match :: "(string \<Rightarrow> string \<Rightarrow> bool) \<Rightarrow> string \<Rightarrow> string \<Rightarrow> bool \<Rightarrow> bool" where
  "pm_match fnmatch pattern txt exact =
     (if pm_is_glob pattern then fnmatch pattern txt
      else if exact then txt = pattern else before_sub pattern txt \<noteq> None)"

definition pm_regex :: "(string \<Rightarrow> (string \<Rightarrow> bool) option) \<Rightarrow> string \<Rightarrow> string \<Rightarrow> bool" where
  "pm_regex regcomp pattern txt =
     (let inner = length pattern - 2 in
      if pm_is_regex pattern \<and> inner = 0 then False
      else if pm_is_regex pattern \<and> inner \<ge> 256 then False
      else let re_src = (if pm_is_regex pattern then take inner (drop 1 pattern) else pattern)
           in (case regcomp re_src of None \<Rightarrow> False | Some regexec \<Rightarrow> regexec txt))"

text \<open>The error text is left in the caller's buffer when there is one; \<open>regerror\<close> is the library's.\<close>

definition pm_regex_valid ::
  "(string \<Rightarrow> (string \<Rightarrow> bool) option) \<Rightarrow> (string \<Rightarrow> string) \<Rightarrow> string \<Rightarrow> nat \<Rightarrow> string + unit" where
  "pm_regex_valid regcomp regerror pattern errlen =
     (let inner = length pattern - 2 in
      if pm_is_regex pattern \<and> inner = 0 then Inl (snprintf errlen ''empty /regex/ matches everything, refusing'')
      else if pm_is_regex pattern \<and> inner \<ge> 256 then Inl (snprintf errlen ''/regex/ pattern too long (max 255 bytes)'')
      else let re_src = (if pm_is_regex pattern then take inner (drop 1 pattern) else pattern)
           in (case regcomp re_src of None \<Rightarrow> Inl (snprintf errlen (regerror re_src)) | Some _ \<Rightarrow> Inr ()))"

section \<open>Mapping lines\<close>

record map_line =
  ml_start :: u64
  ml_end :: u64
  ml_off :: u64
  ml_exec :: bool
  ml_path :: string

definition anubee_is_filler_map :: "map_line \<Rightarrow> bool" where
  "anubee_is_filler_map m \<longleftrightarrow> (case ml_path m of [] \<Rightarrow> True | c # _ \<Rightarrow> c = CHR ''['')"

fun skip_filler :: "map_line list \<Rightarrow> nat \<Rightarrow> nat" where
  "skip_filler m 0 = 0"
| "skip_filler m (Suc j) = (if anubee_is_filler_map (m ! Suc j) then skip_filler m j else Suc j)"

lemma skip_filler_le: "skip_filler m j \<le> j"
  by (induction j) auto

lemma skip_filler_less: "0 < i \<Longrightarrow> skip_filler m (i - 1) < i"
  using skip_filler_le [of m "i - 1"] by linarith

function anubee_module_base_idx :: "map_line list \<Rightarrow> nat \<Rightarrow> nat" where
  "anubee_module_base_idx m i =
     (if i = 0 then 0
      else let j = skip_filler m (i - 1)
           in if ml_path (m ! j) = ml_path (m ! i) \<and> ml_off (m ! j) < ml_off (m ! i)
              then anubee_module_base_idx m j else i)"
  by auto
termination
  by (relation "measure snd") (use skip_filler_less in auto)

definition load_base_of :: "map_line list \<Rightarrow> nat \<Rightarrow> u64" where
  "load_base_of m hit = ml_start (m ! anubee_module_base_idx m hit)"

definition load_off_of :: "map_line list \<Rightarrow> nat \<Rightarrow> u64" where
  "load_off_of m hit = ml_off (m ! anubee_module_base_idx m hit)"

text \<open>The first mapping that contains an address, as \<open>dump_one_at\<close> looks it up, and its load base.\<close>

definition module_at :: "map_line list \<Rightarrow> u64 \<Rightarrow> u64 option" where
  "module_at m addr =
     map_option (load_base_of m) (find (\<lambda>i. addr \<ge> ml_start (m ! i) \<and> addr < ml_end (m ! i)) [0..<length m])"

section \<open>Selection\<close>

record dump_sel =
  pats :: "string list"
  hit :: "bool list option"
  bases :: "u64 list"

definition dump_name_matches :: "(string \<Rightarrow> string \<Rightarrow> bool) \<Rightarrow> string \<Rightarrow> string \<Rightarrow> bool" where
  "dump_name_matches fnmatch pattern path =
     (if pm_is_glob pattern then pm_match fnmatch pattern (fst (bare_name path)) False
      else pm_match fnmatch pattern path False)"

fun name_matches_from :: "(string \<Rightarrow> string \<Rightarrow> bool) \<Rightarrow> nat \<Rightarrow> string list \<Rightarrow> string \<Rightarrow> bool list option \<Rightarrow> bool \<times> bool list option" where
  "name_matches_from fnmatch i [] path hits = (False, hits)"
| "name_matches_from fnmatch i (p # ps) path hits =
     (if dump_name_matches fnmatch p path
      then let (_, hits) = name_matches_from fnmatch (Suc i) ps path (map_option (\<lambda>h. h[i := True]) hits) in (True, hits)
      else name_matches_from fnmatch (Suc i) ps path hits)"

definition dump_name_matches_any_track ::
  "(string \<Rightarrow> string \<Rightarrow> bool) \<Rightarrow> string list \<Rightarrow> string \<Rightarrow> bool list option \<Rightarrow> bool \<times> bool list option" where
  "dump_name_matches_any_track fnmatch ps path hits = name_matches_from fnmatch 0 ps path hits"

definition dump_sel_matches :: "(string \<Rightarrow> string \<Rightarrow> bool) \<Rightarrow> dump_sel \<Rightarrow> string \<Rightarrow> u64 \<Rightarrow> bool \<times> dump_sel" where
  "dump_sel_matches fnmatch sel path base =
     (if base \<in> set (bases sel) then (True, sel)
      else if pats sel = [] then (False, sel)
      else let (matched, hits) = dump_name_matches_any_track fnmatch (pats sel) path (hit sel)
           in (matched, sel\<lparr>hit := hits\<rparr>))"

definition dump_sel_matches_seg ::
  "(string \<Rightarrow> string \<Rightarrow> bool) \<Rightarrow> dump_sel \<Rightarrow> string \<Rightarrow> u64 \<Rightarrow> u64 \<Rightarrow> bool \<times> dump_sel" where
  "dump_sel_matches_seg fnmatch sel path seg_start seg_end =
     (if list_ex (\<lambda>b. b \<ge> seg_start \<and> b < seg_end) (bases sel) then (True, sel)
      else if pats sel = [] then (False, sel)
      else let (matched, hits) = dump_name_matches_any_track fnmatch (pats sel) path (hit sel)
           in (matched, sel\<lparr>hit := hits\<rparr>))"

section \<open>The walk\<close>

record walk =
  w_sel :: dump_sel
  done_bases :: "u64 list"
  cov :: "(u64 \<times> u64) list"
  w_ok :: nat
  calls :: "(u64 \<times> string \<times> u64) list"

definition walk_skips :: "walk \<Rightarrow> u64 \<Rightarrow> bool" where
  "walk_skips w base \<longleftrightarrow> base \<in> set (done_bases w) \<or> list_ex (\<lambda>(s, e). base \<ge> s \<and> base < e) (cov w)"

text \<open>The callback runs and its result is recorded; both tables stop growing at 64 entries.\<close>

definition walk_call :: "(u64 \<Rightarrow> string \<Rightarrow> u64 \<Rightarrow> int \<times> u64) \<Rightarrow> u64 \<Rightarrow> string \<Rightarrow> u64 \<Rightarrow> walk \<Rightarrow> walk" where
  "walk_call fn base path foff w =
     (let w = (if length (done_bases w) < 64 then w\<lparr>done_bases := done_bases w @ [base]\<rparr> else w);
          (rc, endp) = fn base path foff;
          w = w\<lparr>calls := calls w @ [(base, path, foff)]\<rparr>
      in if rc \<noteq> 0 then w
         else let w = w\<lparr>w_ok := w_ok w + 1\<rparr>
              in if endp > base \<and> length (cov w) < 64 then w\<lparr>cov := cov w @ [(base, endp)]\<rparr> else w)"

definition walk_line ::
  "(string \<Rightarrow> string \<Rightarrow> bool) \<Rightarrow> (u64 \<Rightarrow> string \<Rightarrow> u64 \<Rightarrow> int \<times> u64) \<Rightarrow> map_line list \<Rightarrow> walk \<Rightarrow> nat \<Rightarrow> walk" where
  "walk_line fnmatch fn m w i =
     (if ml_path (m ! i) = '''' then w
      else let base = load_base_of m i; foff = load_off_of m i;
               (sel, sel') = dump_sel_matches_seg fnmatch (w_sel w) (ml_path (m ! i)) (ml_start (m ! i)) (ml_end (m ! i));
               w = w\<lparr>w_sel := sel'\<rparr>
           in if \<not> sel then w
              else if walk_skips w base then w
              else walk_call fn base (ml_path (m ! i)) foff w)"

definition dump_walk_pid_modules ::
  "(string \<Rightarrow> string \<Rightarrow> bool) \<Rightarrow> (u64 \<Rightarrow> string \<Rightarrow> u64 \<Rightarrow> int \<times> u64) \<Rightarrow> map_line list option \<Rightarrow> bool \<Rightarrow> dump_sel \<Rightarrow> walk rc" where
  "dump_walk_pid_modules fnmatch fn maps mem_opens sel =
     (case maps of
        None \<Rightarrow> Rc_err
      | Some m \<Rightarrow> if \<not> mem_opens then Rc_err
          else Rc_ok (foldl (walk_line fnmatch fn m)
                 \<lparr>w_sel = sel, done_bases = [], cov = [], w_ok = 0, calls = []\<rparr> [0..<length m]))"

section \<open>Regular expressions fail closed\<close>

text \<open>A \<open>/regex/\<close> pattern is used as written or not at all. Whatever regular-expression engine the C
  library has, a pattern matches some text only if validation accepts it; it is never matched after
  truncation, the empty and the overlong one match nothing, and an accepted pattern matches exactly what
  the engine says of the text between the slashes (of the whole pattern when it has none).\<close>

theorem pm_regex_fails_closed:
  "(pm_regex regcomp p txt \<longrightarrow> (\<forall>regerror n. pm_regex_valid regcomp regerror p n = Inr ())) \<and>
   (pm_is_regex p \<and> (length p = 2 \<or> length p \<ge> 258) \<longrightarrow> \<not> pm_regex regcomp p txt) \<and>
   (\<forall>regerror n. pm_regex_valid regcomp regerror p n = Inr () \<longrightarrow>
      (\<exists>f. regcomp (if pm_is_regex p then butlast (tl p) else p) = Some f \<and> pm_regex regcomp p txt = f txt))"
proof -
  have "take (length p - 2) (drop 1 p) = butlast (tl p)"
    by (simp add: butlast_conv_take drop_Suc numeral_2_eq_2)
  moreover have "pm_is_regex p \<Longrightarrow> 2 \<le> length p" by (simp add: pm_is_regex_def)
  ultimately show ?thesis
    by (auto simp: pm_regex_def pm_regex_valid_def Let_def split: option.splits if_splits)
qed

lemma pm_regex_fails_closed_witness:
  "pm_regex (\<lambda>src. Some (\<lambda>txt. txt = src)) ''/ab/'' ''ab'' \<and>
   pm_regex_valid (\<lambda>src. Some (\<lambda>txt. txt = src)) (\<lambda>_. '''') ''/ab/'' 64 = Inr ()"
proof -
  have "pm_regex (\<lambda>src. Some (\<lambda>txt. txt = src)) ''/ab/'' ''ab''"
    by (simp add: pm_regex_def pm_is_regex_def)
  then show ?thesis
    using pm_regex_fails_closed [of "\<lambda>src. Some (\<lambda>txt. txt = src)" "''/ab/''" "''ab''"] by blast
qed

section \<open>The load base\<close>

declare anubee_module_base_idx.simps [simp del]

text \<open>The chain of segments a base search goes through: each is the mapping of the same file, at a lower
  offset, right before the last one apart from fillers.\<close>

definition prev_seg :: "map_line list \<Rightarrow> nat \<Rightarrow> nat option" where
  "prev_seg m i =
     (if i = 0 then None
      else let j = skip_filler m (i - 1)
           in if ml_path (m ! j) = ml_path (m ! i) \<and> ml_off (m ! j) < ml_off (m ! i) then Some j else None)"

lemma prev_seg_less: "prev_seg m i = Some j \<Longrightarrow> j < i"
  using skip_filler_less [of i m] by (auto simp: prev_seg_def Let_def split: if_splits)

lemma base_idx_step: "anubee_module_base_idx m i = (case prev_seg m i of None \<Rightarrow> i | Some j \<Rightarrow> anubee_module_base_idx m j)"
  by (subst anubee_module_base_idx.simps) (simp add: prev_seg_def Let_def)

lemma skip_filler_between: "skip_filler m j < k \<Longrightarrow> k \<le> j \<Longrightarrow> anubee_is_filler_map (m ! k)"
  by (induction j) (auto simp: le_Suc_eq split: if_splits)

lemma base_idx_props:
  "anubee_module_base_idx m i \<le> i \<and> ml_path (m ! anubee_module_base_idx m i) = ml_path (m ! i) \<and>
   ml_off (m ! anubee_module_base_idx m i) \<le> ml_off (m ! i) \<and> prev_seg m (anubee_module_base_idx m i) = None \<and>
   (\<forall>k. anubee_module_base_idx m i \<le> k \<and> k \<le> i \<longrightarrow> anubee_is_filler_map (m ! k) \<or> ml_path (m ! k) = ml_path (m ! i))"
proof (induction i rule: less_induct)
  case (less i)
  show ?case
  proof (cases "prev_seg m i")
    case None
    then have e: "anubee_module_base_idx m i = i" by (simp add: base_idx_step)
    show ?thesis unfolding e using None by auto
  next
    case (Some j)
    then have j: "j = skip_filler m (i - 1)" "0 < i" "ml_path (m ! j) = ml_path (m ! i)" "ml_off (m ! j) < ml_off (m ! i)"
      by (auto simp: prev_seg_def Let_def split: if_splits)
    have e: "anubee_module_base_idx m i = anubee_module_base_idx m j" using Some by (simp add: base_idx_step)
    define b where "b = anubee_module_base_idx m j"
    have ji: "j < i" by (rule prev_seg_less [OF Some])
    have ih: "b \<le> j" "ml_path (m ! b) = ml_path (m ! j)" "ml_off (m ! b) \<le> ml_off (m ! j)" "prev_seg m b = None"
      "\<And>k. b \<le> k \<Longrightarrow> k \<le> j \<Longrightarrow> anubee_is_filler_map (m ! k) \<or> ml_path (m ! k) = ml_path (m ! j)"
      using less [OF ji] unfolding b_def by auto
    have "anubee_is_filler_map (m ! k) \<or> ml_path (m ! k) = ml_path (m ! i)" if "b \<le> k" "k \<le> i" for k
    proof -
      consider "k \<le> j" | "j < k" "k < i" | "k = i" using \<open>k \<le> i\<close> by linarith
      then show ?thesis
        using ih(5) [OF \<open>b \<le> k\<close>] j(1,3) skip_filler_between [of m "i - 1" k] by cases auto
    qed
    then show ?thesis
      unfolding e b_def [symmetric] using ih(1-4) j(3,4) ji by auto
  qed
qed

lemma base_idx_idem: "anubee_module_base_idx m (anubee_module_base_idx m i) = anubee_module_base_idx m i"
  using base_idx_props [of m i] by (subst base_idx_step) auto

text \<open>The load base of a mapping. The search ends at a mapping of the same file, at or below the
  mapping it started from and with no higher file offset; only mappings of that file and fillers lie
  between; no earlier segment of the same load precedes it; and searching again from it stays there, so
  all segments the search passes have the same base.\<close>

theorem module_base_sound:
  "anubee_module_base_idx m i \<le> i \<and>
   ml_path (m ! anubee_module_base_idx m i) = ml_path (m ! i) \<and>
   ml_off (m ! anubee_module_base_idx m i) \<le> ml_off (m ! i) \<and>
   list_all (\<lambda>k. anubee_is_filler_map (m ! k) \<or> ml_path (m ! k) = ml_path (m ! i)) [anubee_module_base_idx m i..<Suc i] \<and>
   anubee_module_base_idx m (anubee_module_base_idx m i) = anubee_module_base_idx m i \<and>
   (case prev_seg m i of None \<Rightarrow> anubee_module_base_idx m i = i
    | Some j \<Rightarrow> anubee_module_base_idx m i = anubee_module_base_idx m j)"
  using base_idx_props [of m i] base_idx_idem [of m i] base_idx_step [of m i]
  by (auto simp: list_all_iff less_Suc_eq_le simp del: upt_Suc split: option.splits)

section \<open>The walk visits every selected module\<close>

lemma name_matches_from_fst: "fst (name_matches_from fnmatch i ps path hits) \<longleftrightarrow> list_ex (\<lambda>p. dump_name_matches fnmatch p path) ps"
  by (induction ps arbitrary: i hits) (auto simp: case_prod_beta Let_def)

text \<open>Which mappings are selected; the hit tracker plays no role.\<close>

definition selects :: "(string \<Rightarrow> string \<Rightarrow> bool) \<Rightarrow> dump_sel \<Rightarrow> map_line \<Rightarrow> bool" where
  "selects fnmatch sel l \<longleftrightarrow> ml_path l \<noteq> '''' \<and>
     (list_ex (\<lambda>b. ml_start l \<le> b \<and> b < ml_end l) (bases sel) \<or> list_ex (\<lambda>p. dump_name_matches fnmatch p (ml_path l)) (pats sel))"

lemma matches_seg_fst:
  "fst (dump_sel_matches_seg fnmatch sel (ml_path l) (ml_start l) (ml_end l)) \<and> ml_path l \<noteq> '''' \<longleftrightarrow> selects fnmatch sel l"
  using name_matches_from_fst [of fnmatch 0 "pats sel" "ml_path l" "hit sel"]
  by (auto simp: dump_sel_matches_seg_def dump_name_matches_any_track_def selects_def case_prod_beta Let_def)

lemma matches_seg_snd:
  "pats (snd (dump_sel_matches_seg fnmatch sel path s e)) = pats sel \<and>
   bases (snd (dump_sel_matches_seg fnmatch sel path s e)) = bases sel"
  by (simp add: dump_sel_matches_seg_def case_prod_beta Let_def)

lemma selects_cong: "pats sel = pats sel' \<Longrightarrow> bases sel = bases sel' \<Longrightarrow> selects fnmatch sel l = selects fnmatch sel' l"
  by (simp add: selects_def)

abbreviation visited :: "walk \<Rightarrow> u64 list" where "visited w \<equiv> map fst (calls w)"

definition covered :: "walk \<Rightarrow> u64 \<Rightarrow> bool" where
  "covered w b \<longleftrightarrow> list_ex (\<lambda>(s, e). s \<le> b \<and> b < e) (cov w)"

text \<open>The invariant after the mappings \<open>is\<close>.\<close>

definition walk_inv ::
  "(string \<Rightarrow> string \<Rightarrow> bool) \<Rightarrow> (u64 \<Rightarrow> string \<Rightarrow> u64 \<Rightarrow> int \<times> u64) \<Rightarrow> map_line list \<Rightarrow> dump_sel \<Rightarrow> nat list \<Rightarrow> walk \<Rightarrow> bool" where
  "walk_inv fnmatch fn m sel is w \<longleftrightarrow>
     pats (w_sel w) = pats sel \<and> bases (w_sel w) = bases sel \<and>
     done_bases w = take 64 (visited w) \<and>
     set (visited w) \<subseteq> load_base_of m ` {i \<in> set is. selects fnmatch sel (m ! i)} \<and>
     (\<forall>i \<in> set is. selects fnmatch sel (m ! i) \<longrightarrow> load_base_of m i \<in> set (visited w) \<or> covered w (load_base_of m i)) \<and>
     (\<forall>(s, e) \<in> set (cov w). \<exists>path foff. (s, path, foff) \<in> set (calls w) \<and> fn s path foff = (0, e)) \<and>
     w_ok w = length (filter (\<lambda>(b, path, foff). fst (fn b path foff) = 0) (calls w))"

lemma walk_call_inv:
  assumes inv: "walk_inv fnmatch fn m sel is w" and s: "selects fnmatch sel (m ! i)"
  shows "walk_inv fnmatch fn m sel (is @ [i]) (walk_call fn (load_base_of m i) path foff w)"
proof -
  obtain rc e where fn: "fn (load_base_of m i) path foff = (rc, e)" by fastforce
  have d: "done_bases w = take 64 (visited w)" using inv by (simp add: walk_inv_def)
  then have "done_bases (walk_call fn (load_base_of m i) path foff w) = take 64 (visited w @ [load_base_of m i])"
    by (cases "length (visited w) < 64") (auto simp: walk_call_def Let_def fn)
  moreover have f: "calls (walk_call fn (load_base_of m i) path foff w) = calls w @ [(load_base_of m i, path, foff)]"
    "w_sel (walk_call fn (load_base_of m i) path foff w) = w_sel w"
    "w_ok (walk_call fn (load_base_of m i) path foff w) = w_ok w + (if rc = 0 then 1 else 0)"
    "cov (walk_call fn (load_base_of m i) path foff w) =
       (if rc = 0 \<and> e > load_base_of m i \<and> length (cov w) < 64 then cov w @ [(load_base_of m i, e)] else cov w)"
    by (auto simp: walk_call_def Let_def fn)
  moreover have "\<exists>path' foff'. (s, path', foff') \<in> set (calls (walk_call fn (load_base_of m i) path foff w)) \<and> fn s path' foff' = (0, t)"
    if "(s, t) \<in> set (cov (walk_call fn (load_base_of m i) path foff w))" for s t
  proof (cases "(s, t) \<in> set (cov w)")
    case True
    then obtain p o' where "(s, p, o') \<in> set (calls w)" "fn s p o' = (0, t)" using inv by (auto simp: walk_inv_def)
    then show ?thesis using f(1) by auto
  next
    case False
    then have "s = load_base_of m i" "t = e" "rc = 0" using that f(4) by (auto split: if_splits)
    then show ?thesis using f(1) fn by auto
  qed
  ultimately show ?thesis
    using inv s fn unfolding walk_inv_def covered_def by auto
qed

lemma walk_line_cases:
  assumes inv: "walk_inv fnmatch fn m sel is w"
  obtains sel' where "pats sel' = pats sel" "bases sel' = bases sel"
    "walk_line fnmatch fn m w i =
      (if selects fnmatch sel (m ! i) \<and> \<not> walk_skips w (load_base_of m i)
       then walk_call fn (load_base_of m i) (ml_path (m ! i)) (load_off_of m i) (w\<lparr>w_sel := sel'\<rparr>)
       else w\<lparr>w_sel := sel'\<rparr>)"
proof (cases "ml_path (m ! i) = ''''")
  case True
  then show thesis
    using inv that [of "w_sel w"] by (simp add: walk_line_def selects_def walk_inv_def)
next
  case False
  let ?r = "dump_sel_matches_seg fnmatch (w_sel w) (ml_path (m ! i)) (ml_start (m ! i)) (ml_end (m ! i))"
  have ws: "pats (w_sel w) = pats sel" "bases (w_sel w) = bases sel" using inv by (auto simp: walk_inv_def)
  have "fst ?r \<longleftrightarrow> selects fnmatch sel (m ! i)"
    using matches_seg_fst [of fnmatch "w_sel w" "m ! i"] False selects_cong [OF ws] by simp
  moreover have "walk_skips (w\<lparr>w_sel := x\<rparr>) b = walk_skips w b" for x b by (simp add: walk_skips_def)
  ultimately show thesis
    using that [of "snd ?r"] False matches_seg_snd [of fnmatch "w_sel w"] ws
    by (auto simp: walk_line_def case_prod_beta Let_def)
qed

lemma walk_inv_sel: "walk_inv fnmatch fn m sel is w \<Longrightarrow> pats sel' = pats sel \<Longrightarrow> bases sel' = bases sel \<Longrightarrow>
    walk_inv fnmatch fn m sel is (w\<lparr>w_sel := sel'\<rparr>)"
  by (simp add: walk_inv_def covered_def)

lemma walk_line_inv:
  assumes inv: "walk_inv fnmatch fn m sel is w"
  shows "walk_inv fnmatch fn m sel (is @ [i]) (walk_line fnmatch fn m w i)"
proof -
  obtain sel' where sel': "pats sel' = pats sel" "bases sel' = bases sel"
    "walk_line fnmatch fn m w i =
      (if selects fnmatch sel (m ! i) \<and> \<not> walk_skips w (load_base_of m i)
       then walk_call fn (load_base_of m i) (ml_path (m ! i)) (load_off_of m i) (w\<lparr>w_sel := sel'\<rparr>)
       else w\<lparr>w_sel := sel'\<rparr>)"
    by (rule walk_line_cases [OF inv])
  note inv' = walk_inv_sel [OF inv sel'(1,2)]
  show ?thesis
  proof (cases "selects fnmatch sel (m ! i) \<and> \<not> walk_skips w (load_base_of m i)")
    case True
    then show ?thesis using walk_call_inv [OF inv'] sel'(3) by simp
  next
    case False
    have "load_base_of m i \<in> set (visited w) \<or> covered w (load_base_of m i)" if "walk_skips w (load_base_of m i)"
      using that inv by (auto simp: walk_skips_def walk_inv_def covered_def dest: in_set_takeD)
    then show ?thesis using False inv' sel'(3) unfolding walk_inv_def covered_def by auto
  qed
qed

lemma walk_line_distinct:
  assumes inv: "walk_inv fnmatch fn m sel is w" and d: "distinct (visited w)" "length (visited w) \<le> 64"
  shows "distinct (visited (walk_line fnmatch fn m w i))"
proof -
  obtain sel' where l: "walk_line fnmatch fn m w i =
      (if selects fnmatch sel (m ! i) \<and> \<not> walk_skips w (load_base_of m i)
       then walk_call fn (load_base_of m i) (ml_path (m ! i)) (load_off_of m i) (w\<lparr>w_sel := sel'\<rparr>)
       else w\<lparr>w_sel := sel'\<rparr>)"
    by (rule walk_line_cases [OF inv])
  have "done_bases w = visited w" using inv d(2) by (simp add: walk_inv_def)
  then show ?thesis
    using l d(1) by (cases "fn (load_base_of m i) (ml_path (m ! i)) (load_off_of m i)")
      (auto simp: walk_call_def Let_def walk_skips_def)
qed

lemma walk_lines:
  assumes "card (load_base_of m ` {i. i < length m \<and> selects fnmatch sel (m ! i)}) \<le> 64" "n \<le> length m"
  defines "w0 \<equiv> \<lparr>w_sel = sel, done_bases = [], cov = [], w_ok = 0, calls = []\<rparr>"
  shows "walk_inv fnmatch fn m sel [0..<n] (foldl (walk_line fnmatch fn m) w0 [0..<n]) \<and>
    distinct (visited (foldl (walk_line fnmatch fn m) w0 [0..<n]))"
  using assms(2)
proof (induction n)
  case 0
  then show ?case by (simp add: w0_def walk_inv_def)
next
  case (Suc n)
  let ?B = "load_base_of m ` {i. i < length m \<and> selects fnmatch sel (m ! i)}"
  let ?w = "foldl (walk_line fnmatch fn m) w0 [0..<n]"
  have ih: "walk_inv fnmatch fn m sel [0..<n] ?w" "distinct (visited ?w)" using Suc by auto
  have "load_base_of m ` {i \<in> set [0..<n]. selects fnmatch sel (m ! i)} \<subseteq> ?B" using Suc.prems by auto
  then have "set (visited ?w) \<subseteq> ?B" using ih(1) unfolding walk_inv_def by (meson subset_trans)
  then have "card (set (visited ?w)) \<le> 64" using assms(1) card_mono [of ?B "set (visited ?w)"] by auto
  then have "length (visited ?w) \<le> 64" using distinct_card [OF ih(2)] by simp
  then show ?case
    using walk_line_inv [OF ih(1), of n] walk_line_distinct [OF ih, of n] by simp
qed

text \<open>C18: the walk over a process's modules. When the selected mappings have at most 64 load bases, the
  callback is called once per base at most; every selected mapping's base is called or lies in a range
  that a successful call reported; only selected modules are called; and the result counts the calls that
  succeeded. Without the maps or the memory file nothing is called.\<close>

theorem dump_walk_once:
  assumes "card (load_base_of m ` {i. i < length m \<and> selects fnmatch sel (m ! i)}) \<le> 64"
  shows "dump_walk_pid_modules fnmatch fn None ok sel = Rc_err \<and>
    dump_walk_pid_modules fnmatch fn (Some m) False sel = Rc_err \<and>
    (\<exists>w. dump_walk_pid_modules fnmatch fn (Some m) True sel = Rc_ok w \<and> distinct (visited w) \<and>
       (\<forall>i<length m. selects fnmatch sel (m ! i) \<longrightarrow> load_base_of m i \<in> set (visited w) \<or>
          (\<exists>s path foff e. (s, path, foff) \<in> set (calls w) \<and> fn s path foff = (0, e) \<and> s \<le> load_base_of m i \<and> load_base_of m i < e)) \<and>
       set (visited w) \<subseteq> load_base_of m ` {i. i < length m \<and> selects fnmatch sel (m ! i)} \<and>
       w_ok w = length (filter (\<lambda>(b, path, foff). fst (fn b path foff) = 0) (calls w)))"
proof -
  let ?w = "foldl (walk_line fnmatch fn m) \<lparr>w_sel = sel, done_bases = [], cov = [], w_ok = 0, calls = []\<rparr> [0..<length m]"
  have inv: "walk_inv fnmatch fn m sel [0..<length m] ?w" and d: "distinct (visited ?w)"
    using walk_lines [OF assms order_refl] by auto
  have c: "\<exists>s path foff e. (s, path, foff) \<in> set (calls ?w) \<and> fn s path foff = (0, e) \<and> s \<le> b \<and> b < e" if cb: "covered ?w b" for b
  proof -
    obtain s e where "(s, e) \<in> set (cov ?w)" "s \<le> b" "b < e" using cb by (auto simp: covered_def list_ex_iff)
    then show ?thesis using inv unfolding walk_inv_def by fastforce
  qed
  have "dump_walk_pid_modules fnmatch fn (Some m) True sel = Rc_ok ?w" by (simp add: dump_walk_pid_modules_def)
  moreover have "\<forall>i<length m. selects fnmatch sel (m ! i) \<longrightarrow> load_base_of m i \<in> set (visited ?w) \<or>
      (\<exists>s path foff e. (s, path, foff) \<in> set (calls ?w) \<and> fn s path foff = (0, e) \<and> s \<le> load_base_of m i \<and> load_base_of m i < e)"
  proof (intro allI impI)
    fix i assume "i < length m" "selects fnmatch sel (m ! i)"
    moreover have "\<forall>i \<in> set [0..<length m]. selects fnmatch sel (m ! i) \<longrightarrow> load_base_of m i \<in> set (visited ?w) \<or> covered ?w (load_base_of m i)"
      using inv unfolding walk_inv_def by blast
    ultimately have "load_base_of m i \<in> set (visited ?w) \<or> covered ?w (load_base_of m i)" by simp
    then show "load_base_of m i \<in> set (visited ?w) \<or>
        (\<exists>s path foff e. (s, path, foff) \<in> set (calls ?w) \<and> fn s path foff = (0, e) \<and> s \<le> load_base_of m i \<and> load_base_of m i < e)"
      using c by blast
  qed
  moreover have "set (visited ?w) \<subseteq> load_base_of m ` {i. i < length m \<and> selects fnmatch sel (m ! i)}"
    using inv unfolding walk_inv_def by (simp add: atLeast0LessThan)
  moreover have "w_ok ?w = length (filter (\<lambda>(b, path, foff). fst (fn b path foff) = 0) (calls ?w))"
    using inv unfolding walk_inv_def by blast
  ultimately have "\<exists>w. dump_walk_pid_modules fnmatch fn (Some m) True sel = Rc_ok w \<and> distinct (visited w) \<and>
       (\<forall>i<length m. selects fnmatch sel (m ! i) \<longrightarrow> load_base_of m i \<in> set (visited w) \<or>
          (\<exists>s path foff e. (s, path, foff) \<in> set (calls w) \<and> fn s path foff = (0, e) \<and> s \<le> load_base_of m i \<and> load_base_of m i < e)) \<and>
       set (visited w) \<subseteq> load_base_of m ` {i. i < length m \<and> selects fnmatch sel (m ! i)} \<and>
       w_ok w = length (filter (\<lambda>(b, path, foff). fst (fn b path foff) = 0) (calls w))"
    using d by blast
  then show ?thesis by (simp add: dump_walk_pid_modules_def)
qed

text \<open>A library with two segments around a guard page, and another one.\<close>

definition sample_maps :: "map_line list" where
  "sample_maps =
    [\<lparr>ml_start = 0x1000, ml_end = 0x2000, ml_off = 0, ml_exec = False, ml_path = ''/l/a.so''\<rparr>,
     \<lparr>ml_start = 0x2000, ml_end = 0x3000, ml_off = 0, ml_exec = False, ml_path = ''[page size compat]''\<rparr>,
     \<lparr>ml_start = 0x3000, ml_end = 0x4000, ml_off = 0x1000, ml_exec = True, ml_path = ''/l/a.so''\<rparr>,
     \<lparr>ml_start = 0x5000, ml_end = 0x6000, ml_off = 0, ml_exec = True, ml_path = ''/l/b.so''\<rparr>]"

definition sample_sel :: dump_sel where "sample_sel = \<lparr>pats = [''.so''], hit = None, bases = []\<rparr>"

lemma dump_walk_once_witness:
  "\<exists>w. dump_walk_pid_modules (\<lambda>_ _. False) (\<lambda>b _ _. (0, 0)) (Some sample_maps) True sample_sel = Rc_ok w \<and>
     distinct (visited w) \<and> w_ok w = length (calls w)"
proof -
  let ?B = "load_base_of sample_maps ` {i. i < length sample_maps \<and> selects (\<lambda>_ _. False) sample_sel (sample_maps ! i)}"
  have "?B \<subseteq> load_base_of sample_maps ` {..<4}" by (auto simp: sample_maps_def)
  then have "card ?B \<le> card (load_base_of sample_maps ` {..<4})" by (intro card_mono) auto
  also have "\<dots> \<le> card {..<4 :: nat}" by (rule card_image_le) simp
  finally have "card ?B \<le> 64" by simp
  from dump_walk_once [OF this, of "\<lambda>b _ _. (0, 0)" True] show ?thesis by auto
qed

section \<open>More than 64 modules\<close>

text \<open>Once the table of handled bases is full, a module that is not in it and reports no range is handled
  again for each of its segments.\<close>

lemma walk_line_full:
  assumes "length (done_bases w) = 64" "\<not> walk_skips w (load_base_of m i)" "selects fnmatch (w_sel w) (m ! i)"
    and "fn (load_base_of m i) (ml_path (m ! i)) (load_off_of m i) = (0, 0)"
  shows "calls (walk_line fnmatch fn m w i) = calls w @ [(load_base_of m i, ml_path (m ! i), load_off_of m i)] \<and>
    done_bases (walk_line fnmatch fn m w i) = done_bases w \<and> cov (walk_line fnmatch fn m w i) = cov w \<and>
    pats (w_sel (walk_line fnmatch fn m w i)) = pats (w_sel w) \<and> bases (w_sel (walk_line fnmatch fn m w i)) = bases (w_sel w)"
  using assms matches_seg_fst [of fnmatch "w_sel w" "m ! i"] matches_seg_snd [of fnmatch "w_sel w"]
  by (auto simp: walk_line_def walk_call_def walk_skips_def Let_def case_prod_beta)

text \<open>The table of handled modules holds 64 bases, and nothing marks the modules beyond them. From the
  65th on, a callback that reports no range - the integrity check never does - is called for every segment
  of the module instead of once.\<close>

theorem dump_walk_revisits:
  assumes "length (done_bases w) = 64" "load_base_of m j = load_base_of m i"
    and "\<not> walk_skips w (load_base_of m i)"
    and "selects fnmatch (w_sel w) (m ! i)" "selects fnmatch (w_sel w) (m ! j)"
    and "\<And>b path foff. fn b path foff = (0, 0)"
  shows "visited (foldl (walk_line fnmatch fn m) w [i, j]) = visited w @ [load_base_of m i, load_base_of m i]"
proof -
  note f = walk_line_full [OF assms(1,3,4) assms(6)]
  let ?w = "walk_line fnmatch fn m w i"
  have "\<not> walk_skips ?w (load_base_of m j)" "selects fnmatch (w_sel ?w) (m ! j)" "length (done_bases ?w) = 64"
    using f assms(1-3,5) selects_cong [of "w_sel ?w" "w_sel w" fnmatch "m ! j"] by (simp_all add: walk_skips_def)
  from walk_line_full [OF this(3,1,2) assms(6)] show ?thesis using f assms(2) by simp
qed

definition full_walk :: walk where
  "full_walk = \<lparr>w_sel = sample_sel, done_bases = replicate 64 0, cov = [], w_ok = 64, calls = []\<rparr>"

lemma dump_walk_revisits_witness:
  "visited (foldl (walk_line (\<lambda>_ _. False) (\<lambda>_ _ _. (0, 0)) sample_maps) full_walk [0, 2]) = [0x1000, 0x1000]"
proof -
  have b: "load_base_of sample_maps 0 = 0x1000" "load_base_of sample_maps 2 = 0x1000"
    by (simp_all add: load_base_of_def anubee_module_base_idx.simps sample_maps_def anubee_is_filler_map_def Let_def)
  have "selects (\<lambda>_ _. False) (w_sel full_walk) (sample_maps ! 0)" "selects (\<lambda>_ _. False) (w_sel full_walk) (sample_maps ! 2)"
    by (simp_all add: selects_def full_walk_def sample_sel_def sample_maps_def dump_name_matches_def pm_match_def pm_is_glob_def)
  then show ?thesis
    using dump_walk_revisits [of full_walk sample_maps 2 0 "\<lambda>_ _. False" "\<lambda>_ _ _. (0, 0)"] b
    by (simp add: full_walk_def walk_skips_def)
qed

end
