(* ===== verification/Rebuild_Dyn.thy ===== *)
theory Rebuild_Dyn
  imports Anubee_Prelude
begin

unbundle bit_operations_syntax

text \<open>
  \<open>src/src/dump/rebuild.c\<close>, first half: from the captured memory image of a library back to file
  values. \<open>parse_dynamic\<close> de-rebases the \<open>.dynamic\<close> array and extracts \<open>struct soinfo\<close>;
  \<open>unapply_relocs\<close> undoes the linker's relative relocations (\<open>DT_RELA\<close> and the packed
  \<open>DT_RELR\<close>).

  \<^item> the image is a byte list and \<open>image_sz\<close> its length; every other quantity is a \<open>uint64_t\<close> taken
    from the image, so additions wrap. A dereference outside the image is \<open>None\<close>.
  \<^item> a turn of a table loop that does not fault moves on by at least eight bytes inside the image, so
    \<open>Suc (length img)\<close> turns are enough; a \<open>DT_RELR\<close> bitmap has 63 bits.
\<close>

record soinfo =
  symtab :: u64
  strtab :: u64
  strsz :: u64
  hash :: u64
  nbucket :: u32
  nchain :: u32
  gnu_hash :: u64
  rela :: u64
  relasz :: u64
  relaent :: u64
  jmprel :: u64
  pltrelsz :: u64
  plt_is_rela :: bool
  relr :: u64
  relrsz :: u64
  init_array :: u64
  init_arraysz :: u64
  fini_array :: u64
  fini_arraysz :: u64
  dynamic_off :: u64
  dynamic_count :: u32

definition soinfo_zero :: soinfo where
  "soinfo_zero = \<lparr>symtab = 0, strtab = 0, strsz = 0, hash = 0, nbucket = 0, nchain = 0, gnu_hash = 0,
     rela = 0, relasz = 0, relaent = 0, jmprel = 0, pltrelsz = 0, plt_is_rela = False, relr = 0,
     relrsz = 0, init_array = 0, init_arraysz = 0, fini_array = 0, fini_arraysz = 0,
     dynamic_off = 0, dynamic_count = 0\<rparr>"

text \<open>Tag values are those of \<open><elf.h>\<close>; the fallback that \<open>rebuild.c\<close> defines for \<open>DT_GNU_HASH\<close> when the
  header lacks it, \<open>0x6ffffef6\<close>, is not its value.\<close>

abbreviation DT_NULL :: u64 where "DT_NULL \<equiv> 0"
abbreviation DT_PLTRELSZ :: u64 where "DT_PLTRELSZ \<equiv> 2"
abbreviation DT_PLTGOT :: u64 where "DT_PLTGOT \<equiv> 3"
abbreviation DT_HASH :: u64 where "DT_HASH \<equiv> 4"
abbreviation DT_STRTAB :: u64 where "DT_STRTAB \<equiv> 5"
abbreviation DT_SYMTAB :: u64 where "DT_SYMTAB \<equiv> 6"
abbreviation DT_RELA :: u64 where "DT_RELA \<equiv> 7"
abbreviation DT_RELASZ :: u64 where "DT_RELASZ \<equiv> 8"
abbreviation DT_RELAENT :: u64 where "DT_RELAENT \<equiv> 9"
abbreviation DT_STRSZ :: u64 where "DT_STRSZ \<equiv> 10"
abbreviation DT_INIT :: u64 where "DT_INIT \<equiv> 12"
abbreviation DT_FINI :: u64 where "DT_FINI \<equiv> 13"
abbreviation DT_REL :: u64 where "DT_REL \<equiv> 17"
abbreviation DT_PLTREL :: u64 where "DT_PLTREL \<equiv> 20"
abbreviation DT_DEBUG :: u64 where "DT_DEBUG \<equiv> 21"
abbreviation DT_JMPREL :: u64 where "DT_JMPREL \<equiv> 23"
abbreviation DT_INIT_ARRAY :: u64 where "DT_INIT_ARRAY \<equiv> 25"
abbreviation DT_FINI_ARRAY :: u64 where "DT_FINI_ARRAY \<equiv> 26"
abbreviation DT_INIT_ARRAYSZ :: u64 where "DT_INIT_ARRAYSZ \<equiv> 27"
abbreviation DT_FINI_ARRAYSZ :: u64 where "DT_FINI_ARRAYSZ \<equiv> 28"
abbreviation DT_PREINIT_ARRAY :: u64 where "DT_PREINIT_ARRAY \<equiv> 32"
abbreviation DT_RELRSZ :: u64 where "DT_RELRSZ \<equiv> 0x23"
abbreviation DT_RELR :: u64 where "DT_RELR \<equiv> 0x24"
abbreviation DT_GNU_HASH :: u64 where "DT_GNU_HASH \<equiv> 0x6ffffef5"
abbreviation DT_VERSYM :: u64 where "DT_VERSYM \<equiv> 0x6ffffff0"
abbreviation DT_VERDEF :: u64 where "DT_VERDEF \<equiv> 0x6ffffffc"
abbreviation DT_VERNEED :: u64 where "DT_VERNEED \<equiv> 0x6ffffffe"

definition dyn_tag_is_ptr :: "u64 \<Rightarrow> bool" where
  "dyn_tag_is_ptr tag \<longleftrightarrow> tag \<in> set [DT_PLTGOT, DT_HASH, DT_STRTAB, DT_SYMTAB, DT_RELA, DT_INIT, DT_FINI,
     DT_REL, DT_JMPREL, DT_INIT_ARRAY, DT_FINI_ARRAY, DT_PREINIT_ARRAY, DT_GNU_HASH, DT_VERSYM,
     DT_VERDEF, DT_VERNEED, DT_RELR]"

text \<open>De-rebasing one entry: an absolute runtime pointer becomes a file-relative offset.\<close>

definition dyn_derebase :: "u64 \<Rightarrow> nat \<Rightarrow> u64 \<Rightarrow> u64 \<Rightarrow> u64" where
  "dyn_derebase base image_sz tag v =
     (if dyn_tag_is_ptr tag \<and> v \<ge> base \<and> v < base + of_nat image_sz then v - base else v)"

definition dyn_record :: "u64 \<Rightarrow> u64 \<Rightarrow> soinfo \<Rightarrow> soinfo" where
  "dyn_record tag v si =
     (if tag = DT_SYMTAB then si\<lparr>symtab := v\<rparr>
      else if tag = DT_STRTAB then si\<lparr>strtab := v\<rparr>
      else if tag = DT_STRSZ then si\<lparr>strsz := v\<rparr>
      else if tag = DT_HASH then si\<lparr>hash := v\<rparr>
      else if tag = DT_GNU_HASH then si\<lparr>gnu_hash := v\<rparr>
      else if tag = DT_RELA then si\<lparr>rela := v\<rparr>
      else if tag = DT_RELASZ then si\<lparr>relasz := v\<rparr>
      else if tag = DT_RELAENT then si\<lparr>relaent := v\<rparr>
      else if tag = DT_JMPREL then si\<lparr>jmprel := v\<rparr>
      else if tag = DT_PLTRELSZ then si\<lparr>pltrelsz := v\<rparr>
      else if tag = DT_PLTREL then si\<lparr>plt_is_rela := (v = DT_RELA)\<rparr>
      else if tag = DT_RELR then si\<lparr>relr := v\<rparr>
      else if tag = DT_RELRSZ then si\<lparr>relrsz := v\<rparr>
      else if tag = DT_INIT_ARRAY then si\<lparr>init_array := v\<rparr>
      else if tag = DT_INIT_ARRAYSZ then si\<lparr>init_arraysz := v\<rparr>
      else if tag = DT_FINI_ARRAY then si\<lparr>fini_array := v\<rparr>
      else if tag = DT_FINI_ARRAYSZ then si\<lparr>fini_arraysz := v\<rparr>
      else si)"

text \<open>The entry loop; the list holds the positions of the entries that lie inside the segment.\<close>

fun dyn_walk :: "u64 \<Rightarrow> nat list \<Rightarrow> bytes \<Rightarrow> soinfo \<Rightarrow> nat \<Rightarrow> (bytes \<times> soinfo \<times> nat) option" where
  "dyn_walk base [] img si cnt = Some (img, si, cnt)"
| "dyn_walk base (d # ds) img si cnt = do {
     tag \<leftarrow> load_le 8 img d;
     (if tag = DT_NULL then Some (img, si, Suc cnt)
      else if tag = DT_DEBUG then do {
        img \<leftarrow> store_le 8 img (d + 8) (0 :: u64);
        dyn_walk base ds img si (Suc cnt)
      }
      else do {
        v \<leftarrow> load_le 8 img (d + 8);
        let v' = dyn_derebase base (length img) tag v;
        img \<leftarrow> (if v' \<noteq> v then store_le 8 img (d + 8) v' else Some img);
        dyn_walk base ds img (dyn_record tag v' si) (Suc cnt)
      })
   }"

definition parse_dynamic :: "bytes \<Rightarrow> u64 \<Rightarrow> u64 \<Rightarrow> u64 \<Rightarrow> (bytes \<times> soinfo) option" where
  "parse_dynamic img base dyn_off dyn_size = do {
     let si = soinfo_zero\<lparr>dynamic_off := dyn_off\<rparr>;
     (if unat dyn_off \<ge> length img then Some (img, si)
      else do {
        let av = length img - unat dyn_off;
        let av = (if dyn_size \<noteq> 0 \<and> unat dyn_size < av then unat dyn_size else av);
        (img, si, cnt) \<leftarrow> dyn_walk base (map (\<lambda>k. unat dyn_off + 16 * k) [0..<av div 16]) img si 0;
        let si = si\<lparr>dynamic_count := of_nat cnt\<rparr>;
        (if hash si \<noteq> 0 \<and> hash si + 8 \<le> of_nat (length img) then do {
           nb \<leftarrow> load_le 4 img (unat (hash si));
           nc \<leftarrow> load_le 4 img (unat (hash si) + 4);
           Some (img, si\<lparr>nbucket := nb, nchain := nc\<rparr>)
         }
         else Some (img, si))
      })
   }"

section \<open>Relative relocations\<close>

abbreviation R_AARCH64_RELATIVE :: u64 where "R_AARCH64_RELATIVE \<equiv> 1027"

text \<open>\<open>r\<close> is dereferenced as an \<open>Elf64_Rela\<close>: its 24 bytes must lie inside the image.\<close>

fun rela_loop :: "nat \<Rightarrow> bytes \<Rightarrow> u64 \<Rightarrow> u64 \<Rightarrow> bytes option" where
  "rela_loop 0 img tend o1 = None"
| "rela_loop (Suc fuel) img tend o1 =
     (if \<not> o1 + 24 \<le> tend then Some img
      else do {
        r \<leftarrow> load_bytes img (unat o1) 24;
        let r_offset = (le_word (take 8 r) :: u64);
        let r_info = (le_word (take 8 (drop 8 r)) :: u64);
        let r_addend = (le_word (take 8 (drop 16 r)) :: u64);
        img \<leftarrow> (if r_info AND 0xffffffff \<noteq> R_AARCH64_RELATIVE then Some img
               else if r_offset + 8 \<le> of_nat (length img) then store_le 8 img (unat r_offset) r_addend
               else Some img);
        rela_loop fuel img tend (o1 + 24)
      })"

text \<open>\<open>*(uint64_t *)(img + w) -= base\<close>, where the guard admits it.\<close>

definition sub_slot :: "u64 \<Rightarrow> bytes \<Rightarrow> u64 \<Rightarrow> bytes option" where
  "sub_slot base img w =
     (if w + 8 \<le> of_nat (length img) then do {
        v \<leftarrow> load_le 8 img (unat w);
        store_le 8 img (unat w) (v - base)
      }
      else Some img)"

fun relr_bits :: "nat \<Rightarrow> u64 \<Rightarrow> bytes \<Rightarrow> u64 \<Rightarrow> u64 \<Rightarrow> bytes option" where
  "relr_bits 0 base img bits w = None"
| "relr_bits (Suc fuel) base img bits w =
     (if bits = 0 then Some img
      else do {
        img \<leftarrow> (if bits AND 1 \<noteq> 0 then sub_slot base img w else Some img);
        relr_bits fuel base img (drop_bit 1 bits) (w + 8)
      })"

fun relr_loop :: "nat \<Rightarrow> u64 \<Rightarrow> bytes \<Rightarrow> u64 \<Rightarrow> u64 \<Rightarrow> u64 \<Rightarrow> bytes option" where
  "relr_loop 0 base img tend o1 whr = None"
| "relr_loop (Suc fuel) base img tend o1 whr =
     (if \<not> o1 + 8 \<le> tend then Some img
      else do {
        entry \<leftarrow> load_le 8 img (unat o1);
        (if entry AND 1 = 0 then do {
           img \<leftarrow> sub_slot base img entry;
           relr_loop fuel base img tend (o1 + 8) (entry + 8)
         }
         else do {
           img \<leftarrow> relr_bits 64 base img (drop_bit 1 entry) whr;
           relr_loop fuel base img tend (o1 + 8) (whr + 63 * 8)
         })
      })"

definition table_end :: "bytes \<Rightarrow> u64 \<Rightarrow> u64 \<Rightarrow> u64" where
  "table_end img off n = (if off + n > of_nat (length img) then of_nat (length img) else off + n)"

definition unapply_relocs :: "bytes \<Rightarrow> u64 \<Rightarrow> soinfo \<Rightarrow> bytes option" where
  "unapply_relocs img base si = do {
     img \<leftarrow> (if rela si \<noteq> 0 \<and> relasz si \<noteq> 0
            then rela_loop (Suc (length img)) img (table_end img (rela si) (relasz si)) (rela si)
            else Some img);
     (if relr si \<noteq> 0 \<and> relrsz si \<noteq> 0
      then relr_loop (Suc (length img)) base img (table_end img (relr si) (relrsz si)) (relr si) 0
      else Some img)
   }"

declare rela_loop.simps [simp del] relr_bits.simps [simp del] relr_loop.simps [simp del]

section \<open>Slots of an image\<close>

text \<open>Memory seen as separately addressable 64-bit slots: what undoing relocations relies on.\<close>

locale slot_store =
  fixes get :: "'m \<Rightarrow> nat \<Rightarrow> u64"
    and put :: "'m \<Rightarrow> nat \<Rightarrow> u64 \<Rightarrow> 'm"
    and ok :: "'m \<Rightarrow> nat \<Rightarrow> bool"
    and apart :: "nat \<Rightarrow> nat \<Rightarrow> bool"
  assumes get_put: "ok m a \<Longrightarrow> get (put m a v) a = v"
    and get_put_apart: "ok m a \<Longrightarrow> ok m b \<Longrightarrow> apart a b \<Longrightarrow> get (put m a v) b = get m b"
    and put_get: "ok m a \<Longrightarrow> put m a (get m a) = m"
    and put_put: "ok m a \<Longrightarrow> put (put m a v) a w = put m a w"
    and put_comm: "ok m a \<Longrightarrow> ok m b \<Longrightarrow> apart a b \<Longrightarrow> put (put m a v) b w = put (put m b w) a v"
    and ok_put: "ok m a \<Longrightarrow> ok (put m a v) b \<longleftrightarrow> ok m b"
begin

text \<open>An in-place update of a slot for every element of a list, left to right.\<close>

lemma ok_fold:
  "\<forall>x \<in> set xs. ok m (adr x) \<Longrightarrow> ok (foldl (\<lambda>m x. put m (adr x) (f x (get m (adr x)))) m xs) b \<longleftrightarrow> ok m b"
  by (induction xs arbitrary: m) (simp_all add: ok_put)

lemma fold_put_out:
  assumes "ok m a" "\<forall>x \<in> set xs. ok m (adr x) \<and> apart a (adr x)"
  shows "foldl (\<lambda>m x. put m (adr x) (f x (get m (adr x)))) (put m a v) xs =
    put (foldl (\<lambda>m x. put m (adr x) (f x (get m (adr x)))) m xs) a v"
  using assms
proof (induction xs arbitrary: m)
  case (Cons x xs)
  let ?b = "adr x"
  have "put (put m a v) ?b (f x (get (put m a v) ?b)) = put (put m ?b (f x (get m ?b))) a v"
    using put_comm [of m a ?b v "f x (get m ?b)"] Cons.prems by (simp add: get_put_apart)
  then show ?case
    using Cons.prems Cons.IH [of "put m ?b (f x (get m ?b))"] by (simp add: ok_put)
qed simp

lemma get_fold_apart:
  assumes "ok m a" "\<forall>x \<in> set xs. ok m (adr x) \<and> apart (adr x) a"
  shows "get (foldl (\<lambda>m x. put m (adr x) (f x (get m (adr x)))) m xs) a = get m a"
  using assms
proof (induction xs arbitrary: m)
  case (Cons x xs)
  then show ?case using Cons.IH [of "put m (adr x) (f x (get m (adr x)))"] by (simp add: ok_put get_put_apart)
qed simp

text \<open>Undoing, in the same order, updates of slots that do not overlap.\<close>

lemma fold_undo:
  assumes "sorted_wrt (\<lambda>x y. apart (adr x) (adr y) \<and> apart (adr y) (adr x)) xs"
    and "\<forall>x \<in> set xs. ok m (adr x)" "\<forall>x \<in> set xs. g x (f x (get m (adr x))) = get m (adr x)"
  shows "foldl (\<lambda>m x. put m (adr x) (g x (get m (adr x))))
      (foldl (\<lambda>m x. put m (adr x) (f x (get m (adr x)))) m xs) xs = m"
  using assms
proof (induction xs)
  case (Cons x xs)
  let ?a = "adr x"
  have ap: "\<forall>y \<in> set xs. apart ?a (adr y) \<and> apart (adr y) ?a"
    and pw: "sorted_wrt (\<lambda>x y. apart (adr x) (adr y) \<and> apart (adr y) (adr x)) xs"
    using Cons.prems(1) by auto
  have ok: "ok m ?a" "\<forall>y \<in> set xs. ok m (adr y)" using Cons.prems(2) by auto
  let ?F = "\<lambda>m xs. foldl (\<lambda>m x. put m (adr x) (f x (get m (adr x)))) m xs"
  let ?G = "\<lambda>m xs. foldl (\<lambda>m x. put m (adr x) (g x (get m (adr x)))) m xs"
  have "?F (put m ?a (f x (get m ?a))) xs = put (?F m xs) ?a (f x (get m ?a))"
    using fold_put_out [OF ok(1), of xs adr f] ok ap by simp
  then have "?G (?F m (x # xs)) (x # xs) = ?G (put (?F m xs) ?a (get m ?a)) xs"
    using Cons.prems(3) ok by (simp add: get_put put_put ok_fold)
  also have "put (?F m xs) ?a (get m ?a) = ?F (put m ?a (get m ?a)) xs"
    using fold_put_out [OF ok(1), of xs adr f] ok ap by simp
  also have "?G (?F (put m ?a (get m ?a)) xs) xs = m"
    using Cons.IH [OF pw] Cons.prems ok by (simp add: put_get)
  finally show ?case .
qed simp

end

definition get64 :: "bytes \<Rightarrow> nat \<Rightarrow> u64" where
  "get64 img a = le_word (take 8 (drop a img))"

definition put64 :: "bytes \<Rightarrow> nat \<Rightarrow> u64 \<Rightarrow> bytes" where
  "put64 img a v = take a img @ le_bytes 8 v @ drop (a + 8) img"

definition slot_ok :: "bytes \<Rightarrow> nat \<Rightarrow> bool" where
  "slot_ok img a \<longleftrightarrow> a + 8 \<le> length img"

definition slots_apart :: "nat \<Rightarrow> nat \<Rightarrow> bool" where
  "slots_apart a b \<longleftrightarrow> a + 8 \<le> b \<or> b + 8 \<le> a"

lemma length_put64: "slot_ok img a \<Longrightarrow> length (put64 img a v) = length img"
  by (simp add: put64_def slot_ok_def)

lemma nth_put64:
  "slot_ok img a \<Longrightarrow> i < length img \<Longrightarrow>
   put64 img a v ! i = (if a \<le> i \<and> i < a + 8 then le_bytes 8 v ! (i - a) else img ! i)"
  by (auto simp: put64_def slot_ok_def nth_append)

lemma put64_get64:
  assumes "slot_ok img a"
  shows "put64 img a (get64 img a) = img"
proof -
  have "length (take 8 (drop a img)) = 8" using assms by (simp add: slot_ok_def)
  then have "le_bytes 8 (get64 img a) = take 8 (drop a img)"
    using le_bytes_le_word [of "take 8 (drop a img)", where 'a = 64] by (simp add: get64_def)
  moreover have "drop (a + 8) img = drop 8 (drop a img)" by (simp add: add.commute)
  ultimately show ?thesis by (simp only: put64_def append_take_drop_id)
qed

lemma get64_put64: "slot_ok img a \<Longrightarrow> get64 (put64 img a v) a = v"
  by (simp add: get64_def put64_def slot_ok_def le_word_le_bytes take_bit_word_eq_self)

lemma get64_put64_apart:
  assumes "slot_ok img a" "slot_ok img b" "slots_apart a b"
  shows "get64 (put64 img a v) b = get64 img b"
proof -
  have "take 8 (drop b (put64 img a v)) = take 8 (drop b img)"
    using assms by (intro nth_equalityI) (auto simp: length_put64 nth_put64 slot_ok_def slots_apart_def)
  then show ?thesis by (simp add: get64_def)
qed

interpretation img: slot_store get64 put64 slot_ok slots_apart
proof unfold_locales
  show "put64 (put64 m a v) b w = put64 (put64 m b w) a v"
    if "slot_ok m a" "slot_ok m b" "slots_apart a b" for m a b v w
    using that by (intro nth_equalityI) (auto simp: length_put64 nth_put64 slot_ok_def slots_apart_def)
  show "slot_ok (put64 m a v) b = slot_ok m b" if "slot_ok m a" for m a v b
    using that by (simp add: slot_ok_def length_put64)
  show "put64 (put64 m a v) a w = put64 m a w" if "slot_ok m a" for m a v w
    using that by (intro nth_equalityI) (auto simp: length_put64 nth_put64 slot_ok_def)
qed (simp_all add: get64_put64 get64_put64_apart put64_get64)

section \<open>The table loops as folds over decoded relocations\<close>

text \<open>A relative relocation: an explicit addend at an offset, or a slot that carries its own value.\<close>

datatype reloc = Rela nat u64 | Relr nat

primrec slot_of :: "reloc \<Rightarrow> nat" where
  "slot_of (Rela a v) = a"
| "slot_of (Relr a) = a"

text \<open>What the linker stores into the slot, and what the file held there.\<close>

primrec linked_val :: "u64 \<Rightarrow> reloc \<Rightarrow> u64 \<Rightarrow> u64" where
  "linked_val base (Rela a addend) v = base + addend"
| "linked_val base (Relr a) v = v + base"

primrec file_val :: "u64 \<Rightarrow> reloc \<Rightarrow> u64 \<Rightarrow> u64" where
  "file_val base (Rela a addend) v = addend"
| "file_val base (Relr a) v = v - base"

definition patch :: "(reloc \<Rightarrow> u64 \<Rightarrow> u64) \<Rightarrow> bytes \<Rightarrow> reloc list \<Rightarrow> bytes" where
  "patch f img rs = foldl (\<lambda>m r. put64 m (slot_of r) (f r (get64 m (slot_of r)))) img rs"

fun rela_relocs :: "bytes \<Rightarrow> nat \<Rightarrow> nat \<Rightarrow> reloc list" where
  "rela_relocs img off 0 = []"
| "rela_relocs img off (Suc n) =
     (if get64 img (off + 8) AND 0xffffffff = R_AARCH64_RELATIVE
      then [Rela (unat (get64 img off)) (get64 img (off + 16))] else []) @ rela_relocs img (off + 24) n"

definition bitmap_slots :: "u64 \<Rightarrow> u64 \<Rightarrow> reloc list" where
  "bitmap_slots bits w = map (\<lambda>i. Relr (unat (w + 8 * of_nat i))) (filter (bit bits) [0..<63])"

fun relr_relocs :: "bytes \<Rightarrow> nat \<Rightarrow> nat \<Rightarrow> u64 \<Rightarrow> reloc list" where
  "relr_relocs img off 0 whr = []"
| "relr_relocs img off (Suc n) whr =
     (let e = get64 img off in
      if e AND 1 = 0 then Relr (unat e) # relr_relocs img (off + 8) n (e + 8)
      else bitmap_slots (drop_bit 1 e) whr @ relr_relocs img (off + 8) n (whr + 504))"

lemma patch_simps [simp]:
  "patch f img [] = img"
  "patch f img (r # rs) = patch f (put64 img (slot_of r) (f r (get64 img (slot_of r)))) rs"
  "patch f img (rs @ rs') = patch f (patch f img rs) rs'"
  by (simp_all add: patch_def)

lemma length_patch: "\<forall>r \<in> set rs. slot_ok img (slot_of r) \<Longrightarrow> length (patch f img rs) = length img"
  by (induction rs arbitrary: img) (auto simp: length_put64 slot_ok_def)

lemma get64_patch_apart:
  assumes "slot_ok img a" "\<forall>r \<in> set rs. slot_ok img (slot_of r) \<and> slots_apart (slot_of r) a"
  shows "get64 (patch f img rs) a = get64 img a"
  using img.get_fold_apart [OF assms(1), of rs slot_of f] assms(2) by (simp add: patch_def)

lemma slot_ok_patch:
  "\<forall>r \<in> set rs. slot_ok img (slot_of r) \<Longrightarrow> slot_ok (patch f img rs) a = slot_ok img a"
  by (simp add: slot_ok_def length_patch)

text \<open>Guards that hold for slots inside the image.\<close>

lemma word_slot:
  assumes "unat (w :: u64) + n \<le> len" "len < 2 ^ 64"
  shows "w + of_nat n \<le> of_nat len" "unat (w + of_nat n) = unat w + n"
proof -
  have "unat (of_nat n :: u64) = n" "unat (of_nat len :: u64) = len"
    using assms by (simp_all add: unat_of_nat take_bit_nat_eq_self)
  moreover from this show "unat (w + of_nat n) = unat w + n"
    using assms by (simp add: unat_word_ariths)
  ultimately show "w + of_nat n \<le> of_nat len" using assms(1) by (simp add: word_le_nat_alt)
qed

lemma store_put64: "slot_ok img a \<Longrightarrow> store_le 8 img a v = Some (put64 img a v)"
  by (simp add: store_le_def store_bytes_def put64_def slot_ok_def)

lemma load_get64: "slot_ok img a \<Longrightarrow> load_le 8 img a = Some (get64 img a)"
  by (simp add: get64_def slot_ok_def)

lemma sub_slot_eq:
  assumes "slot_ok img (unat w)" "length img < 2 ^ 63"
  shows "sub_slot base img w = Some (patch (file_val base) img [Relr (unat w)])"
  using assms word_slot(1) [of w 8 "length img"]
  by (simp add: sub_slot_def get64_def store_put64 slot_ok_def)

lemma relr_bits_eq:
  assumes "length img < 2 ^ 63" "unat bits < 2 ^ n" "n \<le> 63" "n < fuel"
    and "\<forall>i < n. bit bits i \<longrightarrow> slot_ok img (unat (w + 8 * of_nat i))"
  shows "relr_bits fuel base img bits w =
    Some (patch (file_val base) img (map (\<lambda>i. Relr (unat (w + 8 * of_nat i))) (filter (bit bits) [0..<n])))"
  using assms
proof (induction n arbitrary: fuel img bits w)
  case 0
  then have "bits = 0" by (simp add: unsigned_eq_0_iff)
  then show ?case using 0 by (cases fuel) (simp_all add: relr_bits.simps)
next
  case (Suc n)
  obtain f where fuel: "fuel = Suc f" "n < f" using Suc.prems(4) by (cases fuel) auto
  let ?b = "drop_bit 1 bits" and ?hd = "if bit bits 0 then [Relr (unat w)] else []"
  have odd: "(bits AND 1 \<noteq> 0) = bit bits 0" by (simp add: and_one_eq bit_0 odd_iff_mod_2_eq_one)
  have split: "map (\<lambda>i. Relr (unat (w + 8 * of_nat i))) (filter (bit bits) [0..<Suc n]) =
      ?hd @ map (\<lambda>i. Relr (unat (w + 8 + 8 * of_nat i))) (filter (bit ?b) [0..<n])"
    by (simp add: upt_conv_Cons map_Suc_upt [symmetric] filter_map comp_def bit_drop_bit_eq algebra_simps
        del: upt_Suc)
  have ok0: "bit bits 0 \<Longrightarrow> slot_ok img (unat w)" using Suc.prems(5) by (auto dest: spec [of _ 0])
  define img' where "img' = patch (file_val base) img ?hd"
  have len: "length img' = length img" unfolding img'_def using ok0 by (simp add: length_put64)
  have step: "(if bits AND 1 \<noteq> 0 then sub_slot base img w else Some img) = Some img'"
    using sub_slot_eq [OF ok0 Suc.prems(1)] by (simp add: odd img'_def)
  have "unat ?b < 2 ^ n" using Suc.prems(2) by (simp add: unat_drop_bit_eq drop_bit_nat_def)
  moreover have "\<forall>i < n. bit ?b i \<longrightarrow> slot_ok img' (unat (w + 8 + 8 * of_nat i))"
    using Suc.prems(5) len by (auto simp: bit_drop_bit_eq slot_ok_def algebra_simps dest: spec [of _ "Suc _"])
  ultimately have "relr_bits f base img' ?b (w + 8) =
      Some (patch (file_val base) img' (map (\<lambda>i. Relr (unat (w + 8 + 8 * of_nat i))) (filter (bit ?b) [0..<n])))"
    using Suc.prems(1,3) fuel(2) len by (intro Suc.IH) auto
  moreover have "relr_bits fuel base img bits w = relr_bits f base img' ?b (w + 8)"
  proof (cases "bits = 0")
    case True
    then show ?thesis using fuel by (cases f) (simp_all add: relr_bits.simps img'_def)
  next
    case False
    then show ?thesis using step by (simp add: fuel relr_bits.simps)
  qed
  ultimately show ?case unfolding split img'_def by simp
qed

text \<open>Relocations that lie inside the image and leave a table of 64-bit words alone.\<close>

definition leaves_table :: "nat \<Rightarrow> nat \<Rightarrow> reloc \<Rightarrow> bool" where
  "leaves_table off n r \<longleftrightarrow> (\<forall>k < n. slots_apart (slot_of r) (off + 8 * k))"

lemma get64_patch_table:
  assumes "\<forall>r \<in> set rs. slot_ok img (slot_of r) \<and> leaves_table off n r" "k < n" "off + 8 * n \<le> length img"
  shows "get64 (patch f img rs) (off + 8 * k) = get64 img (off + 8 * k)"
proof -
  have "8 * k + 8 \<le> 8 * n" using assms(2) by simp
  then have "slot_ok img (off + 8 * k)" using assms(3) unfolding slot_ok_def by linarith
  then show ?thesis using assms by (intro get64_patch_apart) (auto simp: leaves_table_def)
qed

lemma relr_relocs_cong:
  assumes "\<And>k. k < n \<Longrightarrow> get64 img (off + 8 * k) = get64 img' (off + 8 * k)"
  shows "relr_relocs img off n whr = relr_relocs img' off n whr"
  using assms
proof (induction n arbitrary: off whr)
  case (Suc n)
  have "get64 img off = get64 img' off" using Suc.prems [of 0] by simp
  moreover have "\<And>k. k < n \<Longrightarrow> get64 img (off + 8 + 8 * k) = get64 img' (off + 8 + 8 * k)"
    using Suc.prems [of "Suc _"] by (simp add: algebra_simps)
  ultimately show ?case using Suc.IH by (simp add: Let_def)
qed simp

lemma rela_relocs_cong:
  assumes "\<And>k. k < 3 * n \<Longrightarrow> get64 img (off + 8 * k) = get64 img' (off + 8 * k)"
  shows "rela_relocs img off n = rela_relocs img' off n"
  using assms
proof (induction n arbitrary: off)
  case (Suc n)
  have "get64 img off = get64 img' off" "get64 img (off + 8) = get64 img' (off + 8)"
    "get64 img (off + 16) = get64 img' (off + 16)"
    using Suc.prems [of 0] Suc.prems [of 1] Suc.prems [of 2] by simp_all
  moreover have "\<And>k. k < 3 * n \<Longrightarrow> get64 img (off + 24 + 8 * k) = get64 img' (off + 24 + 8 * k)"
    using Suc.prems [of "_ + 3"] by (simp add: algebra_simps)
  ultimately show ?case using Suc.IH by simp
qed simp

lemma relr_loop_eq:
  assumes "length img < 2 ^ 63" "unat tend = unat o1 + 8 * n" "unat tend \<le> length img" "n < fuel"
    and "\<forall>r \<in> set (relr_relocs img (unat o1) n whr). slot_ok img (slot_of r) \<and> leaves_table (unat o1) n r"
  shows "relr_loop fuel base img tend o1 whr =
    Some (patch (file_val base) img (relr_relocs img (unat o1) n whr))"
  using assms
proof (induction n arbitrary: fuel img o1 whr)
  case 0
  have "\<not> o1 + 8 \<le> tend"
    using 0(1-3) word_slot(2) [of o1 8 "length img + 8"] by (simp add: word_le_nat_alt)
  then show ?case using 0(4) by (cases fuel) (simp_all add: relr_loop.simps)
next
  case (Suc n)
  obtain f where fuel: "fuel = Suc f" "n < f" using Suc.prems(4) by (cases fuel) auto
  define e where "e = get64 img (unat o1)"
  define rs where "rs = (if e AND 1 = 0 then [Relr (unat e)] else bitmap_slots (drop_bit 1 e) whr)"
  define whr' where "whr' = (if e AND 1 = 0 then e + 8 else whr + 504)"
  define img' where "img' = patch (file_val base) img rs"
  have o1: "unat (o1 + 8) = unat o1 + 8" "o1 + 8 \<le> tend"
    using word_slot(2) [of o1 8 "length img"] Suc.prems(1-3) by (simp_all add: word_le_nat_alt)
  have all: "relr_relocs img (unat o1) (Suc n) whr = rs @ relr_relocs img (unat o1 + 8) n whr'"
    by (simp add: Let_def rs_def whr'_def flip: e_def)
  have ok: "\<forall>r \<in> set rs. slot_ok img (slot_of r) \<and> leaves_table (unat o1) (Suc n) r"
    and rest: "\<forall>r \<in> set (relr_relocs img (unat o1 + 8) n whr'). slot_ok img (slot_of r) \<and> leaves_table (unat o1) (Suc n) r"
    using Suc.prems(5) unfolding all by auto
  have len: "length img' = length img" unfolding img'_def using ok by (simp add: length_patch)
  have lv: "leaves_table (unat o1 + 8) n r" if "leaves_table (unat o1) (Suc n) r" for r
    using that unfolding leaves_table_def by (auto simp: algebra_simps dest: spec [of _ "Suc _"])
  have tab: "get64 img' (unat o1 + 8 + 8 * k) = get64 img (unat o1 + 8 + 8 * k)" if "k < n" for k
    unfolding img'_def
    using get64_patch_table [of rs img "unat o1" "Suc n" "Suc k"] ok that Suc.prems(2,3) by (simp add: algebra_simps)
  have same: "relr_relocs img' (unat o1 + 8) n whr' = relr_relocs img (unat o1 + 8) n whr'"
    by (rule relr_relocs_cong) (rule tab)
  have ld: "load_le 8 img (unat o1) = Some e"
    using Suc.prems(2,3) unfolding e_def by (intro load_get64) (simp add: slot_ok_def)
  have step: "relr_loop fuel base img tend o1 whr = relr_loop f base img' tend (o1 + 8) whr'"
  proof (cases "e AND 1 = 0")
    case True
    then have "sub_slot base img e = Some img'"
      using sub_slot_eq [of img e base] ok Suc.prems(1) by (simp add: rs_def img'_def)
    then show ?thesis using True ld o1(2) by (simp add: fuel relr_loop.simps whr'_def del: load_le_in)
  next
    case False
    have "unat e < 2 ^ 64" using unsigned_less [of e, where 'a = nat] by simp
    then have "unat (drop_bit 1 e) < 2 ^ 63" by (simp add: unat_drop_bit_eq drop_bit_nat_def)
    moreover have "\<forall>i < 63. bit (drop_bit 1 e) i \<longrightarrow> slot_ok img (unat (whr + 8 * of_nat i))"
      using ok False by (force simp: rs_def bitmap_slots_def)
    ultimately have "relr_bits 64 base img (drop_bit 1 e) whr = Some img'"
      using relr_bits_eq [of img "drop_bit 1 e" 63 64 whr base] Suc.prems(1) False
      by (simp add: img'_def rs_def bitmap_slots_def)
    then show ?thesis using False ld o1(2) by (simp add: fuel relr_loop.simps whr'_def del: load_le_in)
  qed
  have "relr_loop f base img' tend (o1 + 8) whr' =
      Some (patch (file_val base) img' (relr_relocs img' (unat (o1 + 8)) n whr'))"
    using Suc.prems(1-3) fuel(2) len o1 lv rest
    by (intro Suc.IH) (auto simp: same slot_ok_def)
  then show ?case unfolding step all patch_simps by (simp only: o1(1) same img'_def [symmetric])
qed

lemma rela_loop_eq:
  assumes "length img < 2 ^ 63" "unat tend = unat o1 + 24 * n" "unat tend \<le> length img" "n < fuel"
    and "\<forall>r \<in> set (rela_relocs img (unat o1) n). slot_ok img (slot_of r) \<and> leaves_table (unat o1) (3 * n) r"
  shows "rela_loop fuel img tend o1 =
    Some (patch (file_val base) img (rela_relocs img (unat o1) n))"
  using assms
proof (induction n arbitrary: fuel img o1)
  case 0
  have "\<not> o1 + 24 \<le> tend"
    using 0(1-3) word_slot(2) [of o1 24 "length img + 24"] by (simp add: word_le_nat_alt)
  then show ?case using 0(4) by (cases fuel) (simp_all add: rela_loop.simps)
next
  case (Suc n)
  obtain f where fuel: "fuel = Suc f" "n < f" using Suc.prems(4) by (cases fuel) auto
  let ?o = "unat o1"
  define rel where "rel \<longleftrightarrow> get64 img (?o + 8) AND 0xffffffff = R_AARCH64_RELATIVE"
  define rs where "rs = (if rel then [Rela (unat (get64 img ?o)) (get64 img (?o + 16))] else [])"
  define img' where "img' = patch (file_val base) img rs"
  have o1: "unat (o1 + 24) = ?o + 24" "o1 + 24 \<le> tend"
    using word_slot(2) [of o1 24 "length img"] Suc.prems(1-3) by (simp_all add: word_le_nat_alt)
  have all: "rela_relocs img ?o (Suc n) = rs @ rela_relocs img (?o + 24) n"
    by (simp add: rs_def rel_def)
  have ok: "\<forall>r \<in> set rs. slot_ok img (slot_of r) \<and> leaves_table ?o (3 * Suc n) r"
    and rest: "\<forall>r \<in> set (rela_relocs img (?o + 24) n). slot_ok img (slot_of r) \<and> leaves_table ?o (3 * Suc n) r"
    using Suc.prems(5) unfolding all by auto
  have len: "length img' = length img" unfolding img'_def using ok by (simp add: length_patch)
  have lv: "leaves_table (?o + 24) (3 * n) r" if "leaves_table ?o (3 * Suc n) r" for r
    using that unfolding leaves_table_def by (auto simp: algebra_simps dest: spec [of _ "_ + 3"])
  have tab: "get64 img' (?o + 24 + 8 * k) = get64 img (?o + 24 + 8 * k)" if "k < 3 * n" for k
    unfolding img'_def
    using get64_patch_table [of rs img ?o "3 * Suc n" "k + 3"] ok that Suc.prems(2,3) by (simp add: algebra_simps)
  have same: "rela_relocs img' (?o + 24) n = rela_relocs img (?o + 24) n"
    by (rule rela_relocs_cong) (rule tab)
  have step: "rela_loop fuel img tend o1 = rela_loop f img' tend (o1 + 24)"
  proof -
    obtain r where ld: "load_bytes img ?o 24 = Some r" and w: "le_word (take 8 r) = get64 img ?o"
      "le_word (take 8 (drop 8 r)) = get64 img (?o + 8)" "le_word (take 8 (drop 16 r)) = get64 img (?o + 16)"
      using Suc.prems(2,3) by (simp add: get64_def drop_take add.commute min_def)
    have "slot_ok img (unat (get64 img ?o)) \<Longrightarrow> get64 img ?o + 8 \<le> of_nat (length img)"
      using word_slot(1) [of "get64 img ?o" 8 "length img"] Suc.prems(1) by (simp add: slot_ok_def)
    then show ?thesis
      using o1(2) ld ok
      by (simp add: fuel rela_loop.simps w Let_def rel_def rs_def img'_def store_put64 del: load_bytes_in)
  qed
  have "rela_loop f img' tend (o1 + 24) = Some (patch (file_val base) img' (rela_relocs img' (unat (o1 + 24)) n))"
    using Suc.prems(1-3) fuel(2) len o1 lv rest
    by (intro Suc.IH) (auto simp: same slot_ok_def)
  then show ?case unfolding step all patch_simps by (simp only: o1(1) same img'_def [symmetric])
qed

section \<open>Undoing the linker\<close>

definition so_relocs :: "bytes \<Rightarrow> soinfo \<Rightarrow> reloc list" where
  "so_relocs img si =
     rela_relocs img (unat (rela si)) (unat (relasz si) div 24) @
     relr_relocs img (unat (relr si)) (unat (relrsz si) div 8) 0"

text \<open>The linker's work on a file image: every relative relocation applied, in table order.\<close>

definition link_image :: "u64 \<Rightarrow> bytes \<Rightarrow> soinfo \<Rightarrow> bytes" where
  "link_image base img si = patch (linked_val base) img (so_relocs img si)"

text \<open>A file image as a static linker leaves it: tables inside the image, slots inside it too, apart
  from each other and from the tables, and each \<open>DT_RELA\<close> slot holding its addend.\<close>

definition relocs_wf :: "bytes \<Rightarrow> soinfo \<Rightarrow> bool" where
  "relocs_wf img si \<longleftrightarrow> obj_bytes img \<and>
     (rela si = 0 \<longrightarrow> relasz si = 0) \<and> 24 dvd unat (relasz si) \<and> unat (rela si) + unat (relasz si) \<le> length img \<and>
     (relr si = 0 \<longrightarrow> relrsz si = 0) \<and> 8 dvd unat (relrsz si) \<and> unat (relr si) + unat (relrsz si) \<le> length img \<and>
     list_all (\<lambda>r. slot_ok img (slot_of r) \<and> leaves_table (unat (rela si)) (unat (relasz si) div 8) r \<and>
       leaves_table (unat (relr si)) (unat (relrsz si) div 8) r \<and>
       (case r of Rela a v \<Rightarrow> get64 img a = v | Relr a \<Rightarrow> True)) (so_relocs img si) \<and>
     sorted_wrt (\<lambda>r r'. slots_apart (slot_of r) (slot_of r')) (so_relocs img si)"

lemma slots_apart_sym: "slots_apart a b \<longleftrightarrow> slots_apart b a"
  by (auto simp: slots_apart_def)

lemma patch_undo:
  assumes "sorted_wrt (\<lambda>r r'. slots_apart (slot_of r) (slot_of r')) rs"
    and "\<forall>r \<in> set rs. slot_ok img (slot_of r) \<and> (case r of Rela a v \<Rightarrow> get64 img a = v | Relr a \<Rightarrow> True)"
  shows "patch (file_val base) (patch (linked_val base) img rs) rs = img"
  unfolding patch_def
proof (rule img.fold_undo)
  show "sorted_wrt (\<lambda>x y. slots_apart (slot_of x) (slot_of y) \<and> slots_apart (slot_of y) (slot_of x)) rs"
    using assms(1) by (simp add: slots_apart_sym)
  show "\<forall>x \<in> set rs. file_val base x (linked_val base x (get64 img (slot_of x))) = get64 img (slot_of x)"
  proof
    fix x assume "x \<in> set rs"
    with assms(2) show "file_val base x (linked_val base x (get64 img (slot_of x))) = get64 img (slot_of x)"
      by (cases x) auto
  qed
qed (use assms(2) in blast)

lemma relr_relocs_patch:
  assumes "\<forall>r \<in> set rs. slot_ok img (slot_of r) \<and> leaves_table off n r" "off + 8 * n \<le> length img"
  shows "relr_relocs (patch f img rs) off n whr = relr_relocs img off n whr"
  using assms by (intro relr_relocs_cong get64_patch_table) auto

lemma rela_relocs_patch:
  assumes "\<forall>r \<in> set rs. slot_ok img (slot_of r) \<and> leaves_table off (3 * n) r" "off + 24 * n \<le> length img"
  shows "rela_relocs (patch f img rs) off n = rela_relocs img off n"
  using assms by (intro rela_relocs_cong get64_patch_table) auto

lemma table_end_in:
  assumes "unat off + unat n \<le> length img" "length img < 2 ^ 63"
  shows "unat (table_end img off n) = unat off + unat n"
  using word_slot [of off "unat n" "length img"] assms by (simp add: table_end_def not_less [THEN iffD2])

lemma unapply_eq:
  assumes len: "obj_bytes img" and n: "unat (relasz si) = 24 * n" "unat (relrsz si) = 8 * m"
    and z: "rela si = 0 \<longrightarrow> n = 0" "relr si = 0 \<longrightarrow> m = 0"
    and fit: "unat (rela si) + 24 * n \<le> length img" "unat (relr si) + 8 * m \<le> length img"
    and R1: "\<forall>r \<in> set (rela_relocs img (unat (rela si)) n). slot_ok img (slot_of r) \<and>
      leaves_table (unat (rela si)) (3 * n) r \<and> leaves_table (unat (relr si)) m r"
    and R2: "\<forall>r \<in> set (relr_relocs img (unat (relr si)) m 0). slot_ok img (slot_of r) \<and>
      leaves_table (unat (relr si)) m r"
  shows "unapply_relocs img base si = Some (patch (file_val base) img (so_relocs img si))"
proof -
  let ?A = "rela_relocs img (unat (rela si)) n" and ?B = "relr_relocs img (unat (relr si)) m 0"
  let ?i = "patch (file_val base) img ?A"
  have l: "length img < 2 ^ 63" "length ?i = length img"
    using len R1 by (simp_all add: obj_bytes_def length_patch)
  have so: "so_relocs img si = ?A @ ?B" using n by (simp add: so_relocs_def)
  have nf: "n < Suc (length img)" "m < Suc (length img)" using fit by linarith+
  have 1: "rela_loop (Suc (length img)) img (table_end img (rela si) (relasz si)) (rela si) = Some ?i"
    using R1 fit n nf l(1) by (intro rela_loop_eq) (auto simp: table_end_in)
  have B: "relr_relocs ?i (unat (relr si)) m 0 = ?B"
    using R1 fit by (intro relr_relocs_patch) auto
  have 2: "relr_loop (Suc (length ?i)) base ?i (table_end ?i (relr si) (relrsz si)) (relr si) 0 =
      Some (patch (file_val base) ?i ?B)"
    unfolding B [symmetric]
    using R1 R2 fit n nf l by (intro relr_loop_eq) (auto simp: table_end_in B slot_ok_def)
  have u: "relasz si = 0 \<longleftrightarrow> n = 0" "relrsz si = 0 \<longleftrightarrow> m = 0"
    using n by (auto simp: unsigned_eq_0_iff)
  have 3: "(if rela si \<noteq> 0 \<and> relasz si \<noteq> 0
      then rela_loop (Suc (length img)) img (table_end img (rela si) (relasz si)) (rela si) else Some img) = Some ?i"
    using 1 z u by auto
  have 4: "(if relr si \<noteq> 0 \<and> relrsz si \<noteq> 0
      then relr_loop (Suc (length ?i)) base ?i (table_end ?i (relr si) (relrsz si)) (relr si) 0 else Some ?i) =
      Some (patch (file_val base) ?i ?B)"
    using 2 z u by auto
  show ?thesis
    unfolding unapply_relocs_def 3 so patch_simps using 4 by simp
qed

lemma unapply_link_image:
  assumes "relocs_wf img si"
  shows "unapply_relocs (link_image base img si) base si = Some img"
proof -
  obtain n m where nm: "unat (relasz si) = 24 * n" "unat (relrsz si) = 8 * m"
    using assms by (auto simp: relocs_wf_def dvd_def)
  let ?rs = "so_relocs img si" and ?L = "link_image base img si"
  have rs: "\<forall>r \<in> set ?rs. slot_ok img (slot_of r) \<and> leaves_table (unat (rela si)) (3 * n) r \<and>
      leaves_table (unat (relr si)) m r \<and> (case r of Rela a v \<Rightarrow> get64 img a = v | Relr a \<Rightarrow> True)"
    using assms nm by (simp add: relocs_wf_def list_all_iff)
  have fit: "unat (rela si) + 24 * n \<le> length img" "unat (relr si) + 8 * m \<le> length img"
    and len: "obj_bytes img" and z: "rela si = 0 \<longrightarrow> n = 0" "relr si = 0 \<longrightarrow> m = 0"
    using assms nm by (auto simp: relocs_wf_def)
  have L: "length ?L = length img" using rs by (simp add: link_image_def length_patch)
  have same: "rela_relocs ?L (unat (rela si)) n = rela_relocs img (unat (rela si)) n"
    "relr_relocs ?L (unat (relr si)) m 0 = relr_relocs img (unat (relr si)) m 0"
    unfolding link_image_def using rs fit by (auto intro!: rela_relocs_patch relr_relocs_patch)
  then have so: "so_relocs ?L si = ?rs" using nm by (simp add: so_relocs_def)
  have sub: "set (rela_relocs img (unat (rela si)) n) \<subseteq> set ?rs" "set (relr_relocs img (unat (relr si)) m 0) \<subseteq> set ?rs"
    using nm by (auto simp: so_relocs_def)
  have "unapply_relocs ?L base si = Some (patch (file_val base) ?L (so_relocs ?L si))"
    using rs sub fit len z L nm by (intro unapply_eq) (auto simp: same slot_ok_def obj_bytes_def)
  also have "patch (file_val base) ?L (so_relocs ?L si) = img"
    unfolding so unfolding link_image_def using assms rs by (intro patch_undo) (auto simp: relocs_wf_def)
  finally show ?thesis .
qed

section \<open>De-rebasing the dynamic array\<close>

text \<open>The positions of the entries \<open>parse_dynamic\<close> walks over.\<close>

definition dyn_positions :: "bytes \<Rightarrow> u64 \<Rightarrow> u64 \<Rightarrow> nat list" where
  "dyn_positions img dyn_off dyn_size =
     (let av = length img - unat dyn_off;
          av = (if dyn_size \<noteq> 0 \<and> unat dyn_size < av then unat dyn_size else av)
      in map (\<lambda>k. unat dyn_off + 16 * k) [0..<av div 16])"

text \<open>\<open>dyn_linked base ds img img'\<close>: the linker turned some of the pointer entries before
  \<open>DT_NULL\<close> that lie inside the image into absolute addresses.\<close>

inductive dyn_linked :: "u64 \<Rightarrow> nat list \<Rightarrow> bytes \<Rightarrow> bytes \<Rightarrow> bool" for base where
  none: "dyn_linked base ds img img"
| skip: "dyn_linked base ds img img' \<Longrightarrow> get64 img d \<noteq> DT_NULL \<Longrightarrow> dyn_linked base (d # ds) img img'"
| rebase: "dyn_linked base ds img img' \<Longrightarrow> dyn_tag_is_ptr (get64 img d) \<Longrightarrow>
    unat (get64 img (d + 8)) < length img \<Longrightarrow>
    dyn_linked base (d # ds) img (put64 img' (d + 8) (base + get64 img (d + 8)))"

inductive_cases dyn_linked_NilE: "dyn_linked base [] img img'"
inductive_cases dyn_linked_ConsE: "dyn_linked base (d # ds) img img'"

text \<open>Entries of 16 bytes inside the image, none overlapping another.\<close>

definition entries_ok :: "nat \<Rightarrow> nat list \<Rightarrow> bool" where
  "entries_ok len ds \<longleftrightarrow> sorted_wrt (\<lambda>d d'. d + 16 \<le> d') ds \<and> (\<forall>d \<in> set ds. d + 16 \<le> len)"

lemma entries_ok_Cons:
  "entries_ok len (d # ds) \<longleftrightarrow> d + 16 \<le> len \<and> (\<forall>d' \<in> set ds. d + 16 \<le> d') \<and> entries_ok len ds"
  by (auto simp: entries_ok_def)

lemma dyn_linked_frame:
  assumes "dyn_linked base ds img img'" "entries_ok (length img) ds"
  shows "length img' = length img \<and>
    (\<forall>a. slot_ok img a \<and> (\<forall>d \<in> set ds. a + 8 \<le> d) \<longrightarrow> get64 img' a = get64 img a)"
  using assms
proof (induction rule: dyn_linked.induct)
  case (rebase ds img img' d)
  then have "slot_ok img' (d + 8)" by (auto simp: entries_ok_Cons slot_ok_def)
  then show ?case
    using rebase
    by (auto simp: entries_ok_Cons length_put64 slot_ok_def slots_apart_def
        intro!: trans [OF get64_put64_apart])
qed (auto simp: entries_ok_Cons)

lemma dyn_linked_entry:
  assumes "dyn_linked base ds img img'" "entries_ok (length img) (d # ds)"
  shows "length img' = length img" "get64 img' d = get64 img d" "get64 img' (d + 8) = get64 img (d + 8)"
proof -
  have o: "slot_ok img d" "slot_ok img (d + 8)" "entries_ok (length img) ds" "\<forall>d' \<in> set ds. d + 16 \<le> d'"
    using assms(2) by (auto simp: entries_ok_Cons slot_ok_def)
  note f = dyn_linked_frame [OF assms(1) o(3)]
  show "length img' = length img" using f by simp
  show "get64 img' d = get64 img d" using f o by (auto intro!: f [THEN conjunct2, rule_format])
  show "get64 img' (d + 8) = get64 img (d + 8)" using f o by (auto intro!: f [THEN conjunct2, rule_format])
qed

lemma dyn_linked_put:
  assumes "dyn_linked base ds img img'" "entries_ok (length img) ds" "slot_ok img a" "\<forall>d \<in> set ds. a + 8 \<le> d"
  shows "dyn_linked base ds (put64 img a v) (put64 img' a v)"
  using assms
proof (induction rule: dyn_linked.induct)
  case (none ds img)
  show ?case by (rule dyn_linked.none)
next
  case (skip ds img img' d)
  then have "get64 (put64 img a v) d = get64 img d"
    by (intro get64_put64_apart) (auto simp: entries_ok_Cons slot_ok_def slots_apart_def)
  then show ?case using skip by (intro dyn_linked.skip) (auto simp: entries_ok_Cons)
next
  case (rebase ds img img' d)
  have g: "get64 (put64 img a v) d = get64 img d" "get64 (put64 img a v) (d + 8) = get64 img (d + 8)"
    using rebase.prems by (auto simp: entries_ok_Cons slot_ok_def slots_apart_def intro!: get64_put64_apart)
  have len: "length img' = length img"
    using dyn_linked_frame [OF rebase.hyps(1)] rebase.prems(1) by (simp add: entries_ok_Cons)
  have c: "put64 (put64 img' (d + 8) w) a v = put64 (put64 img' a v) (d + 8) w" for w
    using rebase.prems len by (intro img.put_comm) (auto simp: entries_ok_Cons slot_ok_def slots_apart_def)
  have "dyn_linked base (d # ds) (put64 img a v) (put64 (put64 img' a v) (d + 8) (base + get64 (put64 img a v) (d + 8)))"
    using rebase g by (intro dyn_linked.rebase) (auto simp: entries_ok_Cons length_put64)
  then show ?case by (simp add: g c)
qed

lemma derebase_base:
  assumes "dyn_tag_is_ptr tag" "unat v < len" "unat base + len < 2 ^ 64"
  shows "dyn_derebase base len tag (base + v) = v"
proof -
  have "unat (base + v) = unat base + unat v"
    using assms by (simp add: unat_word_ariths)
  moreover have "base \<le> base + v" using calculation by (simp add: word_le_nat_alt)
  moreover have "base + v < base + of_nat len"
  proof -
    have "unat (base + of_nat len) = unat base + len"
      using word_slot(2) [of base len "unat base + len"] assms(3) by simp
    then show ?thesis using calculation assms(2) by (simp add: word_less_nat_alt)
  qed
  ultimately show ?thesis using assms(1) by (simp add: dyn_derebase_def)
qed

lemma dyn_walk_linked:
  assumes "dyn_linked base ds img img'" "entries_ok (length img) ds" "unat base + length img < 2 ^ 64" "length img \<le> unat base"
  shows "dyn_walk base ds img' si c = dyn_walk base ds img si c"
  using assms
proof (induction ds arbitrary: img img' si c)
  case Nil
  then show ?case by (auto elim: dyn_linked_NilE)
next
  case (Cons d ds)
  have ok: "slot_ok img d" "slot_ok img (d + 8)" "entries_ok (length img) ds" "\<forall>d' \<in> set ds. d + 16 \<le> d'"
    using Cons.prems(2) by (auto simp: entries_ok_Cons slot_ok_def)
  have plain: "dyn_walk base (d # ds) img' si c = dyn_walk base (d # ds) img si c"
    if l: "dyn_linked base ds img img'" "get64 img d \<noteq> DT_NULL" for img'
  proof -
    have f: "length img' = length img" "get64 img' d = get64 img d" "get64 img' (d + 8) = get64 img (d + 8)"
      by (rule dyn_linked_entry [OF l(1) Cons.prems(2)])+
    have ok': "slot_ok img' d" "slot_ok img' (d + 8)" using ok f by (auto simp: slot_ok_def)
    have st: "dyn_walk base ds (put64 img' (d + 8) w) si' c' = dyn_walk base ds (put64 img (d + 8) w) si' c'" for w si' c'
    proof (rule Cons.IH)
      have "\<forall>d' \<in> set ds. d + 8 + 8 \<le> d'" using ok(4) by (simp add: add.assoc)
      then show "dyn_linked base ds (put64 img (d + 8) w) (put64 img' (d + 8) w)"
        by (rule dyn_linked_put [OF l(1) ok(3,2)])
    qed (use ok Cons.prems(3,4) in \<open>simp_all add: length_put64\<close>)
    have "dyn_walk base ds img' si' c' = dyn_walk base ds img si' c'" for si' c'
      using l ok Cons.prems(3,4) by (intro Cons.IH) auto
    then show ?thesis
      using ok ok' f st l(2)
      by (simp add: load_get64 store_put64 Let_def del: load_le_in)
  qed
  from Cons.prems(1) show ?case
  proof cases
    case none
    then show ?thesis by simp
  next
    case skip
    then show ?thesis using plain by blast
  next
    case r: (rebase img0)
    let ?v = "get64 img (d + 8)" and ?t = "get64 img d"
    have f: "length img0 = length img" "get64 img0 d = ?t" "get64 img0 (d + 8) = ?v"
      by (rule dyn_linked_entry [OF r(2) Cons.prems(2)])+
    have ok0: "slot_ok img0 d" "slot_ok img0 (d + 8)" using ok f by (auto simp: slot_ok_def)
    have t: "?t \<noteq> DT_NULL" "?t \<noteq> DT_DEBUG" using r(3) by (auto simp: dyn_tag_is_ptr_def)
    have bk: "put64 (put64 img0 (d + 8) w) (d + 8) ?v = img0" for w
      using img.put_put [OF ok0(2)] img.put_get [OF ok0(2)] f(3) by simp
    have gt: "get64 (put64 img0 (d + 8) w) d = ?t" for w
      using ok0 f(2) by (subst get64_put64_apart) (auto simp: slots_apart_def)
    have len: "length (put64 img0 (d + 8) w) = length img" for w using ok0 f(1) by (simp add: length_put64)
    have d1: "dyn_derebase base (length img) ?t (base + ?v) = ?v"
      using r(3,4) Cons.prems(3) by (rule derebase_base)
    have "\<not> base \<le> ?v" using r(4) Cons.prems(4) by (simp add: word_le_nat_alt)
    then have b0: "base \<noteq> 0" by auto
    from \<open>\<not> base \<le> ?v\<close> have d2: "dyn_derebase base (length img) ?t ?v = ?v" by (simp add: dyn_derebase_def)
    have "dyn_walk base ds img0 si' c' = dyn_walk base ds img si' c'" for si' c'
      using r(2) ok(3) Cons.prems(3,4) by (intro Cons.IH) auto
    moreover have "put64 img0 (d + 8) ?v = img0" using img.put_get [OF ok0(2)] f(3) by simp
    ultimately show ?thesis
      unfolding r(1)
      using ok ok0 t gt bk d1 d2 len b0
      by (simp add: load_get64 store_put64 Let_def slot_ok_def get64_put64 del: load_le_in)
  qed
qed

lemma entries_ok_positions:
  assumes "unat dyn_off < length img"
  shows "entries_ok (length img) (dyn_positions img dyn_off dyn_size)"
proof -
  have "unat dyn_off + 16 * k + 16 \<le> length img" if "k < av div 16" "av \<le> length img - unat dyn_off" for k av
  proof -
    have "16 * k + 16 \<le> av" using that(1) by (simp add: less_eq_div_iff_mult_less_eq flip: Suc_le_eq)
    then show ?thesis using that(2) assms by arith
  qed
  then show ?thesis
    by (auto simp: entries_ok_def dyn_positions_def Let_def sorted_wrt_map sorted_wrt_iff_nth_less)
qed

section \<open>Properties\<close>

text \<open>C12: un-applying relocations inverts the linker. For a file image whose relocation tables and slots
  lie inside it, do not overlap, and whose \<open>DT_RELA\<close> slots hold their addends, relocating the image to
  any base and then running \<open>unapply_relocs\<close> on the result gives the file image back, byte for byte,
  including every slot of the packed \<open>DT_RELR\<close> bitmaps.\<close>

theorem unapply_relocs_inverse:
  assumes "relocs_wf img si"
  shows "unapply_relocs (link_image base img si) base si = Some img"
  using unapply_link_image [OF assms] .

text \<open>A 72-byte image: a \<open>DT_RELA\<close> entry for the slot at 48, and a packed table with the slot at 56 and
  a bitmap that adds the slot at 64.\<close>

definition sample_so :: bytes where
  "sample_so = [0, 0, 0, 0, 0, 0, 0, 0,
     48, 0, 0, 0, 0, 0, 0, 0,  3, 4, 0, 0, 0, 0, 0, 0,  0x20, 0, 0, 0, 0, 0, 0, 0,
     56, 0, 0, 0, 0, 0, 0, 0,  3, 0, 0, 0, 0, 0, 0, 0,
     0x20, 0, 0, 0, 0, 0, 0, 0,  0x28, 0, 0, 0, 0, 0, 0, 0,  0x30, 0, 0, 0, 0, 0, 0, 0]"

definition sample_si :: soinfo where
  "sample_si = soinfo_zero\<lparr>rela := 8, relasz := 24, relr := 32, relrsz := 16\<rparr>"

lemma upt_63: "[0..<63] = [0::nat,1,2,3,4,5,6,7,8,9,10,11,12,13,14,15,16,17,18,19,20,21,22,23,24,25,26,27,28,29,
  30,31,32,33,34,35,36,37,38,39,40,41,42,43,44,45,46,47,48,49,50,51,52,53,54,55,56,57,58,59,60,61,62]"
  by (simp add: upt_rec)

lemma sample_so_relocs: "so_relocs sample_so sample_si = [Rela 48 0x20, Relr 56, Relr 64]"
proof -
  have "relasz sample_si = 24" "relrsz sample_si = 16" "rela sample_si = 8" "relr sample_si = 32"
    by (simp_all add: sample_si_def)
  moreover have "rela_relocs sample_so 8 1 = [Rela 48 0x20]"
    unfolding One_nat_def by (simp add: sample_so_def get64_def)
  moreover have "bitmap_slots 1 64 = [Relr 64]"
    by (simp add: bitmap_slots_def upt_63)
  then have "relr_relocs sample_so 32 2 0 = [Relr 56, Relr 64]"
    unfolding numeral_2_eq_2 by (simp add: sample_so_def get64_def)
  ultimately show ?thesis by (simp add: so_relocs_def)
qed

lemma leaves_table_past: "off + 8 * n \<le> slot_of r \<Longrightarrow> leaves_table off n r"
  by (auto simp: leaves_table_def slots_apart_def)

lemma unapply_relocs_inverse_witness:
  "unapply_relocs (link_image 0x7000 sample_so sample_si) 0x7000 sample_si = Some sample_so"
proof (rule unapply_relocs_inverse)
  show "relocs_wf sample_so sample_si"
    unfolding relocs_wf_def sample_so_relocs
    by (simp add: obj_bytes_def leaves_table_past sample_so_def sample_si_def soinfo_zero_def get64_def
        slot_ok_def slots_apart_def)
qed

text \<open>Whether the linker left the pointer entries of the dynamic array file-relative or turned some
  of them into absolute addresses makes no difference: \<open>parse_dynamic\<close> extracts the same information
  and leaves the same (de-rebased) image behind.\<close>

theorem parse_dynamic_rebased:
  assumes "dyn_linked base (dyn_positions img dyn_off dyn_size) img img'"
    and "unat base + length img < 2 ^ 64" "length img \<le> unat base"
  shows "parse_dynamic img' base dyn_off dyn_size = parse_dynamic img base dyn_off dyn_size"
proof (cases "unat dyn_off < length img")
  case True
  note ok = entries_ok_positions [OF True, of dyn_size]
  have len: "length img' = length img" using dyn_linked_frame [OF assms(1) ok] by simp
  from dyn_walk_linked [OF assms(1) ok assms(2,3)] True show ?thesis
    by (simp add: parse_dynamic_def len Let_def dyn_positions_def not_le)
next
  case False
  then have "dyn_positions img dyn_off dyn_size = []" by (simp add: dyn_positions_def Let_def)
  then show ?thesis using assms(1) by (auto elim: dyn_linked_NilE)
qed

definition sample_dyn :: bytes where
  "sample_dyn = [5, 0, 0, 0, 0, 0, 0, 0,  0x10, 0, 0, 0, 0, 0, 0, 0,  0, 0, 0, 0, 0, 0, 0, 0,  0, 0, 0, 0, 0, 0, 0, 0]"

lemma parse_dynamic_rebased_witness:
  "parse_dynamic (put64 sample_dyn 8 (0x1000 + 0x10)) 0x1000 0 32 = parse_dynamic sample_dyn 0x1000 0 32 \<and>
   map_option (strtab \<circ> snd) (parse_dynamic sample_dyn 0x1000 0 32) = Some 0x10"
proof
  have p: "dyn_positions sample_dyn 0 32 = [0, 16]"
    by (simp add: dyn_positions_def sample_dyn_def upt_rec)
  have "dyn_linked 0x1000 [0, 16] sample_dyn (put64 sample_dyn (0 + 8) (0x1000 + get64 sample_dyn (0 + 8)))"
    by (rule dyn_linked.rebase [OF dyn_linked.none])
       (simp_all add: sample_dyn_def get64_def dyn_tag_is_ptr_def)
  then have "dyn_linked 0x1000 (dyn_positions sample_dyn 0 32) sample_dyn (put64 sample_dyn 8 (0x1000 + 0x10))"
    unfolding p by (simp add: sample_dyn_def get64_def)
  then show "parse_dynamic (put64 sample_dyn 8 (0x1000 + 0x10)) 0x1000 0 32 = parse_dynamic sample_dyn 0x1000 0 32"
    by (rule parse_dynamic_rebased) (simp_all add: sample_dyn_def)
  show "map_option (strtab \<circ> snd) (parse_dynamic sample_dyn 0x1000 0 32) = Some 0x10"
    by (simp add: parse_dynamic_def sample_dyn_def upt_rec dyn_derebase_def dyn_record_def soinfo_zero_def
        dyn_tag_is_ptr_def)
qed

definition wrap_rela_img :: bytes where
  "wrap_rela_img = [0, 0, 0, 0, 0, 0, 0, 0,
     0xf8, 0xff, 0xff, 0xff, 0xff, 0xff, 0xff, 0xff,  3, 4, 0, 0, 0, 0, 0, 0,  1, 0, 0, 0, 0, 0, 0, 0]"

definition wrap_relr_img :: bytes where
  "wrap_relr_img = [0, 0, 0, 0, 0, 0, 0, 0,  0xf8, 0xff, 0xff, 0xff, 0xff, 0xff, 0xff, 0xff]"

text \<open>The guards of the relocation loops add eight to an untrusted 64-bit offset, and the sum can wrap
  around to zero. With the one \<open>DT_RELA\<close> entry, respectively the one \<open>DT_RELR\<close> entry, of the images
  below the guard passes and the loop writes outside the image, for every load base.\<close>

theorem unapply_relocs_wraps:
  "unapply_relocs wrap_rela_img base (soinfo_zero\<lparr>rela := 8, relasz := 24\<rparr>) = None \<and>
   unapply_relocs wrap_relr_img base (soinfo_zero\<lparr>relr := 8, relrsz := 8\<rparr>) = None"
  by (simp add: unapply_relocs_def wrap_rela_img_def wrap_relr_img_def soinfo_zero_def table_end_def
      rela_loop.simps relr_loop.simps sub_slot_def store_le_def store_bytes_def load_le_def load_bytes_def)

end
