(* ===== verification/Rebuild_Shdr.thy ===== *)
theory Rebuild_Shdr
  imports Rebuild_Dyn
begin

unbundle bit_operations_syntax

text \<open>
  \<open>src/src/dump/rebuild.c\<close>, section-header reconstruction: \<open>sh_name\<close>, \<open>sh_add\<close> and
  \<open>build_shdrs\<close> make a section-header table from the dynamic information.

  \<^item> \<open>struct shbuild\<close> keeps the first \<open>n\<close> entries of its two arrays as one list of pairs (header,
    gap flag), and the written prefix of its 1024-byte string table as a string.
  \<^item> \<open>sh_add\<close> takes the caller's \<open>if (s) { ... }\<close> block as a function on the new header.
  \<^item> the exchange sort is the double loop of the code; the gap-sizing, clamping and linking loops write
    only the header they are at, and are recursions along the list. \<open>sh_info\<close> is never set and is left out.
\<close>

record shdr =
  sh_nm :: u32
  sh_type :: u32
  sh_flags :: u64
  sh_addr :: u64
  sh_offset :: u64
  sh_size :: u64
  sh_link :: u32
  sh_addralign :: u64
  sh_entsize :: u64

record shbuild =
  hdrs :: "(shdr \<times> bool) list"
  shstr :: string

abbreviation DUMP_MAX_SHDRS :: nat where "DUMP_MAX_SHDRS \<equiv> 32"
abbreviation SHT_NULL :: u32 where "SHT_NULL \<equiv> 0"
abbreviation SHT_PROGBITS :: u32 where "SHT_PROGBITS \<equiv> 1"
abbreviation SHT_STRTAB :: u32 where "SHT_STRTAB \<equiv> 3"
abbreviation SHT_RELA :: u32 where "SHT_RELA \<equiv> 4"
abbreviation SHT_HASH :: u32 where "SHT_HASH \<equiv> 5"
abbreviation SHT_DYNAMIC :: u32 where "SHT_DYNAMIC \<equiv> 6"
abbreviation SHT_DYNSYM :: u32 where "SHT_DYNSYM \<equiv> 11"
abbreviation SHT_INIT_ARRAY :: u32 where "SHT_INIT_ARRAY \<equiv> 14"
abbreviation SHT_FINI_ARRAY :: u32 where "SHT_FINI_ARRAY \<equiv> 15"
abbreviation SHT_RELR :: u32 where "SHT_RELR \<equiv> 19"
abbreviation SHT_GNU_HASH :: u32 where "SHT_GNU_HASH \<equiv> 0x6ffffff6"
abbreviation SHF_WRITE :: u64 where "SHF_WRITE \<equiv> 1"
abbreviation SHF_ALLOC :: u64 where "SHF_ALLOC \<equiv> 2"
abbreviation SHF_EXECINSTR :: u64 where "SHF_EXECINSTR \<equiv> 4"
abbreviation SHF_INFO_LINK :: u64 where "SHF_INFO_LINK \<equiv> 0x40"

definition sh_name :: "string \<Rightarrow> string \<Rightarrow> u32 \<times> string" where
  "sh_name tab name =
     (of_nat (length tab),
      if length tab + (length name + 1) \<le> 1024 then tab @ name @ [NUL] else tab)"

definition sh_add :: "shbuild \<Rightarrow> string \<Rightarrow> u32 \<Rightarrow> u64 \<Rightarrow> (shdr \<Rightarrow> shdr) \<Rightarrow> bool \<Rightarrow> shbuild" where
  "sh_add b name typ flags fill g =
     (if length (hdrs b) \<ge> DUMP_MAX_SHDRS then b
      else let (nm, tab) = sh_name (shstr b) name;
               s = \<lparr>sh_nm = nm, sh_type = typ, sh_flags = flags, sh_addr = 0, sh_offset = 0, sh_size = 0,
                    sh_link = 0, sh_addralign = 0, sh_entsize = 0\<rparr>
           in \<lparr>hdrs = hdrs b @ [(fill s, g)], shstr = tab\<rparr>)"

definition placed :: "u64 \<Rightarrow> u64 \<Rightarrow> u64 \<Rightarrow> u64 \<Rightarrow> shdr \<Rightarrow> shdr" where
  "placed addr sz align entsize s =
     s\<lparr>sh_addr := addr, sh_offset := addr, sh_size := sz, sh_addralign := align, sh_entsize := entsize\<rparr>"

text \<open>The sections made from the dynamic information, in the order of the code: the value whose presence
  guards the section, its name, type and flags, what the caller fills in, and the gap flag.\<close>

type_synonym section_spec = "u64 \<times> string \<times> u32 \<times> u64 \<times> (shdr \<Rightarrow> shdr) \<times> bool"

definition dyn_sections :: "soinfo \<Rightarrow> section_spec list" where
  "dyn_sections si =
     [(symtab si, ''.dynsym'', SHT_DYNSYM, SHF_ALLOC,
        placed (symtab si) (if nchain si \<noteq> 0 then ucast (nchain si) * 24 else 0) 8 24, nchain si = 0),
      (strtab si, ''.dynstr'', SHT_STRTAB, SHF_ALLOC, placed (strtab si) (strsz si) 1 0, False),
      (hash si, ''.hash'', SHT_HASH, SHF_ALLOC,
        placed (hash si) ((ucast (nbucket si) + ucast (nchain si) + 2) * 4) 4 4, False),
      (gnu_hash si, ''.gnu.hash'', SHT_GNU_HASH, SHF_ALLOC, placed (gnu_hash si) 0 8 0, True),
      (rela si, ''.rela.dyn'', SHT_RELA, SHF_ALLOC, placed (rela si) (relasz si) 8 24, False),
      (relr si, ''.relr.dyn'', SHT_RELR, SHF_ALLOC, placed (relr si) (relrsz si) 8 8, False),
      (jmprel si, ''.rela.plt'', SHT_RELA, SHF_ALLOC OR SHF_INFO_LINK,
        placed (jmprel si) (pltrelsz si) 8 24, False),
      (init_array si, ''.init_array'', SHT_INIT_ARRAY, SHF_ALLOC OR SHF_WRITE,
        placed (init_array si) (init_arraysz si) 8 0, False),
      (fini_array si, ''.fini_array'', SHT_FINI_ARRAY, SHF_ALLOC OR SHF_WRITE,
        placed (fini_array si) (fini_arraysz si) 8 0, False),
      (dynamic_off si, ''.dynamic'', SHT_DYNAMIC, SHF_ALLOC OR SHF_WRITE,
        placed (dynamic_off si) (ucast (dynamic_count si) * 16) 8 16, False)]"

fun add_section :: "shbuild \<Rightarrow> section_spec \<Rightarrow> shbuild" where
  "add_section b (p, name, typ, flags, fill, g) = (if p \<noteq> 0 then sh_add b name typ flags fill g else b)"

definition shdrs_dynamic :: "soinfo \<Rightarrow> shbuild" where
  "shdrs_dynamic si =
     foldl add_section (sh_add \<lparr>hdrs = [], shstr = [NUL]\<rparr> '''' SHT_NULL 0 id False) (dyn_sections si)"

text \<open>The end of the read-only and of the writable metadata laid out so far.\<close>

definition md_end :: "(shdr \<Rightarrow> bool) \<Rightarrow> (shdr \<times> bool) list \<Rightarrow> u64" where
  "md_end sel hs = foldl (\<lambda>e (s, _). if sel s \<and> sh_addr s + sh_size s > e then sh_addr s + sh_size s else e) 0 hs"

definition is_write :: "shdr \<Rightarrow> bool" where "is_write s \<longleftrightarrow> sh_flags s AND SHF_WRITE \<noteq> 0"
definition is_alloc :: "shdr \<Rightarrow> bool" where "is_alloc s \<longleftrightarrow> sh_flags s AND SHF_ALLOC \<noteq> 0"

definition shdrs_synthetic :: "shbuild \<Rightarrow> u64 \<Rightarrow> shbuild" where
  "shdrs_synthetic b image_sz =
     (let wr_end = md_end is_write (tl (hdrs b));
          ro_end = md_end (\<lambda>s. \<not> is_write s \<and> is_alloc s) (tl (hdrs b));
          b = sh_add b ''.text'' SHT_PROGBITS (SHF_ALLOC OR SHF_EXECINSTR) (placed ro_end 0 16 0) True;
          b = sh_add b ''.data'' SHT_PROGBITS (SHF_ALLOC OR SHF_WRITE)
                (placed (if wr_end \<noteq> 0 then wr_end else ro_end) 0 8 0) True;
          b = sh_add b ''.shstrtab'' SHT_STRTAB 0 (placed image_sz 0 1 0) False
      in b)"

text \<open>The exchange sort over the indices from \<open>from\<close> on.\<close>

definition exch_step :: "('a \<Rightarrow> 'k::linorder) \<Rightarrow> nat \<Rightarrow> 'a list \<Rightarrow> nat \<Rightarrow> 'a list" where
  "exch_step key i xs j = (if key (xs ! i) > key (xs ! j) then xs[i := xs ! j, j := xs ! i] else xs)"

definition exch_sort :: "('a \<Rightarrow> 'k::linorder) \<Rightarrow> nat \<Rightarrow> 'a list \<Rightarrow> 'a list" where
  "exch_sort key from xs =
     (let n = length xs in
      foldl (\<lambda>ys i. foldl (exch_step key i) ys [Suc i..<n]) xs [from..<n])"

fun gap_sizes :: "u64 \<Rightarrow> (shdr \<times> bool) list \<Rightarrow> shdr list" where
  "gap_sizes image_sz [] = []"
| "gap_sizes image_sz ((s, g) # rest) =
     (let nx = (case rest of [] \<Rightarrow> image_sz | (s', _) # _ \<Rightarrow> sh_addr s');
          nx = (if nx = 0 \<or> nx < sh_addr s then image_sz else nx)
      in (if g then s\<lparr>sh_size := nx - sh_addr s\<rparr> else s) # gap_sizes image_sz rest)"

fun clamp_sizes :: "u64 \<Rightarrow> shdr list \<Rightarrow> shdr list" where
  "clamp_sizes image_sz [] = []"
| "clamp_sizes image_sz (s # rest) =
     (let lim = (case rest of [] \<Rightarrow> image_sz | s' # _ \<Rightarrow> if is_alloc s' then sh_offset s' else image_sz)
      in (if is_alloc s \<and> sh_offset s + sh_size s > lim \<and> lim \<ge> sh_offset s
          then s\<lparr>sh_size := lim - sh_offset s\<rparr> else s) # clamp_sizes image_sz rest)"

text \<open>The index of the last header that satisfies \<open>p\<close>, counting from \<open>i\<close>; 0 when there is none.\<close>

definition last_index :: "(shdr \<Rightarrow> bool) \<Rightarrow> shdr list \<Rightarrow> nat" where
  "last_index p hs = foldl (\<lambda>k i. if p (hs ! i) then i else k) 0 [1..<length hs]"

definition link_hdr :: "nat \<Rightarrow> nat \<Rightarrow> shdr \<Rightarrow> shdr" where
  "link_hdr dynsym dynstr s =
     (if sh_type s = SHT_DYNSYM then s\<lparr>sh_link := of_nat dynstr\<rparr>
      else if sh_type s \<in> set [SHT_HASH, SHT_GNU_HASH, SHT_RELA, SHT_RELR] then s\<lparr>sh_link := of_nat dynsym\<rparr>
      else if sh_type s = SHT_DYNAMIC then s\<lparr>sh_link := of_nat dynstr\<rparr>
      else s)"

definition shdrs_layout :: "(shdr \<times> bool) list \<Rightarrow> u64 \<Rightarrow> shdr list" where
  "shdrs_layout hs image_sz =
     (let hs = exch_sort (sh_addr \<circ> fst) 1 hs;
          rest = clamp_sizes image_sz (gap_sizes image_sz (tl hs));
          all = fst (hd hs) # rest;
          dynsym = last_index (\<lambda>s. sh_type s = SHT_DYNSYM) all;
          dynstr = last_index (\<lambda>s. sh_type s \<noteq> SHT_DYNSYM \<and> sh_type s = SHT_STRTAB \<and> is_alloc s) all
      in hd all # map (link_hdr dynsym dynstr) rest)"

definition build_shdrs :: "soinfo \<Rightarrow> u64 \<Rightarrow> shdr list \<times> string" where
  "build_shdrs si image_sz =
     (let b = shdrs_synthetic (shdrs_dynamic si) image_sz
      in (shdrs_layout (hdrs b) image_sz, shstr b))"

section \<open>The exchange sort\<close>

lemma in_set_drop: "y \<in> set (drop m xs) \<longleftrightarrow> (\<exists>c. m \<le> c \<and> c < length xs \<and> xs ! c = y)"
proof
  assume "y \<in> set (drop m xs)"
  then obtain i where "i < length xs - m" "xs ! (m + i) = y" by (auto simp: in_set_conv_nth)
  then show "\<exists>c. m \<le> c \<and> c < length xs \<and> xs ! c = y" by (intro exI [of _ "m + i"]) auto
next
  assume "\<exists>c. m \<le> c \<and> c < length xs \<and> xs ! c = y"
  then obtain c where "m \<le> c" "c < length xs" "xs ! c = y" by blast
  then show "y \<in> set (drop m xs)" by (auto simp: in_set_conv_nth intro!: exI [of _ "c - m"])
qed

lemma exch_step_props:
  assumes "i < length xs" "j < length xs"
  shows "length (exch_step key i xs j) = length xs" "mset (exch_step key i xs j) = mset xs"
    "k \<noteq> i \<Longrightarrow> k \<noteq> j \<Longrightarrow> exch_step key i xs j ! k = xs ! k"
  using assms by (auto simp: exch_step_def mset_swap)

lemma exch_inner:
  assumes "i < m" "m \<le> length xs"
    and ys: "ys = foldl (exch_step key i) xs [Suc i..<m]"
  shows "length ys = length xs \<and> mset ys = mset xs \<and> take i ys = take i xs \<and>
    (\<forall>k. i < k \<and> k < m \<longrightarrow> key (ys ! i) \<le> key (ys ! k))"
  using assms(1,2) unfolding ys
proof (induction m)
  case (Suc m)
  show ?case
  proof (cases "i < m")
    case True
    define zs where "zs = foldl (exch_step key i) xs [Suc i..<m]"
    have IH: "length zs = length xs" "mset zs = mset xs" "take i zs = take i xs"
      "\<And>k. i < k \<Longrightarrow> k < m \<Longrightarrow> key (zs ! i) \<le> key (zs ! k)"
      using Suc.IH [OF True] Suc.prems(2) by (auto simp: zs_def)
    have e: "foldl (exch_step key i) xs [Suc i..<Suc m] = exch_step key i zs m"
      using True by (simp add: zs_def)
    have lt: "i < length zs" "m < length zs" using True Suc.prems(2) IH(1) by auto
    have tk: "take i (exch_step key i zs m) = take i zs"
      using True by (simp add: exch_step_def)
    have "key (exch_step key i zs m ! i) \<le> key (exch_step key i zs m ! k)" if "i < k" "k < Suc m" for k
      using that IH(4) [of k] lt True by (cases "k = m") (auto simp: exch_step_def nth_list_update)
    then show ?thesis
      unfolding e using IH exch_step_props(1,2) [OF lt, of key] tk by auto
  next
    case False
    then have "m = i" using Suc.prems by simp
    then show ?thesis by auto
  qed
qed simp

lemma exch_outer:
  assumes "from \<le> m" "m \<le> length xs"
    and ys: "ys = foldl (\<lambda>zs i. foldl (exch_step key i) zs [Suc i..<length xs]) xs [from..<m]"
  shows "length ys = length xs \<and> mset ys = mset xs \<and> take from ys = take from xs \<and>
    (\<forall>a b. from \<le> a \<and> a < m \<and> a < b \<and> b < length xs \<longrightarrow> key (ys ! a) \<le> key (ys ! b))"
  using assms(1,2) unfolding ys
proof (induction m)
  case (Suc m)
  show ?case
  proof (cases "from \<le> m")
    case True
    define zs where "zs = foldl (\<lambda>zs i. foldl (exch_step key i) zs [Suc i..<length xs]) xs [from..<m]"
    define ws where "ws = foldl (exch_step key m) zs [Suc m..<length xs]"
    have IH: "length zs = length xs" "mset zs = mset xs" "take from zs = take from xs"
      "\<And>a b. from \<le> a \<Longrightarrow> a < m \<Longrightarrow> a < b \<Longrightarrow> b < length xs \<Longrightarrow> key (zs ! a) \<le> key (zs ! b)"
      using Suc.IH [OF True] Suc.prems(2) by (auto simp: zs_def)
    have e: "foldl (\<lambda>zs i. foldl (exch_step key i) zs [Suc i..<length xs]) xs [from..<Suc m] = ws"
      using True by (simp add: zs_def ws_def)
    have W: "length ws = length xs" "mset ws = mset xs" "take m ws = take m zs"
      "\<And>k. m < k \<Longrightarrow> k < length xs \<Longrightarrow> key (ws ! m) \<le> key (ws ! k)"
      using exch_inner [of m "length xs" zs ws key] IH(1,2) Suc.prems(2) by (auto simp: ws_def)
    have tf: "take from ws = take from xs"
      using arg_cong [OF W(3), of "take from"] IH(3) True by (simp add: min_def)
    have "mset (take m ws) + mset (drop m ws) = mset (take m zs) + mset (drop m zs)"
      unfolding mset_append [symmetric] append_take_drop_id using W(2) IH(2) by simp
    then have "mset (drop m ws) = mset (drop m zs)" unfolding W(3) by (rule add_left_imp_eq)
    then have dset: "set (drop m ws) = set (drop m zs)" by (rule mset_eq_setD)
    have low: "ws ! a = zs ! a" if "a < m" for a using W(3) that by (metis nth_take)
    have "key (ws ! a) \<le> key (ws ! b)" if ab: "from \<le> a" "a < Suc m" "a < b" "b < length xs" for a b
    proof (cases "a = m")
      case True
      then show ?thesis using W(4) ab by simp
    next
      case False
      then have am: "a < m" using ab by simp
      show ?thesis
      proof (cases "b < m")
        case True
        then show ?thesis using IH(4) [OF ab(1) am ab(3,4)] low am by simp
      next
        case False
        then have "ws ! b \<in> set (drop m zs)"
          using dset ab(4) W(1) unfolding dset [symmetric] in_set_drop by (intro exI [of _ b]) auto
        then obtain c where "m \<le> c" "c < length zs" "zs ! c = ws ! b"
          by (auto simp: in_set_drop)
        then show ?thesis using IH(4) [OF ab(1) am, of c] am IH(1) low by simp
      qed
    qed
    then show ?thesis unfolding e using W tf by auto
  next
    case False
    then have "from = Suc m" using Suc.prems by simp
    then show ?thesis by auto
  qed
qed simp

lemma exch_sort_props:
  assumes "from \<le> length xs"
  shows "length (exch_sort key from xs) = length xs" "mset (exch_sort key from xs) = mset xs"
    "take from (exch_sort key from xs) = take from xs" "sorted (map key (drop from (exch_sort key from xs)))"
proof -
  have P: "length ys = length xs \<and> mset ys = mset xs \<and> take from ys = take from xs \<and>
    (\<forall>a b. from \<le> a \<and> a < length xs \<and> a < b \<and> b < length xs \<longrightarrow> key (ys ! a) \<le> key (ys ! b))"
    if "ys = exch_sort key from xs" for ys
    using exch_outer [OF assms order_refl, of ys key] that by (simp add: exch_sort_def Let_def)
  show "length (exch_sort key from xs) = length xs" "mset (exch_sort key from xs) = mset xs"
    "take from (exch_sort key from xs) = take from xs" using P [OF refl] by auto
  show "sorted (map key (drop from (exch_sort key from xs)))"
    unfolding sorted_wrt_iff_nth_less length_map length_drop
  proof (intro allI impI)
    fix i j assume ij: "i < j" "j < length (exch_sort key from xs) - from"
    have "\<And>a b. from \<le> a \<Longrightarrow> a < length xs \<Longrightarrow> a < b \<Longrightarrow> b < length xs \<Longrightarrow>
        key (exch_sort key from xs ! a) \<le> key (exch_sort key from xs ! b)"
      and "length (exch_sort key from xs) = length xs"
      using P [OF refl] by blast+
    with ij show "map key (drop from (exch_sort key from xs)) ! i \<le> map key (drop from (exch_sort key from xs)) ! j"
      by simp
  qed
qed

lemma exch_sort_tail:
  "\<exists>ys. exch_sort key 1 (x # xs) = x # ys \<and> mset ys = mset xs \<and> sorted (map key ys)"
proof -
  have l: "1 \<le> length (x # xs)" by simp
  note P = exch_sort_props [OF l, of key]
  obtain y ys where ys: "exch_sort key 1 (x # xs) = y # ys"
    using P(1) by (cases "exch_sort key 1 (x # xs)") auto
  moreover have "y = x" using P(3) by (simp add: ys [simplified])
  ultimately show ?thesis using P(2,4) by (simp add: ys)
qed

text \<open>The loop sorts what follows the null header.\<close>

interpretation exch: qsort_impl "sh_addr \<circ> fst" "\<lambda>xs. tl (exch_sort (sh_addr \<circ> fst) 1 (x # xs))" for x :: "shdr \<times> bool"
proof
  fix xs :: "(shdr \<times> bool) list"
  show "mset (tl (exch_sort (sh_addr \<circ> fst) 1 (x # xs))) = mset xs"
    "sorted (map (sh_addr \<circ> fst) (tl (exch_sort (sh_addr \<circ> fst) 1 (x # xs))))"
    using exch_sort_tail [of "sh_addr \<circ> fst" x xs] by auto
qed

section \<open>Sizes\<close>

text \<open>A header whose contents lie inside an image of \<open>N\<close> bytes; only the string table that follows the
  image is not allocated.\<close>

definition hdr_ok :: "nat \<Rightarrow> shdr \<Rightarrow> bool" where
  "hdr_ok N s \<longleftrightarrow> sh_offset s = sh_addr s \<and> unat (sh_addr s) + unat (sh_size s) \<le> N \<and>
     (\<not> is_alloc s \<longrightarrow> unat (sh_addr s) = N)"

lemma hdr_ok_size [simp]:
  "is_alloc (s\<lparr>sh_size := z\<rparr>) = is_alloc s" "is_alloc (s\<lparr>sh_link := l\<rparr>) = is_alloc s"
  by (simp_all add: is_alloc_def)

lemma unat_sub_le: "a \<le> b \<Longrightarrow> unat (b - a) = unat b - unat (a :: 'a::len word)"
  by (simp add: unat_sub)

lemma gap_sizes_ok:
  assumes "sorted (map (sh_addr \<circ> fst) hs)" "\<forall>h \<in> set hs. hdr_ok (unat isz) (fst h)"
  shows "map sh_addr (gap_sizes isz hs) = map (sh_addr \<circ> fst) hs \<and> list_all (hdr_ok (unat isz)) (gap_sizes isz hs)"
  using assms
proof (induction hs)
  case (Cons h hs)
  obtain s g where h: "h = (s, g)" by force
  have s: "hdr_ok (unat isz) s" "sh_addr s \<le> isz"
    using Cons.prems(2) h by (auto simp: hdr_ok_def word_le_nat_alt)
  have nx: "sh_addr s \<le> nx \<Longrightarrow> nx \<le> isz \<Longrightarrow> hdr_ok (unat isz) (s\<lparr>sh_size := nx - sh_addr s\<rparr>)" for nx
    using s(1) by (auto simp: hdr_ok_def unat_sub_le word_le_nat_alt)
  show ?case
  proof (cases hs)
    case Nil
    then show ?thesis using h s nx [of isz] by (simp add: Let_def)
  next
    case (Cons h' hs')
    then have "sh_addr s \<le> sh_addr (fst h')" "sh_addr (fst h') \<le> isz"
      using Cons.prems h by (auto simp: hdr_ok_def word_le_nat_alt)
    then show ?thesis
      using Cons.IH Cons.prems h s nx [of isz] nx [of "sh_addr (fst h')"] Cons
      by (auto simp: Let_def split: prod.splits)
  qed
qed simp

definition no_overlap :: "shdr \<Rightarrow> shdr \<Rightarrow> bool" where
  "no_overlap s t \<longleftrightarrow> (is_alloc s \<and> is_alloc t \<longrightarrow> unat (sh_offset s) + unat (sh_size s) \<le> unat (sh_offset t))"

lemma clamp_sizes_ok:
  assumes "sorted (map sh_addr hs)" "list_all (hdr_ok (unat isz)) hs"
  shows "map sh_addr (clamp_sizes isz hs) = map sh_addr hs \<and> list_all (hdr_ok (unat isz)) (clamp_sizes isz hs) \<and>
    sorted_wrt no_overlap (clamp_sizes isz hs)"
  using assms
proof (induction hs)
  case (Cons s hs)
  let ?N = "unat isz"
  have s: "hdr_ok ?N s" "\<forall>t \<in> set hs. sh_addr s \<le> sh_addr t" "list_all (hdr_ok ?N) hs" "sorted (map sh_addr hs)"
    using Cons.prems by auto
  define lim where "lim = (case hs of [] \<Rightarrow> isz | s' # _ \<Rightarrow> if is_alloc s' then sh_offset s' else isz)"
  define s' where "s' = (if is_alloc s \<and> sh_offset s + sh_size s > lim \<and> lim \<ge> sh_offset s
    then s\<lparr>sh_size := lim - sh_offset s\<rparr> else s)"
  have IH: "map sh_addr (clamp_sizes isz hs) = map sh_addr hs" "list_all (hdr_ok ?N) (clamp_sizes isz hs)"
    "sorted_wrt no_overlap (clamp_sizes isz hs)"
    using Cons.IH s(3,4) by auto
  have lim: "sh_offset s \<le> lim" "unat lim \<le> ?N"
    using s by (cases hs; auto simp: lim_def hdr_ok_def word_le_nat_alt)+
  have nowrap: "unat (sh_offset s + sh_size s) = unat (sh_offset s) + unat (sh_size s)"
    using s(1) unsigned_less [of isz, where 'a = nat] by (simp add: hdr_ok_def unat_word_ariths)
  have s': "hdr_ok ?N s'" "is_alloc s \<Longrightarrow> unat (sh_offset s') + unat (sh_size s') \<le> unat lim"
    "sh_addr s' = sh_addr s" "is_alloc s' = is_alloc s" "sh_offset s' = sh_offset s"
    using s(1) lim nowrap by (auto simp: s'_def hdr_ok_def unat_sub_le word_le_nat_alt word_less_nat_alt)
  have after: "no_overlap s' t" if t: "t \<in> set (clamp_sizes isz hs)" for t
  proof (cases "is_alloc s \<and> is_alloc t")
    case True
    obtain u where u: "u \<in> set hs" "sh_addr u = sh_addr t"
      using t IH(1) by (metis (no_types, lifting) imageE imageI list.set_map)
    have ot: "sh_offset t = sh_addr t" using IH(2) t by (auto simp: list_all_iff hdr_ok_def)
    obtain v hs' where hs: "hs = v # hs'" using u(1) by (cases hs) auto
    have "sh_addr v \<le> sh_addr t" using u hs s(4) by auto
    then have "unat lim \<le> unat (sh_offset t)"
      using s(3) ot by (auto simp: hs lim_def hdr_ok_def word_le_nat_alt)
    then show ?thesis using s'(2) True by (simp add: no_overlap_def)
  qed (use s'(4) in \<open>auto simp: no_overlap_def\<close>)
  have "clamp_sizes isz (s # hs) = s' # clamp_sizes isz hs"
    by (simp add: Let_def s'_def lim_def)
  then show ?case using IH s' after by simp
qed simp

section \<open>Building the table\<close>

definition shstr_at :: "string \<Rightarrow> u32 \<Rightarrow> string" where
  "shstr_at tab off = takeWhile (\<lambda>c. c \<noteq> NUL) (drop (unat off) tab)"

text \<open>A build in progress with at most \<open>k\<close> headers, the first of them the null header: names resolve, no
  limit has been hit, and the metadata lies inside the image.\<close>

definition build_ok :: "nat \<Rightarrow> nat \<Rightarrow> string list \<Rightarrow> shbuild \<Rightarrow> bool" where
  "build_ok N k names b \<longleftrightarrow> hdrs b \<noteq> [] \<and> length (hdrs b) \<le> k \<and> length (shstr b) \<le> 1 + 12 * k \<and>
     map (\<lambda>h. shstr_at (shstr b) (sh_nm (fst h))) (hdrs b) = names \<and>
     list_all (\<lambda>h. NUL \<in> set (drop (unat (sh_nm (fst h))) (shstr b))) (hdrs b) \<and>
     list_all (\<lambda>h. hdr_ok N (fst h)) (tl (hdrs b))"

definition blank_hdr :: "u32 \<Rightarrow> u32 \<Rightarrow> u64 \<Rightarrow> shdr" where
  "blank_hdr nm typ flags = \<lparr>sh_nm = nm, sh_type = typ, sh_flags = flags, sh_addr = 0, sh_offset = 0,
     sh_size = 0, sh_link = 0, sh_addralign = 0, sh_entsize = 0\<rparr>"

lemma shstr_at_append:
  assumes "NUL \<in> set (drop (unat off) tab)"
  shows "shstr_at (tab @ ext) off = shstr_at tab off" "NUL \<in> set (drop (unat off) (tab @ ext))"
  using assms by (auto simp: shstr_at_def takeWhile_append1)

lemma sh_add_ok:
  assumes b: "build_ok N k names b" and k: "k < DUMP_MAX_SHDRS" and name: "length name \<le> 11" "NUL \<notin> set name"
    and fill: "\<And>nm. hdr_ok N (fill (blank_hdr nm typ flags)) \<and> sh_nm (fill (blank_hdr nm typ flags)) = nm"
  shows "build_ok N (Suc k) (names @ [name]) (sh_add b name typ flags fill g)"
proof -
  let ?tab = "shstr b" and ?off = "of_nat (length (shstr b)) :: u32"
  have bk: "hdrs b \<noteq> []" "length (hdrs b) \<le> k" "length ?tab \<le> 1 + 12 * k"
    "map (\<lambda>h. shstr_at ?tab (sh_nm (fst h))) (hdrs b) = names"
    "\<And>h. h \<in> set (hdrs b) \<Longrightarrow> NUL \<in> set (drop (unat (sh_nm (fst h))) ?tab)"
    "list_all (\<lambda>h. hdr_ok N (fst h)) (tl (hdrs b))"
    using b by (auto simp: build_ok_def list_all_iff)
  have off: "unat ?off = length ?tab" using bk(3) k by (simp add: unat_of_nat take_bit_nat_eq_self)
  have add: "sh_add b name typ flags fill g =
      \<lparr>hdrs = hdrs b @ [(fill (blank_hdr ?off typ flags), g)], shstr = ?tab @ name @ [NUL]\<rparr>"
    using bk(2,3) k name(1) by (simp add: sh_add_def sh_name_def Let_def blank_hdr_def)
  have old: "map (\<lambda>h. shstr_at (?tab @ name @ [NUL]) (sh_nm (fst h))) (hdrs b) = names"
    unfolding bk(4) [symmetric] by (rule map_cong [OF refl]) (rule shstr_at_append(1) [OF bk(5)])
  have new: "shstr_at (?tab @ name @ [NUL]) ?off = name"
    using off name(2) by (auto simp: shstr_at_def takeWhile_tail intro!: trans [OF takeWhile_append2])
  show ?thesis
    unfolding build_ok_def add using bk fill off old new name(1) shstr_at_append(2) [OF bk(5)]
    by (auto simp: list_all_iff)
qed

lemma build_ok_mono: "build_ok N k names b \<Longrightarrow> build_ok N (Suc k) names b"
  by (auto simp: build_ok_def)

definition spec_name :: "section_spec \<Rightarrow> string" where
  "spec_name = (\<lambda>(p, name, _). name)"

definition spec_present :: "section_spec \<Rightarrow> bool" where
  "spec_present = (\<lambda>(p, _). p \<noteq> 0)"

definition spec_ok :: "nat \<Rightarrow> section_spec \<Rightarrow> bool" where
  "spec_ok N = (\<lambda>(p, name, typ, flags, fill, g). length name \<le> 11 \<and> NUL \<notin> set name \<and>
     (p \<noteq> 0 \<longrightarrow> (\<forall>nm. hdr_ok N (fill (blank_hdr nm typ flags)) \<and> sh_nm (fill (blank_hdr nm typ flags)) = nm)))"

lemma add_sections_ok:
  assumes "build_ok N k names b" "list_all (spec_ok N) specs" "k + length specs \<le> DUMP_MAX_SHDRS"
  shows "build_ok N (k + length specs) (names @ map spec_name (filter spec_present specs)) (foldl add_section b specs)"
  using assms
proof (induction specs arbitrary: k names b)
  case (Cons sp specs)
  obtain p name ty flags fill g where sp: "sp = (p, name, ty, flags, fill, g)" by (cases sp)
  show ?case
  proof (cases "p = 0")
    case True
    then show ?thesis
      using Cons.IH [OF build_ok_mono [OF Cons.prems(1)]] Cons.prems(2,3) by (simp add: sp spec_present_def)
  next
    case False
    then have "build_ok N (Suc k) (names @ [name]) (sh_add b name ty flags fill g)"
      using Cons.prems by (intro sh_add_ok) (auto simp: sp spec_ok_def)
    from Cons.IH [OF this] show ?thesis
      using False Cons.prems(2,3) by (simp add: sp spec_present_def spec_name_def)
  qed
qed simp

text \<open>The metadata the dynamic information describes lies inside an image of \<open>N\<close> bytes.\<close>

definition metadata_inside :: "nat \<Rightarrow> soinfo \<Rightarrow> bool" where
  "metadata_inside N si \<longleftrightarrow> list_all (\<lambda>(p, name, typ, flags, fill, g). p \<noteq> 0 \<longrightarrow>
     unat (sh_addr (fill (blank_hdr 0 typ flags))) + unat (sh_size (fill (blank_hdr 0 typ flags))) \<le> N)
     (dyn_sections si)"

lemma dyn_sections_ok: "metadata_inside N si \<Longrightarrow> list_all (spec_ok N) (dyn_sections si)"
  by (simp add: metadata_inside_def dyn_sections_def spec_ok_def placed_def hdr_ok_def blank_hdr_def
      is_alloc_def)

lemma md_end_le:
  assumes "list_all (\<lambda>h. hdr_ok (unat isz) (fst h)) hs"
  shows "unat (md_end sel hs) \<le> unat (isz :: u64)"
proof -
  have "unat (foldl (\<lambda>e (s, _). if sel s \<and> sh_addr s + sh_size s > e then sh_addr s + sh_size s else e) e hs) \<le> unat isz"
    if "unat e \<le> unat isz" for e
    using assms that
  proof (induction hs arbitrary: e)
    case (Cons h hs)
    obtain s g where h: "h = (s, g)" by force
    have "unat (sh_addr s + sh_size s) \<le> unat isz"
      using Cons.prems(1) h unsigned_less [of isz, where 'a = nat] by (simp add: hdr_ok_def unat_word_ariths)
    then show ?case using Cons h by simp
  qed simp
  then show ?thesis by (simp add: md_end_def)
qed

lemma shdrs_synthetic_ok:
  assumes "build_ok (unat isz) k names b" "k + 3 \<le> DUMP_MAX_SHDRS"
  shows "build_ok (unat isz) (k + 3) (names @ [''.text'', ''.data'', ''.shstrtab'']) (shdrs_synthetic b isz)"
proof -
  have md: "unat (md_end sel (tl (hdrs b))) \<le> unat isz" for sel
    using assms(1) by (intro md_end_le) (simp add: build_ok_def)
  have f: "hdr_ok (unat isz) (placed a 0 x y (blank_hdr nm ty flags)) \<and> sh_nm (placed a 0 x y (blank_hdr nm ty flags)) = nm"
    if "unat a \<le> unat isz" "flags AND SHF_ALLOC \<noteq> 0 \<or> a = isz" for a x y nm ty flags
    using that by (auto simp: hdr_ok_def placed_def blank_hdr_def is_alloc_def)
  define wr where "wr = md_end is_write (tl (hdrs b))"
  define ro where "ro = md_end (\<lambda>s. \<not> is_write s \<and> is_alloc s) (tl (hdrs b))"
  define b1 where "b1 = sh_add b ''.text'' SHT_PROGBITS (SHF_ALLOC OR SHF_EXECINSTR) (placed ro 0 16 0) True"
  define b2 where "b2 = sh_add b1 ''.data'' SHT_PROGBITS (SHF_ALLOC OR SHF_WRITE)
     (placed (if wr \<noteq> 0 then wr else ro) 0 8 0) True"
  have 1: "build_ok (unat isz) (Suc k) (names @ [''.text'']) b1"
    unfolding b1_def using assms(2) md by (intro sh_add_ok [OF assms(1)] f) (auto simp: ro_def)
  have 2: "build_ok (unat isz) (Suc (Suc k)) ((names @ [''.text'']) @ [''.data'']) b2"
    unfolding b2_def using assms md by (intro sh_add_ok [OF 1] f) (auto simp: ro_def wr_def)
  have 3: "build_ok (unat isz) (Suc (Suc (Suc k))) (((names @ [''.text'']) @ [''.data'']) @ [''.shstrtab''])
      (sh_add b2 ''.shstrtab'' SHT_STRTAB 0 (placed isz 0 1 0) False)"
    using assms by (intro sh_add_ok [OF 2] f) auto
  have "shdrs_synthetic b isz = sh_add b2 ''.shstrtab'' SHT_STRTAB 0 (placed isz 0 1 0) False"
    by (simp add: shdrs_synthetic_def Let_def b2_def b1_def ro_def wr_def)
  then show ?thesis using 3 by (simp add: numeral_3_eq_3)
qed

lemma sh_nm_layout [simp]:
  "map sh_nm (gap_sizes isz hs) = map (sh_nm \<circ> fst) hs"
  "map sh_nm (clamp_sizes isz ss) = map sh_nm ss"
  by (induction hs rule: gap_sizes.induct) (simp_all add: Let_def, induction ss rule: clamp_sizes.induct, simp_all add: Let_def)

lemma link_hdr_sel [simp]:
  "sh_nm (link_hdr i j s) = sh_nm s" "sh_addr (link_hdr i j s) = sh_addr s"
  "sh_offset (link_hdr i j s) = sh_offset s" "sh_size (link_hdr i j s) = sh_size s"
  "is_alloc (link_hdr i j s) = is_alloc s" "sh_type (link_hdr i j s) = sh_type s"
  by (simp_all add: link_hdr_def is_alloc_def)

lemma link_hdr_ok [simp]:
  "hdr_ok N (link_hdr i j s) = hdr_ok N s" "no_overlap (link_hdr i j s) (link_hdr i j t) = no_overlap s t"
  by (simp_all add: hdr_ok_def no_overlap_def)

lemma shdrs_layout_ok:
  assumes "hs = h0 # body" "list_all (\<lambda>h. hdr_ok (unat isz) (fst h)) body"
  shows "\<exists>rest. shdrs_layout hs isz = fst h0 # rest \<and> sorted (map sh_addr rest) \<and>
    list_all (hdr_ok (unat isz)) rest \<and> sorted_wrt no_overlap rest \<and>
    mset (map sh_nm rest) = mset (map (sh_nm \<circ> fst) body)"
proof -
  obtain ys where ys: "exch_sort (sh_addr \<circ> fst) 1 hs = h0 # ys" "mset ys = mset body"
    "sorted (map (sh_addr \<circ> fst) ys)"
    using exch_sort_tail [of "sh_addr \<circ> fst" h0 body] assms(1) by blast
  have "\<forall>h \<in> set ys. hdr_ok (unat isz) (fst h)"
    using assms(2) mset_eq_setD [OF ys(2)] by (simp add: list_all_iff)
  note g = gap_sizes_ok [OF ys(3) this]
  have c: "map sh_addr (clamp_sizes isz (gap_sizes isz ys)) = map (sh_addr \<circ> fst) ys"
    "list_all (hdr_ok (unat isz)) (clamp_sizes isz (gap_sizes isz ys))"
    "sorted_wrt no_overlap (clamp_sizes isz (gap_sizes isz ys))"
    using clamp_sizes_ok [of "gap_sizes isz ys" isz] g ys(3) by auto
  have nm: "mset (map (sh_nm \<circ> fst) ys) = mset (map (sh_nm \<circ> fst) body)"
    using ys(2) by simp
  define cs where "cs = clamp_sizes isz (gap_sizes isz ys)"
  define rest where "rest = map (link_hdr (last_index (\<lambda>s. sh_type s = SHT_DYNSYM) (fst h0 # cs))
    (last_index (\<lambda>s. sh_type s \<noteq> SHT_DYNSYM \<and> sh_type s = SHT_STRTAB \<and> is_alloc s) (fst h0 # cs))) cs"
  have eq: "map sh_addr rest = map (sh_addr \<circ> fst) ys" "map sh_nm rest = map (sh_nm \<circ> fst) ys"
    using c(1) sh_nm_layout by (simp_all add: rest_def cs_def comp_def)
  have "shdrs_layout hs isz = fst h0 # rest"
    by (simp add: shdrs_layout_def ys(1) [simplified] Let_def rest_def cs_def)
  moreover have "list_all (hdr_ok (unat isz)) rest" "sorted_wrt no_overlap rest"
    using c(2,3) by (simp_all add: rest_def sorted_wrt_map list_all_iff flip: cs_def)
  moreover have "sorted (map sh_addr rest)" unfolding eq(1) by (rule ys(3))
  moreover have "mset (map sh_nm rest) = mset (map (sh_nm \<circ> fst) body)" unfolding eq(2) by (rule nm)
  ultimately show ?thesis by blast
qed

definition section_names :: "soinfo \<Rightarrow> string list" where
  "section_names si = '''' # map spec_name (filter spec_present (dyn_sections si)) @ [''.text'', ''.data'', ''.shstrtab'']"

lemma build_ok_start: "build_ok N 1 [''''] (sh_add \<lparr>hdrs = [], shstr = [NUL]\<rparr> '''' SHT_NULL 0 id False)"
  by (simp add: build_ok_def sh_add_def sh_name_def shstr_at_def)

lemma build_shdrs_ok:
  assumes "metadata_inside (unat isz) si"
  shows "\<exists>h0 rest tab. build_shdrs si isz = (h0 # rest, tab) \<and> length rest < 14 \<and> length tab \<le> 1024 \<and>
    sorted (map sh_addr rest) \<and> list_all (hdr_ok (unat isz)) rest \<and> sorted_wrt no_overlap rest \<and>
    mset (map (\<lambda>s. shstr_at tab (sh_nm s)) (h0 # rest)) = mset (section_names si)"
proof -
  define b where "b = shdrs_synthetic (shdrs_dynamic si) isz"
  have l: "length (dyn_sections si) = 10" by (simp add: dyn_sections_def)
  have "build_ok (unat isz) 11 ('''' # map spec_name (filter spec_present (dyn_sections si))) (shdrs_dynamic si)"
    using add_sections_ok [OF build_ok_start dyn_sections_ok [OF assms]] l by (simp add: shdrs_dynamic_def)
  from shdrs_synthetic_ok [OF this]
  have b: "build_ok (unat isz) 14 (section_names si) b" by (simp add: section_names_def b_def)
  then obtain h0 body where hb: "hdrs b = h0 # body" by (cases "hdrs b") (auto simp: build_ok_def)
  have body: "list_all (\<lambda>h. hdr_ok (unat isz) (fst h)) body" using b hb by (simp add: build_ok_def)
  obtain rest where r: "shdrs_layout (hdrs b) isz = fst h0 # rest" "sorted (map sh_addr rest)"
    "list_all (hdr_ok (unat isz)) rest" "sorted_wrt no_overlap rest"
    "mset (map sh_nm rest) = mset (map (sh_nm \<circ> fst) body)"
    using shdrs_layout_ok [OF hb body] by blast
  have nm: "map (\<lambda>h. shstr_at (shstr b) (sh_nm (fst h))) (h0 # body) = section_names si"
    and len: "length (h0 # body) \<le> 14" "length (shstr b) \<le> 1 + 12 * 14"
    using b hb by (auto simp: build_ok_def)
  have lr: "length rest = length body" using arg_cong [OF r(5), of size] by simp
  have "mset (map (\<lambda>s. shstr_at (shstr b) (sh_nm s)) rest) = image_mset (shstr_at (shstr b)) (mset (map sh_nm rest))"
    by (simp add: comp_def multiset.map_comp)
  also have "\<dots> = mset (map (\<lambda>h. shstr_at (shstr b) (sh_nm (fst h))) body)"
    unfolding r(5) by (simp add: comp_def multiset.map_comp)
  finally have "mset (map (\<lambda>s. shstr_at (shstr b) (sh_nm s)) (fst h0 # rest)) = mset (section_names si)"
    using nm by (simp flip: nm)
  then show ?thesis
    using r lr len by (auto simp: build_shdrs_def Let_def simp flip: b_def)
qed



end
