(* ===== verification/Dump_One.thy ===== *)
theory Dump_One
  imports Dump_Check Rebuild_Shdr
begin

unbundle bit_operations_syntax

text \<open>
  \<open>src/src/dump/rebuild.c\<close>, \<open>dump_one\<close> and \<open>write_file\<close>: capturing a module from memory, rewriting its
  program headers so that the file mirrors memory, rebuilding the dynamic information and the section
  headers, and assembling the file.

  \<^item> the program-header table is the byte buffer \<open>ph\<close>, entry \<open>i\<close> at \<open>i * e_phentsize\<close>; an entry is changed
    by writing the record back;
  \<^item> \<open>alloc_ok\<close> says which sizes the allocator grants, \<open>pread\<close> and \<open>wr\<close> are the kernel (\<open>wr pos left\<close> is how
    many of the \<open>left\<close> bytes at \<open>pos\<close> a \<open>write\<close> takes, \<open>None\<close> an error);
  \<^item> the result of \<open>dump_one\<close> is the covered end address and the bytes of the file, \<open>Rc_err\<close> where it
    returns -1. The messages, the file name and the manifest record are left out.
\<close>

section \<open>Program headers\<close>

definition phdr_bytes :: "phdr \<Rightarrow> bytes" where
  "phdr_bytes p = le_bytes 4 (p_type p) @ le_bytes 4 (p_flags p) @ le_bytes 8 (p_offset p) @ le_bytes 8 (p_vaddr p) @
     le_bytes 8 (p_paddr p) @ le_bytes 8 (p_filesz p) @ le_bytes 8 (p_memsz p) @ le_bytes 8 (p_align p)"

definition ph_get :: "bytes \<Rightarrow> nat \<Rightarrow> nat \<Rightarrow> phdr option" where
  "ph_get ph ent i = map_option phdr_of (load_bytes ph (i * ent) 56)"

definition ph_put :: "bytes \<Rightarrow> nat \<Rightarrow> nat \<Rightarrow> phdr \<Rightarrow> bytes option" where
  "ph_put ph ent i p = store_bytes ph (i * ent) (phdr_bytes p)"

text \<open>The loaded size and the dynamic segment.\<close>

definition scan_phdr :: "u64 \<times> u64 \<times> u64 \<Rightarrow> phdr \<Rightarrow> u64 \<times> u64 \<times> u64" where
  "scan_phdr = (\<lambda>(image_sz, dyn_off, dyn_size) p.
     (if p_type p = PT_LOAD then
        (if p_vaddr p + p_memsz p > image_sz then p_vaddr p + p_memsz p else image_sz, dyn_off, dyn_size)
      else if p_type p = PT_DYNAMIC then (image_sz, p_vaddr p, p_memsz p)
      else (image_sz, dyn_off, dyn_size)))"

fun scan_phdrs :: "bytes \<Rightarrow> nat \<Rightarrow> nat list \<Rightarrow> u64 \<times> u64 \<times> u64 \<Rightarrow> (u64 \<times> u64 \<times> u64) option" where
  "scan_phdrs ph ent [] acc = Some acc"
| "scan_phdrs ph ent (i # is) acc = do { p \<leftarrow> ph_get ph ent i; scan_phdrs ph ent is (scan_phdr acc p) }"

abbreviation DUMP_PAGE :: u64 where "DUMP_PAGE \<equiv> 0x1000"
abbreviation DUMP_MAX_IMAGE :: u64 where "DUMP_MAX_IMAGE \<equiv> 0x20000000"

definition round_image :: "u64 \<Rightarrow> u64" where
  "round_image image_sz = (image_sz + DUMP_PAGE - 1) AND NOT (DUMP_PAGE - 1)"

text \<open>The start of the next loadable segment above \<open>v\<close>, or the end of the image.\<close>

fun next_load :: "bytes \<Rightarrow> nat \<Rightarrow> nat list \<Rightarrow> u64 \<Rightarrow> u64 \<Rightarrow> u64 option" where
  "next_load ph ent [] v nx = Some nx"
| "next_load ph ent (j # js) v nx = do {
     q \<leftarrow> ph_get ph ent j;
     next_load ph ent js v (if p_type q = PT_LOAD \<and> p_vaddr q > v \<and> p_vaddr q < nx then p_vaddr q else nx)
   }"

fun fix_phdrs :: "nat \<Rightarrow> nat \<Rightarrow> u64 \<Rightarrow> nat list \<Rightarrow> bytes \<Rightarrow> bytes option" where
  "fix_phdrs ent phnum image_sz [] ph = Some ph"
| "fix_phdrs ent phnum image_sz (i # is) ph = do {
     p \<leftarrow> ph_get ph ent i;
     p \<leftarrow> (if p_type p = PT_LOAD then do {
             nx \<leftarrow> next_load ph ent [0..<phnum] (p_vaddr p) image_sz;
             Some (p\<lparr>p_memsz := nx - p_vaddr p\<rparr>)
           } else Some p);
     ph \<leftarrow> ph_put ph ent i (p\<lparr>p_filesz := p_memsz p, p_paddr := p_vaddr p, p_offset := p_vaddr p\<rparr>);
     fix_phdrs ent phnum image_sz is ph
   }"

definition install_phdrs :: "bytes \<Rightarrow> u64 \<Rightarrow> bytes \<Rightarrow> bytes option" where
  "install_phdrs img phoff ph =
     (if phoff + of_nat (length ph) \<le> of_nat (length img) then store_bytes img (unat phoff) ph else Some img)"

section \<open>Assembling the file\<close>

definition shdr_bytes :: "shdr \<Rightarrow> bytes" where
  "shdr_bytes s = le_bytes 4 (sh_nm s) @ le_bytes 4 (sh_type s) @ le_bytes 8 (sh_flags s) @ le_bytes 8 (sh_addr s) @
     le_bytes 8 (sh_offset s) @ le_bytes 8 (sh_size s) @ le_bytes 4 (sh_link s) @ le_bytes 4 (0 :: u32) @
     le_bytes 8 (sh_addralign s) @ le_bytes 8 (sh_entsize s)"

definition is_shstrtab :: "shdr \<Rightarrow> bool" where
  "is_shstrtab s \<longleftrightarrow> sh_type s = SHT_STRTAB \<and> sh_flags s = 0"

text \<open>The file is the image, the section names and the 8-aligned section headers.\<close>

definition shdr_offset :: "nat \<Rightarrow> nat \<Rightarrow> nat \<Rightarrow> u64" where
  "shdr_offset image_sz strn n = (if n \<noteq> 0 then (of_nat image_sz + of_nat strn + 7) AND NOT 7 else 0)"

definition dump_total :: "nat \<Rightarrow> nat \<Rightarrow> nat \<Rightarrow> u64" where
  "dump_total image_sz strn n = (if n \<noteq> 0 then shdr_offset image_sz strn n + of_nat n * 64 else of_nat image_sz)"

definition dump_assemble :: "bytes \<Rightarrow> bytes \<Rightarrow> shdr list \<Rightarrow> string \<Rightarrow> bytes option" where
  "dump_assemble eh img sh tab = do {
     let n = length sh;
     let shstr_off = (of_nat (length img) :: u64);
     let shdr_off = shdr_offset (length img) (length tab) n;
     let out = replicate (unat (dump_total (length img) (length tab) n)) 0;
     out \<leftarrow> store_bytes out 0 img;
     out \<leftarrow> store_bytes out 0 eh;
     out \<leftarrow> store_le 2 out 16 (3 :: u16);
     (if n \<noteq> 0 then do {
        let sh' = map (\<lambda>s. if is_shstrtab s then s\<lparr>sh_offset := shstr_off, sh_size := of_nat (length tab)\<rparr> else s) sh;
        out \<leftarrow> foldl (\<lambda>o1 i. if is_shstrtab (sh ! i) then Option.bind o1 (\<lambda>out. store_le 2 out 62 (of_nat i :: u16)) else o1)
                 (Some out) [0..<n];
        out \<leftarrow> store_bytes out (unat shstr_off) (map (\<lambda>c. of_nat (of_char c)) tab);
        out \<leftarrow> store_bytes out (unat shdr_off) (concat (map shdr_bytes sh'));
        out \<leftarrow> store_le 8 out 40 shdr_off;
        out \<leftarrow> store_le 2 out 60 (of_nat n :: u16);
        store_le 2 out 58 (64 :: u16)
      }
      else do {
        out \<leftarrow> store_le 8 out 40 (0 :: u64);
        out \<leftarrow> store_le 2 out 60 (0 :: u16);
        store_le 2 out 62 (0 :: u16)
      })
   }"

text \<open>The write loop: the bytes the file holds afterwards, or failure.\<close>

function write_loop :: "(nat \<Rightarrow> nat \<Rightarrow> nat option) \<Rightarrow> bytes \<Rightarrow> bytes \<Rightarrow> bytes rc" where
  "write_loop wr file p =
     (if p = [] then Rc_ok file
      else case wr (length file) (length p) of
          None \<Rightarrow> Rc_err
        | Some w \<Rightarrow> if w = 0 then Rc_err else write_loop wr (file @ take w p) (drop w p))"
  by auto
termination by (relation "measure (\<lambda>(wr, file, p). length p)") auto

definition write_file :: "bool \<Rightarrow> (nat \<Rightarrow> nat \<Rightarrow> nat option) \<Rightarrow> bytes \<Rightarrow> bytes rc" where
  "write_file opens wr buf = (if opens then write_loop wr [] buf else Rc_err)"

section \<open>One module\<close>

text \<open>The rebuild proper, skipped in raw mode.\<close>

definition dump_rebuild :: "bool \<Rightarrow> bytes \<Rightarrow> u64 \<Rightarrow> u64 \<Rightarrow> u64 \<Rightarrow> (bytes \<times> shdr list \<times> string) option" where
  "dump_rebuild raw img base dyn_off dyn_size =
     (if raw then Some (img, [], '''')
      else do {
        (img, si) \<leftarrow> parse_dynamic img base dyn_off dyn_size;
        img \<leftarrow> unapply_relocs img base si;
        let (sh, tab) = build_shdrs si (of_nat (length img));
        Some (img, sh, tab)
      })"

definition dump_one ::
  "(nat \<Rightarrow> bool) \<Rightarrow> (u64 \<Rightarrow> nat \<Rightarrow> bytes option) \<Rightarrow> bool \<Rightarrow> (nat \<Rightarrow> nat \<Rightarrow> nat option) \<Rightarrow> bool \<Rightarrow> u64 \<Rightarrow> (u64 \<times> bytes rc) option" where
  "dump_one alloc_ok pread opens wr raw base = do {
     (eh, got) \<leftarrow> proc_mem_read pread base (replicate 64 0) 64;
     (if got \<noteq> 64 \<or> \<not> elf64_magic eh then Some (0, Rc_err)
      else if \<not> phdrs_usable eh then Some (0, Rc_err)
      else let phnum = unat (e_phnum eh); ent = unat (e_phentsize eh); phsz = phnum * ent in
        if \<not> alloc_ok phsz then Some (0, Rc_err)
        else do {
          (ph, got) \<leftarrow> proc_mem_read pread (base + e_phoff eh) (replicate phsz 0) phsz;
          (if got \<noteq> phsz then Some (0, Rc_err)
           else do {
             (image_sz, dyn_off, dyn_size) \<leftarrow> scan_phdrs ph ent [0..<phnum] (0, 0, 0);
             let image_sz = round_image image_sz;
             (if image_sz = 0 \<or> image_sz > DUMP_MAX_IMAGE then Some (0, Rc_err)
              else let covered = base + image_sz in
                if \<not> alloc_ok (unat image_sz) then Some (covered, Rc_err)
                else do {
                  (img, _) \<leftarrow> proc_mem_read pread base (replicate (unat image_sz) 0) (unat image_sz);
                  ph \<leftarrow> fix_phdrs ent phnum image_sz [0..<phnum] ph;
                  img \<leftarrow> install_phdrs img (e_phoff eh) ph;
                  (img, sh, tab) \<leftarrow> dump_rebuild raw img base dyn_off dyn_size;
                  (if \<not> alloc_ok (unat (dump_total (length img) (length tab) (length sh))) then Some (covered, Rc_err)
                   else do {
                     out \<leftarrow> dump_assemble eh img sh tab;
                     Some (covered, write_file opens wr out)
                   })
                })
           })
        })
   }"

section \<open>Bytes in place\<close>

lemma slice_store_same: "store_bytes b off src = Some b' \<Longrightarrow> take (length src) (drop off b') = src"
  by (auto simp: store_bytes_def split: if_splits)

lemma nth_store:
  assumes "store_bytes b off src = Some b'" "i < off \<or> off + length src \<le> i" "i < length b"
  shows "b' ! i = b ! i"
proof -
  have b': "b' = take off b @ src @ drop (off + length src) b" "length (take off b) = off"
    using assms(1) by (auto simp: store_bytes_def split: if_splits)
  show ?thesis
  proof (cases "i < off")
    case True
    then show ?thesis using b' by (simp add: nth_append)
  next
    case False
    then have "off + length src \<le> i" using assms(2) by simp
    then show ?thesis using b' assms(3) by (auto simp: nth_append)
  qed
qed

lemma slice_store_disj:
  assumes "store_bytes b off src = Some b'" "j + n \<le> off \<or> off + length src \<le> j"
  shows "take n (drop j b') = take n (drop j b)"
  using assms(2) length_store_bytes [OF assms(1)]
  by (intro nth_equalityI) (auto intro!: nth_store [OF assms(1)])

lemma store_bytes_Some: "off + length src \<le> length b \<Longrightarrow> \<exists>b'. store_bytes b off src = Some b' \<and> length b' = length b"
  by (simp add: store_bytes_def)

lemma store_le_Some: "off + n \<le> length b \<Longrightarrow> \<exists>b'. store_le n b off w = Some b' \<and> length b' = length b"
  by (simp add: store_le_def store_bytes_def)

text \<open>A header field read back.\<close>

lemma le_word_field: "le_word (le_bytes n w) = (w :: 'a::len word)" if "LENGTH('a) = 8 * n"
  using le_word_le_bytes [of n w] that by (simp add: take_bit_word_eq_self)

lemma phdr_of_bytes: "phdr_of (phdr_bytes p) = p"
  by (simp add: phdr_of_def phdr_bytes_def le_word_field)

lemma length_phdr_bytes [simp]: "length (phdr_bytes p) = 56"
  by (simp add: phdr_bytes_def)

section \<open>The rewritten program headers\<close>

lemma entry_fits: "i < phnum \<Longrightarrow> 56 \<le> ent \<Longrightarrow> i * ent + 56 \<le> phnum * (ent :: nat)"
proof -
  assume "i < phnum" "56 \<le> ent"
  have "Suc i * ent \<le> phnum * ent" using \<open>i < phnum\<close> by (intro mult_le_mono1) simp
  then show ?thesis using \<open>56 \<le> ent\<close> by simp
qed

lemma entry_disj: "i \<noteq> j \<Longrightarrow> 56 \<le> ent \<Longrightarrow> j * ent + 56 \<le> i * ent \<or> i * ent + 56 \<le> j * (ent :: nat)"
  using entry_fits [of j i ent] entry_fits [of i j ent] by (cases "j < i") auto

lemma ph_get_in: "length ph = phnum * ent \<Longrightarrow> i < phnum \<Longrightarrow> 56 \<le> ent \<Longrightarrow>
    ph_get ph ent i = Some (phdr_of (take 56 (drop (i * ent) ph)))"
  using entry_fits [of i phnum ent] by (simp add: ph_get_def)

lemma ph_put_in:
  assumes "length ph = phnum * ent" "i < phnum" "56 \<le> ent"
  shows "\<exists>ph'. ph_put ph ent i p = Some ph' \<and> length ph' = phnum * ent \<and>
    (\<forall>j<phnum. ph_get ph' ent j = (if j = i then Some p else ph_get ph ent j))"
proof -
  obtain ph' where st: "store_bytes ph (i * ent) (phdr_bytes p) = Some ph'" "length ph' = length ph"
    using store_bytes_Some [of "i * ent" "phdr_bytes p" ph] entry_fits [OF assms(2,3)] assms(1) by auto
  have "ph_get ph' ent j = (if j = i then Some p else ph_get ph ent j)" if "j < phnum" for j
  proof (cases "j = i")
    case True
    then show ?thesis
      using slice_store_same [OF st(1)] st(2) assms by (simp add: ph_get_in phdr_of_bytes)
  next
    case False
    then have "take 56 (drop (j * ent) ph') = take 56 (drop (j * ent) ph)"
      using slice_store_disj [OF st(1)] entry_disj [of i j ent] assms(3) by simp
    then show ?thesis using False st(2) assms that by (simp add: ph_get_in)
  qed
  then show ?thesis using st assms(1) by (auto simp: ph_put_def)
qed

text \<open>The rewritten header of a segment, given all headers of the table.\<close>

definition next_start :: "phdr list \<Rightarrow> u64 \<Rightarrow> u64 \<Rightarrow> u64" where
  "next_start ps v nx = foldl (\<lambda>nx q. if p_type q = PT_LOAD \<and> p_vaddr q > v \<and> p_vaddr q < nx then p_vaddr q else nx) nx ps"

definition fixed_phdr :: "phdr list \<Rightarrow> u64 \<Rightarrow> phdr \<Rightarrow> phdr" where
  "fixed_phdr ps image_sz p =
     (let p = (if p_type p = PT_LOAD then p\<lparr>p_memsz := next_start ps (p_vaddr p) image_sz - p_vaddr p\<rparr> else p)
      in p\<lparr>p_filesz := p_memsz p, p_paddr := p_vaddr p, p_offset := p_vaddr p\<rparr>)"

lemma fixed_phdr_same [simp]: "p_type (fixed_phdr ps s p) = p_type p" "p_vaddr (fixed_phdr ps s p) = p_vaddr p"
  by (simp_all add: fixed_phdr_def Let_def)

lemma next_load_start:
  assumes "\<And>j. j \<in> set js \<Longrightarrow> ph_get ph ent j = Some (f j)"
  shows "next_load ph ent js v nx = Some (next_start (map f js) v nx)"
  using assms by (induction js arbitrary: nx) (auto simp: next_start_def)

lemma next_start_cong:
  assumes "\<And>j. j \<in> set js \<Longrightarrow> p_type (f j) = p_type (g j) \<and> p_vaddr (f j) = p_vaddr (g j)"
  shows "next_start (map f js) v nx = next_start (map g js) v nx"
  using assms by (induction js arbitrary: nx) (auto simp: next_start_def)

lemma fix_phdrs_from:
  assumes len: "length ph = phnum * ent" "56 \<le> ent" and k: "k + length is = phnum" "is = [k..<phnum]"
    and get: "\<And>j. j < phnum \<Longrightarrow> ph_get ph ent j = Some (if j < k then fixed_phdr (map f [0..<phnum]) image_sz (f j) else f j)"
  shows "\<exists>ph'. fix_phdrs ent phnum image_sz is ph = Some ph' \<and> length ph' = phnum * ent \<and>
    (\<forall>j<phnum. ph_get ph' ent j = Some (fixed_phdr (map f [0..<phnum]) image_sz (f j)))"
  using len k get
proof (induction "is" arbitrary: ph k)
  case Nil
  then show ?case by simp
next
  case (Cons i js)
  let ?ps = "map f [0..<phnum]"
  have i: "i = k" "k < phnum" "js = [Suc k..<phnum]" using Cons.prems(4) by (cases "k < phnum"; simp add: upt_conv_Cons)+
  have g: "ph_get ph ent k = Some (f k)" using Cons.prems(5) i by simp
  have nx: "next_load ph ent [0..<phnum] v nx = Some (next_start ?ps v nx)" for v nx
  proof -
    have "next_load ph ent [0..<phnum] v nx =
        Some (next_start (map (\<lambda>j. if j < k then fixed_phdr ?ps image_sz (f j) else f j) [0..<phnum]) v nx)"
      using Cons.prems(5) by (intro next_load_start) auto
    also have "next_start (map (\<lambda>j. if j < k then fixed_phdr ?ps image_sz (f j) else f j) [0..<phnum]) v nx = next_start ?ps v nx"
      by (intro next_start_cong) auto
    finally show ?thesis .
  qed
  obtain ph1 where ph1: "ph_put ph ent k (fixed_phdr ?ps image_sz (f k)) = Some ph1" "length ph1 = phnum * ent"
    "\<And>j. j < phnum \<Longrightarrow> ph_get ph1 ent j = (if j = k then Some (fixed_phdr ?ps image_sz (f k)) else ph_get ph ent j)"
    using ph_put_in [OF Cons.prems(1) i(2) Cons.prems(2)] by blast
  have step: "fix_phdrs ent phnum image_sz (i # js) ph = fix_phdrs ent phnum image_sz js ph1"
    using ph1(1) g nx by (simp add: i(1) fixed_phdr_def Let_def split: if_splits)
  have "ph_get ph1 ent j = Some (if j < Suc k then fixed_phdr ?ps image_sz (f j) else f j)" if "j < phnum" for j
    using ph1(3) [OF that] Cons.prems(5) [OF that] by auto
  then show ?case
    unfolding step using Cons.IH [OF ph1(2) Cons.prems(2), of "Suc k"] Cons.prems(3) i(3) by auto
qed

section \<open>The assembled file\<close>

lemma unat_and_not_mask:
  fixes x :: u64
  assumes "n < 64"
  shows "unat (x AND NOT (mask n)) = unat x div 2 ^ n * 2 ^ n"
proof -
  have "x AND NOT (mask n) = push_bit n (drop_bit n x)"
    by (rule bit_word_eqI) (auto simp: bit_simps)
  moreover have "(2 :: nat) ^ n < 2 ^ 64" using assms by (intro power_strict_increasing) auto
  then have p: "unat (2 ^ n :: u64) = 2 ^ n"
    using unat_of_nat [of "2 ^ n", where 'a = 64] by (simp add: take_bit_nat_eq_self)
  then have "unat (drop_bit n x) = unat x div 2 ^ n" unfolding drop_bit_eq_div unat_div_distrib by simp
  moreover have "unat x div 2 ^ n * 2 ^ n < 2 ^ 64"
    using unsigned_less [of x, where 'a = nat]
    by (intro le_less_trans [OF div_times_less_eq_dividend [of "unat x" "2 ^ n"]]) simp
  ultimately show ?thesis
    using p by (simp add: push_bit_eq_mult unat_word_ariths)
qed

lemma and_not_7: "unat (x AND NOT 7) = unat x div 8 * 8" for x :: u64
  using unat_and_not_mask [of 3 x] by (simp add: mask_numeral)

text \<open>\<open>b'\<close> is \<open>b\<close> with at most the bytes from \<open>lo\<close> to \<open>hi\<close> changed.\<close>

definition same_outside :: "nat \<Rightarrow> nat \<Rightarrow> bytes \<Rightarrow> bytes \<Rightarrow> bool" where
  "same_outside lo hi b b' \<longleftrightarrow> length b' = length b \<and> (\<forall>i<length b. i < lo \<or> hi \<le> i \<longrightarrow> b' ! i = b ! i)"

lemma same_outside_trans:
  "same_outside lo hi a b \<Longrightarrow> same_outside lo' hi' b c \<Longrightarrow> same_outside (min lo lo') (max hi hi') a c"
  by (auto simp: same_outside_def)

lemma same_outside_refl [simp]: "same_outside lo hi b b"
  by (simp add: same_outside_def)

lemma store_outside: "store_bytes b off src = Some b' \<Longrightarrow> same_outside off (off + length src) b b'"
  using length_store_bytes nth_store by (fastforce simp: same_outside_def)

lemma same_outside_slice:
  "same_outside lo hi b b' \<Longrightarrow> j + n \<le> lo \<or> hi \<le> j \<Longrightarrow> take n (drop j b') = take n (drop j b)"
  by (intro nth_equalityI) (auto simp: same_outside_def)

lemma store_le_field:
  assumes "off + n \<le> length b" "LENGTH('a) = 8 * n"
  shows "\<exists>b'. store_le n b off (w :: 'a::len word) = Some b' \<and> same_outside off (off + n) b b' \<and> le_word (take n (drop off b')) = w"
proof -
  obtain b' where b': "store_bytes b off (le_bytes n w) = Some b'"
    using store_bytes_Some [of off "le_bytes n w" b] assms(1) by auto
  then show ?thesis
    using store_outside [OF b'] slice_store_same [OF b'] le_word_field [OF assms(2), of w] by (auto simp: store_le_def)
qed

text \<open>The loop that sets \<open>e_shstrndx\<close>.\<close>

lemma shstrndx_loop:
  assumes "64 \<le> length out"
  shows "\<exists>out'. foldl (\<lambda>o1 i. if P i then Option.bind o1 (\<lambda>out. store_le 2 out 62 (of_nat i :: u16)) else o1) (Some out) is = Some out' \<and>
    same_outside 62 64 out out' \<and>
    (if filter P is = [] then out' = out else le_word (take 2 (drop 62 out')) = (of_nat (last (filter P is)) :: u16))"
proof (induction "is" rule: rev_induct)
  case (snoc i "is")
  then obtain out1 where o1: "foldl (\<lambda>o1 i. if P i then Option.bind o1 (\<lambda>out. store_le 2 out 62 (of_nat i :: u16)) else o1) (Some out) is = Some out1"
    "same_outside 62 64 out out1"
    "if filter P is = [] then out1 = out else le_word (take 2 (drop 62 out1)) = (of_nat (last (filter P is)) :: u16)"
    by blast
  obtain out2 where o2: "store_le 2 out1 62 (of_nat i :: u16) = Some out2" "same_outside 62 64 out1 out2"
    "le_word (take 2 (drop 62 out2)) = (of_nat i :: u16)"
    using store_le_field [of 62 2 out1 "of_nat i :: u16"] assms o1(2) by (auto simp: same_outside_def)
  show ?case
  proof (cases "P i")
    case True
    have "same_outside 62 64 out out2" using same_outside_trans [OF o1(2) o2(2)] by simp
    then show ?thesis using True o1(1) o2 by simp
  qed (use o1 in auto)
qed simp

lemma shdr_offset_bounds:
  assumes "n \<noteq> 0" "isz < 2 ^ 32" "strn \<le> 1024"
  shows "isz + strn \<le> unat (shdr_offset isz strn n)" "unat (shdr_offset isz strn n) < isz + strn + 8"
proof -
  have u: "unat (of_nat isz + of_nat strn + 7 :: u64) = isz + strn + 7"
    using assms(2,3) by (simp add: unat_word_ariths unat_of_nat)
  have "unat (shdr_offset isz strn n) = (isz + strn + 7) div 8 * 8"
    using assms(1) u and_not_7 [of "of_nat isz + of_nat strn + 7"] by (simp add: shdr_offset_def)
  then show "isz + strn \<le> unat (shdr_offset isz strn n)" "unat (shdr_offset isz strn n) < isz + strn + 8" by auto
qed

lemma dump_total_eq:
  assumes "n \<noteq> 0" "n \<le> 32" "isz < 2 ^ 32" "strn \<le> 1024"
  shows "unat (dump_total isz strn n) = unat (shdr_offset isz strn n) + 64 * n"
proof -
  have "unat (shdr_offset isz strn n) + n * 64 < 2 ^ 64"
    using shdr_offset_bounds [OF assms(1,3,4)] assms(2-4) by simp
  then show ?thesis
    using assms(1,2) by (simp add: dump_total_def unat_word_ariths unat_of_nat)
qed

lemma length_shdr_bytes [simp]: "length (shdr_bytes s) = 64"
  by (simp add: shdr_bytes_def)

lemma slice_concat:
  "k < length xs \<Longrightarrow> (\<And>x. x \<in> set xs \<Longrightarrow> length (f x) = 64) \<Longrightarrow> take 64 (drop (64 * k) (concat (map f xs))) = f (xs ! k)"
proof (induction xs arbitrary: k)
  case (Cons x xs)
  then show ?case by (cases k) auto
qed simp

lemma length_concat_64: "(\<And>x. x \<in> set xs \<Longrightarrow> length (f x) = 64) \<Longrightarrow> length (concat (map f xs)) = 64 * length xs"
  by (induction xs) auto

lemma slice_slice: "k + n \<le> m \<Longrightarrow> take n (drop k (take m (drop off b))) = take n (drop (off + k) b)"
  by (simp add: drop_take min_def add.commute)

text \<open>The first stores: the image, then the header over it with its type set.\<close>

lemma assemble_start:
  assumes "length eh = 64" "64 \<le> length img" "length img \<le> tsz"
  shows "\<exists>out. (do { out \<leftarrow> store_bytes (replicate tsz 0) 0 img; out \<leftarrow> store_bytes out 0 eh; store_le 2 out 16 (3 :: u16) }) = Some out \<and>
    length out = tsz \<and> (\<forall>i<length img. 64 \<le> i \<longrightarrow> out ! i = img ! i) \<and>
    take 16 out = take 16 eh \<and> take 46 (drop 18 out) = drop 18 eh \<and> le_word (take 2 (drop 16 out)) = (3 :: u16)"
proof -
  obtain o1 where o1: "store_bytes (replicate tsz 0) 0 img = Some o1" "length o1 = tsz"
    using store_bytes_Some [of 0 img "replicate tsz 0"] assms(3) by auto
  obtain o2 where o2: "store_bytes o1 0 eh = Some o2" "length o2 = tsz"
    using store_bytes_Some [of 0 eh o1] o1(2) assms by auto
  obtain o3 where o3: "store_le 2 o2 16 (3 :: u16) = Some o3" "same_outside 16 18 o2 o3" "le_word (take 2 (drop 16 o3)) = (3 :: u16)"
    using store_le_field [of 16 2 o2 "3 :: u16"] o2(2) assms by auto
  have i1: "o1 ! i = img ! i" if "i < length img" for i
    using slice_store_same [OF o1(1)] that by (metis drop0 nth_take)
  have "o3 ! i = img ! i" if "64 \<le> i" "i < length img" for i
  proof -
    have "o3 ! i = o2 ! i" using o3(2) that o2(2) assms(3) by (simp add: same_outside_def)
    also have "\<dots> = o1 ! i" using nth_store [OF o2(1)] that assms o1(2) by simp
    finally show ?thesis using i1 that by simp
  qed
  moreover have e: "take 64 o2 = eh" using slice_store_same [OF o2(1)] assms(1) by simp
  have "take 16 o3 = take 16 eh"
    using same_outside_slice [OF o3(2), of 0 16] slice_slice [of 0 16 64 0 o2] e by simp
  moreover have "take 46 (drop 18 o3) = drop 18 eh"
    using same_outside_slice [OF o3(2), of 18 46] slice_slice [of 18 46 64 0 o2] e assms(1) by simp
  ultimately show ?thesis using o1 o2 o3 by (auto simp: same_outside_def)
qed

lemma dump_assemble_raw:
  assumes "length eh = 64" "64 \<le> length img" "length img < 2 ^ 32"
  shows "\<exists>out. dump_assemble eh img [] tab = Some out \<and> length out = length img \<and>
    (\<forall>i<length img. 64 \<le> i \<longrightarrow> out ! i = img ! i) \<and> take 16 out = take 16 eh \<and> take 22 (drop 18 out) = take 22 (drop 18 eh) \<and>
    take 12 (drop 48 out) = take 12 (drop 48 eh) \<and> le_word (take 8 (drop 40 out)) = (0 :: u64) \<and> le_word (take 2 (drop 60 out)) = (0 :: u16) \<and> le_word (take 2 (drop 62 out)) = (0 :: u16)"
proof -
  have t: "unat (dump_total (length img) (length tab) 0) = length img"
    using assms(3) by (simp add: dump_total_def unat_of_nat)
  obtain o1 where o1: "(do { out \<leftarrow> store_bytes (replicate (length img) 0) 0 img; out \<leftarrow> store_bytes out 0 eh; store_le 2 out 16 (3 :: u16) }) = Some o1"
    "length o1 = length img" "\<forall>i<length img. 64 \<le> i \<longrightarrow> o1 ! i = img ! i" "take 16 o1 = take 16 eh" "take 46 (drop 18 o1) = drop 18 eh"
    using assemble_start [OF assms(1,2) order_refl] by auto
  obtain o2 where o2: "store_le 8 o1 40 (0 :: u64) = Some o2" "same_outside 40 48 o1 o2" "le_word (take 8 (drop 40 o2)) = (0 :: u64)"
    using store_le_field [of 40 8 o1 "0 :: u64"] o1(2) assms(2) by auto
  obtain o3 where o3: "store_le 2 o2 60 (0 :: u16) = Some o3" "same_outside 60 62 o2 o3" "le_word (take 2 (drop 60 o3)) = (0 :: u16)"
    using store_le_field [of 60 2 o2 "0 :: u16"] o1(2) o2(2) assms(2) by (auto simp: same_outside_def)
  obtain o4 where o4: "store_le 2 o3 62 (0 :: u16) = Some o4" "same_outside 62 64 o3 o4" "le_word (take 2 (drop 62 o4)) = (0 :: u16)"
    using store_le_field [of 62 2 o3 "0 :: u16"] o1(2) o2(2) o3(2) assms(2) by (auto simp: same_outside_def)
  have s: "same_outside 40 64 o1 o4" using same_outside_trans [OF same_outside_trans [OF o2(2) o3(2)] o4(2)] by simp
  have "take 22 (drop 18 o4) = take 22 (drop 18 eh)"
    using same_outside_slice [OF s, of 18 22] o1(5) slice_slice [of 0 22 46 18 o1] by simp
  moreover have "take 12 (drop 48 o4) = take 12 (drop 48 eh)"
    using same_outside_slice [OF o2(2), of 48 12] same_outside_slice [OF o3(2), of 48 12] same_outside_slice [OF o4(2), of 48 12]
      o1(5) slice_slice [of 30 12 46 18 o1] by simp
  moreover have "take 16 o4 = take 16 eh" using same_outside_slice [OF s, of 0 16] o1(4) by simp
  moreover have "le_word (take 8 (drop 40 o4)) = (0 :: u64)" "le_word (take 2 (drop 60 o4)) = (0 :: u16)"
    using same_outside_slice [OF o3(2), of 40 8] same_outside_slice [OF o4(2), of 40 8] same_outside_slice [OF o4(2), of 60 2] o2(3) o3(3) by simp_all
  moreover have "dump_assemble eh img [] tab = Some o4"
    using o1(1) o2(1) o3(1) o4(1) t by (auto simp: dump_assemble_def Let_def bind_assoc split: bind_splits)
  ultimately show ?thesis using s o1(2,3) o4(3) by (auto simp: same_outside_def)
qed

definition e_shoff :: "bytes \<Rightarrow> u64" where "e_shoff eh = le_word (take 8 (drop 40 eh))"
definition e_shentsize :: "bytes \<Rightarrow> u16" where "e_shentsize eh = le_word (take 2 (drop 58 eh))"
definition e_shnum :: "bytes \<Rightarrow> u16" where "e_shnum eh = le_word (take 2 (drop 60 eh))"
definition e_shstrndx :: "bytes \<Rightarrow> u16" where "e_shstrndx eh = le_word (take 2 (drop 62 eh))"

definition placed_shdr :: "bytes \<Rightarrow> string \<Rightarrow> shdr \<Rightarrow> shdr" where
  "placed_shdr img tab s =
     (if is_shstrtab s then s\<lparr>sh_offset := of_nat (length img), sh_size := of_nat (length tab)\<rparr> else s)"

text \<open>A file with a section table: the table the header describes ends the file and holds the headers, the
  name section is the one the header names and its bytes are the names, and the image is in place.\<close>

definition sectioned :: "bytes \<Rightarrow> bytes \<Rightarrow> shdr list \<Rightarrow> string \<Rightarrow> nat \<Rightarrow> bytes \<Rightarrow> bool" where
  "sectioned eh img sh tab k out \<longleftrightarrow>
     unat (e_shoff out) + 64 * length sh = length out \<and> unat (e_shnum out) = length sh \<and> e_shentsize out = 64 \<and>
     unat (e_shstrndx out) = k \<and>
     list_all (\<lambda>j. take 64 (drop (unat (e_shoff out) + 64 * j) out) = shdr_bytes (placed_shdr img tab (sh ! j))) [0..<length sh] \<and>
     take (length tab) (drop (length img) out) = map (\<lambda>c. of_nat (of_char c)) tab \<and>
     list_all (\<lambda>i. out ! i = img ! i) [64..<length img] \<and>
     take 16 out = take 16 eh \<and> take 22 (drop 18 out) = take 22 (drop 18 eh) \<and> take 10 (drop 48 out) = take 10 (drop 48 eh)"

lemma dump_assemble_sections:
  assumes l: "length eh = 64" "64 \<le> length img" "length img < 2 ^ 32" and n: "sh \<noteq> []" "length sh \<le> 32" and s: "length tab \<le> 1024"
    and k: "filter (\<lambda>i. is_shstrtab (sh ! i)) [0..<length sh] = [k]"
  shows "\<exists>out. dump_assemble eh img sh tab = Some out \<and> sectioned eh img sh tab k out"
proof -
  let ?n = "length sh" and ?so = "shdr_offset (length img) (length tab) (length sh)"
  let ?T = "unat (dump_total (length img) (length tab) (length sh))"
  let ?tab = "map (\<lambda>c. of_nat (of_char c)) tab :: bytes" and ?sh = "concat (map (\<lambda>s. shdr_bytes (placed_shdr img tab s)) sh)"
  have n0: "?n \<noteq> 0" using n by simp
  note so = shdr_offset_bounds [OF n0 l(3) s] and T = dump_total_eq [OF n0 n(2) l(3) s]
  have lsh: "length ?sh = 64 * ?n" by (rule length_concat_64) simp
  have ui: "unat (of_nat (length img) :: u64) = length img" using l(3) by (simp add: unat_of_nat)
  obtain o1 where o1: "(do { out \<leftarrow> store_bytes (replicate ?T 0) 0 img; out \<leftarrow> store_bytes out 0 eh; store_le 2 out 16 (3 :: u16) }) = Some o1"
    "length o1 = ?T" "\<forall>i<length img. 64 \<le> i \<longrightarrow> o1 ! i = img ! i" "take 16 o1 = take 16 eh" "take 46 (drop 18 o1) = drop 18 eh"
    using assemble_start [OF l(1,2), of ?T] T so by auto
  have l1: "64 \<le> length o1" using o1(2) T so l(2) by simp
  obtain o2 where o2: "foldl (\<lambda>o1 i. if is_shstrtab (sh ! i) then Option.bind o1 (\<lambda>out. store_le 2 out 62 (of_nat i :: u16)) else o1) (Some o1) [0..<?n] = Some o2"
    "same_outside 62 64 o1 o2" "le_word (take 2 (drop 62 o2)) = (of_nat k :: u16)"
    using shstrndx_loop [OF l1, of "\<lambda>i. is_shstrtab (sh ! i)" "[0..<?n]"] k by auto
  have l2: "length o2 = ?T" using o2(2) o1(2) by (simp add: same_outside_def)
  obtain o3 where o3: "store_bytes o2 (length img) ?tab = Some o3" "length o3 = ?T"
    using store_bytes_Some [of "length img" ?tab o2] l2 T so by auto
  obtain o4 where o4: "store_bytes o3 (unat ?so) ?sh = Some o4" "length o4 = ?T"
    using store_bytes_Some [of "unat ?so" ?sh o3] o3(2) T lsh by auto
  obtain o5 where o5: "store_le 8 o4 40 ?so = Some o5" "same_outside 40 48 o4 o5" "le_word (take 8 (drop 40 o5)) = ?so"
    using store_le_field [of 40 8 o4 ?so] o4(2) o1(2) l1 by auto
  obtain o6 where o6: "store_le 2 o5 60 (of_nat ?n :: u16) = Some o6" "same_outside 60 62 o5 o6" "le_word (take 2 (drop 60 o6)) = (of_nat ?n :: u16)"
    using store_le_field [of 60 2 o5 "of_nat ?n :: u16"] o5(2) o4(2) o1(2) l1 by (auto simp: same_outside_def)
  obtain o7 where o7: "store_le 2 o6 58 (64 :: u16) = Some o7" "same_outside 58 60 o6 o7" "le_word (take 2 (drop 58 o7)) = (64 :: u16)"
    using store_le_field [of 58 2 o6 "64 :: u16"] o6(2) o5(2) o4(2) o1(2) l1 by (auto simp: same_outside_def)
  have "dump_assemble eh img sh tab = Some o7"
    using o1(1) o2(1) o3(1) o4(1) o5(1) o6(1) o7(1) n0 ui
    by (auto simp: dump_assemble_def Let_def comp_def simp flip: placed_shdr_def split: bind_splits)
  moreover have "sectioned eh img sh tab k o7"
  proof -
    have s3: "same_outside (length img) (length img + length tab) o2 o3" using store_outside [OF o3(1)] by simp
    have s4: "same_outside (unat ?so) (unat ?so + 64 * ?n) o3 o4" using store_outside [OF o4(1)] lsh by simp
    have hd4: "take m (drop j o4) = take m (drop j o2)" if "j + m \<le> 64" for j m
      using same_outside_slice [OF s3, of j m] same_outside_slice [OF s4, of j m] that l(2) so by simp
    have hd7: "take m (drop j o7) = take m (drop j o4)"
      if "j + m \<le> 40 \<or> 48 \<le> j \<and> j + m \<le> 58 \<or> 62 \<le> j" for j m
      using same_outside_slice [OF o5(2), of j m] same_outside_slice [OF o6(2), of j m] same_outside_slice [OF o7(2), of j m] that by auto
    have hd2: "take m (drop j o2) = take m (drop j o1)" if "j + m \<le> 62" for j m
      using same_outside_slice [OF o2(2), of j m] that by simp
    have e1: "take m (drop j o1) = take m (drop j eh)" if "18 \<le> j" "j + m \<le> 64" for j m
      using slice_slice [of "j - 18" m 46 18 o1] o1(5) that by (simp add: drop_drop)
    have off: "e_shoff o7 = ?so" unfolding e_shoff_def
      using same_outside_slice [OF o6(2), of 40 8] same_outside_slice [OF o7(2), of 40 8] o5(3) by simp
    have num: "e_shnum o7 = of_nat ?n" unfolding e_shnum_def using same_outside_slice [OF o7(2), of 60 2] o6(3) by simp
    have ndx: "e_shstrndx o7 = of_nat k" unfolding e_shstrndx_def using hd7 [of 62 2] hd4 [of 62 2] o2(3) by simp
    have kn: "k < ?n" using arg_cong [OF k, of set] by auto
    have "take 64 (drop (unat ?so + 64 * j) o7) = shdr_bytes (placed_shdr img tab (sh ! j))" if "j < ?n" for j
    proof -
      have "take 64 (drop (unat ?so + 64 * j) o7) = take 64 (drop (unat ?so + 64 * j) o4)" using hd7 so l(2) by simp
      also have "\<dots> = take 64 (drop (64 * j) ?sh)"
        using slice_slice [of "64 * j" 64 "64 * ?n" "unat ?so" o4] slice_store_same [OF o4(1)] lsh that by simp
      also have "\<dots> = shdr_bytes (placed_shdr img tab (sh ! j))" using that by (intro slice_concat) auto
      finally show ?thesis .
    qed
    moreover have "take (length tab) (drop (length img) o7) = ?tab"
      using hd7 [of "length img"] same_outside_slice [OF s4, of "length img" "length tab"] slice_store_same [OF o3(1)] so l(2) by simp
    moreover have "o7 ! i = img ! i" if "64 \<le> i" "i < length img" for i
    proof -
      have "i < ?T" using that T so by simp
      then show ?thesis
        using that o1(2,3) o2(2) s3 s4 o5(2) o6(2) o7(2) so o3(2) o4(2) by (auto simp: same_outside_def)
    qed
    ultimately show ?thesis
      unfolding sectioned_def off num ndx
      using T o1(2,4) o4(2) o5(2) o6(2) o7(2,3) n kn e1 [of 18 22] e1 [of 48 10] hd2 [of 0 16] hd2 [of 18 22] hd2 [of 48 10]
        hd4 [of 0 16] hd4 [of 18 22] hd4 [of 48 10] hd7 [of 0 16] hd7 [of 18 22] hd7 [of 48 10]
      by (auto simp: list_all_iff same_outside_def unat_of_nat e_shentsize_def)
  qed
  ultimately show ?thesis by blast
qed

section \<open>The rebuilt file\<close>

text \<open>Type and flags of a header, which the layout keeps.\<close>

definition hkind :: "shdr \<Rightarrow> u32 \<times> u64" where "hkind s = (sh_type s, sh_flags s)"

lemma hkind_placed [simp]: "hkind (placed a sz al en s) = hkind s"
  by (simp add: hkind_def placed_def)

lemma hkind_link [simp]: "hkind (link_hdr d e s) = hkind s"
  by (simp add: hkind_def link_hdr_def)

lemma hkind_link_comp [simp]: "hkind \<circ> link_hdr d e = hkind"
  by (simp add: fun_eq_iff)

lemma hkind_gap: "map hkind (gap_sizes isz ys) = map (hkind \<circ> fst) ys"
  by (induction isz ys rule: gap_sizes.induct) (auto simp: hkind_def Let_def)

lemma hkind_clamp: "map hkind (clamp_sizes isz ys) = map hkind ys"
  by (induction isz ys rule: clamp_sizes.induct) (auto simp: hkind_def Let_def)

lemma hkind_layout: "hs \<noteq> [] \<Longrightarrow> mset (map hkind (shdrs_layout hs isz)) = mset (map (hkind \<circ> fst) hs)"
proof -
  assume "hs \<noteq> []"
  then obtain h0 body where hs: "hs = h0 # body" by (cases hs) auto
  obtain ys where ys: "exch_sort (sh_addr \<circ> fst) 1 hs = h0 # ys" "mset ys = mset body"
    using exch_sort_tail [of "sh_addr \<circ> fst" h0 body] hs by blast
  have m: "mset (map (hkind \<circ> fst) ys) = mset (map (hkind \<circ> fst) body)" using ys(2) by simp
  have "map hkind (clamp_sizes isz (gap_sizes isz ys)) = map (hkind \<circ> fst) ys" by (simp add: hkind_clamp hkind_gap)
  then have "map hkind (shdrs_layout hs isz) = hkind (fst h0) # map (hkind \<circ> fst) ys"
    unfolding shdrs_layout_def Let_def ys(1) by simp
  then show ?thesis using m hs by simp
qed

lemma hkind_sh_add:
  assumes "length (hdrs b) < 32" "\<And>s. hkind (fill s) = hkind s"
  shows "map (hkind \<circ> fst) (hdrs (sh_add b name typ flags fill g)) = map (hkind \<circ> fst) (hdrs b) @ [(typ, flags)]"
  using assms by (simp add: sh_add_def case_prod_beta Let_def) (simp add: hkind_def)

lemma hkind_add_sections:
  assumes "length (hdrs b) + length specs \<le> 32"
    and "list_all (\<lambda>(p, name, typ, flags, fill, g). flags \<noteq> 0 \<and> (\<forall>s. hkind (fill s) = hkind s)) specs"
  shows "\<exists>ks. map (hkind \<circ> fst) (hdrs (foldl add_section b specs)) = map (hkind \<circ> fst) (hdrs b) @ ks \<and>
    length ks \<le> length specs \<and> (\<forall>(t, f) \<in> set ks. f \<noteq> 0)"
  using assms
proof (induction specs arbitrary: b)
  case (Cons sp specs)
  obtain p name ty flags fill g where sp: "sp = (p, name, ty, flags, fill, g)" by (cases sp) auto
  show ?case
  proof (cases "p = 0")
    case True
    have "length (hdrs b) + length specs \<le> 32" using Cons.prems(1) by simp
    then obtain ks where "map (hkind \<circ> fst) (hdrs (foldl add_section b specs)) = map (hkind \<circ> fst) (hdrs b) @ ks"
      "length ks \<le> length specs" "\<forall>(t, f) \<in> set ks. f \<noteq> 0"
      using Cons.IH [of b] Cons.prems(2) unfolding list.pred_inject by blast
    then show ?thesis using True sp by (intro exI [of _ ks]) (auto simp: comp_def)
  next
    case False
    let ?b = "sh_add b name ty flags fill g"
    have k: "map (hkind \<circ> fst) (hdrs ?b) = map (hkind \<circ> fst) (hdrs b) @ [(ty, flags)]"
      using Cons.prems sp by (intro hkind_sh_add) auto
    then have "length (hdrs ?b) = Suc (length (hdrs b))" by (metis length_append_singleton length_map)
    then have "length (hdrs ?b) + length specs \<le> 32" using Cons.prems(1) by simp
    then obtain ks where "map (hkind \<circ> fst) (hdrs (foldl add_section ?b specs)) = map (hkind \<circ> fst) (hdrs ?b) @ ks"
      "length ks \<le> length specs" "\<forall>(t, f) \<in> set ks. f \<noteq> 0"
      using Cons.IH [of ?b] Cons.prems(2) unfolding list.pred_inject by blast
    then show ?thesis using k False sp Cons.prems(2) by (intro exI [of _ "(ty, flags) # ks"]) (auto simp: comp_def)
  qed
qed simp

lemma hkind_build:
  "\<exists>ks. mset (map hkind (fst (build_shdrs si isz))) =
     mset ((SHT_NULL, 0) # ks @ [(SHT_PROGBITS, SHF_ALLOC OR SHF_EXECINSTR), (SHT_PROGBITS, SHF_ALLOC OR SHF_WRITE), (SHT_STRTAB, 0)]) \<and>
     (\<forall>(t, f) \<in> set ks. f \<noteq> 0)"
proof -
  let ?b0 = "sh_add \<lparr>hdrs = [], shstr = [NUL]\<rparr> '''' SHT_NULL 0 id False"
  have b0: "map (hkind \<circ> fst) (hdrs ?b0) = [(SHT_NULL, 0)]" "length (hdrs ?b0) = 1"
    using hkind_sh_add [of "\<lparr>hdrs = [], shstr = [NUL]\<rparr>" id] by (simp_all add: sh_add_def case_prod_beta Let_def)
  have l: "length (dyn_sections si) = 10" by (simp add: dyn_sections_def)
  obtain ks where ks: "map (hkind \<circ> fst) (hdrs (shdrs_dynamic si)) = (SHT_NULL, 0) # ks" "length ks \<le> 10" "\<forall>(t, f) \<in> set ks. f \<noteq> 0"
  proof -
    have "list_all (\<lambda>(p, name, typ, flags, fill, g). flags \<noteq> 0 \<and> (\<forall>s. hkind (fill s) = hkind s)) (dyn_sections si)"
      by (simp add: dyn_sections_def)
    from hkind_add_sections [OF _ this, of ?b0] show thesis
      using that b0 l unfolding shdrs_dynamic_def by auto
  qed
  have lb: "length (hdrs (shdrs_dynamic si)) \<le> 11" using arg_cong [OF ks(1), of length] ks(2) by simp
  have syn: "map (hkind \<circ> fst) (hdrs (shdrs_synthetic (shdrs_dynamic si) isz)) = (SHT_NULL, 0) # ks @
      [(SHT_PROGBITS, SHF_ALLOC OR SHF_EXECINSTR), (SHT_PROGBITS, SHF_ALLOC OR SHF_WRITE), (SHT_STRTAB, 0)]"
    using ks(1) lb by (simp add: shdrs_synthetic_def sh_add_def Let_def case_prod_beta hkind_def placed_def)
  then have "hdrs (shdrs_synthetic (shdrs_dynamic si) isz) \<noteq> []" by auto
  from hkind_layout [OF this, of isz] show ?thesis
    unfolding syn using ks(3) by (intro exI [of _ ks]) (simp add: build_shdrs_def Let_def)
qed

lemma build_one_shstrtab:
  "\<exists>k. filter (\<lambda>i. is_shstrtab (fst (build_shdrs si isz) ! i)) [0..<length (fst (build_shdrs si isz))] = [k]"
proof -
  let ?sh = "fst (build_shdrs si isz)" and ?q = "\<lambda>kk. kk = (SHT_STRTAB, 0 :: u64)"
  obtain ks where ks: "mset (map hkind ?sh) =
     mset ((SHT_NULL, 0) # ks @ [(SHT_PROGBITS, SHF_ALLOC OR SHF_EXECINSTR), (SHT_PROGBITS, SHF_ALLOC OR SHF_WRITE), (SHT_STRTAB, 0)])"
     "\<forall>(t, f) \<in> set ks. f \<noteq> 0"
    using hkind_build [of si isz] by blast
  have ks0: "filter ?q ks = []" using ks(2) by (auto simp: filter_empty_conv)
  have "mset (filter ?q (map hkind ?sh)) = mset (filter ?q
      ((SHT_NULL, 0) # ks @ [(SHT_PROGBITS, SHF_ALLOC OR SHF_EXECINSTR), (SHT_PROGBITS, SHF_ALLOC OR SHF_WRITE), (SHT_STRTAB, 0)]))"
    unfolding mset_filter ks(1) ..
  then have "length (filter ?q (map hkind ?sh)) = length (filter ?q
      ((SHT_NULL, 0) # ks @ [(SHT_PROGBITS, SHF_ALLOC OR SHF_EXECINSTR), (SHT_PROGBITS, SHF_ALLOC OR SHF_WRITE), (SHT_STRTAB, 0)]))"
    by (rule mset_eq_length)
  also have "\<dots> = 1" using ks0 by simp
  finally have "length (filter ?q (map hkind ?sh)) = 1" .
  moreover have "length (filter ?q (map hkind ?sh)) = length (filter (\<lambda>i. is_shstrtab (?sh ! i)) [0..<length ?sh])"
  proof -
    have "filter is_shstrtab (map ((!) ?sh) [0..<length ?sh]) = map ((!) ?sh) (filter (\<lambda>i. is_shstrtab (?sh ! i)) [0..<length ?sh])"
      by (simp add: filter_map comp_def)
    then have "length (filter is_shstrtab ?sh) = length (filter (\<lambda>i. is_shstrtab (?sh ! i)) [0..<length ?sh])"
      by (simp only: map_nth length_map)
    then show ?thesis by (simp add: filter_map comp_def hkind_def is_shstrtab_def [abs_def])
  qed
  ultimately have "length (filter (\<lambda>i. is_shstrtab (?sh ! i)) [0..<length ?sh]) = 1" by simp
  then show ?thesis by (auto simp: length_Suc_conv)
qed

text \<open>C19: a rebuilt file has the sections that were rebuilt. When the metadata the dynamic information
  describes lies inside the image, assembling succeeds without touching memory outside the buffers, and in
  the file that results the header's section-table fields describe exactly the headers rebuilt, the name
  section named by the header holds the section names, and the image and the rest of the header are intact.\<close>

theorem dump_assemble_rebuilt:
  assumes "length eh = 64" "64 \<le> length img" "length img \<le> 2 ^ 29"
    and "metadata_inside (length img) si"
  shows "\<exists>out k sh tab. build_shdrs si (of_nat (length img)) = (sh, tab) \<and> dump_assemble eh img sh tab = Some out \<and>
    sectioned eh img sh tab k out \<and> is_shstrtab (sh ! k) \<and> k < length sh"
proof -
  obtain sh tab where b: "build_shdrs si (of_nat (length img)) = (sh, tab)" by fastforce
  have u: "unat (of_nat (length img) :: u64) = length img" using assms(3) by (simp add: unat_of_nat)
  obtain h0 rest where "sh = h0 # rest" "length rest < 14" "length tab \<le> 1024"
    using build_shdrs_ok [of "of_nat (length img)" si] assms(4) u b by auto
  then have l: "sh \<noteq> []" "length sh \<le> 32" "length tab \<le> 1024" by auto
  obtain k where k: "filter (\<lambda>i. is_shstrtab (sh ! i)) [0..<length sh] = [k]"
    using build_one_shstrtab [of si "of_nat (length img)"] b by auto
  have "k \<in> set (filter (\<lambda>i. is_shstrtab (sh ! i)) [0..<length sh])" unfolding k by simp
  then show ?thesis
    using dump_assemble_sections [OF assms(1,2) _ l k] assms(3) b by auto
qed

lemma dump_assemble_rebuilt_witness:
  "\<exists>out k sh tab. build_shdrs (soinfo_zero\<lparr>strtab := 0x200, strsz := 0x80\<rparr>) 0x1000 = (sh, tab) \<and>
     dump_assemble (replicate 64 0) (replicate 0x1000 0) sh tab = Some out \<and> unat (e_shstrndx out) = k \<and> is_shstrtab (sh ! k)"
proof -
  define img where "img = replicate 0x1000 (0 :: u8)"
  have l: "length img = 0x1000" by (simp add: img_def)
  have "metadata_inside (length img) (soinfo_zero\<lparr>strtab := 0x200, strsz := 0x80\<rparr>)"
    unfolding l by (simp add: metadata_inside_def dyn_sections_def soinfo_zero_def placed_def blank_hdr_def)
  then obtain out k sh tab where o: "build_shdrs (soinfo_zero\<lparr>strtab := 0x200, strsz := 0x80\<rparr>) (of_nat (length img)) = (sh, tab)"
    "dump_assemble (replicate 64 0) img sh tab = Some out" "sectioned (replicate 64 0) img sh tab k out" "is_shstrtab (sh ! k)"
    using dump_assemble_rebuilt [of "replicate 64 0" img] l by fastforce
  have "build_shdrs (soinfo_zero\<lparr>strtab := 0x200, strsz := 0x80\<rparr>) 0x1000 = (sh, tab)" using o(1) by (simp add: l)
  moreover have "unat (e_shstrndx out) = k" using o(3) unfolding sectioned_def by blast
  ultimately show ?thesis unfolding img_def [symmetric] using o(2,4) by blast
qed

text \<open>The check before the program headers are copied back adds the untrusted \<open>e_phoff\<close> to the table
  size and the sum can wrap around: for an offset just below \<open>2 ^ 64\<close> the check passes and the copy writes
  outside the image, whatever the image and the headers hold.\<close>

theorem install_phdrs_wraps:
  assumes "length ph = 56" "length img < 2 ^ 29"
  shows "install_phdrs img (- 56) ph = None"
proof -
  have "(- 56 :: u64) + of_nat (length ph) \<le> of_nat (length img)" using assms(1) by simp
  moreover have "length img < unat (- 56 :: u64)" using assms(2) by simp
  ultimately show ?thesis by (simp add: install_phdrs_def store_bytes_def)
qed

lemma install_phdrs_wraps_witness: "install_phdrs [1, 2, 3] (- 56) (replicate 56 0) = None"
  by (rule install_phdrs_wraps) simp_all

section \<open>Raw dumps mirror memory\<close>

declare write_loop.simps [simp del]

lemma write_loop_ok: "write_loop wr f p = Rc_ok out \<Longrightarrow> out = f @ p"
proof (induction wr f p rule: write_loop.induct)
  case (1 wr f p)
  from 1(2) show ?case
    by (subst (asm) write_loop.simps) (auto split: if_splits option.splits dest: 1(1))
qed

lemma round_image_bounds:
  assumes "round_image x \<noteq> 0" "\<not> round_image x > DUMP_MAX_IMAGE"
  shows "4096 \<le> unat (round_image x)" "unat (round_image x) \<le> 2 ^ 29"
proof -
  have "round_image x = (x + DUMP_PAGE - 1) AND NOT (mask 12)" by (simp add: round_image_def mask_numeral)
  then have u: "unat (round_image x) = unat (x + DUMP_PAGE - 1) div 4096 * 4096"
    using unat_and_not_mask [of 12 "x + DUMP_PAGE - 1"] by simp
  have "unat (round_image x) \<noteq> 0" using assms(1) by (simp add: unat_eq_zero)
  then show "4096 \<le> unat (round_image x)" unfolding u by (cases "unat (x + DUMP_PAGE - 1) div 4096") auto
  show "unat (round_image x) \<le> 2 ^ 29" using assms(2) by (simp add: not_less word_le_nat_alt)
qed

lemma scan_phdrs_total:
  assumes "length ph = phnum * ent" "56 \<le> ent" "\<And>i. i \<in> set is \<Longrightarrow> i < phnum"
  shows "\<exists>r. scan_phdrs ph ent is acc = Some r"
  using assms(3) by (induction "is" arbitrary: acc) (auto simp: ph_get_in [OF assms(1) _ assms(2)])

text \<open>The header and the program headers of a file, with their fields.\<close>

definition file_phdr :: "bytes \<Rightarrow> nat \<Rightarrow> phdr" where
  "file_phdr out i = phdr_of (take 56 (drop (unat (e_phoff out) + i * unat (e_phentsize out)) out))"

definition phdr_table_end :: "bytes \<Rightarrow> nat" where
  "phdr_table_end eh = unat (e_phoff eh) + unat (e_phnum eh) * unat (e_phentsize eh)"

text \<open>A file mirrors memory from \<open>base\<close>: outside the ELF header and the program headers every byte is the
  byte of memory, zero where nothing is mapped, and every program header maps its file bytes to where they
  are in memory.\<close>

definition mirrors :: "(u64 \<Rightarrow> u8 option) \<Rightarrow> u64 \<Rightarrow> bytes \<Rightarrow> bool" where
  "mirrors m base out \<longleftrightarrow>
     list_all (\<lambda>i. unat (e_phoff out) \<le> i \<and> i < phdr_table_end out \<or>
       out ! i = (case m (base + of_nat i) of Some b \<Rightarrow> b | None \<Rightarrow> 0)) [64..<length out] \<and>
     (64 \<le> unat (e_phoff out) \<and> phdr_table_end out \<le> length out \<longrightarrow>
        list_all (\<lambda>i. p_offset (file_phdr out i) = p_vaddr (file_phdr out i) \<and> p_paddr (file_phdr out i) = p_vaddr (file_phdr out i) \<and>
          p_filesz (file_phdr out i) = p_memsz (file_phdr out i)) [0..<unat (e_phnum out)])"

lemma install_phdrs_ok:
  assumes "unat phoff + length ph < 2 ^ 64" "length img < 2 ^ 64"
  shows "install_phdrs img phoff ph =
    (if unat phoff + length ph \<le> length img then store_bytes img (unat phoff) ph else Some img)"
proof -
  have "unat (phoff + of_nat (length ph)) = unat phoff + length ph" using assms(1) by (simp add: unat_word_ariths unat_of_nat)
  moreover have "unat (of_nat (length img) :: u64) = length img" using assms(2) by (simp add: unat_of_nat)
  ultimately show ?thesis by (simp add: install_phdrs_def word_le_nat_alt)
qed

lemma install_mirror:
  assumes nw: "unat phoff + length ph < 2 ^ 64" "length img \<le> 2 ^ 29"
  shows "\<exists>img'. install_phdrs img phoff ph = Some img' \<and> length img' = length img \<and>
    (\<forall>i<length img. \<not> (unat phoff \<le> i \<and> i < unat phoff + length ph) \<longrightarrow> img' ! i = img ! i) \<and>
    (unat phoff + length ph \<le> length img \<longrightarrow> take (length ph) (drop (unat phoff) img') = ph)"
proof (cases "unat phoff + length ph \<le> length img")
  case True
  then obtain img' where st: "store_bytes img (unat phoff) ph = Some img'" "length img' = length img"
    using store_bytes_Some by blast
  then show ?thesis
    using True nw install_phdrs_ok [of phoff ph img] slice_store_same [OF st(1)] nth_store [OF st(1)] by auto
qed (use nw install_phdrs_ok [of phoff ph img] in auto)

lemma mirrors_intro:
  assumes "length out = n" "\<And>i. i < n \<Longrightarrow> 64 \<le> i \<Longrightarrow> out ! i = img ! i"
    and "\<And>i. i < n \<Longrightarrow> \<not> (unat (e_phoff eh) \<le> i \<and> i < phdr_table_end eh) \<Longrightarrow> img ! i = img0 ! i"
    and "phdr_table_end eh \<le> n \<Longrightarrow> take (unat (e_phnum eh) * unat (e_phentsize eh)) (drop (unat (e_phoff eh)) img) = ph"
    and "length ph = unat (e_phnum eh) * unat (e_phentsize eh)"
    and "\<And>j. j < unat (e_phnum eh) \<Longrightarrow> \<exists>p. ph_get ph (unat (e_phentsize eh)) j = Some (fixed_phdr ps s p)"
    and h: "e_phoff out = e_phoff eh" "e_phentsize out = e_phentsize eh" "e_phnum out = e_phnum eh"
    and ent: "56 \<le> unat (e_phentsize eh)"
    and "length img = n" "\<And>i. i < n \<Longrightarrow> img0 ! i = (case m (base + of_nat i) of Some b \<Rightarrow> b | None \<Rightarrow> 0)"
  shows "mirrors m base out"
proof -
  have te: "phdr_table_end out = phdr_table_end eh" by (simp add: phdr_table_end_def h)
  have sl: "take k (drop j out) = take k (drop j img)" if "64 \<le> j" for j k
    using that assms(1,2,11) by (intro nth_equalityI) auto
  have "p_offset (file_phdr out i) = p_vaddr (file_phdr out i) \<and> p_paddr (file_phdr out i) = p_vaddr (file_phdr out i) \<and>
      p_filesz (file_phdr out i) = p_memsz (file_phdr out i)"
    if t: "64 \<le> unat (e_phoff eh)" "phdr_table_end eh \<le> n" "i < unat (e_phnum eh)" for i
  proof -
    let ?e = "unat (e_phentsize eh)"
    have f: "i * ?e + 56 \<le> unat (e_phnum eh) * ?e" by (rule entry_fits [OF t(3) ent])
    have "take 56 (drop (i * ?e) ph) = take 56 (drop (unat (e_phoff eh) + i * ?e) out)"
      using slice_slice [OF f, of "unat (e_phoff eh)" img] assms(4) [OF t(2)] sl [of "unat (e_phoff eh) + i * ?e" 56] t(1) by simp
    moreover obtain p where "ph_get ph ?e i = Some (fixed_phdr ps s p)" using assms(6) [OF t(3)] by blast
    ultimately have "file_phdr out i = fixed_phdr ps s p"
      using ph_get_in [OF assms(5) t(3) ent] by (simp add: file_phdr_def h)
    then show ?thesis by (simp add: fixed_phdr_def Let_def)
  qed
  moreover have "unat (e_phoff eh) \<le> i \<and> i < phdr_table_end eh \<or> out ! i = (case m (base + of_nat i) of Some b \<Rightarrow> b | None \<Rightarrow> 0)"
    if "64 \<le> i" "i < n" for i
    using assms(2) [OF that(2,1)] assms(3) [OF that(2)] assms(12) [OF that(2)] by auto
  ultimately show ?thesis unfolding mirrors_def te h assms(1) by (simp add: list_all_iff)
qed

lemma dump_one_raw_safe:
  assumes m: "mem_paged m" "pread_of m pread"
    and nw: "phdr_table_end (seen m base (replicate 64 0) [0..<64]) < 2 ^ 64"
  shows "safe (dump_one alloc_ok pread opens wr True base) (\<lambda>(cov, r). case r of Rc_err \<Rightarrow> True
    | Rc_ok out \<Rightarrow> length out = unat (cov - base) \<and> 4096 \<le> length out \<and> length out \<le> 2 ^ 29 \<and> mirrors m base out)"
proof -
  let ?eh = "seen m base (replicate 64 0) [0..<64]"
  let ?n = "unat (e_phnum ?eh)" and ?ent = "unat (e_phentsize ?eh)"
  have rd: "proc_mem_read pread va (replicate k 0) k = Some (seen m va (replicate k 0) [0..<k], length (filter (readable m va) [0..<k]))" for va k
    using proc_mem_read_seen [OF m, of va "replicate k 0"] by simp
  let ?ph = "seen m (base + e_phoff ?eh) (replicate (?n * ?ent) 0) [0..<?n * ?ent]"
  have lph: "length ?ph = ?n * ?ent" "length ?eh = 64" by (simp_all add: seen_def)
  show ?thesis
  proof (cases "phdrs_usable ?eh")
    case False
    then show ?thesis by (simp add: dump_one_def rd Let_def)
  next
    case True
    then have ent: "56 \<le> ?ent" by (auto simp: phdrs_usable_def)
    obtain isz0 dyn_off dyn_size where sc: "scan_phdrs ?ph ?ent [0..<?n] (0, 0, 0) = Some (isz0, dyn_off, dyn_size)"
      using scan_phdrs_total [OF lph(1) ent, of "[0..<?n]" "(0, 0, 0)"] by auto
    show ?thesis
    proof (cases "round_image isz0 = 0 \<or> round_image isz0 > DUMP_MAX_IMAGE")
      case True
      then show ?thesis using \<open>phdrs_usable ?eh\<close> by (auto simp: dump_one_def rd Let_def sc)
    next
      case False
      let ?I = "round_image isz0"
      note I = round_image_bounds [of isz0]
      let ?img = "seen m base (replicate (unat ?I) 0) [0..<unat ?I]"
      have limg: "length ?img = unat ?I" by (simp add: seen_def)
      obtain ph' where ph': "fix_phdrs ?ent ?n ?I [0..<?n] ?ph = Some ph'" "length ph' = ?n * ?ent"
        "\<And>j. j < ?n \<Longrightarrow> \<exists>p. ph_get ph' ?ent j = Some (fixed_phdr (map (\<lambda>j. phdr_of (take 56 (drop (j * ?ent) ?ph))) [0..<?n]) ?I p)"
        using fix_phdrs_from [OF lph(1) ent, of 0 "[0..<?n]" "\<lambda>j. phdr_of (take 56 (drop (j * ?ent) ?ph))" ?I] ph_get_in [OF lph(1) _ ent] by auto
      have nw': "unat (e_phoff ?eh) + length ph' < 2 ^ 64" using nw ph'(2) by (simp add: phdr_table_end_def)
      obtain img' where img': "install_phdrs ?img (e_phoff ?eh) ph' = Some img'" "length img' = unat ?I"
        "\<And>i. i < unat ?I \<Longrightarrow> \<not> (unat (e_phoff ?eh) \<le> i \<and> i < phdr_table_end ?eh) \<Longrightarrow> img' ! i = ?img ! i"
        "phdr_table_end ?eh \<le> unat ?I \<Longrightarrow> take (?n * ?ent) (drop (unat (e_phoff ?eh)) img') = ph'"
        using install_mirror [OF nw', of ?img] I False limg ph'(2) by (auto simp: phdr_table_end_def)
      obtain out where out: "dump_assemble ?eh img' [] '''' = Some out" "length out = unat ?I"
        "\<And>i. i < unat ?I \<Longrightarrow> 64 \<le> i \<Longrightarrow> out ! i = img' ! i" "take 22 (drop 18 out) = take 22 (drop 18 ?eh)"
        "take 12 (drop 48 out) = take 12 (drop 48 ?eh)"
        using dump_assemble_raw [OF lph(2), of img' "''''"] I False img'(2) by auto
      have h: "e_phoff out = e_phoff ?eh" "e_phentsize out = e_phentsize ?eh" "e_phnum out = e_phnum ?eh"
        unfolding e_phoff_def e_phentsize_def e_phnum_def
        using slice_slice [of 14 8 22 18 out] slice_slice [of 14 8 22 18 ?eh] slice_slice [of 6 2 12 48 out] slice_slice [of 6 2 12 48 ?eh]
          slice_slice [of 8 2 12 48 out] slice_slice [of 8 2 12 48 ?eh] out(4,5) by simp_all
      have "mirrors m base out" by (rule mirrors_intro [OF out(2,3) img'(3,4) ph'(2,3) h ent img'(2)]) (auto simp: seen_def split: option.splits)
      then show ?thesis using \<open>phdrs_usable ?eh\<close> False I out(2)
        by (auto simp: dump_one_def rd Let_def sc ph'(1) img'(1) dump_rebuild_def out(1) write_file_def safe_iff
            dest: write_loop_ok split: rc.splits)
    qed
  qed
qed



end
