(* ===== verification/Emit.thy ===== *)
theory Emit
  imports C_Text "HOL-Library.Sublist"
begin

unbundle bit_operations_syntax

text \<open>
  \<open>src/src/common/emit.c\<close>, first half: the growable buffer that JSON records are built in, with its writers
  for raw text, numbers, escaped strings and base64.

  \<^item> a \<open>jbuf\<close> holds the \<open>len\<close> bytes written so far (\<open>jtext\<close>) in a block of \<open>jcap\<close> bytes; \<open>jnull\<close> says that
    there is no block yet. A write that would pass the end of the block is \<open>None\<close>;
  \<^item> \<open>ra\<close> is the allocator: \<open>ra k nc\<close> says whether its call number \<open>k\<close>, for \<open>nc\<close> bytes, succeeds. The calls
    are counted by \<open>jcalls\<close>, which is no part of the C structure;
  \<^item> the growth loop doubles a 64-bit size and runs for ever once that has become 0: not returning is \<open>None\<close>;
  \<^item> C strings are the lists of the characters before the terminator.

  The writers' contract is \<open>appends\<close>, closed under sequencing; the properties read the text back with readers
  of JSON strings, numbers and base64 written from their standards.
\<close>

abbreviation QUOTE :: char where "QUOTE \<equiv> CHR 0x22"
abbreviation BSL :: char where "BSL \<equiv> CHR 0x5C"
abbreviation NL :: char where "NL \<equiv> CHR 0x0A"

section \<open>The buffer\<close>

record jbuf =
  jtext :: string
  jnull :: bool
  jcap :: nat
  jerr :: bool
  jcalls :: nat

type_synonym realloc = "nat \<Rightarrow> nat \<Rightarrow> bool"

definition jbuf_zero :: jbuf where
  "jbuf_zero = \<lparr>jtext = [], jnull = True, jcap = 0, jerr = False, jcalls = 0\<rparr>"

partial_function (option) jb_grow :: "nat \<Rightarrow> nat \<Rightarrow> nat option" where
  "jb_grow nc want = (if nc < want then jb_grow (nc * 2 mod 2 ^ 64) want else Some nc)"

definition jb_need :: "realloc \<Rightarrow> nat \<Rightarrow> jbuf \<Rightarrow> jbuf option" where
  "jb_need ra n j =
     (if jerr j then Some j
      else if szadd (length (jtext j)) n \<le> jcap j then Some j
      else do {
        nc \<leftarrow> jb_grow (if jcap j \<noteq> 0 then jcap j * 2 mod 2 ^ 64 else 8192) (szadd (length (jtext j)) n);
        (if ra (jcalls j) nc then Some (j\<lparr>jnull := False, jcap := nc, jcalls := Suc (jcalls j)\<rparr>)
         else Some (j\<lparr>jerr := True, jcalls := Suc (jcalls j)\<rparr>))
      })"

definition jb_put :: "string \<Rightarrow> jbuf \<Rightarrow> jbuf option" where
  "jb_put s j =
     (if \<not> jnull j \<and> \<not> jerr j
      then if length (jtext j) + length s \<le> jcap j then Some (j\<lparr>jtext := jtext j @ s\<rparr>) else None
      else Some j)"

definition jb_raw :: "realloc \<Rightarrow> string \<Rightarrow> jbuf \<Rightarrow> jbuf option" where
  "jb_raw ra s j = do { j \<leftarrow> jb_need ra (length s) j; jb_put s j }"

definition jb_s :: "realloc \<Rightarrow> string \<Rightarrow> jbuf \<Rightarrow> jbuf option" where
  "jb_s ra s j = jb_raw ra s j"

definition jb_c :: "realloc \<Rightarrow> char \<Rightarrow> jbuf \<Rightarrow> jbuf option" where
  "jb_c ra c j = do { j \<leftarrow> jb_need ra 1 j; jb_put [c] j }"

fun jb_cs :: "realloc \<Rightarrow> string \<Rightarrow> jbuf \<Rightarrow> jbuf option" where
  "jb_cs ra [] j = Some j"
| "jb_cs ra (c # cs) j = do { j \<leftarrow> jb_c ra c j; jb_cs ra cs j }"

section \<open>Numbers\<close>

text \<open>The digits of a number, least significant first, in an array of \<open>sz\<close> characters.\<close>

function dec_loop :: "nat \<Rightarrow> string \<Rightarrow> u64 \<Rightarrow> string option" where
  "dec_loop sz t v =
     (if length t < sz
      then let t = t @ [char_of (48 + unat (v mod 10))]; v = v div 10
           in if v \<noteq> 0 then dec_loop sz t v else Some t
      else None)"
  by auto
termination by (relation "measure (\<lambda>(sz, t, v). sz - length t)") auto

function hex_loop :: "nat \<Rightarrow> string \<Rightarrow> u64 \<Rightarrow> string option" where
  "hex_loop sz t v =
     (if length t < sz
      then let t = t @ [dg (unat (v AND 0xf))]; v = drop_bit 4 v
           in if v \<noteq> 0 then hex_loop sz t v else Some t
      else None)"
  by auto
termination by (relation "measure (\<lambda>(sz, t, v). sz - length t)") auto

definition jb_u64 :: "realloc \<Rightarrow> u64 \<Rightarrow> jbuf \<Rightarrow> jbuf option" where
  "jb_u64 ra v j = do { t \<leftarrow> dec_loop 24 [] v; j \<leftarrow> jb_need ra (length t) j; jb_cs ra (rev t) j }"

definition jb_hex :: "realloc \<Rightarrow> u64 \<Rightarrow> jbuf \<Rightarrow> jbuf option" where
  "jb_hex ra v j = do {
     t \<leftarrow> hex_loop 16 [] v;
     j \<leftarrow> jb_s ra ''0x'' j;
     j \<leftarrow> jb_need ra (length t) j;
     jb_cs ra (rev t) j
   }"

text \<open>\<open>%lld\<close>; the text is copied by the length that \<open>snprintf\<close> returns, from an array of 24.\<close>

definition show_i64 :: "u64 \<Rightarrow> string" where
  "show_i64 v = (if sint v < 0 then CHR ''-'' # show_base 10 (nat (- sint v)) else show_base 10 (nat (sint v)))"

definition jb_i64 :: "realloc \<Rightarrow> u64 \<Rightarrow> jbuf \<Rightarrow> jbuf option" where
  "jb_i64 ra v j = (if length (show_i64 v) \<le> 24 then jb_raw ra (show_i64 v) j else None)"

section \<open>Strings\<close>

definition jb_plain :: "char \<Rightarrow> bool" where
  "jb_plain c \<longleftrightarrow> 0x20 \<le> (of_char c :: nat) \<and> c \<noteq> QUOTE \<and> c \<noteq> BSL"

definition esc_char :: "char \<Rightarrow> string" where
  "esc_char c =
     (if c = QUOTE then [BSL, QUOTE]
      else if c = BSL then [BSL, BSL]
      else if c = NL then [BSL, CHR ''n'']
      else if c = CHR 0x0D then [BSL, CHR ''r'']
      else if c = CHR 0x09 then [BSL, CHR ''t'']
      else snprintf 8 (let h = show_base 16 (of_char c) in [BSL, CHR ''u''] @ replicate (4 - length h) (CHR ''0'') @ h))"

function jb_esc :: "realloc \<Rightarrow> string \<Rightarrow> jbuf \<Rightarrow> jbuf option" where
  "jb_esc ra p j =
     (if p = [] then Some j
      else let run = takeWhile jb_plain p; rest = dropWhile jb_plain p
           in do {
             j \<leftarrow> (if run \<noteq> [] then jb_raw ra run j else Some j);
             (case rest of [] \<Rightarrow> Some j
              | c # cs \<Rightarrow> do { j \<leftarrow> jb_s ra (esc_char c) j; jb_esc ra cs j })
           })"
  by auto
termination
proof (relation "measure (\<lambda>(ra, p, j). length p)", simp, goal_cases)
  case (1 ra p j run rest j1 c cs j2)
  then have "length (c # cs) \<le> length p" using length_dropWhile_le [of jb_plain p] by metis
  then show ?case by simp
qed

definition b64_alphabet :: string where
  "b64_alphabet = ''ABCDEFGHIJKLMNOPQRSTUVWXYZabcdefghijklmnopqrstuvwxyz0123456789+/''"

definition b64_dg :: "u32 \<Rightarrow> nat \<Rightarrow> char" where
  "b64_dg v k = b64_alphabet ! unat (drop_bit k v AND 63)"

fun jb_b64_loop :: "realloc \<Rightarrow> bytes \<Rightarrow> jbuf \<Rightarrow> jbuf option" where
  "jb_b64_loop ra [] j = Some j"
| "jb_b64_loop ra [a] j = do {
     let v = push_bit 16 (ucast a);
     j \<leftarrow> jb_c ra (b64_dg v 18) j; j \<leftarrow> jb_c ra (b64_dg v 12) j;
     jb_s ra ''=='' j
   }"
| "jb_b64_loop ra [a, b] j = do {
     let v = push_bit 16 (ucast a) OR push_bit 8 (ucast b);
     j \<leftarrow> jb_c ra (b64_dg v 18) j; j \<leftarrow> jb_c ra (b64_dg v 12) j;
     j \<leftarrow> jb_c ra (b64_dg v 6) j; jb_c ra (CHR ''='') j
   }"
| "jb_b64_loop ra (a # b # c # p) j = do {
     let v = push_bit 16 (ucast a) OR push_bit 8 (ucast b) OR ucast c;
     j \<leftarrow> jb_c ra (b64_dg v 18) j; j \<leftarrow> jb_c ra (b64_dg v 12) j;
     j \<leftarrow> jb_c ra (b64_dg v 6) j; j \<leftarrow> jb_c ra (b64_dg v 0) j;
     jb_b64_loop ra p j
   }"

definition jb_b64 :: "realloc \<Rightarrow> bytes \<Rightarrow> jbuf \<Rightarrow> jbuf option" where
  "jb_b64 ra p j = do { j \<leftarrow> jb_need ra ((length p + 2) div 3 * 4) j; jb_b64_loop ra p j }"

section \<open>Growing the buffer\<close>

text \<open>A block is a power of two between the first allocation and \<open>2 ^ 63\<close>, and there is text only in a block.\<close>

definition jb_block :: "nat \<Rightarrow> bool" where
  "jb_block c \<longleftrightarrow> list_ex (\<lambda>k. c = 2 ^ k) [13..<64]"

lemma jb_block_iff: "jb_block c \<longleftrightarrow> (\<exists>k. 13 \<le> k \<and> k \<le> 63 \<and> c = 2 ^ k)"
proof -
  have "k < 64 \<longleftrightarrow> k \<le> 63" for k :: nat by presburger
  then show ?thesis unfolding jb_block_def list_ex_iff set_upt atLeastLessThan_iff Bex_def by blast
qed

definition jb_wf :: "jbuf \<Rightarrow> bool" where
  "jb_wf j \<longleftrightarrow> length (jtext j) \<le> jcap j \<and>
     (if jnull j then jcap j = 0 else jb_block (jcap j))"

lemma double_wrap: "2 ^ 63 * 2 mod 2 ^ 64 = (0 :: nat)" "k < 63 \<Longrightarrow> 2 ^ k * 2 mod 2 ^ 64 = (2 ^ Suc k :: nat)"
proof -
  assume "k < 63"
  then have "2 ^ Suc k < (2 :: nat) ^ 64" by (intro power_strict_increasing) simp_all
  then show "2 ^ k * 2 mod 2 ^ 64 = (2 ^ Suc k :: nat)" by (simp only: power_Suc2 mod_less)
qed simp

lemma jb_grow_finds: "k \<le> 63 \<Longrightarrow> want \<le> 2 ^ 63 \<Longrightarrow> \<exists>k'. k \<le> k' \<and> k' \<le> 63 \<and> want \<le> 2 ^ k' \<and> jb_grow (2 ^ k) want = Some (2 ^ k')"
proof (induction "63 - k" arbitrary: k)
  case 0
  then show ?case by (intro exI [of _ k]) (subst jb_grow.simps, simp)
next
  case (Suc d)
  show ?case
  proof (cases "2 ^ k < want")
    case True
    have "2 ^ k * 2 mod 2 ^ 64 = (2 ^ Suc k :: nat)" using Suc.hyps(2) by (intro double_wrap(2)) simp
    then have e: "jb_grow (2 ^ k) want = jb_grow (2 ^ Suc k) want" using True jb_grow.simps [of "2 ^ k" want] by (simp only: if_True)
    have d: "d = 63 - Suc k" "Suc k \<le> 63" using Suc.hyps(2) by simp_all
    obtain k' where "Suc k \<le> k'" "k' \<le> 63" "want \<le> 2 ^ k'" "jb_grow (2 ^ Suc k) want = Some (2 ^ k')"
      using Suc.hyps(1) [OF d] Suc.prems(2) by blast
    then show ?thesis unfolding e using Suc_leD by blast
  next
    case False
    then show ?thesis using Suc.prems by (auto simp: jb_grow.simps [of "2 ^ k"] intro!: exI [of _ k])
  qed
qed

text \<open>The sizes the loop passes through, 0 included, stay below any larger request.\<close>

definition jb_pow :: "nat \<Rightarrow> bool" where
  "jb_pow c \<longleftrightarrow> c = 0 \<or> (\<exists>k \<le> 63. c = 2 ^ k)"

lemma jb_pow_le: "jb_pow c \<Longrightarrow> c \<le> 2 ^ 63"
proof -
  have "(2 :: nat) ^ k \<le> 2 ^ 63" if "k \<le> 63" for k using that by (intro power_increasing) simp_all
  then show "jb_pow c \<Longrightarrow> c \<le> 2 ^ 63" unfolding jb_pow_def by auto
qed

lemma jb_pow_double: "jb_pow c \<Longrightarrow> jb_pow (c * 2 mod 2 ^ 64)"
proof -
  assume "jb_pow c"
  then consider "c = 0" | k where "k \<le> 63" "c = 2 ^ k" unfolding jb_pow_def by auto
  then show ?thesis
  proof cases
    case 2
    then show ?thesis
      using double_wrap(1) double_wrap(2) [of k] by (cases "k = 63") (auto simp: jb_pow_def intro!: exI [of _ "Suc k"])
  qed (simp add: jb_pow_def)
qed

lemma jb_grow_stuck:
  assumes "jb_grow nc want = Some y" "2 ^ 63 < want"
  shows "\<not> jb_pow nc"
proof -
  define M :: nat where "M = 2 ^ 63"
  have "M < want \<longrightarrow> \<not> jb_pow nc"
  proof (rule jb_grow.raw_induct [where P = "\<lambda>nc want y. M < want \<longrightarrow> \<not> jb_pow nc", OF _ assms(1)], intro impI notI)
    fix f nc want y
    assume IH: "\<And>nc want y. f nc want = Some y \<Longrightarrow> M < want \<longrightarrow> \<not> jb_pow nc"
      and e: "(if nc < want then f (nc * 2 mod 2 ^ 64) want else Some nc) = Some y" and w: "M < want" and p: "jb_pow nc"
    have "nc < want" using jb_pow_le [OF p] w unfolding M_def by simp
    then have "f (nc * 2 mod 2 ^ 64) want = Some y" using e by (simp only: if_True)
    then show False using IH w jb_pow_double [OF p] by blast
  qed
  then show ?thesis using assms(2) unfolding M_def by blast
qed

lemma jb_need_grown:
  assumes w: "jb_wf j" and n: "length (jtext j) + n \<le> 2 ^ 63" "\<not> jerr j" "jcap j < length (jtext j) + n"
  obtains k where "13 \<le> k" "k \<le> 63" "length (jtext j) + n \<le> 2 ^ k"
    "jb_need ra n j = Some (if ra (jcalls j) (2 ^ k) then j\<lparr>jnull := False, jcap := 2 ^ k, jcalls := Suc (jcalls j)\<rparr>
       else j\<lparr>jerr := True, jcalls := Suc (jcalls j)\<rparr>)"
proof -
  have s: "szadd (length (jtext j)) n = length (jtext j) + n" using n(1) by simp
  obtain k0 where k0: "13 \<le> k0" "k0 \<le> 63" "(if jcap j \<noteq> 0 then jcap j * 2 mod 2 ^ 64 else 8192) = 2 ^ k0"
  proof (cases "jnull j")
    case True
    then show ?thesis using w that [of 13] by (simp add: jb_wf_def)
  next
    case False
    then obtain k where k: "13 \<le> k" "k \<le> 63" "jcap j = 2 ^ k" using w by (auto simp: jb_wf_def jb_block_iff)
    then have "k \<noteq> 63" using n by auto
    then have "k < 63" using k by simp
    then have "(if jcap j \<noteq> 0 then jcap j * 2 mod 2 ^ 64 else 8192) = 2 ^ Suc k"
      unfolding k(3) using double_wrap(2) [of k] by simp
    then show ?thesis using k(1) \<open>k < 63\<close> that [of "Suc k"] by simp
  qed
  obtain k where "k0 \<le> k" "k \<le> 63" "length (jtext j) + n \<le> 2 ^ k" "jb_grow (2 ^ k0) (length (jtext j) + n) = Some (2 ^ k)"
    using jb_grow_finds [OF k0(2) n(1)] by blast
  then show ?thesis using that [of k] k0 s n by (simp add: jb_need_def)
qed

text \<open>What making room achieves: afterwards there is room, or the buffer is poisoned; the text stays.\<close>

lemma jb_need_ok:
  assumes "jb_wf j" "length (jtext j) + n \<le> 2 ^ 63"
  shows "\<exists>j'. jb_need ra n j = Some j' \<and> jb_wf j' \<and> jtext j' = jtext j \<and>
    (jerr j \<longrightarrow> j' = j) \<and> (\<not> jerr j' \<longrightarrow> length (jtext j) + n \<le> jcap j')"
proof (cases "jerr j \<or> length (jtext j) + n \<le> jcap j")
  case True
  then show ?thesis using assms by (auto simp: jb_need_def)
next
  case False
  then obtain k where k: "13 \<le> k" "k \<le> 63" "length (jtext j) + n \<le> 2 ^ k"
    "jb_need ra n j = Some (if ra (jcalls j) (2 ^ k) then j\<lparr>jnull := False, jcap := 2 ^ k, jcalls := Suc (jcalls j)\<rparr>
       else j\<lparr>jerr := True, jcalls := Suc (jcalls j)\<rparr>)"
    using jb_need_grown [OF assms] by (metis leI)
  moreover have "jb_block (2 ^ k)" using k(1,2) by (auto simp: jb_block_iff)
  ultimately show ?thesis using assms(1) False by (auto simp: jb_wf_def)
qed

lemma jcap_pow: "jb_wf j \<Longrightarrow> jb_pow (jcap j)"
  by (auto simp: jb_wf_def jb_block_iff jb_pow_def split: if_splits)

lemma jb_pow_8192: "jb_pow 8192"
  unfolding jb_pow_def by (intro disjI2 exI [of _ 13]) simp

text \<open>C21: making room in the buffer ends exactly when the text and the room asked for fit in \<open>2 ^ 63\<close> bytes,
  whatever the allocator answers; above that the doubled size becomes 0 and the loop never ends.\<close>

theorem jb_need_returns:
  assumes "jb_wf j" "\<not> jerr j" "length (jtext j) + n < 2 ^ 64"
  shows "jb_need ra n j \<noteq> None \<longleftrightarrow> length (jtext j) + n \<le> 2 ^ 63"
proof (rule iffI, rule ccontr)
  assume r: "jb_need ra n j \<noteq> None" and n: "\<not> length (jtext j) + n \<le> 2 ^ 63"
  have c: "jb_pow (jcap j)" using assms(1) by (rule jcap_pow)
  have p: "jb_pow (if jcap j \<noteq> 0 then jcap j * 2 mod 2 ^ 64 else 8192)"
    using jb_pow_double [OF c] jb_pow_8192 by (simp only: split: if_split) blast
  have "\<not> szadd (length (jtext j)) n \<le> jcap j" using n assms(3) jb_pow_le [OF c] by simp
  then obtain y where "jb_grow (if jcap j \<noteq> 0 then jcap j * 2 mod 2 ^ 64 else 8192) (length (jtext j) + n) = Some y"
    using r assms(2,3) by (cases "jb_grow (if jcap j \<noteq> 0 then jcap j * 2 mod 2 ^ 64 else 8192) (length (jtext j) + n)")
      (auto simp: jb_need_def)
  then show False using jb_grow_stuck p n by (metis not_le)
next
  assume "length (jtext j) + n \<le> 2 ^ 63"
  then show "jb_need ra n j \<noteq> None" using jb_need_ok [OF assms(1)] by (metis option.distinct(1))
qed

lemma jb_need_returns_witness: "jb_need (\<lambda>_ _. False) 10000 jbuf_zero \<noteq> None"
  by (subst jb_need_returns) (simp_all add: jb_wf_def jbuf_zero_def)

section \<open>What the writers append\<close>

text \<open>The contract of a writer: it returns without leaving the block and keeps the invariant; a poisoned buffer
  is left as it is; otherwise the text grows by \<open>t\<close>, or by a part of it with the buffer poisoned, which does
  not happen when the allocator always succeeds.\<close>

definition appends :: "realloc \<Rightarrow> (jbuf \<Rightarrow> jbuf option) \<Rightarrow> string \<Rightarrow> bool" where
  "appends ra w t \<longleftrightarrow> (\<forall>j. jb_wf j \<and> length (jtext j) + length t \<le> 2 ^ 63 \<longrightarrow>
     (\<exists>j' u. w j = Some j' \<and> jb_wf j' \<and> (jerr j \<longrightarrow> j' = j) \<and> jtext j' = jtext j @ u \<and> prefix u t \<and>
        (\<not> jerr j' \<longrightarrow> u = t) \<and> ((\<forall>k n. ra k n) \<and> \<not> jerr j \<longrightarrow> \<not> jerr j')))"

lemma appendsI:
  assumes "\<And>j. jb_wf j \<Longrightarrow> length (jtext j) + length t \<le> 2 ^ 63 \<Longrightarrow>
     \<exists>j' u. w j = Some j' \<and> jb_wf j' \<and> (jerr j \<longrightarrow> j' = j) \<and> jtext j' = jtext j @ u \<and> prefix u t \<and>
        (\<not> jerr j' \<longrightarrow> u = t) \<and> ((\<forall>k n. ra k n) \<and> \<not> jerr j \<longrightarrow> \<not> jerr j')"
  shows "appends ra w t"
  using assms by (simp add: appends_def)

lemma appendsE:
  assumes "appends ra w t" "jb_wf j" "length (jtext j) + length t \<le> 2 ^ 63"
  obtains j' u where "w j = Some j'" "jb_wf j'" "jerr j \<longrightarrow> j' = j" "jtext j' = jtext j @ u" "prefix u t"
    "\<not> jerr j' \<longrightarrow> u = t" "(\<forall>k n. ra k n) \<and> \<not> jerr j \<longrightarrow> \<not> jerr j'"
  using assms unfolding appends_def by blast

lemma appends_nil: "appends ra Some []"
  by (rule appendsI) auto

lemma appends_bind:
  assumes f: "appends ra f s" and g: "appends ra g t"
  shows "appends ra (\<lambda>j. Option.bind (f j) g) (s @ t)"
proof (rule appendsI)
  fix j assume w: "jb_wf j" and l: "length (jtext j) + length (s @ t) \<le> 2 ^ 63"
  then obtain j1 u where j1: "f j = Some j1" "jb_wf j1" "jerr j \<longrightarrow> j1 = j" "jtext j1 = jtext j @ u" "prefix u s"
    "\<not> jerr j1 \<longrightarrow> u = s" "(\<forall>k n. ra k n) \<and> \<not> jerr j \<longrightarrow> \<not> jerr j1"
    using appendsE [OF f, of j] by auto
  have "length u \<le> length s" using j1(5) by (rule prefix_length_le)
  then obtain j2 v where j2: "g j1 = Some j2" "jb_wf j2" "jerr j1 \<longrightarrow> j2 = j1" "jtext j2 = jtext j1 @ v" "prefix v t"
    "\<not> jerr j2 \<longrightarrow> v = t" "(\<forall>k n. ra k n) \<and> \<not> jerr j1 \<longrightarrow> \<not> jerr j2"
    using appendsE [OF g j1(2)] j1(4) l by auto
  have "prefix (u @ v) (s @ t)"
    using j1(4-6) j2(3-5) by (cases "jerr j1") auto
  moreover have "\<not> jerr j2 \<longrightarrow> u @ v = s @ t" using j1(6) j2(3,6) by (cases "jerr j1") auto
  ultimately show "\<exists>j' u. Option.bind (f j) g = Some j' \<and> jb_wf j' \<and> (jerr j \<longrightarrow> j' = j) \<and> jtext j' = jtext j @ u \<and>
      prefix u (s @ t) \<and> (\<not> jerr j' \<longrightarrow> u = s @ t) \<and> ((\<forall>k n. ra k n) \<and> \<not> jerr j \<longrightarrow> \<not> jerr j')"
    using j1 j2 by (intro exI [of _ j2] exI [of _ "u @ v"]) auto
qed

lemma jb_need_grants:
  assumes "jb_wf j" "length (jtext j) + n \<le> 2 ^ 63" "\<forall>k n. ra k n" "\<not> jerr j"
  shows "jb_need ra n j = Some j' \<Longrightarrow> \<not> jerr j'"
  using assms by (auto simp: jb_need_def split: if_splits bind_splits)

lemma appends_need:
  assumes g: "appends ra g t" and n: "n \<le> length t"
  shows "appends ra (\<lambda>j. Option.bind (jb_need ra n j) g) t"
proof (rule appendsI)
  fix j assume w: "jb_wf j" and l: "length (jtext j) + length t \<le> 2 ^ 63"
  then obtain j1 where j1: "jb_need ra n j = Some j1" "jb_wf j1" "jtext j1 = jtext j" "jerr j \<longrightarrow> j1 = j"
    using jb_need_ok [of j n ra] n by auto
  have g1: "\<not> jerr j1" if "\<forall>k n. ra k n" "\<not> jerr j" using jb_need_grants [OF w _ that j1(1)] l n by simp
  obtain j2 u where "g j1 = Some j2" "jb_wf j2" "jerr j1 \<longrightarrow> j2 = j1" "jtext j2 = jtext j1 @ u" "prefix u t"
    "\<not> jerr j2 \<longrightarrow> u = t" "(\<forall>k n. ra k n) \<and> \<not> jerr j1 \<longrightarrow> \<not> jerr j2"
    using appendsE [OF g j1(2)] j1(3) l by auto
  then show "\<exists>j' u. Option.bind (jb_need ra n j) g = Some j' \<and> jb_wf j' \<and> (jerr j \<longrightarrow> j' = j) \<and> jtext j' = jtext j @ u \<and>
      prefix u t \<and> (\<not> jerr j' \<longrightarrow> u = t) \<and> ((\<forall>k n. ra k n) \<and> \<not> jerr j \<longrightarrow> \<not> jerr j')"
    using j1 g1 by (intro exI [of _ j2] exI [of _ u]) auto
qed

lemma appends_raw: "appends ra (jb_raw ra t) t"
proof (rule appendsI)
  fix j assume w: "jb_wf j" and l: "length (jtext j) + length t \<le> 2 ^ 63"
  then obtain j1 where j1: "jb_need ra (length t) j = Some j1" "jb_wf j1" "jtext j1 = jtext j" "jerr j \<longrightarrow> j1 = j"
    "\<not> jerr j1 \<longrightarrow> length (jtext j) + length t \<le> jcap j1"
    using jb_need_ok [of j "length t" ra] by auto
  have g1: "\<not> jerr j1" if "\<forall>k n. ra k n" "\<not> jerr j" using jb_need_grants [OF w l that j1(1)] .
  have "t = []" if "jnull j1" "\<not> jerr j1" using j1(2,5) that by (simp add: jb_wf_def)
  then show "\<exists>j' u. jb_raw ra t j = Some j' \<and> jb_wf j' \<and> (jerr j \<longrightarrow> j' = j) \<and> jtext j' = jtext j @ u \<and>
      prefix u t \<and> (\<not> jerr j' \<longrightarrow> u = t) \<and> ((\<forall>k n. ra k n) \<and> \<not> jerr j \<longrightarrow> \<not> jerr j')"
    using j1 g1 by (cases "jnull j1 \<or> jerr j1") (auto simp: jb_raw_def jb_put_def jb_wf_def)
qed

lemma appends_s: "appends ra (jb_s ra t) t"
  using appends_raw by (simp add: jb_s_def [abs_def])

lemma jb_c_raw: "jb_c ra c = jb_raw ra [c]"
  by (simp add: fun_eq_iff jb_c_def jb_raw_def)

lemma appends_c: "appends ra (jb_c ra c) [c]"
  unfolding jb_c_raw by (rule appends_raw)

lemma appends_cs: "appends ra (jb_cs ra t) t"
proof (induction t)
  case Nil
  then show ?case using appends_nil by (simp add: fun_eq_iff [symmetric] jb_cs.simps(1) [abs_def])
next
  case (Cons c t)
  then show ?case using appends_bind [OF appends_c Cons] by (simp add: jb_cs.simps(2) [abs_def])
qed

subsection \<open>Numbers\<close>

declare hex_loop.simps [simp del] dec_loop.simps [simp del]

lemma unat_and_15: "unat (v AND 0xf) = unat v mod 16" for v :: u64
proof -
  have "v AND 0xf = take_bit 4 v" by (simp add: take_bit_eq_mask mask_eq_exp_minus_1)
  then show ?thesis by (simp add: take_bit_eq_mod unat_mod)
qed

lemma unat_drop_4: "unat (drop_bit 4 v) = unat v div 16" for v :: u64
  by (simp add: drop_bit_eq_div unat_div)

lemma hex_loop_eq:
  "length t + k \<le> sz \<Longrightarrow> unat v < 16 ^ k \<Longrightarrow> 0 < k \<Longrightarrow> hex_loop sz t v = Some (t @ rev (show_base 16 (unat v)))"
proof (induction k arbitrary: t v)
  case (Suc k)
  have d: "unat (v AND 0xf) = unat v mod 16" "unat (drop_bit 4 v) = unat v div 16"
    by (rule unat_and_15, rule unat_drop_4)
  show ?case
  proof (cases "unat v < 16")
    case True
    then have "drop_bit 4 v = 0" using d(2) by (metis div_less unat_eq_zero)
    then show ?thesis using True d Suc.prems(1) by (subst hex_loop.simps, subst show_base.simps) simp
  next
    case False
    then have "drop_bit 4 v \<noteq> 0" "0 < k" using d(2) Suc.prems(2) by (auto simp: unat_eq_zero [symmetric]) (cases k; simp)
    moreover have "unat (drop_bit 4 v) < 16 ^ k" using d(2) Suc.prems(2) by (simp add: less_mult_imp_div_less mult.commute)
    ultimately show ?thesis
      using Suc.IH [of "t @ [dg (unat v mod 16)]" "drop_bit 4 v"] Suc.prems(1) False d
      by (subst hex_loop.simps, subst show_base.simps) simp
  qed
qed simp

lemma dg_dec: "d < 10 \<Longrightarrow> char_of (48 + d) = dg d"
proof -
  assume d: "d < 10"
  then have "d \<in> {0, 1, 2, 3, 4, 5, 6, 7, 8, 9}" by (simp only: insert_iff empty_iff) presburger
  then have "48 + d = of_char (dg d)"
    by (elim insertE emptyE; simp add: dg_def)
  then show ?thesis by simp
qed

lemma dec_loop_eq:
  "length t + k \<le> sz \<Longrightarrow> unat v < 10 ^ k \<Longrightarrow> 0 < k \<Longrightarrow> dec_loop sz t v = Some (t @ rev (show_base 10 (unat v)))"
proof (induction k arbitrary: t v)
  case (Suc k)
  have d: "unat (v mod 10) = unat v mod 10" "unat (v div 10) = unat v div 10"
    by (simp_all add: unat_mod unat_div)
  show ?case
  proof (cases "unat v < 10")
    case True
    then have "v div 10 = 0" using d(2) by (metis div_less unat_eq_zero)
    then show ?thesis using True d Suc.prems(1) by (subst dec_loop.simps, subst show_base.simps) (simp add: dg_dec)
  next
    case False
    then have "v div 10 \<noteq> 0" "0 < k" using d(2) Suc.prems(2) by (auto simp: unat_eq_zero [symmetric]) (cases k; simp)
    moreover have "unat (v div 10) < 10 ^ k" using d(2) Suc.prems(2) by (simp add: less_mult_imp_div_less mult.commute)
    ultimately show ?thesis
      using Suc.IH [of "t @ [dg (unat v mod 10)]" "v div 10"] Suc.prems(1) False d
      by (subst dec_loop.simps, subst show_base.simps) (simp add: dg_dec)
  qed
qed simp

lemma appends_u64: "appends ra (jb_u64 ra v) (show_dec v)"
proof -
  have "unat v < 2 ^ LENGTH(64)" by (rule unsigned_less)
  then have "unat v < 10 ^ 20" by simp
  then have "dec_loop 24 [] v = Some (rev (show_dec v))" using dec_loop_eq [of "[]" 20 24 v] by simp
  then have "jb_u64 ra v = (\<lambda>j. Option.bind (jb_need ra (length (show_dec v)) j) (jb_cs ra (show_dec v)))"
    by (simp add: fun_eq_iff jb_u64_def)
  then show ?thesis using appends_need [OF appends_cs] by simp
qed

lemma appends_hex: "appends ra (jb_hex ra v) (''0x'' @ show_hex v)"
proof -
  have "unat v < 2 ^ LENGTH(64)" by (rule unsigned_less)
  then have "unat v < 16 ^ 16" by simp
  then have "hex_loop 16 [] v = Some (rev (show_hex v))" using hex_loop_eq [of "[]" 16 16 v] by simp
  then have "jb_hex ra v = (\<lambda>j. Option.bind (jb_s ra ''0x'' j) (\<lambda>j. Option.bind (jb_need ra (length (show_hex v)) j) (jb_cs ra (show_hex v))))"
    by (simp add: fun_eq_iff jb_hex_def)
  then show ?thesis using appends_bind [OF appends_s [of ra "''0x''"] appends_need [OF appends_cs [of ra "show_hex v"] order_refl]] by simp
qed

lemma length_show_i64: "length (show_i64 v) \<le> 20"
proof -
  have "- (2 ^ 63) \<le> sint v" "sint v < 2 ^ 63" using sint_range_size [of v] by (simp_all add: word_size)
  then have "nat (- sint v) < 10 ^ 19" "nat (sint v) < 10 ^ 19" by (simp_all add: nat_less_iff)
  then have "length (show_base 10 (nat (- sint v))) \<le> 19" "length (show_base 10 (nat (sint v))) \<le> 19"
    by (intro length_show_base; simp)+
  then show ?thesis by (simp add: show_i64_def)
qed

lemma appends_i64: "appends ra (jb_i64 ra v) (show_i64 v)"
  using appends_raw length_show_i64 [of v] by (simp add: jb_i64_def [abs_def])

subsection \<open>Strings\<close>

definition esc1 :: "char \<Rightarrow> string" where
  "esc1 c = (if jb_plain c then [c] else esc_char c)"

definition json_esc :: "string \<Rightarrow> string" where
  "json_esc s = concat (map esc1 s)"

declare jb_esc.simps [simp del]

lemma esc_plain: "list_all jb_plain s \<Longrightarrow> json_esc s = s"
  by (induction s) (auto simp: json_esc_def esc1_def)

lemma appends_esc: "appends ra (jb_esc ra p) (json_esc p)"
proof (induction "length p" arbitrary: p rule: less_induct)
  case less
  define run rest where "run = takeWhile jb_plain p" and "rest = dropWhile jb_plain p"
  have p: "p = run @ rest" by (simp add: run_def rest_def)
  have run: "list_all jb_plain run" by (auto simp: run_def list_all_iff dest: set_takeWhileD)
  let ?f = "\<lambda>j. if run \<noteq> [] then jb_raw ra run j else Some j"
  have f: "appends ra ?f run" using appends_raw appends_nil by (cases "run = []") simp_all
  let ?g = "\<lambda>j. case rest of [] \<Rightarrow> Some j | c # cs \<Rightarrow> Option.bind (jb_s ra (esc_char c) j) (jb_esc ra cs)"
  have g: "appends ra ?g (json_esc rest)"
  proof (cases rest)
    case Nil
    then show ?thesis using appends_nil by (simp add: json_esc_def)
  next
    case (Cons c cs)
    then have "\<not> jb_plain c" unfolding rest_def by (simp add: dropWhile_eq_Cons_conv)
    moreover have "length cs < length p" unfolding p Cons by simp
    ultimately show ?thesis
      using appends_bind [OF appends_s [of ra "esc_char c"] less [of cs]] Cons by (simp add: json_esc_def esc1_def)
  qed
  show ?case
  proof (cases "p = []")
    case True
    then show ?thesis using appends_nil by (simp add: jb_esc.simps [abs_def] json_esc_def)
  next
    case False
    then have "jb_esc ra p = (\<lambda>j. Option.bind (?f j) ?g)"
      by (simp add: fun_eq_iff jb_esc.simps [of ra p] Let_def run_def rest_def split: list.splits)
    moreover have "json_esc p = run @ json_esc rest"
      using esc_plain [OF run] by (subst p) (simp add: json_esc_def)
    ultimately show ?thesis using appends_bind [OF f g] by simp
  qed
qed

text \<open>A reader of JSON string bodies (RFC 8259, section 7), up to the closing quote: raw control characters are
  refused, and the code points read are those of one byte.\<close>

definition json_short :: "char \<Rightarrow> char option" where
  "json_short = map_of [(QUOTE, QUOTE), (BSL, BSL), (CHR ''/'', CHR ''/''), (CHR ''b'', CHR 0x08), (CHR ''f'', CHR 0x0C),
     (CHR ''n'', NL), (CHR ''r'', CHR 0x0D), (CHR ''t'', CHR 0x09)]"

fun json_body :: "string \<Rightarrow> (string \<times> string) option" where
  "json_body [] = None"
| "json_body (c # cs) =
     (if c = QUOTE then Some ([], cs)
      else if c \<noteq> BSL then if (of_char c :: nat) < 0x20 then None else map_option (apfst ((#) c)) (json_body cs)
      else case cs of
          [] \<Rightarrow> None
        | e # r \<Rightarrow>
            if e = CHR ''u'' then
              (case r of
                 a # b # d # f # r' \<Rightarrow>
                   (case read_base 16 [a, b, d, f] of
                      None \<Rightarrow> None
                    | Some n \<Rightarrow> if n < 128 then map_option (apfst ((#) (char_of n))) (json_body r') else None)
               | _ \<Rightarrow> None)
            else (case json_short e of None \<Rightarrow> None | Some x \<Rightarrow> map_option (apfst ((#) x)) (json_body r)))"

declare json_body.simps(2) [simp del]

lemma esc_control:
  assumes "(of_char c :: nat) < 32" "c \<noteq> NL" "c \<noteq> CHR 0x0D" "c \<noteq> CHR 0x09"
  shows "\<exists>a b. esc_char c = [BSL, CHR ''u'', CHR ''0'', CHR ''0'', a, b] \<and> read_base 16 [CHR ''0'', CHR ''0'', a, b] = Some (of_char c)"
proof -
  define n :: nat where "n = of_char c"
  have n: "n < 32" using assms(1) by (simp add: n_def)
  have r: "replicate 3 x = [x, x, x]" "replicate 2 x = [x, x]" for x :: char by (simp_all add: numeral_eq_Suc)
  have z: "digit_val (CHR ''0'') = Some 0" by (simp add: digit_val_def)
  have "c \<noteq> QUOTE" "c \<noteq> BSL" using assms(1) by auto
  then have e: "esc_char c = snprintf 8 (let h = show_base 16 n in [BSL, CHR ''u''] @ replicate (4 - length h) (CHR ''0'') @ h)"
    using assms by (simp add: esc_char_def n_def)
  have "esc_char c = [BSL, CHR ''u'', CHR ''0'', CHR ''0'', dg (n div 16), dg (n mod 16)]"
  proof (cases "n < 16")
    case True
    then have "show_base 16 n = [dg n]" by (subst show_base.simps) simp
    then show ?thesis using True unfolding e by (simp add: r) (simp add: dg_def)
  next
    case False
    then have "show_base 16 n = [dg (n div 16), dg (n mod 16)]"
      using n by (subst show_base.simps, subst show_base.simps) simp
    then show ?thesis unfolding e by (simp add: r)
  qed
  moreover have "read_base 16 [CHR ''0'', CHR ''0'', dg (n div 16), dg (n mod 16)] = Some n"
    using n z by (simp add: read_base_def digit_val_dg)
  ultimately show ?thesis unfolding n_def by blast
qed

lemma json_body_esc1: "json_body (esc1 c @ s) = map_option (apfst ((#) c)) (json_body s)"
proof (cases "jb_plain c \<or> c \<in> {QUOTE, BSL, NL, CHR 0x0D, CHR 0x09}")
  case True
  then show ?thesis
    by (auto simp: esc1_def esc_char_def jb_plain_def json_body.simps(2) json_short_def)
next
  case False
  then have "(of_char c :: nat) < 32" by (auto simp: jb_plain_def)
  moreover from this obtain a b where "esc_char c = [BSL, CHR ''u'', CHR ''0'', CHR ''0'', a, b]"
    "read_base 16 [CHR ''0'', CHR ''0'', a, b] = Some (of_char c)"
    using esc_control False by blast
  ultimately show ?thesis using False by (simp add: esc1_def json_body.simps(2))
qed

lemma json_body_esc: "json_body (json_esc s @ QUOTE # r) = Some (s, r)"
  by (induction s) (auto simp: json_esc_def json_body_esc1 json_body.simps(2))

lemma length_esc1: "length (esc1 c) \<le> 6"
proof (cases "jb_plain c \<or> c \<in> {QUOTE, BSL, NL, CHR 0x0D, CHR 0x09}")
  case True
  then show ?thesis by (auto simp: esc1_def esc_char_def)
next
  case False
  then have "(of_char c :: nat) < 32" by (auto simp: jb_plain_def)
  then show ?thesis using esc_control [of c] False by (auto simp: esc1_def)
qed

lemma length_json_esc: "length (json_esc s) \<le> 6 * length s"
proof (induction s)
  case (Cons c s)
  then show ?case using length_esc1 [of c] by (simp add: json_esc_def)
qed (simp add: json_esc_def)

text \<open>The contract on a run that asks only about the outcome.\<close>

lemma appends_safe:
  assumes "appends ra w t" "jb_wf j" "length (jtext j) + length t \<le> 2 ^ 63"
  shows "safe (w j) (\<lambda>j'. jb_wf j' \<and> prefix (jtext j) (jtext j') \<and> (jerr j \<longrightarrow> j' = j) \<and>
    (jerr j' \<or> jtext j' = jtext j @ t) \<and> (jerr j' \<and> \<not> jerr j \<longrightarrow> \<not> (\<forall>k n. ra k n)))"
  by (rule appendsE [OF assms]) auto

text \<open>C22: escaping a string loses nothing and cannot break the JSON around it. Whatever characters the string
  holds, the call returns without leaving the buffer, and unless memory ran out the text it appended, closed
  by a quote, is a JSON string body that reads back as exactly the string and ends at that quote.\<close>

theorem jb_esc_roundtrip:
  assumes "jb_wf j" "\<not> jerr j" "length (jtext j) + 6 * length s \<le> 2 ^ 63"
  shows "safe (jb_esc ra s j) (\<lambda>j'. jb_wf j' \<and>
    (if jerr j' then \<not> (\<forall>k n. ra k n)
     else \<exists>t. jtext j' = jtext j @ t \<and> json_body (t @ QUOTE # rest) = Some (s, rest)))"
proof (rule safe_mono [OF appends_safe [OF appends_esc assms(1)]])
  show "length (jtext j) + length (json_esc s) \<le> 2 ^ 63" using assms(3) length_json_esc [of s] by linarith
qed (use assms(2) json_body_esc in auto)

lemma jb_esc_roundtrip_witness:
  "safe (jb_esc (\<lambda>_ _. True) [CHR ''a'', QUOTE, NL, CHR 0x01] jbuf_zero)
     (\<lambda>j'. json_body (jtext j' @ QUOTE # ''}'') = Some ([CHR ''a'', QUOTE, NL, CHR 0x01], ''}''))"
proof -
  have "safe (jb_esc (\<lambda>_ _. True) [CHR ''a'', QUOTE, NL, CHR 0x01] jbuf_zero) (\<lambda>j'. jb_wf j' \<and>
    (if jerr j' then \<not> (\<forall>(k :: nat) (n :: nat). True)
     else \<exists>t. jtext j' = jtext jbuf_zero @ t \<and> json_body (t @ QUOTE # ''}'') = Some ([CHR ''a'', QUOTE, NL, CHR 0x01], ''}'')))"
    by (rule jb_esc_roundtrip) (simp_all add: jbuf_zero_def jb_wf_def)
  then show ?thesis by (auto simp: jbuf_zero_def elim!: safe_mono split: if_splits)
qed

subsection \<open>Base64\<close>

fun b64_text :: "bytes \<Rightarrow> string" where
  "b64_text [] = []"
| "b64_text [a] = (let v = push_bit 16 (ucast a) in [b64_dg v 18, b64_dg v 12, CHR ''='', CHR ''=''])"
| "b64_text [a, b] = (let v = push_bit 16 (ucast a) OR push_bit 8 (ucast b) in [b64_dg v 18, b64_dg v 12, b64_dg v 6, CHR ''=''])"
| "b64_text (a # b # c # p) = (let v = push_bit 16 (ucast a) OR push_bit 8 (ucast b) OR ucast c
     in [b64_dg v 18, b64_dg v 12, b64_dg v 6, b64_dg v 0] @ b64_text p)"

lemma length_b64_text: "length (b64_text p) = (length p + 2) div 3 * 4"
proof (induction p rule: b64_text.induct)
  case (4 a b c p)
  have "(5 + n) div 3 = Suc (Suc (Suc n) div 3)" for n :: nat by presburger
  then show ?case using 4 by (simp add: Let_def)
qed (simp_all add: Let_def)

lemmas appends_step = appends_bind [OF appends_c]

lemma appends_b64_loop: "appends ra (jb_b64_loop ra p) (b64_text p)"
proof (induction p rule: b64_text.induct)
  case 1
  then show ?case using appends_nil by (simp add: jb_b64_loop.simps(1) [abs_def])
next
  case (2 a)
  then show ?case
    using appends_step [OF appends_step [OF appends_s [of ra "''==''"]]] by (simp add: jb_b64_loop.simps(2) [abs_def] Let_def)
next
  case (3 a b)
  then show ?case
    using appends_step [OF appends_step [OF appends_step [OF appends_c]]] by (simp add: jb_b64_loop.simps(3) [abs_def] Let_def)
next
  case (4 a b c p)
  then show ?case
    using appends_step [OF appends_step [OF appends_step [OF appends_step [OF 4]]]] by (simp add: jb_b64_loop.simps(4) [abs_def] Let_def)
qed

lemma appends_b64: "appends ra (jb_b64 ra p) (b64_text p)"
  using appends_need [OF appends_b64_loop [of ra p], of "(length p + 2) div 3 * 4"]
  by (simp add: jb_b64_def [abs_def] length_b64_text)

text \<open>A reader of base64 (RFC 4648, section 4): groups of four, padding only at the end.\<close>

definition b64_val :: "char \<Rightarrow> u32 option" where
  "b64_val = map_of (zip b64_alphabet (map of_nat [0..<64]))"

fun b64_decode :: "string \<Rightarrow> bytes option" where
  "b64_decode [] = Some []"
| "b64_decode (a # b # c # d # s) = do {
     x \<leftarrow> b64_val a; y \<leftarrow> b64_val b;
     let v = push_bit 18 x OR push_bit 12 y;
     (if c = CHR ''='' \<and> d = CHR ''='' \<and> s = [] then Some [ucast (drop_bit 16 v)]
      else do {
        z \<leftarrow> b64_val c;
        let v = v OR push_bit 6 z;
        (if d = CHR ''='' \<and> s = [] then Some [ucast (drop_bit 16 v), ucast (drop_bit 8 v)]
         else do {
           t \<leftarrow> b64_val d;
           let v = v OR t;
           bs \<leftarrow> b64_decode s;
           Some (ucast (drop_bit 16 v) # ucast (drop_bit 8 v) # ucast v # bs)
         })
      })
   }"
| "b64_decode _ = None"

lemma b64_val_nth: "i < 64 \<Longrightarrow> b64_val (b64_alphabet ! i) = Some (of_nat i)"
proof -
  assume i: "i < 64"
  have "length b64_alphabet = 64" "distinct b64_alphabet" by (simp_all add: b64_alphabet_def)
  then show ?thesis using i map_of_zip_nth [of b64_alphabet "map of_nat [0..<64]" i] by (simp add: b64_val_def)
qed

lemma b64_val_dg [simp]: "b64_val (b64_dg v k) = Some (drop_bit k v AND 63)"
proof -
  have "drop_bit k v AND 63 \<le> 63" by (rule word_and_le1)
  then have "unat (drop_bit k v AND 63) < 64" by (simp add: word_le_nat_alt)
  then show ?thesis using b64_val_nth by (simp add: b64_dg_def)
qed

lemma b64_dg_pad [simp]: "b64_dg v k \<noteq> CHR ''=''"
proof -
  have "b64_val (b64_dg v k) \<noteq> None" by simp
  then have "b64_dg v k \<in> set b64_alphabet"
    unfolding b64_val_def map_of_eq_None_iff by (metis image_iff prod.collapse set_zip_leftD)
  moreover have "CHR ''='' \<notin> set b64_alphabet" by (simp add: b64_alphabet_def)
  ultimately show ?thesis by metis
qed

lemma mask6: "(63 :: u32) = mask 6"
  by (simp add: mask_eq_exp_minus_1)

lemma u8_eqI: "(\<And>n. n \<in> {0, 1, 2, 3, 4, 5, 6, 7} \<Longrightarrow> bit x n = bit y n) \<Longrightarrow> x = y" for x y :: u8
proof (rule bit_word_eqI)
  fix n assume *: "\<And>n. n \<in> {0, 1, 2, 3, 4, 5, 6, 7} \<Longrightarrow> bit x n = bit y n" and "n < LENGTH(8)"
  then have "n < 8" by simp
  then have "n \<in> {0, 1, 2, 3, 4, 5, 6, 7}" by (simp only: insert_iff empty_iff) presburger
  then show "bit x n = bit y n" by (rule *)
qed

lemma bit_u8_high: "8 \<le> n \<Longrightarrow> bit (x :: u8) n = False"
  using bit_imp_le_length [of x n] by auto

text \<open>Four groups of six bits are the three bytes they were taken from; fewer groups are the bytes they reach.\<close>

lemma b64_join:
  fixes v :: u32 and a b c :: u8
  assumes v: "v = push_bit 16 (ucast a) OR push_bit 8 (ucast b) OR ucast c"
  shows "ucast (drop_bit 16 (push_bit 18 (drop_bit 18 v AND 63) OR push_bit 12 (drop_bit 12 v AND 63) OR
        push_bit 6 (y AND 63) OR z AND 63)) = a"
    "ucast (drop_bit 8 (push_bit 18 (drop_bit 18 v AND 63) OR push_bit 12 (drop_bit 12 v AND 63) OR
        push_bit 6 (drop_bit 6 v AND 63) OR z AND 63)) = b"
    "ucast (push_bit 18 (drop_bit 18 v AND 63) OR push_bit 12 (drop_bit 12 v AND 63) OR
        push_bit 6 (drop_bit 6 v AND 63) OR v AND 63) = c"
  unfolding v mask6 by (rule u8_eqI, elim insertE emptyE; simp add: bit_simps bit_u8_high)+

lemma b64_decode_text: "b64_decode (b64_text p) = Some p"
proof (induction p rule: b64_text.induct)
  case (2 a)
  then show ?case using b64_join(1) [of "push_bit 16 (ucast a)" a 0 0 0 0] by (simp add: Let_def)
next
  case (3 a b)
  define v :: u32 where "v = push_bit 16 (ucast a) OR push_bit 8 (ucast b)"
  then show ?case using b64_join(1) [of v a b 0 "drop_bit 6 v" 0] b64_join(2) [of v a b 0 0] by (simp add: Let_def or.assoc)
next
  case (4 a b c p)
  define v :: u32 where "v = push_bit 16 (ucast a) OR push_bit 8 (ucast b) OR ucast c"
  then show ?case
    using b64_join(1) [of v a b c "drop_bit 6 v" v] b64_join(2,3) [of v a b c] 4 by (simp add: Let_def or.assoc)
qed simp

text \<open>A base64 blob decodes to the bytes it was made from, whatever their number: the call returns without
  leaving the buffer and, unless memory ran out, appends a padded group of four for every three bytes.\<close>

theorem jb_b64_roundtrip:
  assumes "jb_wf j" "\<not> jerr j" "length (jtext j) + (length p + 2) div 3 * 4 \<le> 2 ^ 63"
  shows "safe (jb_b64 ra p j) (\<lambda>j'. jb_wf j' \<and>
    (if jerr j' then \<not> (\<forall>k n. ra k n)
     else \<exists>t. jtext j' = jtext j @ t \<and> length t = (length p + 2) div 3 * 4 \<and> b64_decode t = Some p))"
  using assms(2) b64_decode_text length_b64_text
  by (intro safe_mono [OF appends_safe [OF appends_b64 assms(1)]]) (use assms(3) length_b64_text in auto)

lemma jb_b64_roundtrip_witness:
  "safe (jb_b64 (\<lambda>_ _. True) [1, 2, 3, 255] jbuf_zero) (\<lambda>j'. length (jtext j') = 8 \<and> b64_decode (jtext j') = Some [1, 2, 3, 255])"
proof -
  have "safe (jb_b64 (\<lambda>_ _. True) [1, 2, 3, 255] jbuf_zero) (\<lambda>j'. jb_wf j' \<and>
    (if jerr j' then \<not> (\<forall>(k :: nat) (n :: nat). True)
     else \<exists>t. jtext j' = jtext jbuf_zero @ t \<and> length t = (length [1, 2, 3, 255 :: u8] + 2) div 3 * 4 \<and> b64_decode t = Some [1, 2, 3, 255]))"
    by (rule jb_b64_roundtrip) (simp_all add: jbuf_zero_def jb_wf_def)
  then show ?thesis by (auto simp: jbuf_zero_def elim!: safe_mono split: if_splits)
qed



end
