(* ===== verification/Emit_Sink.thy ===== *)
theory Emit_Sink
  imports Emit
begin

text \<open>
  \<open>src/src/common/emit.c\<close>, second half: the output sink that frames and writes the records, and
  \<open>src/src/dump/dump_emit.c\<close>, the records of a dump.

  \<^item> a stream is the text handed to it so far. What \<open>ferror\<close>, \<open>fflush\<close> and \<open>fclose\<close> report, an \<open>errno\<close> or
    nothing, is an argument of the operation that asks;
  \<^item> what a record builder promises to the sink is the locale \<open>jb_writer\<close>, interpreted on both records.
\<close>

section \<open>The sink\<close>

record anubee_sink =
  sopen :: bool
  sout :: string
  sjb :: jbuf
  scount :: u64
  sjsonl :: bool
  since_flush :: u64
  werr :: nat

text \<open>\<open>if (failed && !s->werr) s->werr = errno ? errno : EIO\<close>.\<close>

definition latch :: "nat option \<Rightarrow> nat \<Rightarrow> nat" where
  "latch failed w = (case failed of None \<Rightarrow> w | Some e \<Rightarrow> if w = 0 then if e \<noteq> 0 then e else 5 else w)"

definition anubee_sink_open :: "bool \<Rightarrow> bool \<Rightarrow> anubee_sink \<Rightarrow> anubee_sink rc" where
  "anubee_sink_open fopens jsonl s =
     (if fopens
      then Rc_ok (s\<lparr>sopen := True, sout := (if jsonl then [] else ''[''), sjsonl := jsonl, scount := 0, since_flush := 0\<rparr>)
      else Rc_err)"

abbreviation SINK_FLUSH_DEFAULT :: u64 where "SINK_FLUSH_DEFAULT \<equiv> 8192"

definition anubee_sink_emit :: "nat option \<Rightarrow> nat option \<Rightarrow> anubee_sink \<Rightarrow> anubee_sink" where
  "anubee_sink_emit fe fl s =
     (if \<not> sopen s \<or> jnull (sjb s) \<or> jtext (sjb s) = [] then s
      else if jerr (sjb s) then s\<lparr>sjb := (sjb s)\<lparr>jerr := False, jtext := []\<rparr>\<rparr>
      else let
          out = (if sjsonl s then sout s @ jtext (sjb s) @ [NL]
                 else sout s @ (if scount s \<noteq> 0 then [CHR '','', NL] @ ''  '' else NL # ''  '') @ jtext (sjb s));
          w = latch fe (werr s);
          since = since_flush s + 1
        in if since \<ge> SINK_FLUSH_DEFAULT
           then s\<lparr>sout := out, scount := scount s + 1, sjb := (sjb s)\<lparr>jtext := []\<rparr>, werr := latch fl w, since_flush := 0\<rparr>
           else s\<lparr>sout := out, scount := scount s + 1, sjb := (sjb s)\<lparr>jtext := []\<rparr>, werr := w, since_flush := since\<rparr>)"

definition anubee_sink_flush :: "nat option \<Rightarrow> anubee_sink \<Rightarrow> anubee_sink" where
  "anubee_sink_flush fl s = (if sopen s then s\<lparr>werr := latch fl (werr s)\<rparr> else s)"

definition anubee_sink_close :: "nat option \<Rightarrow> nat option \<Rightarrow> anubee_sink \<Rightarrow> anubee_sink" where
  "anubee_sink_close fl fc s =
     (if \<not> sopen s then s
      else s\<lparr>sout := (if sjsonl s then sout s else sout s @ [NL, CHR '']'', NL]),
             werr := latch fc (latch fl (werr s)), sopen := False,
             sjb := (sjb s)\<lparr>jnull := True, jtext := [], jcap := 0\<rparr>\<rparr>)"

section \<open>The records of a dump\<close>

definition key_str :: "string \<Rightarrow> string" where
  "key_str k = [CHR '','', QUOTE] @ k @ [QUOTE, CHR '':'', QUOTE]"

definition key_raw :: "string \<Rightarrow> string" where
  "key_raw k = [CHR '','', QUOTE] @ k @ [QUOTE, CHR '':'']"

definition dump_emit_module :: "realloc \<Rightarrow> string \<Rightarrow> string \<Rightarrow> u64 \<Rightarrow> 32 word \<Rightarrow> bool \<Rightarrow> jbuf \<Rightarrow> jbuf option" where
  "dump_emit_module ra module path base pid raw j = do {
     j \<leftarrow> jb_c ra (CHR ''{'') j;
     j \<leftarrow> jb_s ra (tl (key_str ''type'')) j; j \<leftarrow> jb_s ra ''dump'' j; j \<leftarrow> jb_c ra QUOTE j;
     j \<leftarrow> jb_s ra (key_str ''module'') j; j \<leftarrow> jb_esc ra module j; j \<leftarrow> jb_c ra QUOTE j;
     j \<leftarrow> jb_s ra (key_str ''path'') j; j \<leftarrow> jb_esc ra path j; j \<leftarrow> jb_c ra QUOTE j;
     j \<leftarrow> jb_s ra (key_str ''base'') j; j \<leftarrow> jb_hex ra base j; j \<leftarrow> jb_c ra QUOTE j;
     j \<leftarrow> jb_s ra (key_raw ''pid'') j; j \<leftarrow> jb_u64 ra (scast pid) j;
     j \<leftarrow> jb_s ra (key_raw ''raw'') j; j \<leftarrow> jb_s ra (if raw then ''true'' else ''false'') j;
     jb_c ra (CHR ''}'') j
   }"

definition jb_str_or_null :: "realloc \<Rightarrow> string \<Rightarrow> string option \<Rightarrow> jbuf \<Rightarrow> jbuf option" where
  "jb_str_or_null ra key v j = do {
     j \<leftarrow> jb_s ra [CHR '','', QUOTE] j; j \<leftarrow> jb_s ra key j; j \<leftarrow> jb_s ra [QUOTE, CHR '':''] j;
     (case v of
        Some v \<Rightarrow> do { j \<leftarrow> jb_c ra QUOTE j; j \<leftarrow> jb_esc ra v j; jb_c ra QUOTE j }
      | None \<Rightarrow> jb_s ra ''null'' j)
   }"

definition dump_emit_modcmp ::
  "realloc \<Rightarrow> string \<Rightarrow> string \<Rightarrow> u64 \<Rightarrow> 32 word \<Rightarrow> string \<Rightarrow> string option \<Rightarrow> string option \<Rightarrow> jbuf \<Rightarrow> jbuf option" where
  "dump_emit_modcmp ra module path base pid state mem_sha256 file_sha256 j = do {
     j \<leftarrow> jb_c ra (CHR ''{'') j;
     j \<leftarrow> jb_s ra (tl (key_str ''type'')) j; j \<leftarrow> jb_s ra ''modcmp'' j; j \<leftarrow> jb_c ra QUOTE j;
     j \<leftarrow> jb_s ra (key_str ''module'') j; j \<leftarrow> jb_esc ra module j; j \<leftarrow> jb_c ra QUOTE j;
     j \<leftarrow> jb_s ra (key_str ''path'') j; j \<leftarrow> jb_esc ra path j; j \<leftarrow> jb_c ra QUOTE j;
     j \<leftarrow> jb_s ra (key_str ''base'') j; j \<leftarrow> jb_hex ra base j; j \<leftarrow> jb_c ra QUOTE j;
     j \<leftarrow> jb_s ra (key_raw ''pid'') j; j \<leftarrow> jb_u64 ra (scast pid) j;
     j \<leftarrow> jb_s ra (key_str ''state'') j; j \<leftarrow> jb_esc ra state j; j \<leftarrow> jb_c ra QUOTE j;
     j \<leftarrow> jb_str_or_null ra ''mem_sha256'' mem_sha256 j;
     j \<leftarrow> jb_str_or_null ra ''file_sha256'' file_sha256 j;
     jb_c ra (CHR ''}'') j
   }"

text \<open>A record: the caller empties the buffer, builds the record and emits it.\<close>

definition emit_record :: "(jbuf \<Rightarrow> jbuf option) \<Rightarrow> nat option \<Rightarrow> nat option \<Rightarrow> anubee_sink \<Rightarrow> anubee_sink option" where
  "emit_record w fe fl s =
     (if sopen s
      then do { jb \<leftarrow> w ((sjb s)\<lparr>jtext := []\<rparr>); Some (anubee_sink_emit fe fl (s\<lparr>sjb := jb\<rparr>)) }
      else Some s)"

section \<open>Records as JSON objects\<close>

text \<open>The text of a flat object, and a reader for it that takes at most \<open>n\<close> members.\<close>

datatype jval = JStr string | JNum nat | JTrue | JFalse | JNull

fun val_text :: "jval \<Rightarrow> string" where
  "val_text (JStr v) = QUOTE # json_esc v @ [QUOTE]"
| "val_text (JNum n) = show_base 10 n"
| "val_text JTrue = ''true''"
| "val_text JFalse = ''false''"
| "val_text JNull = ''null''"

definition member_text :: "string \<times> jval \<Rightarrow> string" where
  "member_text = (\<lambda>(k, v). QUOTE # k @ [QUOTE, CHR '':''] @ val_text v)"

fun members_text :: "(string \<times> jval) list \<Rightarrow> string" where
  "members_text [] = []"
| "members_text [m] = member_text m"
| "members_text (m # ms) = member_text m @ CHR '','' # members_text ms"

definition obj_text :: "(string \<times> jval) list \<Rightarrow> string" where
  "obj_text ms = CHR ''{'' # members_text ms @ [CHR ''}'']"

definition json_key :: "string \<Rightarrow> (string \<times> string) option" where
  "json_key s = (case s of
     c # s \<Rightarrow> if c = QUOTE then
        (case json_body s of Some (k, d # r) \<Rightarrow> if d = CHR '':'' then Some (k, r) else None | _ \<Rightarrow> None) else None
   | [] \<Rightarrow> None)"

definition json_token :: "string \<Rightarrow> jval option" where
  "json_token t =
     (if t = ''true'' then Some JTrue else if t = ''false'' then Some JFalse else if t = ''null'' then Some JNull
      else if t = [] then None else map_option JNum (read_base 10 t))"

definition tok_char :: "char \<Rightarrow> bool" where
  "tok_char c \<longleftrightarrow> c \<noteq> CHR '','' \<and> c \<noteq> CHR ''}''"

definition json_value :: "string \<Rightarrow> (jval \<times> string) option" where
  "json_value s = (case s of
     c # r \<Rightarrow> if c = QUOTE then map_option (apfst JStr) (json_body r)
             else map_option (\<lambda>v. (v, dropWhile tok_char s)) (json_token (takeWhile tok_char s))
   | [] \<Rightarrow> None)"

fun json_members :: "nat \<Rightarrow> string \<Rightarrow> ((string \<times> jval) list \<times> string) option" where
  "json_members 0 s = None"
| "json_members (Suc n) s = do {
     (k, s) \<leftarrow> json_key s;
     (v, s) \<leftarrow> json_value s;
     (case s of
        c # r \<Rightarrow> if c = CHR ''}'' then Some ([(k, v)], r)
                else if c = CHR '','' then map_option (apfst ((#) (k, v))) (json_members n r) else None
      | [] \<Rightarrow> None)
   }"

definition json_object :: "nat \<Rightarrow> string \<Rightarrow> ((string \<times> jval) list \<times> string) option" where
  "json_object n s = (case s of c # r \<Rightarrow> if c = CHR ''{'' then json_members n r else None | [] \<Rightarrow> None)"

lemma json_key_text: "list_all jb_plain k \<Longrightarrow> json_key (QUOTE # k @ QUOTE # CHR '':'' # r) = Some (k, r)"
  using json_body_esc [of k "CHR '':'' # r"] esc_plain [of k] by (simp add: json_key_def)

definition dg_char :: "char \<Rightarrow> bool" where
  "dg_char c \<longleftrightarrow> tok_char c \<and> jb_plain c \<and> c \<noteq> CHR ''l'' \<and> c \<noteq> CHR ''t''"

lemma dg_char_dg: "n < 16 \<Longrightarrow> dg_char (dg n)"
  by (drule digit_cases) (elim insertE emptyE; simp add: dg_def tok_char_def jb_plain_def dg_char_def)

lemma show_base_dg: "2 \<le> b \<Longrightarrow> b \<le> 16 \<Longrightarrow> c \<in> set (show_base b n) \<Longrightarrow> dg_char c"
proof -
  assume "2 \<le> b" "b \<le> 16" and c: "c \<in> set (show_base b n)"
  then have "set (show_base b n) \<subseteq> dg ` {..<16}" by (intro set_show_base)
  then have "c \<in> dg ` {..<16}" using c by (rule subsetD)
  then obtain k where "k < 16" "c = dg k" by (elim imageE) (simp only: lessThan_iff)
  then show "dg_char c" using dg_char_dg [of k] by simp
qed

lemma show_base_chars:
  assumes "2 \<le> b" "b \<le> 16"
  shows "list_all tok_char (show_base b n)" "list_all jb_plain (show_base b n)"
  using show_base_dg [OF assms] by (simp_all add: list_all_iff dg_char_def)

lemma json_token_dec: "json_token (show_base 10 n) = Some (JNum n)"
proof -
  have "CHR ''t'' \<notin> set (show_base 10 n)" "CHR ''l'' \<notin> set (show_base 10 n)"
    using show_base_dg [of 10 "CHR ''t''" n] show_base_dg [of 10 "CHR ''l''" n] by (auto simp: dg_char_def)
  then have "show_base 10 n \<noteq> ''true''" "show_base 10 n \<noteq> ''null''" "show_base 10 n \<noteq> ''false''" by auto
  then show ?thesis using read_show_base [of 10 n] by (simp add: json_token_def)
qed

lemma json_value_text:
  assumes "\<not> tok_char c"
  shows "json_value (val_text v @ c # r) = Some (v, c # r)"
proof (cases v)
  case (JStr s)
  then show ?thesis using json_body_esc [of s "c # r"] by (simp add: json_value_def)
next
  case (JNum n)
  obtain d s where d: "show_base 10 n = d # s" using show_base_ne by (cases "show_base 10 n") auto
  moreover have "jb_plain d" "list_all tok_char (show_base 10 n)" using show_base_chars [of 10 n] d by auto
  ultimately show ?thesis using JNum json_token_dec [of n] assms
    by (auto simp: json_value_def jb_plain_def list_all_iff takeWhile_append2 dropWhile_append2)
qed (use assms in \<open>auto simp: json_value_def json_token_def tok_char_def\<close>)

lemma json_members_text:
  "ms \<noteq> [] \<Longrightarrow> length ms \<le> n \<Longrightarrow> list_all (\<lambda>(k, v). list_all jb_plain k) ms \<Longrightarrow>
     json_members n (members_text ms @ CHR ''}'' # r) = Some (ms, r)"
proof (induction ms arbitrary: n rule: members_text.induct)
  case (2 m)
  then obtain k v n' where "m = (k, v)" "n = Suc n'" by (cases m, cases n) auto
  then show ?case
    using 2 json_key_text [of k "val_text v @ CHR ''}'' # r"] json_value_text [of "CHR ''}''" v r]
    by (simp add: member_text_def tok_char_def)
next
  case (3 m m' ms)
  then obtain k v n' where "m = (k, v)" "n = Suc n'" by (cases m, cases n) auto
  then show ?case
    using 3 json_key_text [of k "val_text v @ CHR '','' # members_text (m' # ms) @ CHR ''}'' # r"]
      json_value_text [of "CHR '',''" v "members_text (m' # ms) @ CHR ''}'' # r"]
    by (simp add: member_text_def tok_char_def)
qed simp

lemma json_object_text:
  "ms \<noteq> [] \<Longrightarrow> list_all (\<lambda>(k, v). list_all jb_plain k) ms \<Longrightarrow> json_object (length ms) (obj_text ms @ r) = Some (ms, r)"
  using json_members_text [of ms "length ms" r] by (simp add: json_object_def obj_text_def)

section \<open>The dump records\<close>

definition module_members :: "string \<Rightarrow> string \<Rightarrow> u64 \<Rightarrow> 32 word \<Rightarrow> bool \<Rightarrow> (string \<times> jval) list" where
  "module_members module path base pid raw =
     [(''type'', JStr ''dump''), (''module'', JStr module), (''path'', JStr path), (''base'', JStr (''0x'' @ show_hex base)),
      (''pid'', JNum (unat (scast pid :: u64))), (''raw'', if raw then JTrue else JFalse)]"

definition modcmp_members :: "string \<Rightarrow> string \<Rightarrow> u64 \<Rightarrow> 32 word \<Rightarrow> string \<Rightarrow> string option \<Rightarrow> string option \<Rightarrow> (string \<times> jval) list" where
  "modcmp_members module path base pid state mem_sha256 file_sha256 =
     [(''type'', JStr ''modcmp''), (''module'', JStr module), (''path'', JStr path), (''base'', JStr (''0x'' @ show_hex base)),
      (''pid'', JNum (unat (scast pid :: u64))), (''state'', JStr state),
      (''mem_sha256'', case mem_sha256 of None \<Rightarrow> JNull | Some h \<Rightarrow> JStr h),
      (''file_sha256'', case file_sha256 of None \<Rightarrow> JNull | Some h \<Rightarrow> JStr h)]"

lemma appends_cong: "appends ra w s \<Longrightarrow> s = t \<Longrightarrow> appends ra w t"
  by simp

lemmas appends_intros = appends_bind appends_c appends_s appends_esc appends_hex appends_u64

lemma esc_hex: "json_esc (''0x'' @ show_hex v) = ''0x'' @ show_hex v"
  using show_base_chars [of 16 "unat v"] by (intro esc_plain) (simp add: jb_plain_def)

lemma appends_module:
  "appends ra (dump_emit_module ra module path base pid raw) (obj_text (module_members module path base pid raw))"
  unfolding dump_emit_module_def [abs_def]
  by (rule appends_cong, (rule appends_intros)+)
     (use esc_hex [of base] in \<open>simp add: obj_text_def module_members_def member_text_def key_str_def key_raw_def
        json_esc_def esc1_def jb_plain_def\<close>)

lemma appends_str_or_null:
  "appends ra (jb_str_or_null ra k v) (CHR '','' # member_text (k, case v of None \<Rightarrow> JNull | Some h \<Rightarrow> JStr h))"
  unfolding jb_str_or_null_def [abs_def]
  by (cases v) (simp, rule appends_cong, (rule appends_intros)+, simp add: member_text_def)+

lemma appends_modcmp:
  "appends ra (dump_emit_modcmp ra module path base pid state mh fh) (obj_text (modcmp_members module path base pid state mh fh))"
  unfolding dump_emit_modcmp_def [abs_def]
  by (rule appends_cong, (rule appends_intros appends_str_or_null)+)
     (use esc_hex [of base] in \<open>simp add: obj_text_def modcmp_members_def member_text_def key_str_def key_raw_def
        json_esc_def esc1_def jb_plain_def\<close>)

lemma module_members_wf:
  "length (module_members module path base pid raw) = 6" "module_members module path base pid raw \<noteq> []"
  "list_all (\<lambda>(k, v). list_all jb_plain k) (module_members module path base pid raw)"
  by (simp_all add: module_members_def jb_plain_def)

lemma modcmp_members_wf:
  "length (modcmp_members module path base pid state mh fh) = 8" "modcmp_members module path base pid state mh fh \<noteq> []"
  "list_all (\<lambda>(k, v). list_all jb_plain k) (modcmp_members module path base pid state mh fh)"
  by (simp_all add: modcmp_members_def jb_plain_def)

lemmas record_lengths = obj_text_def module_members_def modcmp_members_def member_text_def

lemma length_module:
  "length (obj_text (module_members module path base pid raw)) \<le> 6 * (length module + length path) + 200"
  using length_json_esc [of module] length_json_esc [of path] length_show_hex [of base] length_show_dec [of "scast pid"]
  by (simp add: record_lengths esc_hex [simplified] json_esc_def [of "''dump''"] esc1_def jb_plain_def)

definition opt_len :: "string option \<Rightarrow> nat" where
  "opt_len v = (case v of None \<Rightarrow> 0 | Some h \<Rightarrow> length h)"

lemma length_opt: "length (val_text (case v of None \<Rightarrow> JNull | Some h \<Rightarrow> JStr h)) \<le> 6 * opt_len v + 4"
proof (cases v)
  case (Some h)
  then show ?thesis using length_json_esc [of h] by (simp add: opt_len_def)
qed (simp add: opt_len_def)

lemma length_modcmp:
  "length (obj_text (modcmp_members module path base pid state mh fh)) \<le>
     6 * (length module + length path + length state + opt_len mh + opt_len fh) + 200"
  using length_json_esc [of module] length_json_esc [of path] length_json_esc [of state] length_opt [of mh] length_opt [of fh]
    length_show_hex [of base] length_show_dec [of "scast pid"]
  by (simp add: record_lengths esc_hex [simplified] json_esc_def [of "''modcmp''"] esc1_def jb_plain_def)

lemma module_object:
  "json_object 6 (obj_text (module_members module path base pid raw)) = Some (module_members module path base pid raw, [])"
  using json_object_text [OF module_members_wf(2,3), of module path base pid raw "[]"] by (simp add: module_members_wf(1))

lemma modcmp_object:
  "json_object 8 (obj_text (modcmp_members module path base pid state mh fh)) = Some (modcmp_members module path base pid state mh fh, [])"
  using json_object_text [OF modcmp_members_wf(2,3), of module path base pid state mh fh "[]"] by (simp add: modcmp_members_wf(1))

lemma record_json:
  assumes "appends ra w t" "jb_wf j" "\<not> jerr j" "length (jtext j) + length t \<le> 2 ^ 63" "json_object n t = Some (ms, [])"
  shows "safe (w j) (\<lambda>j'. jb_wf j' \<and>
    (if jerr j' then \<not> (\<forall>k n. ra k n) else \<exists>t. jtext j' = jtext j @ t \<and> json_object n t = Some (ms, [])))"
  by (rule safe_mono [OF appends_safe [OF assms(1,2,4)]]) (use assms(3,5) in auto)

text \<open>C23: the records of a dump are JSON. Whatever the module name, the path and the digests contain, each
  builder returns without leaving the buffer and, unless memory ran out, appends an object that a JSON reader
  takes apart into exactly the members given, with nothing left over.\<close>

theorem dump_records_json:
  assumes "jb_wf j" "\<not> jerr j"
    and "length (jtext j) + 6 * (length module + length path + length state + opt_len mh + opt_len fh) + 200 \<le> 2 ^ 63"
  shows "safe (dump_emit_module ra module path base pid raw j) (\<lambda>j'. jb_wf j' \<and>
      (if jerr j' then \<not> (\<forall>k n. ra k n)
       else \<exists>t. jtext j' = jtext j @ t \<and> json_object 6 t = Some (module_members module path base pid raw, []))) \<and>
    safe (dump_emit_modcmp ra module path base pid state mh fh j) (\<lambda>j'. jb_wf j' \<and>
      (if jerr j' then \<not> (\<forall>k n. ra k n)
       else \<exists>t. jtext j' = jtext j @ t \<and> json_object 8 t = Some (modcmp_members module path base pid state mh fh, [])))"
  using assms(3) length_module [of module path base pid raw] length_modcmp [of module path base pid state mh fh]
  by (intro conjI record_json [OF appends_module assms(1,2)] record_json [OF appends_modcmp assms(1,2)] module_object modcmp_object) simp_all

lemma dump_records_json_witness:
  "safe (dump_emit_module (\<lambda>_ _. True) [CHR ''a'', QUOTE] ''p'' 16 1 True jbuf_zero) (\<lambda>j'.
     json_object 6 (jtext j') = Some (module_members [CHR ''a'', QUOTE] ''p'' 16 1 True, []))"
proof -
  have "safe (dump_emit_module (\<lambda>_ _. True) [CHR ''a'', QUOTE] ''p'' 16 1 True jbuf_zero) (\<lambda>j'. jb_wf j' \<and>
      (if jerr j' then \<not> (\<forall>(k :: nat) (n :: nat). True)
       else \<exists>t. jtext j' = jtext jbuf_zero @ t \<and> json_object 6 t = Some (module_members [CHR ''a'', QUOTE] ''p'' 16 1 True, [])))"
    by (rule dump_records_json [where state = "''match''" and mh = None and fh = None, THEN conjunct1])
       (simp_all add: jbuf_zero_def jb_wf_def opt_len_def)
  then show ?thesis by (auto simp: jbuf_zero_def elim!: safe_mono split: if_splits)
qed

section \<open>What the sink writes\<close>

text \<open>The text of a stream of records: one per line, or the body of an array.\<close>

fun array_text :: "string list \<Rightarrow> string" where
  "array_text [] = []"
| "array_text (r # rs) = (NL # ''  '') @ r @ concat (map (\<lambda>r. CHR '','' # NL # ''  '' @ r) rs)"

definition frame :: "bool \<Rightarrow> string list \<Rightarrow> string" where
  "frame jsonl rs = (if jsonl then concat (map (\<lambda>r. r @ [NL]) rs) else CHR ''['' # array_text rs)"

lemma array_text_snoc: "array_text (rs @ [r]) = array_text rs @ (if rs \<noteq> [] then [CHR '','', NL] @ ''  '' else NL # ''  '') @ r"
  by (cases rs) simp_all

text \<open>A sink after the records \<open>rs\<close>.\<close>

definition sink_at :: "bool \<Rightarrow> string list \<Rightarrow> anubee_sink \<Rightarrow> bool" where
  "sink_at jsonl rs s \<longleftrightarrow> sopen s \<and> sjsonl s = jsonl \<and> jb_wf (sjb s) \<and> jtext (sjb s) = [] \<and> sout s = frame jsonl rs \<and>
     scount s = of_nat (length rs)"

text \<open>What a record builder promises to the sink: it appends the text of one record.\<close>

locale jb_writer =
  fixes ra :: realloc and w :: "jbuf \<Rightarrow> jbuf option" and t :: string
  assumes writes: "appends ra w t" and nonempty: "t \<noteq> []"
begin

text \<open>A record is written whole or not at all, and a poisoned empty buffer writes nothing.\<close>

lemma emit_record_step:
  assumes s: "sink_at jsonl rs s" and l: "length t \<le> 2 ^ 63" "length rs < 2 ^ 64 - 1"
  shows "safe (emit_record w fe fl s) (\<lambda>s'. (sink_at jsonl (rs @ [t]) s' \<and> \<not> jerr (sjb s') \<or> sink_at jsonl rs s') \<and>
    (jerr (sjb s) \<longrightarrow> sink_at jsonl rs s' \<and> jerr (sjb s')) \<and>
    ((\<forall>k n. ra k n) \<and> \<not> jerr (sjb s) \<longrightarrow> sink_at jsonl (rs @ [t]) s' \<and> \<not> jerr (sjb s')))"
proof -
  have o: "sopen s" "jb_wf (sjb s)" "jtext (sjb s) = []" "sjsonl s = jsonl" "scount s = of_nat (length rs)" "sout s = frame jsonl rs"
    using s by (auto simp: sink_at_def)
  have e: "(sjb s)\<lparr>jtext := []\<rparr> = sjb s" using o(3) by simp
  obtain j where j: "w (sjb s) = Some j" "jb_wf j" "jerr (sjb s) \<longrightarrow> j = sjb s"
    "jerr j \<or> jtext j = t" "(\<forall>k n. ra k n) \<and> \<not> jerr (sjb s) \<longrightarrow> \<not> jerr j"
    using appends_safe [OF writes o(2)] l(1) o(3) by (auto simp: safe_iff)
  have "unat (of_nat (length rs) :: u64) = length rs" using l(2) by (simp add: unat_of_nat)
  then have c: "of_nat (length rs) \<noteq> (0 :: u64) \<longleftrightarrow> rs \<noteq> []" using unat_eq_zero [of "of_nat (length rs) :: u64"] by simp
  have nn: "\<not> jnull j" if "\<not> jerr j" using j(2,4) that nonempty by (auto simp: jb_wf_def)
  have wf: "jb_wf (j\<lparr>jtext := []\<rparr>)" "jb_wf (j\<lparr>jerr := False, jtext := []\<rparr>)" using j(2) by (auto simp: jb_wf_def)
  have r: "emit_record w fe fl s = Some (anubee_sink_emit fe fl (s\<lparr>sjb := j\<rparr>))" using o(1) j(1) e by (simp add: emit_record_def)
  show ?thesis
  proof (cases "jerr j")
    case False
    then have "sink_at jsonl (rs @ [t]) (anubee_sink_emit fe fl (s\<lparr>sjb := j\<rparr>)) \<and> \<not> jerr (sjb (anubee_sink_emit fe fl (s\<lparr>sjb := j\<rparr>)))"
      using o nn nonempty j(4) wf c
      by (cases jsonl) (auto simp: anubee_sink_emit_def Let_def sink_at_def frame_def array_text_snoc)
    then show ?thesis using r False j(3) by auto
  next
    case True
    then have "sink_at jsonl rs (anubee_sink_emit fe fl (s\<lparr>sjb := j\<rparr>))"
      using o j wf by (auto simp: anubee_sink_emit_def sink_at_def jb_wf_def)
    moreover have "jerr (sjb (anubee_sink_emit fe fl (s\<lparr>sjb := j\<rparr>)))" if "jerr (sjb s)"
      using j(3) o(3) that True by (auto simp: anubee_sink_emit_def)
    ultimately show ?thesis using r True j(5) by auto
  qed
qed

end

lemma obj_text_ne: "obj_text ms \<noteq> []"
  by (simp add: obj_text_def)

interpretation module_record: jb_writer ra "dump_emit_module ra module path base pid raw" "obj_text (module_members module path base pid raw)"
  for ra module path base pid raw
  by unfold_locales (rule appends_module, rule obj_text_ne)

interpretation modcmp_record: jb_writer ra "dump_emit_modcmp ra module path base pid state mh fh"
    "obj_text (modcmp_members module path base pid state mh fh)"
  for ra module path base pid state mh fh
  by unfold_locales (rule appends_modcmp, rule obj_text_ne)

text \<open>Any number of module records into an open sink, with what the streams report after each.\<close>

fun emit_modules :: "realloc \<Rightarrow> (string \<times> string \<times> u64 \<times> 32 word \<times> bool) list \<Rightarrow> (nat option \<times> nat option) list \<Rightarrow>
    anubee_sink \<Rightarrow> anubee_sink option" where
  "emit_modules ra ((m, p, b, pid, raw) # ms) ((fe, fl) # io) s =
     do { s \<leftarrow> emit_record (dump_emit_module ra m p b pid raw) fe fl s; emit_modules ra ms io s }"
| "emit_modules ra _ _ s = Some s"

definition module_texts :: "(string \<times> string \<times> u64 \<times> 32 word \<times> bool) list \<Rightarrow> string list" where
  "module_texts = map (\<lambda>(m, p, b, pid, raw). obj_text (module_members m p b pid raw))"

definition short_names :: "(string \<times> string \<times> u64 \<times> 32 word \<times> bool) list \<Rightarrow> bool" where
  "short_names = list_all (\<lambda>(m, p, b, pid, raw). length m + length p \<le> 2 ^ 60)"

lemma module_fits: "length m + length p \<le> 2 ^ 60 \<Longrightarrow> length (obj_text (module_members m p b pid raw)) \<le> 2 ^ 63"
  using length_module [of m p b pid raw] by simp

lemma emit_modules_run:
  "sink_at jsonl rs s \<Longrightarrow> length io = length ms \<Longrightarrow> short_names ms \<Longrightarrow> length rs + length ms < 2 ^ 64 - 1 \<Longrightarrow>
     safe (emit_modules ra ms io s) (\<lambda>s'. \<exists>ts. sink_at jsonl (rs @ ts) s' \<and> subseq ts (module_texts ms) \<and>
       ((\<forall>k n. ra k n) \<and> \<not> jerr (sjb s) \<longrightarrow> ts = module_texts ms) \<and> (jerr (sjb s) \<longrightarrow> ts = []))"
proof (induction ms arbitrary: io rs s)
  case Nil
  then show ?case by (auto simp: module_texts_def intro!: exI [of _ "[]"])
next
  case (Cons x ms)
  obtain m p b pid raw where x: "x = (m, p, b, pid, raw)" by (cases x)
  obtain fe fl io' where io: "io = (fe, fl) # io'" using Cons.prems(2) by (cases io) auto
  let ?t = "obj_text (module_members m p b pid raw)"
  have l: "length ?t \<le> 2 ^ 63" using Cons.prems(3) module_fits by (simp add: short_names_def x)
  have r: "length rs < 2 ^ 64 - 1" using Cons.prems(4) by simp
  obtain s1 where s1: "emit_record (dump_emit_module ra m p b pid raw) fe fl s = Some s1"
    "sink_at jsonl (rs @ [?t]) s1 \<and> \<not> jerr (sjb s1) \<or> sink_at jsonl rs s1"
    "jerr (sjb s) \<longrightarrow> sink_at jsonl rs s1 \<and> jerr (sjb s1)"
    "(\<forall>k n. ra k n) \<and> \<not> jerr (sjb s) \<longrightarrow> sink_at jsonl (rs @ [?t]) s1 \<and> \<not> jerr (sjb s1)"
    using module_record.emit_record_step [OF Cons.prems(1) l r, of ra fe fl] by (auto simp: safe_iff)
  have p: "length io' = length ms" "short_names ms" using Cons.prems(2,3) by (auto simp: io x short_names_def)
  show ?case
  proof (cases "sink_at jsonl (rs @ [?t]) s1 \<and> \<not> jerr (sjb s1)")
    case True
    then obtain s2 ts where s2: "emit_modules ra ms io' s1 = Some s2" "sink_at jsonl (rs @ ?t # ts) s2" "subseq ts (module_texts ms)"
      "(\<forall>k n. ra k n) \<longrightarrow> ts = module_texts ms"
      using Cons.IH [of "rs @ [?t]" s1 io'] p Cons.prems(4) by (auto simp: safe_iff)
    have "\<not> jerr (sjb s)" using s1(3) True by auto
    then show ?thesis using s1(1) s2 by (auto simp: io x module_texts_def intro!: exI [of _ "?t # ts"])
  next
    case False
    then have k: "sink_at jsonl rs s1" "\<not> ((\<forall>k n. ra k n) \<and> \<not> jerr (sjb s))" using s1(2,4) by auto
    then obtain s2 ts where s2: "emit_modules ra ms io' s1 = Some s2" "sink_at jsonl (rs @ ts) s2" "subseq ts (module_texts ms)"
      "jerr (sjb s1) \<longrightarrow> ts = []"
      using Cons.IH [of rs s1 io'] p Cons.prems(4) by (auto simp: safe_iff)
    have "subseq ts (?t # module_texts ms)" using s2(3) by (rule list_emb_Cons)
    then show ?thesis using s1(1,3) s2 k(2) by (auto simp: io x module_texts_def intro!: exI [of _ ts])
  qed
qed

lemma sink_open_at:
  "jb_wf (sjb s0) \<Longrightarrow> jtext (sjb s0) = [] \<Longrightarrow> anubee_sink_open True jsonl s0 = Rc_ok s \<Longrightarrow> sink_at jsonl [] s \<and> sjb s = sjb s0"
  by (auto simp: anubee_sink_open_def sink_at_def frame_def)


definition sink_zero :: anubee_sink where
  "sink_zero = \<lparr>sopen = False, sout = [], sjb = jbuf_zero, scount = 0, sjsonl = False, since_flush = 0, werr = 0\<rparr>"


text \<open>An allocation failure on an empty buffer is never recovered from. Once the buffer is poisoned with no
  text in it, \<open>anubee_sink_emit\<close> returns before it clears the flag, so every later record is dropped even
  though every later allocation would succeed; a single failure of the first allocation is enough.\<close>

theorem sink_poisoned_forever:
  assumes "short_names ((m, p, b, pid, raw) # ms)" "length io = Suc (length ms)" "length ms < 2 ^ 63"
  shows "safe (emit_modules (\<lambda>k n. k \<noteq> 0) ((m, p, b, pid, raw) # ms) io (sink_zero\<lparr>sopen := True, sjsonl := True\<rparr>))
    (\<lambda>s. sout s = [] \<and> scount s = 0)"
proof -
  obtain fe fl io' where io: "io = (fe, fl) # io'" "length io' = length ms" using assms(2) by (cases io) auto
  let ?s0 = "sink_zero\<lparr>sopen := True, sjsonl := True\<rparr>" and ?j = "jbuf_zero\<lparr>jerr := True, jcalls := 1\<rparr>"
  let ?s1 = "?s0\<lparr>sjb := ?j\<rparr>"
  have z: "jb_c (\<lambda>k n. k \<noteq> 0) c jbuf_zero = Some ?j" "jb_c (\<lambda>k n. k \<noteq> 0) c ?j = Some ?j" for c
    by (simp_all add: jb_c_def jb_need_def jb_put_def jbuf_zero_def jb_grow.simps)
  have "length (jtext ?j) + length (obj_text (module_members m p b pid raw)) \<le> 2 ^ 63"
    using assms(1) module_fits [of m p b pid raw] by (simp add: short_names_def jbuf_zero_def)
  moreover have "jb_wf ?j" "jerr ?j" by (simp_all add: jbuf_zero_def jb_wf_def)
  ultimately have "dump_emit_module (\<lambda>k n. k \<noteq> 0) m p b pid raw ?j = Some ?j"
    using appends_safe [OF appends_module [of "\<lambda>k n. k \<noteq> 0"], of ?j] by (auto simp: safe_iff)
  then have "dump_emit_module (\<lambda>k n. k \<noteq> 0) m p b pid raw jbuf_zero = Some ?j"
    unfolding dump_emit_module_def z bind.bind_lunit .
  then have e: "emit_record (dump_emit_module (\<lambda>k n. k \<noteq> 0) m p b pid raw) fe fl ?s0 = Some ?s1"
    by (simp add: emit_record_def anubee_sink_emit_def sink_zero_def) (simp add: jbuf_zero_def)
  have "sink_at True [] ?s1" "jerr (sjb ?s1)" by (simp_all add: sink_at_def sink_zero_def jbuf_zero_def jb_wf_def frame_def)
  then show ?thesis
    using emit_modules_run [of True "[]" ?s1 io' ms "\<lambda>k n. k \<noteq> 0"] io assms(1,3) e
    by (auto simp: short_names_def sink_at_def frame_def elim!: safe_mono)
qed

lemma sink_poisoned_forever_witness:
  "safe (emit_modules (\<lambda>k n. k \<noteq> 0) [(''a'', ''b'', 16, 1, True), (''c'', ''d'', 32, 1, True)] [(None, None), (None, None)]
     (sink_zero\<lparr>sopen := True, sjsonl := True\<rparr>)) (\<lambda>s. sout s = [] \<and> scount s = 0)"
  by (rule sink_poisoned_forever) (simp_all add: short_names_def)

end
