(* ===== verification/Bpf_Map.thy ===== *)
theory Bpf_Map
  imports Anubee_Prelude "HOL-Library.AList"
begin

text \<open>
  The kernel's hash maps as the BPF programs under \<open>src/src/\<close> use them: the association list of the entries, with
  a capacity. A lookup gives the entry, an update of a new key fails silently when the map is full (no caller
  looks at the result), an insertion reports its failure. The locale \<open>bpf_hash\<close> holds the laws the programs'
  proofs rely on.
\<close>

section \<open>BPF hash maps\<close>

type_synonym ('k, 'v) bpf_map = "('k \<times> 'v) list"

definition bpf_lookup :: "('k, 'v) bpf_map \<Rightarrow> 'k \<Rightarrow> 'v option" where
  "bpf_lookup m k = map_of m k"

definition bpf_update :: "nat \<Rightarrow> 'k \<Rightarrow> 'v \<Rightarrow> ('k, 'v) bpf_map \<Rightarrow> ('k, 'v) bpf_map" where
  "bpf_update mx k v m = (if map_of m k = None \<and> length m \<ge> mx then m else AList.update k v m)"

definition bpf_delete :: "'k \<Rightarrow> ('k, 'v) bpf_map \<Rightarrow> ('k, 'v) bpf_map" where
  "bpf_delete k m = AList.delete k m"

text \<open>An insertion with \<open>BPF_NOEXIST\<close>: refused for a key that is there, and in a full map.\<close>

definition bpf_insert :: "nat \<Rightarrow> 'k \<Rightarrow> 'v \<Rightarrow> ('k, 'v) bpf_map \<Rightarrow> ('k, 'v) bpf_map option" where
  "bpf_insert mx k v m = (if map_of m k \<noteq> None \<or> length m \<ge> mx then None else Some (AList.update k v m))"

lemma lookup_update_present: "bpf_lookup m k \<noteq> None \<Longrightarrow> bpf_lookup (bpf_update mx k v m) = (bpf_lookup m)(k \<mapsto> v)"
  by (auto simp: bpf_lookup_def [abs_def] bpf_update_def AList.update_conv' fun_eq_iff)

lemma lookup_insert: "bpf_insert mx k v m = Some m' \<Longrightarrow> bpf_lookup m' = (bpf_lookup m)(k \<mapsto> v)"
  by (auto simp: bpf_lookup_def [abs_def] bpf_insert_def AList.update_conv' split: if_splits)

section \<open>The maps as an interface\<close>

text \<open>What the programs rely on: lookups after an update that has room, and after a deletion.\<close>

locale bpf_hash =
  fixes mx :: nat
    and look :: "'m \<Rightarrow> 'k \<Rightarrow> 'v option"
    and upd :: "'k \<Rightarrow> 'v \<Rightarrow> 'm \<Rightarrow> 'm"
    and del :: "'k \<Rightarrow> 'm \<Rightarrow> 'm"
    and inv :: "'m \<Rightarrow> bool"
  assumes upd_inv: "inv m \<Longrightarrow> inv (upd k v m)"
    and del_inv: "inv m \<Longrightarrow> inv (del k m)"
    and look_upd: "inv m \<Longrightarrow> k \<in> dom (look m) \<or> card (dom (look m)) < mx \<Longrightarrow> look (upd k v m) = (look m)(k \<mapsto> v)"
    and look_del: "inv m \<Longrightarrow> look (del k m) = (look m)(k := None)"
begin

text \<open>When all keys ever used fit in the map, every update takes effect.\<close>

lemma look_upd_in:
  assumes "inv m" "finite S" "card S \<le> mx" "dom (look m) \<subseteq> S" "k \<in> S"
  shows "look (upd k v m) = (look m)(k \<mapsto> v)"
proof (cases "k \<in> dom (look m)")
  case False
  then have "dom (look m) \<subset> S" using assms(4,5) by blast
  then have "card (dom (look m)) < card S" using assms(2) by (intro psubset_card_mono)
  then show ?thesis using assms(1,3) look_upd by auto
qed (simp add: assms(1) look_upd)

end

definition keys_ok :: "('k, 'v) bpf_map \<Rightarrow> bool" where
  "keys_ok m \<longleftrightarrow> distinct (map fst m)"

lemma card_dom_map_of: "keys_ok m \<Longrightarrow> card (dom (map_of m)) = length m"
  unfolding keys_ok_def dom_map_of_conv_image_fst using distinct_card [of "map fst m"] by simp

lemma bpf_hash_alist: "bpf_hash mx bpf_lookup (bpf_update mx) bpf_delete keys_ok"
proof
  fix m :: "('k, 'v) bpf_map" and k v assume k: "keys_ok m"
  then show "keys_ok (bpf_update mx k v m)" "keys_ok (bpf_delete k m)"
    by (auto simp: keys_ok_def bpf_update_def bpf_delete_def AList.distinct_update AList.distinct_delete)
  show "bpf_lookup (bpf_delete k m) = (bpf_lookup m)(k := None)"
    by (simp add: bpf_lookup_def [abs_def] bpf_delete_def AList.delete_conv')
  assume "k \<in> dom (bpf_lookup m) \<or> card (dom (bpf_lookup m)) < mx"
  then show "bpf_lookup (bpf_update mx k v m) = (bpf_lookup m)(k \<mapsto> v)"
    using card_dom_map_of [OF k] by (auto simp: bpf_lookup_def [abs_def] bpf_update_def AList.update_conv')
qed

end
