(* ===== verification/Span_Stack.thy ===== *)
theory Span_Stack
  imports Bpf_Map
begin

text \<open>
  \<open>src/src/common/span_stack.bpf.h\<close>: the per-thread stack of instrumented calls, and the handlers of
  \<open>src/src/correlate/correlate.bpf.c\<close> and \<open>src/src/funcs/funcs.bpf.c\<close> that push, pop and read it.

  \<^item> a BPF hash map is the association list of its entries with its capacity: an update of a new key fails
    silently when the map is full, as the callers ignore the result;
  \<^item> \<open>spans\<close> is the three maps with the coverage and drop counters (the per-CPU counters are their sums);
  \<^item> a handler runs to completion for one thread. Whether the filters accept the task (\<open>matched\<close>) and whether
    the ring buffer grants an event (\<open>rb\<close>) are arguments; an event holds the fields that come from the
    stack and the registers. Strings, socket addresses and call stacks read from user memory are left out.
\<close>

section \<open>The span stack\<close>

record span_frame =
  entry_addr :: u64
  entry_sp :: u64
  timestamp :: u64
  span_id :: u64
  parent_span :: u64
  fargs :: "u64 list"

record spans =
  span_depth :: "(u32, u32) bpf_map"
  span_frames :: "(u32 \<times> u32, span_frame) bpf_map"
  span_seq :: u64
  coverage_stats :: "u64 list"
  dropped :: u64

abbreviation MAX_SPAN_DEPTH :: nat where "MAX_SPAN_DEPTH \<equiv> 32"
abbreviation DEPTH_MAX :: nat where "DEPTH_MAX \<equiv> 1024"
abbreviation FRAMES_MAX :: nat where "FRAMES_MAX \<equiv> 1024 * 32"

abbreviation COV_DEPTH_CAP :: nat where "COV_DEPTH_CAP \<equiv> 1"
abbreviation COV_SPAN_OPEN :: nat where "COV_SPAN_OPEN \<equiv> 3"
abbreviation COV_URET_FIRED :: nat where "COV_URET_FIRED \<equiv> 4"

definition spans_zero :: spans where
  "spans_zero = \<lparr>span_depth = [], span_frames = [], span_seq = 0, coverage_stats = replicate 5 0, dropped = 0\<rparr>"

definition cov_bump :: "nat \<Rightarrow> spans \<Rightarrow> spans" where
  "cov_bump slot s =
     (if slot < length (coverage_stats s)
      then s\<lparr>coverage_stats := (coverage_stats s)[slot := coverage_stats s ! slot + 1]\<rparr> else s)"

definition bump_dropped :: "spans \<Rightarrow> spans" where
  "bump_dropped s = s\<lparr>dropped := dropped s + 1\<rparr>"

definition span_next_id :: "spans \<Rightarrow> u64 \<times> spans" where
  "span_next_id s = (span_seq s + 1, s\<lparr>span_seq := span_seq s + 1\<rparr>)"

definition span_depth_set :: "u32 \<Rightarrow> u32 \<Rightarrow> spans \<Rightarrow> spans" where
  "span_depth_set tid depth s =
     (if depth = 0 then s\<lparr>span_depth := bpf_delete tid (span_depth s)\<rparr>
      else s\<lparr>span_depth := bpf_update DEPTH_MAX tid depth (span_depth s)\<rparr>)"

definition frame_delete :: "u32 \<times> u32 \<Rightarrow> spans \<Rightarrow> spans" where
  "frame_delete k s = s\<lparr>span_frames := bpf_delete k (span_frames s)\<rparr>"

fun reconcile_loop :: "nat \<Rightarrow> u32 \<Rightarrow> u64 \<Rightarrow> spans \<Rightarrow> spans" where
  "reconcile_loop 0 tid cur_sp s = s"
| "reconcile_loop (Suc i) tid cur_sp s =
     (case bpf_lookup (span_depth s) tid of
        None \<Rightarrow> s
      | Some d \<Rightarrow>
          if d = 0 then s
          else (case bpf_lookup (span_frames s) (tid, d - 1) of
                  None \<Rightarrow> s
                | Some f \<Rightarrow>
                    if cur_sp \<le> entry_sp f then s
                    else reconcile_loop i tid cur_sp (span_depth_set tid (d - 1) (frame_delete (tid, d - 1) s))))"

definition span_stack_reconcile :: "u32 \<Rightarrow> u64 \<Rightarrow> spans \<Rightarrow> spans" where
  "span_stack_reconcile tid cur_sp s = reconcile_loop MAX_SPAN_DEPTH tid cur_sp s"

definition span_stack_push :: "u32 \<Rightarrow> u64 \<Rightarrow> u64 \<Rightarrow> u64 \<Rightarrow> u64 list \<Rightarrow> spans \<Rightarrow> u64 \<times> spans" where
  "span_stack_push tid addr sp ts raw s =
     (let d = (case bpf_lookup (span_depth s) tid of Some d \<Rightarrow> d | None \<Rightarrow> 0) in
      if d \<ge> of_nat MAX_SPAN_DEPTH then (0, cov_bump COV_DEPTH_CAP s)
      else let
          parent = (if d > 0 then (case bpf_lookup (span_frames s) (tid, d - 1) of Some pf \<Rightarrow> span_id pf | None \<Rightarrow> 0) else 0);
          (sid, s) = span_next_id s;
          f = \<lparr>entry_addr = addr, entry_sp = sp, timestamp = ts, span_id = sid, parent_span = parent, fargs = raw\<rparr>;
          s = s\<lparr>span_frames := bpf_update FRAMES_MAX (tid, d) f (span_frames s)\<rparr>;
          s = s\<lparr>span_depth := bpf_update DEPTH_MAX tid (d + 1) (span_depth s)\<rparr>
        in (sid, cov_bump COV_SPAN_OPEN s))"

definition span_stack_pop :: "u32 \<Rightarrow> spans \<Rightarrow> spans" where
  "span_stack_pop tid s =
     (case bpf_lookup (span_depth s) tid of
        None \<Rightarrow> s
      | Some d \<Rightarrow> if d = 0 then s else span_depth_set tid (d - 1) (frame_delete (tid, d - 1) s))"

definition span_stack_clear :: "u32 \<Rightarrow> spans \<Rightarrow> spans" where
  "span_stack_clear tid s =
     (let s = fold (\<lambda>i. frame_delete (tid, of_nat i)) [0..<MAX_SPAN_DEPTH] s
      in s\<lparr>span_depth := bpf_delete tid (span_depth s)\<rparr>)"

definition top_frame :: "u32 \<Rightarrow> spans \<Rightarrow> span_frame option" where
  "top_frame tid s =
     (case bpf_lookup (span_depth s) tid of
        None \<Rightarrow> None
      | Some d \<Rightarrow> if d = 0 then None else bpf_lookup (span_frames s) (tid, d - 1))"

definition span_stack_top_id :: "u32 \<Rightarrow> u64 \<Rightarrow> spans \<Rightarrow> u64 \<times> spans" where
  "span_stack_top_id tid cur_sp s =
     (let s = span_stack_reconcile tid cur_sp s
      in (case top_frame tid s of Some f \<Rightarrow> span_id f | None \<Rightarrow> 0, s))"

section \<open>The handlers\<close>

text \<open>The function, syscall and return events of the correlate engine, and the call and return events of the
  functions engine.\<close>

datatype span_event =
    Ev_func u32 u64 u64 u64 u64 "u64 list"
  | Ev_syscall u32 u64 u64 u64 "u64 list"
  | Ev_return u32 u64 u64 u64 u64 u64

definition corr_uprobe_entry ::
  "bool \<Rightarrow> bool \<Rightarrow> u32 \<Rightarrow> u64 \<Rightarrow> u64 \<Rightarrow> u64 \<Rightarrow> u64 list \<Rightarrow> spans \<Rightarrow> span_event option \<times> spans" where
  "corr_uprobe_entry matched rb tid ip sp ktime raw s =
     (if \<not> matched then (None, s)
      else let
          s = span_stack_reconcile tid sp s;
          (sid, s) = span_stack_push tid ip sp ktime raw s
        in if sid = 0 then (None, s)
           else let parent = (case top_frame tid s of Some tf \<Rightarrow> parent_span tf | None \<Rightarrow> 0)
                in if \<not> rb then (None, bump_dropped s)
                   else (Some (Ev_func tid sid parent ip ktime raw), s))"

definition corr_on_svc :: "bool \<Rightarrow> bool \<Rightarrow> u32 \<Rightarrow> u64 \<Rightarrow> u64 \<Rightarrow> u64 \<Rightarrow> u64 list \<Rightarrow> spans \<Rightarrow> span_event option \<times> spans" where
  "corr_on_svc matched rb tid sp ktime nr args s =
     (if \<not> matched then (None, s)
      else let (span, s) = span_stack_top_id tid sp s
        in if span = 0 then (None, s)
           else if \<not> rb then (None, bump_dropped s)
           else (Some (Ev_syscall tid span ktime nr args), s))"

text \<open>The two return handlers differ in the counter that the correlate engine bumps.\<close>

definition uretprobe ::
  "bool \<Rightarrow> bool \<Rightarrow> bool \<Rightarrow> u32 \<Rightarrow> u64 \<Rightarrow> u64 \<Rightarrow> spans \<Rightarrow> span_event option \<times> spans" where
  "uretprobe corr matched rb tid now retval s =
     (if \<not> matched then (None, s)
      else case bpf_lookup (span_depth s) tid of
          None \<Rightarrow> (None, s)
        | Some d \<Rightarrow>
            if d = 0 then (None, s)
            else (case bpf_lookup (span_frames s) (tid, d - 1) of
                    None \<Rightarrow> (None, span_depth_set tid (d - 1) s)
                  | Some saved \<Rightarrow>
                      if \<not> rb then (None, bump_dropped (span_depth_set tid (d - 1) (frame_delete (tid, d - 1) s)))
                      else let e = Ev_return tid (span_id saved) (entry_addr saved) retval (now - timestamp saved) now;
                               s = (if corr then cov_bump COV_URET_FIRED s else s)
                           in (Some e, span_depth_set tid (d - 1) (frame_delete (tid, d - 1) s))))"

definition corr_uretprobe_ret :: "bool \<Rightarrow> bool \<Rightarrow> u32 \<Rightarrow> u64 \<Rightarrow> u64 \<Rightarrow> spans \<Rightarrow> span_event option \<times> spans" where
  "corr_uretprobe_ret matched rb tid now retval s = uretprobe True matched rb tid now retval s"

definition uretprobe_open :: "bool \<Rightarrow> bool \<Rightarrow> u32 \<Rightarrow> u64 \<Rightarrow> u64 \<Rightarrow> spans \<Rightarrow> span_event option \<times> spans" where
  "uretprobe_open matched rb tid now retval s = uretprobe False matched rb tid now retval s"

definition uprobe_open ::
  "bool \<Rightarrow> bool \<Rightarrow> u32 \<Rightarrow> u64 \<Rightarrow> u64 \<Rightarrow> u64 \<Rightarrow> u64 list \<Rightarrow> spans \<Rightarrow> span_event option \<times> spans" where
  "uprobe_open matched rb tid ip sp ktime raw s =
     (if \<not> matched then (None, s)
      else let
          s = span_stack_reconcile tid sp s;
          (sid, s) = span_stack_push tid ip sp ktime raw s
        in if \<not> rb then (None, bump_dropped (span_stack_pop tid s))
           else (Some (Ev_func tid sid 0 ip ktime raw), s))"

definition uprobe_save_only :: "bool \<Rightarrow> u32 \<Rightarrow> u64 \<Rightarrow> u64 \<Rightarrow> u64 \<Rightarrow> u64 list \<Rightarrow> spans \<Rightarrow> spans" where
  "uprobe_save_only matched tid ip sp ktime raw s =
     (if \<not> matched then s
      else snd (span_stack_push tid ip sp ktime raw (span_stack_reconcile tid sp s)))"

section \<open>The two maps\<close>

interpretation depths: bpf_hash DEPTH_MAX bpf_lookup "bpf_update DEPTH_MAX :: u32 \<Rightarrow> u32 \<Rightarrow> _" bpf_delete keys_ok
  by (rule bpf_hash_alist)

interpretation frames: bpf_hash FRAMES_MAX bpf_lookup "bpf_update FRAMES_MAX :: u32 \<times> u32 \<Rightarrow> span_frame \<Rightarrow> _" bpf_delete keys_ok
  by (rule bpf_hash_alist)

section \<open>Stacks\<close>

text \<open>The maps hold the stacks \<open>st\<close>, innermost frame first, of the threads \<open>T\<close>.\<close>

definition holds :: "u32 set \<Rightarrow> spans \<Rightarrow> (u32 \<Rightarrow> span_frame list) \<Rightarrow> bool" where
  "holds T s st \<longleftrightarrow> keys_ok (span_depth s) \<and> keys_ok (span_frames s) \<and> finite T \<and> card T \<le> DEPTH_MAX \<and>
     (\<forall>t. length (st t) \<le> MAX_SPAN_DEPTH \<and> (st t \<noteq> [] \<longrightarrow> t \<in> T)) \<and>
     (\<forall>t. bpf_lookup (span_depth s) t = (if st t = [] then None else Some (of_nat (length (st t))))) \<and>
     (\<forall>t k. bpf_lookup (span_frames s) (t, k) = (if unat k < length (st t) then Some (rev (st t) ! unat k) else None))"

text \<open>The stack of a thread, read from the maps.\<close>

definition stack_of :: "spans \<Rightarrow> u32 \<Rightarrow> span_frame list" where
  "stack_of s tid = (case bpf_lookup (span_depth s) tid of
     None \<Rightarrow> []
   | Some d \<Rightarrow> map (\<lambda>i. the (bpf_lookup (span_frames s) (tid, of_nat i))) (rev [0..<unat d]))"

lemma unat_of_depth: "n \<le> 32 \<Longrightarrow> unat (of_nat n :: u32) = n"
  by (simp add: unat_of_nat)

lemma holds_stack: "holds T s st \<Longrightarrow> stack_of s t = st t"
proof -
  assume h: "holds T s st"
  then have l: "length (st t) \<le> 32" by (simp add: holds_def)
  have "unat (of_nat i :: u32) = i" if "i < length (st t)" for i using l that unat_of_depth [of i] by simp
  then have "map (\<lambda>i. the (bpf_lookup (span_frames s) (t, of_nat i))) (rev [0..<length (st t)]) = map (\<lambda>i. rev (st t) ! i) (rev [0..<length (st t)])"
    using h by (intro map_cong refl) (simp add: holds_def)
  also have "\<dots> = st t" by (metis length_rev map_nth rev_map rev_rev_ident)
  finally show ?thesis using h unat_of_depth [OF l] by (auto simp: stack_of_def holds_def)
qed

lemma holds_counters [simp]:
  "holds T (cov_bump k s) st = holds T s st" "holds T (bump_dropped s) st = holds T s st"
  "holds T (s\<lparr>span_seq := n\<rparr>) st = holds T s st"
  by (simp_all add: holds_def cov_bump_def bump_dropped_def)

lemma depth_pred: "Suc n \<le> 32 \<Longrightarrow> (of_nat (Suc n) :: u32) - 1 = of_nat n" "Suc n \<le> 32 \<Longrightarrow> (of_nat (Suc n) :: u32) \<noteq> 0"
  using unat_of_depth [of "Suc n"] by auto

lemma holds_top:
  assumes "holds T s st"
  shows "top_frame t s = (case st t of [] \<Rightarrow> None | f # _ \<Rightarrow> Some f)"
proof (cases "st t")
  case (Cons f fs)
  then have "Suc (length fs) \<le> 32" using assms by (auto simp: holds_def dest: spec [of _ t])
  then show ?thesis
    using assms Cons depth_pred [of "length fs"] unat_of_depth [of "length fs"]
    by (simp add: top_frame_def holds_def nth_append)
qed (use assms in \<open>simp add: top_frame_def holds_def\<close>)

lemma holds_dom: "holds T s st \<Longrightarrow> dom (bpf_lookup (span_depth s)) \<subseteq> T"
proof
  fix t assume h: "holds T s st" and "t \<in> dom (bpf_lookup (span_depth s))"
  then have "st t \<noteq> []" by (auto simp: holds_def)
  then show "t \<in> T" using h by (simp add: holds_def)
qed

text \<open>Changing one stack: the maps change as the stack does.\<close>

lemma holds_change:
  assumes h: "holds T s st" and k: "keys_ok (span_depth s')" "keys_ok (span_frames s')" and l: "length fs \<le> 32" "fs \<noteq> [] \<Longrightarrow> t \<in> T"
    and d: "bpf_lookup (span_depth s') = (bpf_lookup (span_depth s))(t := if fs = [] then None else Some (of_nat (length fs)))"
    and f: "\<And>t' i. t' \<noteq> t \<Longrightarrow> bpf_lookup (span_frames s') (t', i) = bpf_lookup (span_frames s) (t', i)"
      "\<And>i. bpf_lookup (span_frames s') (t, i) = (if unat i < length fs then Some (rev fs ! unat i) else None)"
  shows "holds T s' (st(t := fs))"
proof -
  have "bpf_lookup (span_frames s') (t', i) =
      (if unat i < length ((st(t := fs)) t') then Some (rev ((st(t := fs)) t') ! unat i) else None)" for t' i
    using h f by (cases "t' = t") (simp_all add: holds_def)
  moreover have "bpf_lookup (span_depth s') t' =
      (if (st(t := fs)) t' = [] then None else Some (of_nat (length ((st(t := fs)) t'))))" for t'
    using h d by (cases "t' = t") (simp_all add: holds_def)
  moreover have "length ((st(t := fs)) t') \<le> 32 \<and> ((st(t := fs)) t' \<noteq> [] \<longrightarrow> t' \<in> T)" for t'
    using h l by (cases "t' = t") (simp_all add: holds_def)
  ultimately show ?thesis using h k unfolding holds_def by blast
qed

lemma holds_frame: "holds T s st \<Longrightarrow> bpf_lookup (span_frames s) (t, i) = (if unat i < length (st t) then Some (rev (st t) ! unat i) else None)"
  by (simp add: holds_def)

lemma holds_len: "holds T s st \<Longrightarrow> length (st t) \<le> 32" "holds T s st \<Longrightarrow> st t \<noteq> [] \<Longrightarrow> t \<in> T"
  by (simp_all add: holds_def)

lemma holds_keys: "holds T s st \<Longrightarrow> keys_ok (span_depth s)" "holds T s st \<Longrightarrow> keys_ok (span_frames s)"
  "holds T s st \<Longrightarrow> finite T" "holds T s st \<Longrightarrow> card T \<le> DEPTH_MAX"
  by (simp_all add: holds_def)

lemma holds_pop:
  assumes h: "holds T s st" and c: "st t = f # fs"
  shows "holds T (span_depth_set t (of_nat (length (st t)) - 1) (frame_delete (t, of_nat (length (st t)) - 1) s)) (st(t := fs))"
proof -
  let ?n = "length fs"
  have l: "Suc ?n \<le> 32" "t \<in> T" using holds_len [OF h, of t] c by auto
  have e: "of_nat (length (st t)) - 1 = (of_nat ?n :: u32)" using depth_pred(1) [OF l(1)] c by simp
  have u: "unat (of_nat ?n :: u32) = ?n" using l(1) unat_of_depth [of ?n] by simp
  have z: "of_nat ?n = (0 :: u32) \<longleftrightarrow> fs = []" using unat_eq_zero [of "of_nat ?n :: u32"] u by simp
  note k = holds_keys [OF h]
  note upd = depths.look_upd_in [OF k(1) k(3,4) holds_dom [OF h] l(2)]
    and dels = depths.look_del [OF k(1)] frames.look_del [OF k(2)]
  let ?s = "span_depth_set t (of_nat ?n) (frame_delete (t, of_nat ?n) s)"
  have f: "bpf_lookup (span_frames ?s) = (bpf_lookup (span_frames s))((t, of_nat ?n) := None)"
    using dels(2) by (simp add: span_depth_set_def frame_delete_def)
  show ?thesis unfolding e
  proof (rule holds_change [OF h])
    show "keys_ok (span_depth ?s)" "keys_ok (span_frames ?s)"
      using k depths.upd_inv depths.del_inv frames.del_inv by (simp_all add: span_depth_set_def frame_delete_def)
    show "bpf_lookup (span_depth ?s) = (bpf_lookup (span_depth s))(t := if fs = [] then None else Some (of_nat ?n))"
      using z upd dels(1) by (simp add: span_depth_set_def frame_delete_def)
    show "bpf_lookup (span_frames ?s) (t, i) = (if unat i < length fs then Some (rev fs ! unat i) else None)" for i
    proof -
      have "i = of_nat ?n \<longleftrightarrow> unat i = ?n" using u word_unat_eq_iff [of i "of_nat ?n"] by simp
      then show ?thesis using holds_frame [OF h, of t i] c by (simp add: f nth_append less_Suc_eq)
    qed
  qed (use l f in simp_all)
qed

lemma frames_fit:
  assumes h: "holds T s st"
  shows "dom (bpf_lookup (span_frames s)) \<subseteq> T \<times> of_nat ` {..<32}" "card (T \<times> (of_nat ` {..<32} :: u32 set)) \<le> FRAMES_MAX"
proof -
  show "dom (bpf_lookup (span_frames s)) \<subseteq> T \<times> of_nat ` {..<32}"
  proof (rule subsetI, clarify)
    fix t i f assume "bpf_lookup (span_frames s) (t, i) = Some f"
    then have i: "unat i < length (st t)" using holds_frame [OF h, of t i] by (simp split: if_splits)
    then have "unat i < 32" "st t \<noteq> []" using holds_len(1) [OF h, of t] by auto
    then show "t \<in> T \<and> i \<in> of_nat ` {..<32}"
      using holds_len(2) [OF h, of t] image_eqI [of i of_nat "unat i" "{..<32}"] by simp
  qed
  have "card (of_nat ` {..<32} :: u32 set) \<le> 32" using card_image_le [of "{..<32 :: nat}" "of_nat :: nat \<Rightarrow> u32"] by simp
  then show "card (T \<times> (of_nat ` {..<32} :: u32 set)) \<le> FRAMES_MAX"
    using holds_keys(4) [OF h] unfolding card_cartesian_product by (intro mult_le_mono)
qed

lemma holds_push:
  assumes h: "holds T s st" and t: "t \<in> T" and l: "length (st t) < 32"
  shows "holds T (s\<lparr>span_frames := bpf_update FRAMES_MAX (t, of_nat (length (st t))) f (span_frames s),
      span_depth := bpf_update DEPTH_MAX t (of_nat (length (st t)) + 1) (span_depth s)\<rparr>) (st(t := f # st t))"
    (is "holds T ?s _")
proof -
  let ?n = "length (st t)"
  note k = holds_keys [OF h]
  have u: "unat (of_nat ?n :: u32) = ?n" using l unat_of_depth [of ?n] by simp
  have F: "bpf_lookup (span_frames ?s) = (bpf_lookup (span_frames s))((t, of_nat ?n) \<mapsto> f)"
    using frames.look_upd_in [OF k(2) _ frames_fit(2,1) [OF h], of "(t, of_nat ?n)"] k(3) t l by simp
  have D: "bpf_lookup (span_depth ?s) = (bpf_lookup (span_depth s))(t \<mapsto> of_nat ?n + 1)"
    using depths.look_upd_in [OF k(1) k(3,4) holds_dom [OF h] t] by simp
  show ?thesis
  proof (rule holds_change [OF h])
    show "keys_ok (span_depth ?s)" "keys_ok (span_frames ?s)" using depths.upd_inv [OF k(1)] frames.upd_inv [OF k(2)] by simp_all
    show "bpf_lookup (span_depth ?s) = (bpf_lookup (span_depth s))(t := if f # st t = [] then None else Some (of_nat (length (f # st t))))"
      unfolding D by (simp add: add.commute)
    show "bpf_lookup (span_frames ?s) (t, i) = (if unat i < length (f # st t) then Some (rev (f # st t) ! unat i) else None)" for i
    proof -
      have "i = of_nat ?n \<longleftrightarrow> unat i = ?n" using u word_unat_eq_iff [of i "of_nat ?n"] by simp
      then show ?thesis unfolding F using holds_frame [OF h, of t i] by (simp add: nth_append less_Suc_eq)
    qed
    show "bpf_lookup (span_frames ?s) (t', i) = bpf_lookup (span_frames s) (t', i)" if "t' \<noteq> t" for t' i
      unfolding F using that by simp
  qed (use l t in simp_all)
qed

lemma holds_reconcile_loop:
  "holds T s st \<Longrightarrow> length (st t) \<le> n \<Longrightarrow> holds T (reconcile_loop n t sp s) (st(t := dropWhile (\<lambda>f. entry_sp f < sp) (st t)))
     \<and> span_seq (reconcile_loop n t sp s) = span_seq s"
proof (induction n arbitrary: s st)
  case 0
  then show ?case by (metis dropWhile.simps(1) fun_upd_triv le_zero_eq length_0_conv reconcile_loop.simps(1))
next
  case (Suc n)
  show ?case
  proof (cases "st t")
    case Nil
    then have "bpf_lookup (span_depth s) t = None" using Suc.prems(1) by (simp add: holds_def)
    then show ?thesis using Suc.prems(1) Nil by (simp add: fun_upd_idem)
  next
    case (Cons f fs)
    have l: "Suc (length fs) \<le> 32" using Cons holds_len(1) [OF Suc.prems(1), of t] by simp
    have dp: "bpf_lookup (span_depth s) t = Some (of_nat (length (st t)))" using Suc.prems(1) Cons by (simp add: holds_def)
    have tf: "bpf_lookup (span_frames s) (t, of_nat (length (st t)) - 1) = Some f" "of_nat (length (st t)) \<noteq> (0 :: u32)"
      using holds_top [OF Suc.prems(1), of t] Cons dp depth_pred(2) [OF l] by (auto simp: top_frame_def split: if_splits)
    show ?thesis
    proof (cases "entry_sp f < sp")
      case False
      then show ?thesis using Suc.prems(1) Cons dp tf by (simp add: fun_upd_idem not_less)
    next
      case True
      let ?s = "span_depth_set t (of_nat (length (st t)) - 1) (frame_delete (t, of_nat (length (st t)) - 1) s)"
      have h: "holds T ?s (st(t := fs))" by (rule holds_pop [OF Suc.prems(1) Cons])
      have q: "span_seq ?s = span_seq s" by (simp add: span_depth_set_def frame_delete_def)
      have "reconcile_loop (Suc n) t sp s = reconcile_loop n t sp ?s" using dp tf True by (simp add: leD)
      moreover have "holds T (reconcile_loop n t sp ?s) (st(t := dropWhile (\<lambda>f. entry_sp f < sp) fs))"
          "span_seq (reconcile_loop n t sp ?s) = span_seq s"
        using Suc.IH [OF h] Suc.prems(2) Cons q by (simp_all del: fun_upd_apply add: fun_upd_same)
      moreover have "dropWhile (\<lambda>f. entry_sp f < sp) (st t) = dropWhile (\<lambda>f. entry_sp f < sp) fs" using Cons True by simp
      ultimately show ?thesis by (simp only:)
    qed
  qed
qed

lemma holds_reconcile:
  assumes "holds T s st"
  shows "holds T (span_stack_reconcile t sp s) (st(t := dropWhile (\<lambda>f. entry_sp f < sp) (st t)))"
    "span_seq (span_stack_reconcile t sp s) = span_seq s"
  using holds_reconcile_loop [OF assms, of t 32 sp] assms by (auto simp: span_stack_reconcile_def holds_def)

section \<open>The correlate engine against an ideal stack\<close>

text \<open>An ideal engine: a list of frames per thread, innermost first, and the last span id given out. Frames whose
  function has returned are dropped before the stack is read or grown, and nesting stops at the depth cap.\<close>

type_synonym ideal = "(u32 \<Rightarrow> span_frame list) \<times> u64"

definition live :: "u64 \<Rightarrow> span_frame list \<Rightarrow> span_frame list" where
  "live sp fs = dropWhile (\<lambda>f. entry_sp f < sp) fs"

definition top_id :: "span_frame list \<Rightarrow> u64" where
  "top_id fs = (case fs of [] \<Rightarrow> 0 | f # _ \<Rightarrow> span_id f)"

datatype corr_op =
    Op_entry bool bool u32 u64 u64 u64 "u64 list"
  | Op_svc bool bool u32 u64 u64 u64 "u64 list"
  | Op_ret bool bool u32 u64 u64

fun op_tid :: "corr_op \<Rightarrow> u32" where
  "op_tid (Op_entry m rb t ip sp k raw) = t"
| "op_tid (Op_svc m rb t sp k nr args) = t"
| "op_tid (Op_ret m rb t now rv) = t"

fun corr_step :: "corr_op \<Rightarrow> spans \<Rightarrow> span_event option \<times> spans" where
  "corr_step (Op_entry m rb t ip sp k raw) s = corr_uprobe_entry m rb t ip sp k raw s"
| "corr_step (Op_svc m rb t sp k nr args) s = corr_on_svc m rb t sp k nr args s"
| "corr_step (Op_ret m rb t now rv) s = corr_uretprobe_ret m rb t now rv s"

fun ideal_step :: "corr_op \<Rightarrow> ideal \<Rightarrow> span_event option \<times> ideal" where
  "ideal_step (Op_entry m rb t ip sp k raw) (st, n) =
     (if \<not> m then (None, (st, n))
      else let fs = live sp (st t) in
        if length fs \<ge> 32 then (None, (st(t := fs), n))
        else let f = \<lparr>entry_addr = ip, entry_sp = sp, timestamp = k, span_id = n + 1, parent_span = top_id fs, fargs = raw\<rparr>
             in (if rb \<and> n + 1 \<noteq> 0 then Some (Ev_func t (n + 1) (top_id fs) ip k raw) else None, (st(t := f # fs), n + 1)))"
| "ideal_step (Op_svc m rb t sp k nr args) (st, n) =
     (if \<not> m then (None, (st, n))
      else let fs = live sp (st t)
           in (if rb \<and> top_id fs \<noteq> 0 then Some (Ev_syscall t (top_id fs) k nr args) else None, (st(t := fs), n)))"
| "ideal_step (Op_ret m rb t now rv) (st, n) =
     (if \<not> m then (None, (st, n))
      else case st t of
          [] \<Rightarrow> (None, (st, n))
        | f # fs \<Rightarrow> (if rb then Some (Ev_return t (span_id f) (entry_addr f) rv (now - timestamp f) now) else None, (st(t := fs), n)))"

text \<open>A run: the events emitted and the final state.\<close>

fun run_ops :: "(corr_op \<Rightarrow> 's \<Rightarrow> span_event option \<times> 's) \<Rightarrow> corr_op list \<Rightarrow> 's \<Rightarrow> span_event option list \<times> 's" where
  "run_ops step [] s = ([], s)"
| "run_ops step (op # ops) s = (let (e, s) = step op s; (es, s) = run_ops step ops s in (e # es, s))"

definition ideal_rel :: "u32 set \<Rightarrow> spans \<Rightarrow> ideal \<Rightarrow> bool" where
  "ideal_rel T s i \<longleftrightarrow> holds T s (fst i) \<and> span_seq s = snd i"

lemma span_seq_counters [simp]: "span_seq (cov_bump k s) = span_seq s" "span_seq (bump_dropped s) = span_seq s"
  "span_seq (span_depth_set t d s) = span_seq s" "span_seq (frame_delete fk s) = span_seq s"
  by (simp_all add: cov_bump_def bump_dropped_def span_depth_set_def frame_delete_def)

lemma holds_depth: "holds T s st \<Longrightarrow> bpf_lookup (span_depth s) t = (if st t = [] then None else Some (of_nat (length (st t))))"
  by (simp add: holds_def)

lemma holds_top_id: "holds T s st \<Longrightarrow> (case top_frame t s of Some f \<Rightarrow> span_id f | None \<Rightarrow> 0) = top_id (st t)"
  by (simp add: holds_top top_id_def split: list.splits)

lemma push_ideal:
  assumes h: "holds T s st" and t: "t \<in> T"
  shows "span_stack_push t ip sp k raw s =
    (if length (st t) \<ge> 32 then (0, cov_bump COV_DEPTH_CAP s) else (span_seq s + 1, snd (span_stack_push t ip sp k raw s)))"
    "length (st t) < 32 \<Longrightarrow> ideal_rel T (snd (span_stack_push t ip sp k raw s))
      (st(t := \<lparr>entry_addr = ip, entry_sp = sp, timestamp = k, span_id = span_seq s + 1, parent_span = top_id (st t), fargs = raw\<rparr> # st t), span_seq s + 1)"
proof -
  have d: "(case bpf_lookup (span_depth s) t of Some d \<Rightarrow> d | None \<Rightarrow> 0) = (of_nat (length (st t)) :: u32)"
    using holds_depth [OF h, of t] by simp
  have u: "unat (of_nat (length (st t)) :: u32) = length (st t)" by (rule unat_of_depth [OF holds_len(1) [OF h]])
  have c: "(of_nat (length (st t)) :: u32) \<ge> of_nat 32 \<longleftrightarrow> length (st t) \<ge> 32" using u by (simp add: word_le_nat_alt)
  have p: "(if (of_nat (length (st t)) :: u32) > 0 then (case bpf_lookup (span_frames s) (t, of_nat (length (st t)) - 1) of Some pf \<Rightarrow> span_id pf | None \<Rightarrow> 0) else 0) = top_id (st t)"
  proof (cases "st t")
    case (Cons f fs)
    then show ?thesis using holds_top_id [OF h, of t] holds_depth [OF h, of t] u by (simp add: top_frame_def word_less_nat_alt split: if_splits)
  qed (simp add: top_id_def)
  show "span_stack_push t ip sp k raw s =
    (if length (st t) \<ge> 32 then (0, cov_bump COV_DEPTH_CAP s) else (span_seq s + 1, snd (span_stack_push t ip sp k raw s)))"
    unfolding span_stack_push_def d c Let_def by (simp add: span_next_id_def)
  assume l: "length (st t) < 32"
  have "holds T (s\<lparr>span_seq := span_seq s + 1\<rparr>) st" using h by simp
  from holds_push [OF this t l]
  show "ideal_rel T (snd (span_stack_push t ip sp k raw s))
      (st(t := \<lparr>entry_addr = ip, entry_sp = sp, timestamp = k, span_id = span_seq s + 1, parent_span = top_id (st t), fargs = raw\<rparr> # st t), span_seq s + 1)"
    unfolding span_stack_push_def d c Let_def p using l by (simp add: span_next_id_def ideal_rel_def del: fun_upd_apply)
qed

lemma entry_ideal:
  assumes r: "ideal_rel T s (st, n)" and t: "t \<in> T"
  shows "fst (corr_uprobe_entry m rb t ip sp k raw s) = fst (ideal_step (Op_entry m rb t ip sp k raw) (st, n)) \<and>
    ideal_rel T (snd (corr_uprobe_entry m rb t ip sp k raw s)) (snd (ideal_step (Op_entry m rb t ip sp k raw) (st, n)))"
proof (cases m)
  case True
  define s1 where "s1 = span_stack_reconcile t sp s"
  define st1 where "st1 = st(t := live sp (st t))"
  have h: "holds T s1 st1" and q: "span_seq s1 = n"
    using holds_reconcile [of T s st t sp] r by (auto simp: s1_def st1_def ideal_rel_def live_def)
  note p = push_ideal [OF h t, of ip sp k raw]
  have e: "corr_uprobe_entry m rb t ip sp k raw s =
      (let (sid, s2) = span_stack_push t ip sp k raw s1 in
       if sid = 0 then (None, s2)
       else if \<not> rb then (None, bump_dropped s2)
       else (Some (Ev_func t sid (case top_frame t s2 of Some tf \<Rightarrow> parent_span tf | None \<Rightarrow> 0) ip k raw), s2))"
    using True by (simp add: corr_uprobe_entry_def s1_def Let_def split: prod.splits)
  show ?thesis
  proof (cases "32 \<le> length (live sp (st t))")
    case True
    then show ?thesis using \<open>m\<close> p(1) h q unfolding e by (simp add: st1_def ideal_rel_def Let_def del: fun_upd_apply) (simp add: st1_def)
  next
    case False
    then have l: "length (st1 t) < 32" by (simp add: st1_def)
    let ?f = "\<lparr>entry_addr = ip, entry_sp = sp, timestamp = k, span_id = n + 1, parent_span = top_id (live sp (st t)), fargs = raw\<rparr>"
    obtain s2 where s2: "span_stack_push t ip sp k raw s1 = (n + 1, s2)" "ideal_rel T s2 (st(t := ?f # live sp (st t)), n + 1)"
      using p(1) p(2) [OF l] l q by (simp add: st1_def del: fun_upd_apply) (simp add: fun_upd_same)
    have "top_frame t s2 = Some ?f" using s2(2) holds_top [of T s2 "st(t := ?f # live sp (st t))" t] by (simp add: ideal_rel_def)
    then show ?thesis using \<open>m\<close> False s2 unfolding e by (auto simp: Let_def ideal_rel_def simp del: fun_upd_apply)
  qed
qed (use r in \<open>simp add: corr_uprobe_entry_def\<close>)

lemma svc_ideal:
  assumes r: "ideal_rel T s (st, n)"
  shows "fst (corr_on_svc m rb t sp k nr args s) = fst (ideal_step (Op_svc m rb t sp k nr args) (st, n)) \<and>
    ideal_rel T (snd (corr_on_svc m rb t sp k nr args s)) (snd (ideal_step (Op_svc m rb t sp k nr args) (st, n)))"
proof -
  have h: "holds T (span_stack_reconcile t sp s) (st(t := live sp (st t)))" and q: "span_seq (span_stack_reconcile t sp s) = n"
    using holds_reconcile [of T s st t sp] r by (auto simp: ideal_rel_def live_def)
  have "span_stack_top_id t sp s = (top_id (live sp (st t)), span_stack_reconcile t sp s)"
    using holds_top_id [OF h, of t] by (simp add: span_stack_top_id_def Let_def)
  then show ?thesis using r h q by (auto simp: corr_on_svc_def Let_def ideal_rel_def simp del: fun_upd_apply)
qed

lemma ret_ideal:
  assumes r: "ideal_rel T s (st, n)"
  shows "fst (corr_uretprobe_ret m rb t now rv s) = fst (ideal_step (Op_ret m rb t now rv) (st, n)) \<and>
    ideal_rel T (snd (corr_uretprobe_ret m rb t now rv s)) (snd (ideal_step (Op_ret m rb t now rv) (st, n)))"
proof (cases "st t")
  case Nil
  then show ?thesis using r holds_depth [of T s st t] by (simp add: corr_uretprobe_ret_def uretprobe_def ideal_rel_def)
next
  case (Cons f fs)
  have h: "holds T s st" "span_seq s = n" using r by (auto simp: ideal_rel_def)
  let ?d = "of_nat (length (st t)) :: u32"
  have tf: "bpf_lookup (span_depth s) t = Some ?d" "bpf_lookup (span_frames s) (t, ?d - 1) = Some f" "?d \<noteq> 0"
    using holds_top [OF h(1), of t] holds_depth [OF h(1), of t] Cons by (auto simp: top_frame_def split: if_splits)
  have "holds T (cov_bump COV_URET_FIRED s) st" using h(1) by simp
  from holds_pop [OF this Cons] holds_pop [OF h(1) Cons] show ?thesis
    using tf h Cons by (auto simp: corr_uretprobe_ret_def uretprobe_def ideal_rel_def Let_def simp del: fun_upd_apply)
qed

lemma step_ideal:
  assumes "ideal_rel T s i" "op_tid op \<in> T"
  shows "fst (corr_step op s) = fst (ideal_step op i)" "ideal_rel T (snd (corr_step op s)) (snd (ideal_step op i))"
proof -
  obtain st n where i: "i = (st, n)" by (cases i)
  show "fst (corr_step op s) = fst (ideal_step op i)" "ideal_rel T (snd (corr_step op s)) (snd (ideal_step op i))"
    unfolding i using assms entry_ideal svc_ideal ret_ideal i by (cases op; simp del: ideal_step.simps)+
qed

lemma run_ideal:
  "ideal_rel T s i \<Longrightarrow> set (map op_tid ops) \<subseteq> T \<Longrightarrow>
     fst (run_ops corr_step ops s) = fst (run_ops ideal_step ops i) \<and>
     ideal_rel T (snd (run_ops corr_step ops s)) (snd (run_ops ideal_step ops i))"
proof (induction ops arbitrary: s i)
  case (Cons op ops)
  then have "ideal_rel T (snd (corr_step op s)) (snd (ideal_step op i))" "fst (corr_step op s) = fst (ideal_step op i)"
    using step_ideal [of T s i op] by simp_all
  then show ?case using Cons.IH Cons.prems(2) by (simp add: case_prod_beta Let_def)
qed simp

lemma ideal_zero: "finite T \<Longrightarrow> card T \<le> DEPTH_MAX \<Longrightarrow> ideal_rel T spans_zero (\<lambda>_. [], 0)"
  by (simp add: ideal_rel_def holds_def spans_zero_def keys_ok_def bpf_lookup_def)

text \<open>C26: the maps implement the ideal stacks. For any sequence of function entries, system calls and returns
  by at most 1024 threads, whatever the filters and the ring buffer decide, the engine emits exactly the
  events the ideal engine emits - each call with its enclosing span, each system call with the innermost call
  still running, each return with the span it closes - and its maps hold exactly the ideal stacks.\<close>

theorem corr_run_refines:
  assumes "card (set (map op_tid ops)) \<le> 1024"
  shows "let (es, s) = run_ops corr_step ops spans_zero; (es', st, n) = run_ops ideal_step ops (\<lambda>_. [], 0)
    in es = es' \<and> (\<forall>t. stack_of s t = st t) \<and> span_seq s = n"
proof -
  have "fst (run_ops corr_step ops spans_zero) = fst (run_ops ideal_step ops (\<lambda>_. [], 0)) \<and>
     ideal_rel (set (map op_tid ops)) (snd (run_ops corr_step ops spans_zero)) (snd (run_ops ideal_step ops (\<lambda>_. [], 0)))"
    using assms by (intro run_ideal ideal_zero) auto
  then show ?thesis using holds_stack by (auto simp: Let_def ideal_rel_def split: prod.splits)
qed

lemma corr_run_refines_witness:
  "fst (run_ops corr_step [Op_entry True True 7 0x100 0x9000 1 [1], Op_entry True True 7 0x200 0x8000 2 [], Op_svc True True 7 0x7000 3 64 [],
       Op_svc True True 7 0x8800 4 63 [], Op_ret True True 7 10 0] spans_zero) =
     [Some (Ev_func 7 1 0 0x100 1 [1]), Some (Ev_func 7 2 1 0x200 2 []), Some (Ev_syscall 7 2 3 64 []), Some (Ev_syscall 7 1 4 63 []),
      Some (Ev_return 7 1 0x100 0 9 10)]"
proof -
  let ?ops = "[Op_entry True True 7 0x100 0x9000 1 [1], Op_entry True True 7 0x200 0x8000 2 [], Op_svc True True 7 0x7000 3 64 [],
       Op_svc True True 7 0x8800 4 63 [], Op_ret True True 7 10 0]"
  have "let (es, s) = run_ops corr_step ?ops spans_zero; (es', st, n) = run_ops ideal_step ?ops (\<lambda>_. [], 0)
    in es = es' \<and> (\<forall>t. stack_of s t = st t) \<and> span_seq s = n"
    by (rule corr_run_refines) simp
  then show ?thesis by (simp add: Let_def live_def top_id_def case_prod_beta del: corr_step.simps run_ops.simps(2) [of corr_step])
qed

section \<open>Nesting\<close>

text \<open>A well-nested stack: inner frames lie deeper in the user stack, were opened later, and name the frame
  around them.\<close>

fun nested :: "span_frame list \<Rightarrow> bool" where
  "nested [] = True"
| "nested (f # fs) \<longleftrightarrow> span_id f \<noteq> 0 \<and> parent_span f = top_id fs \<and>
     (case fs of [] \<Rightarrow> True | g # _ \<Rightarrow> entry_sp f \<le> entry_sp g \<and> span_id g < span_id f) \<and> nested fs"

lemma nested_tl: "nested (f # fs) \<Longrightarrow> nested fs"
  by simp

lemma nested_live: "nested fs \<Longrightarrow> nested (live sp fs)"
  by (induction fs) (simp_all add: live_def)

lemma live_head: "live sp fs = f # gs \<Longrightarrow> sp \<le> entry_sp f"
  by (induction fs) (auto simp: live_def not_less split: if_splits)

definition ids_below :: "u64 \<Rightarrow> span_frame list \<Rightarrow> bool" where
  "ids_below n fs \<longleftrightarrow> list_all (\<lambda>f. span_id f \<le> n) fs"

lemma ids_live: "ids_below n fs \<Longrightarrow> ids_below n (live sp fs)"
  by (induction fs) (simp_all add: ids_below_def live_def)

lemma next_greater: "n + 1 \<noteq> 0 \<Longrightarrow> n < n + 1" for n :: u64
  using unatSuc [of n] by (simp add: word_less_nat_alt add.commute)

lemma ids_next: "n + 1 \<noteq> 0 \<Longrightarrow> ids_below n fs \<Longrightarrow> ids_below (n + 1) fs"
  unfolding ids_below_def list_all_iff using next_greater [of n] by (meson less_imp_le order_trans)

lemma nested_push:
  assumes "nested (live sp fs)" "ids_below n (live sp fs)" "n + 1 \<noteq> 0"
  shows "nested (\<lparr>entry_addr = ip, entry_sp = sp, timestamp = k, span_id = n + 1, parent_span = top_id (live sp fs), fargs = raw\<rparr> # live sp fs)"
proof (cases "live sp fs")
  case (Cons g gs)
  then have "span_id g \<le> n" using assms(2) by (simp add: ids_below_def)
  then have "span_id g < n + 1" using next_greater [OF assms(3)] by (rule le_less_trans)
  then show ?thesis using assms Cons live_head [OF Cons] by simp
qed (use assms in simp)

definition nested_at :: "ideal \<Rightarrow> bool" where
  "nested_at i \<longleftrightarrow> (\<forall>t. nested (fst i t) \<and> ids_below (snd i) (fst i t))"

lemma ideal_step_nested:
  assumes i: "nested_at (st, n)" and n: "n + 1 \<noteq> 0"
  shows "nested_at (snd (ideal_step op (st, n))) \<and> snd (snd (ideal_step op (st, n))) \<in> {n, n + 1}"
proof (cases op)
  case (Op_entry m rb t ip sp k raw)
  have l: "nested (live sp (st t))" "ids_below n (live sp (st t))" using i nested_live ids_live by (auto simp: nested_at_def)
  show ?thesis using Op_entry i l nested_push [OF l n, of ip k raw] ids_next [OF n]
    by (auto simp: Let_def nested_at_def ids_below_def simp del: nested.simps)
next
  case (Op_svc m rb t sp k nr args)
  then show ?thesis using i nested_live ids_live by (auto simp: Let_def nested_at_def)
next
  case (Op_ret m rb t now rv)
  then show ?thesis using i
    by (cases "st t") (auto simp: nested_at_def ids_below_def dest: spec [of _ t] simp del: nested.simps(2) dest!: nested_tl)
qed

lemma ideal_run_nested:
  "nested_at i \<Longrightarrow> unat (snd i) + length ops < 2 ^ 64 \<Longrightarrow>
     nested_at (snd (run_ops ideal_step ops i)) \<and> unat (snd (snd (run_ops ideal_step ops i))) \<le> unat (snd i) + length ops"
proof (induction ops arbitrary: i)
  case (Cons op ops)
  obtain st n where i: "i = (st, n)" by (cases i)
  have n: "n + 1 \<noteq> 0"
  proof
    assume "n + 1 = 0"
    then have "n = - 1" by (simp add: eq_neg_iff_add_eq_0)
    then show False using Cons.prems(2) by (simp add: i unsigned_minus_1_eq_mask mask_eq_exp_minus_1)
  qed
  obtain e i' where e: "ideal_step op i = (e, i')" by (cases "ideal_step op i")
  have "nested_at i'" "snd i' \<in> {n, n + 1}" using ideal_step_nested [OF Cons.prems(1) [unfolded i] n, of op] e by (simp_all add: i)
  moreover have "unat (snd i') \<le> Suc (unat n)" using calculation(2) unatSuc [of n] n by (auto simp: add.commute)
  ultimately show ?case using Cons.IH [of i'] Cons.prems(2) by (auto simp: i e [unfolded i] Let_def split: prod.splits)
qed simp

lemma live_find: "find (\<lambda>f. sp \<le> entry_sp f) fs = (case live sp fs of [] \<Rightarrow> None | f # _ \<Rightarrow> Some f)"
  by (induction fs) (auto simp: live_def not_less not_le)



section \<open>A defect of the functions engine\<close>

text \<open>A call beyond the depth cap is not pushed, but when the ring buffer then refuses its event the functions
  engine undoes a push all the same: the innermost frame of the calls that are tracked is lost.\<close>

theorem uprobe_open_undoes_caller:
  assumes "holds T s st" "t \<in> T" "length (st t) = 32" "live sp (st t) = st t"
  shows "holds T (snd (uprobe_open True False t ip sp k raw s)) (st(t := tl (st t)))"
proof -
  have h: "holds T (span_stack_reconcile t sp s) st" using holds_reconcile(1) [OF assms(1), of t sp] assms(4) by (simp add: live_def [symmetric])
  have p: "span_stack_push t ip sp k raw (span_stack_reconcile t sp s) = (0, cov_bump COV_DEPTH_CAP (span_stack_reconcile t sp s))"
    using push_ideal(1) [OF h assms(2), of ip sp k raw] assms(3) by simp
  let ?s = "cov_bump COV_DEPTH_CAP (span_stack_reconcile t sp s)"
  have h': "holds T ?s st" using h by simp
  obtain f fs where c: "st t = f # fs" using assms(3) by (cases "st t") auto
  have "holds T (span_stack_pop t ?s) (st(t := fs))"
    using holds_pop [OF h' c] holds_depth [OF h', of t] c depth_pred(2) [of "length fs"] assms(3) by (simp add: span_stack_pop_def)
  then show ?thesis using p c by (simp add: uprobe_open_def Let_def)
qed

end
