(* ===== verification/Dex.thy ===== *)
theory Dex
  imports Anubee_Prelude
begin

unbundle bit_operations_syntax

text \<open>
  \<open>src/src/common/dex.c\<close>: from a byte offset in a DEX image to the Java method whose code covers it.

  \<^item> every read of the image goes through \<open>load_le\<close> or \<open>byte_at\<close>, so \<open>None\<close> is a read outside it; a \<open>NULL\<close>
    result is \<open>Rc_err\<close>, and a lookup that returns 0 is \<open>Some None\<close>;
  \<^item> \<open>calloc_ok\<close> and \<open>malloc_ok\<close> are the two fixed allocations, \<open>ra\<close> says which capacities the range array may
    grow to (each is asked for at most once in a build), and \<open>qs\<close> is the library's \<open>qsort\<close>;
  \<^item> loops over counts read from the image recurse on the count.
\<close>

record method_range =
  rstart :: u32
  rend :: u32
  method_idx :: u32

record dex_method_map =
  dimg :: bytes
  string_ids_off :: u32
  string_ids_size :: u32
  type_ids_off :: u32
  type_ids_size :: u32
  method_ids_off :: u32
  method_ids_size :: u32
  ranges :: "method_range list"

definition region_ok :: "nat \<Rightarrow> u32 \<Rightarrow> u32 \<Rightarrow> nat \<Rightarrow> bool" where
  "region_ok len off cnt stride \<longleftrightarrow> unat off \<le> len \<and> unat cnt * stride \<le> len - unat off"

section \<open>Reading\<close>

fun uleb_loop :: "nat \<Rightarrow> bytes \<Rightarrow> nat \<Rightarrow> u32 \<Rightarrow> nat \<Rightarrow> (u32 option \<times> nat) option" where
  "uleb_loop 0 buf shift result pos = Some (None, pos)"
| "uleb_loop (Suc i) buf shift result pos =
     (if pos \<ge> length buf then Some (None, pos)
      else do {
        b \<leftarrow> byte_at buf pos;
        let result = result OR push_bit shift (ucast (b AND 0x7f));
        (if b AND 0x80 = 0 then Some (Some result, pos + 1) else uleb_loop i buf (shift + 7) result (pos + 1))
      })"

definition uleb128 :: "bytes \<Rightarrow> nat \<Rightarrow> (u32 option \<times> nat) option" where
  "uleb128 buf pos = uleb_loop 5 buf 0 0 pos"

text \<open>Several values in a row, until one fails.\<close>

fun ulebs :: "nat \<Rightarrow> bytes \<Rightarrow> nat \<Rightarrow> (u32 list option \<times> nat) option" where
  "ulebs 0 buf pos = Some (Some [], pos)"
| "ulebs (Suc n) buf pos = do {
     (v, pos) \<leftarrow> uleb128 buf pos;
     (case v of
        None \<Rightarrow> Some (None, pos)
      | Some v \<Rightarrow> do { (vs, pos) \<leftarrow> ulebs n buf pos; Some (map_option ((#) v) vs, pos) })
   }"

section \<open>Building the map\<close>

text \<open>The array of ranges with its capacity.\<close>

type_synonym range_buf = "nat \<times> method_range list"

definition push_range :: "(nat \<Rightarrow> bool) \<Rightarrow> range_buf \<Rightarrow> method_range \<Rightarrow> range_buf option" where
  "push_range ra = (\<lambda>(cap, rs) r.
     (if length rs = cap
      then let ncap = (if cap \<noteq> 0 then cap * 2 else 64) in if ra ncap then Some (ncap, rs @ [r]) else None
      else Some (cap, rs @ [r])))"

datatype group_res = G_clean | G_trunc | G_oom

definition group_entry :: "(nat \<Rightarrow> bool) \<Rightarrow> bytes \<Rightarrow> u32 \<Rightarrow> u32 \<Rightarrow> u32 \<Rightarrow> range_buf \<Rightarrow> range_buf option option" where
  "group_entry ra img msize midx code_off rb =
     (if code_off = 0 then Some (Some rb)
      else if unat code_off > length img \<or> length img - unat code_off < 16 then Some (Some rb)
      else do {
        insns_size \<leftarrow> load_le 4 img (unat code_off + 12);
        let start = code_off + 16;
        let insns_bytes = unat (insns_size :: u32) * 2;
        (if insns_bytes > szsub (length img) (unat start) then Some (Some rb)
         else if midx \<ge> msize then Some (Some rb)
         else Some (push_range ra rb \<lparr>rstart = start, rend = start + of_nat insns_bytes, method_idx = midx\<rparr>))
      })"

fun parse_method_group ::
  "(nat \<Rightarrow> bool) \<Rightarrow> bytes \<Rightarrow> u32 \<Rightarrow> nat \<Rightarrow> u32 \<Rightarrow> nat \<Rightarrow> range_buf \<Rightarrow> (group_res \<times> nat \<times> range_buf) option" where
  "parse_method_group ra img msize 0 midx pos rb = Some (G_clean, pos, rb)"
| "parse_method_group ra img msize (Suc k) midx pos rb = do {
     (vs, pos) \<leftarrow> ulebs 3 img pos;
     (case vs of
        Some [idx_diff, access_flags, code_off] \<Rightarrow> do {
          let midx = midx + idx_diff;
          r \<leftarrow> group_entry ra img msize midx code_off rb;
          (case r of
             None \<Rightarrow> Some (G_oom, pos, rb)
           | Some rb \<Rightarrow> parse_method_group ra img msize k midx pos rb)
        }
      | _ \<Rightarrow> Some (G_trunc, pos, rb))
   }"

text \<open>The encoded fields, two values each, are skipped; \<open>None\<close> inside is a truncated class.\<close>

fun skip_fields :: "nat \<Rightarrow> bytes \<Rightarrow> nat \<Rightarrow> nat option option" where
  "skip_fields 0 img pos = Some (Some pos)"
| "skip_fields (Suc f) img pos = do {
     (vs, pos) \<leftarrow> ulebs 2 img pos;
     (case vs of None \<Rightarrow> Some None | Some _ \<Rightarrow> skip_fields f img pos)
   }"

definition parse_class :: "(nat \<Rightarrow> bool) \<Rightarrow> bytes \<Rightarrow> u32 \<Rightarrow> nat \<Rightarrow> range_buf \<Rightarrow> range_buf option option" where
  "parse_class ra img msize cd rb = do {
     class_data_off \<leftarrow> load_le 4 img (cd + 24);
     let class_data_off = (class_data_off :: u32);
     (if class_data_off = 0 \<or> unat class_data_off \<ge> length img then Some (Some rb)
      else do {
        (vs, pos) \<leftarrow> ulebs 4 img (unat class_data_off);
        (case vs of
           Some [static_fields, instance_fields, direct_methods, virtual_methods] \<Rightarrow> do {
             r \<leftarrow> skip_fields (unat static_fields + unat instance_fields) img pos;
             (case r of
                None \<Rightarrow> Some (Some rb)
              | Some pos \<Rightarrow> do {
                  (dr, pos, rb) \<leftarrow> parse_method_group ra img msize (unat direct_methods) 0 pos rb;
                  (case dr of
                     G_oom \<Rightarrow> Some None
                   | G_trunc \<Rightarrow> Some (Some rb)
                   | G_clean \<Rightarrow> do {
                       (vr, pos, rb) \<leftarrow> parse_method_group ra img msize (unat virtual_methods) 0 pos rb;
                       Some (if vr = G_oom then None else Some rb)
                     })
                })
           }
         | _ \<Rightarrow> Some (Some rb))
      })
   }"

fun parse_classes :: "(nat \<Rightarrow> bool) \<Rightarrow> bytes \<Rightarrow> u32 \<Rightarrow> nat \<Rightarrow> nat list \<Rightarrow> range_buf \<Rightarrow> range_buf option option" where
  "parse_classes ra img msize off [] rb = Some (Some rb)"
| "parse_classes ra img msize off (i # is) rb = do {
     r \<leftarrow> parse_class ra img msize (off + i * 32) rb;
     (case r of None \<Rightarrow> Some None | Some rb \<Rightarrow> parse_classes ra img msize off is rb)
   }"

text \<open>The ranges that start behind the last one kept.\<close>

fun keep_ranges :: "method_range \<Rightarrow> method_range list \<Rightarrow> method_range list" where
  "keep_ranges prev [] = []"
| "keep_ranges prev (r # rs) = (if rstart r \<ge> rend prev then r # keep_ranges r rs else keep_ranges prev rs)"

definition drop_overlaps :: "(method_range list \<Rightarrow> method_range list) \<Rightarrow> method_range list \<Rightarrow> method_range list" where
  "drop_overlaps qs rs =
     (if length rs > 1 then (case qs rs of [] \<Rightarrow> [] | r # rs \<Rightarrow> r # keep_ranges r rs) else rs)"

definition dex_magic :: "bytes \<Rightarrow> bool" where
  "dex_magic img \<longleftrightarrow> take 4 img = [0x64, 0x65, 0x78, 0x0a] \<and> img ! 7 = 0 \<and> img ! 4 = 0x30 \<and> img ! 5 = 0x33 \<and>
     0x35 \<le> img ! 6 \<and> img ! 6 \<le> 0x39"

definition dex_map_build ::
  "bool \<Rightarrow> bool \<Rightarrow> (nat \<Rightarrow> bool) \<Rightarrow> (method_range list \<Rightarrow> method_range list) \<Rightarrow> bytes \<Rightarrow> dex_method_map rc option" where
  "dex_map_build calloc_ok malloc_ok ra qs img =
     (if length img < 112 then Some Rc_err
      else if \<not> dex_magic img then Some Rc_err
      else if \<not> calloc_ok then Some Rc_err
      else do {
        ss \<leftarrow> load_le 4 img 56; so \<leftarrow> load_le 4 img 60;
        ts \<leftarrow> load_le 4 img 64; to \<leftarrow> load_le 4 img 68;
        ms \<leftarrow> load_le 4 img 88; mo \<leftarrow> load_le 4 img 92;
        cs \<leftarrow> load_le 4 img 96; co \<leftarrow> load_le 4 img 100;
        (if \<not> region_ok (length img) so ss 4 \<or> \<not> region_ok (length img) to ts 4 \<or>
            \<not> region_ok (length img) mo ms 8 \<or> \<not> region_ok (length img) co cs 32 then Some Rc_err
         else if \<not> malloc_ok then Some Rc_err
         else do {
           r \<leftarrow> parse_classes ra img ms (unat co) [0..<unat cs] (0, []);
           (case r of
              None \<Rightarrow> Some Rc_err
            | Some (_, rs) \<Rightarrow> Some (Rc_ok \<lparr>dimg = img, string_ids_off = so, string_ids_size = ss, type_ids_off = to, type_ids_size = ts,
                method_ids_off = mo, method_ids_size = ms, ranges = drop_overlaps qs rs\<rparr>))
         })
      })"

section \<open>Names\<close>

text \<open>Copying up to the terminator into a buffer of \<open>outsz\<close> that holds \<open>o1\<close> characters.\<close>

fun dex_copy :: "nat \<Rightarrow> nat \<Rightarrow> bytes \<Rightarrow> string option" where
  "dex_copy outsz o1 [] = Some []"
| "dex_copy outsz o1 (c # cs) =
     (if c = 0 then Some []
      else if o1 + 1 \<ge> outsz then None
      else map_option ((#) (char_of (unat c))) (dex_copy outsz (o1 + 1) cs))"

definition dex_string :: "dex_method_map \<Rightarrow> u32 \<Rightarrow> nat \<Rightarrow> string option option" where
  "dex_string m idx outsz =
     (if idx \<ge> string_ids_size m then Some None
      else do {
        data_off \<leftarrow> load_le 4 (dimg m) (unat (string_ids_off m) + unat idx * 4);
        let data_off = unat (data_off :: u32);
        (if data_off \<ge> length (dimg m) then Some None
         else do {
           (utf16_len, pos) \<leftarrow> uleb128 (dimg m) data_off;
           (case utf16_len of
              None \<Rightarrow> Some None
            | Some _ \<Rightarrow> Some (dex_copy outsz 0 (drop pos (dimg m))))
         })
      })"

fun put_chars :: "nat \<Rightarrow> string \<Rightarrow> string \<Rightarrow> string option" where
  "put_chars outsz out [] = Some out"
| "put_chars outsz out (c # cs) = (if length out + 1 \<ge> outsz then None else put_chars outsz (out @ [c]) cs)"

definition dotted :: "string \<Rightarrow> string" where
  "dotted desc = map (\<lambda>c. if c = CHR ''/'' then CHR ''.'' else c) (butlast (tl desc))"

definition method_idx_to_name :: "dex_method_map \<Rightarrow> u32 \<Rightarrow> nat \<Rightarrow> string option option" where
  "method_idx_to_name m midx outsz =
     (if midx \<ge> method_ids_size m then Some None
      else do {
        let ent = unat (method_ids_off m) + unat midx * 8;
        class_idx \<leftarrow> load_le 2 (dimg m) ent;
        name_idx \<leftarrow> load_le 4 (dimg m) (ent + 4);
        name \<leftarrow> dex_string m name_idx 256;
        (case name of
           None \<Rightarrow> Some None
         | Some name \<Rightarrow>
             if (ucast (class_idx :: u16) :: u32) \<ge> type_ids_size m then Some None
             else do {
               desc_idx \<leftarrow> load_le 4 (dimg m) (unat (type_ids_off m) + unat class_idx * 4);
               desc \<leftarrow> dex_string m desc_idx 256;
               (case desc of
                  None \<Rightarrow> Some None
                | Some desc \<Rightarrow>
                    if length desc < 2 \<or> hd desc \<noteq> CHR ''L'' \<or> last desc \<noteq> CHR '';'' then Some None
                    else Some (do {
                      out \<leftarrow> put_chars outsz [] (dotted desc);
                      out \<leftarrow> put_chars outsz out ''.'';
                      put_chars outsz out name
                    }))
             })
      })"

section \<open>Lookup\<close>

function dex_bsearch :: "method_range list \<Rightarrow> u32 \<Rightarrow> nat \<Rightarrow> nat \<Rightarrow> method_range option" where
  "dex_bsearch rs off lo hi =
     (if lo < hi then
        let mid = lo + (hi - lo) div 2 in
        if off < rstart (rs ! mid) then dex_bsearch rs off lo mid
        else if off \<ge> rend (rs ! mid) then dex_bsearch rs off (mid + 1) hi
        else Some (rs ! mid)
      else None)"
  by pat_completeness auto
termination by (relation "measure (\<lambda>(rs, off, lo, hi). hi - lo)") auto

definition dex_map_lookup :: "dex_method_map \<Rightarrow> u32 \<Rightarrow> nat \<Rightarrow> string option option" where
  "dex_map_lookup m off outsz =
     (if outsz = 0 then Some None
      else case dex_bsearch (ranges m) off 0 (length (ranges m)) of
          None \<Rightarrow> Some None
        | Some hit \<Rightarrow> method_idx_to_name m (method_idx hit) outsz)"

definition dex_lookup_range :: "dex_method_map \<Rightarrow> u32 \<Rightarrow> (u32 \<times> u32) option" where
  "dex_lookup_range m off =
     map_option (\<lambda>hit. (method_idx hit, rstart hit)) (dex_bsearch (ranges m) off 0 (length (ranges m)))"

definition dex_name_by_index :: "dex_method_map \<Rightarrow> u32 \<Rightarrow> nat \<Rightarrow> string option option" where
  "dex_name_by_index m midx outsz = (if outsz = 0 then Some None else method_idx_to_name m midx outsz)"

section \<open>No input reads outside the image\<close>

lemma safe_uleb_loop32: "safe (uleb_loop n buf shift result pos) (\<lambda>_. True)"
  by (induction n arbitrary: shift result pos) (auto simp: safe_simps)

lemma safe_uleb128: "safe (uleb128 buf pos) (\<lambda>_. True)"
  by (simp add: uleb128_def safe_uleb_loop32)

lemma ulebs_total: "\<exists>vs pos'. ulebs n buf pos = Some (vs, pos') \<and> (vs = None \<or> (\<exists>l. vs = Some l \<and> length l = n))"
proof (induction n arbitrary: pos)
  case (Suc n)
  obtain v p where v: "uleb128 buf pos = Some (v, p)" using safe_uleb128 [of buf pos] by (auto simp: safe_iff)
  show ?case
  proof (cases v)
    case (Some x)
    obtain vs p' where "ulebs n buf p = Some (vs, p')" "vs = None \<or> (\<exists>l. vs = Some l \<and> length l = n)" using Suc.IH by blast
    then show ?thesis using v Some by auto
  qed (simp add: v)
qed simp

text \<open>A range read from the image: its method exists, and in an image below 4 GB it lies inside the image.\<close>

definition range_ok :: "nat \<Rightarrow> u32 \<Rightarrow> method_range \<Rightarrow> bool" where
  "range_ok len msize r \<longleftrightarrow> method_idx r < msize \<and> (len < 2 ^ 32 \<longrightarrow> rstart r \<le> rend r \<and> unat (rend r) \<le> len)"

definition ranges_ok :: "nat \<Rightarrow> u32 \<Rightarrow> range_buf \<Rightarrow> bool" where
  "ranges_ok len msize rb \<longleftrightarrow> list_all (range_ok len msize) (snd rb)"

lemma push_range_ok: "ranges_ok len ms rb \<Longrightarrow> range_ok len ms r \<Longrightarrow> push_range ra rb r = Some rb' \<Longrightarrow> ranges_ok len ms rb'"
  by (cases rb) (auto simp: push_range_def ranges_ok_def Let_def split: if_splits)

lemma insns_range_ok:
  assumes c: "unat c \<le> len" "16 \<le> len - unat c" and len: "len < 2 ^ 63" and n: "n \<le> szsub len (unat (c + 16 :: u32))" and m: "midx < ms"
  shows "range_ok len ms \<lparr>rstart = c + 16, rend = c + 16 + of_nat n, method_idx = midx\<rparr>"
proof -
  have "c + 16 \<le> c + 16 + of_nat n \<and> unat (c + 16 + of_nat n) \<le> len" if l: "len < 2 ^ 32"
  proof -
    have u: "unat (c + 16) = unat c + 16" using c l by (simp add: unat_word_ariths)
    then have s: "szsub len (unat (c + 16)) = len - (unat c + 16)" using c l by (simp add: szsub_ge)
    have "unat (c + 16 + of_nat n) = unat c + 16 + n" using u n c l s by (simp add: unat_word_ariths unat_of_nat)
    then show ?thesis using u n s c by (simp add: word_le_nat_alt)
  qed
  then show ?thesis using m by (simp add: range_ok_def)
qed

lemma safe_group_entry:
  assumes "ranges_ok (length img) ms rb" "obj_bytes img"
  shows "safe (group_entry ra img ms midx code_off rb) (\<lambda>r. case r of None \<Rightarrow> True | Some rb \<Rightarrow> ranges_ok (length img) ms rb)"
proof (cases "code_off = 0 \<or> unat code_off > length img \<or> length img - unat code_off < 16")
  case True
  then show ?thesis using assms by (auto simp: group_entry_def)
next
  case False
  then have l: "unat code_off + 12 + 4 \<le> length img" "unat code_off \<le> length img" "16 \<le> length img - unat code_off" by auto
  define n where "n = unat (le_word (take 4 (drop (unat code_off + 12) img)) :: u32) * 2"
  have e: "group_entry ra img ms midx code_off rb =
      (if n > szsub (length img) (unat (code_off + 16)) then Some (Some rb)
       else if midx \<ge> ms then Some (Some rb)
       else Some (push_range ra rb \<lparr>rstart = code_off + 16, rend = code_off + 16 + of_nat n, method_idx = midx\<rparr>))"
    using False l(1) by (simp add: group_entry_def Let_def n_def)
  have "ranges_ok (length img) ms rb'" if "n \<le> szsub (length img) (unat (code_off + 16))" "midx < ms"
    "push_range ra rb \<lparr>rstart = code_off + 16, rend = code_off + 16 + of_nat n, method_idx = midx\<rparr> = Some rb'" for rb'
    using push_range_ok [OF assms(1) insns_range_ok [OF l(2,3) _ that(1,2)] that(3)] assms(2) by (simp add: obj_bytes_def)
  then show ?thesis unfolding e using assms(1) by (auto split: option.splits)
qed

lemma safe_method_group:
  "ranges_ok (length img) ms rb \<Longrightarrow> obj_bytes img \<Longrightarrow>
     safe (parse_method_group ra img ms k midx pos rb) (\<lambda>(_, _, rb). ranges_ok (length img) ms rb)"
proof (induction k arbitrary: midx pos rb)
  case (Suc k)
  obtain vs p where u: "ulebs 3 img pos = Some (vs, p)" and v: "vs = None \<or> (\<exists>l. vs = Some l \<and> length l = 3)"
    using ulebs_total by blast
  show ?case
  proof (cases vs)
    case None
    then show ?thesis using Suc.prems u by simp
  next
    case (Some l)
    then obtain a b c where l: "l = [a, b, c]" using v by (auto simp: length_Suc_conv numeral_eq_Suc)
    obtain r where r: "group_entry ra img ms (midx + a) c rb = Some r" "case r of None \<Rightarrow> True | Some rb \<Rightarrow> ranges_ok (length img) ms rb"
      using safe_group_entry [OF Suc.prems, of ra "midx + a" c] by (auto simp: safe_iff)
    then show ?thesis using Suc u Some l by (cases r) simp_all
  qed
qed simp

lemma safe_skip_fields: "safe (skip_fields f img pos) (\<lambda>_. True)"
proof (induction f arbitrary: pos)
  case (Suc f)
  obtain vs p where "ulebs 2 img pos = Some (vs, p)" using ulebs_total by blast
  then show ?case using Suc by (cases vs) simp_all
qed simp

lemma safe_parse_class:
  assumes "ranges_ok (length img) ms rb" "obj_bytes img" "cd + 28 \<le> length img"
  shows "safe (parse_class ra img ms cd rb) (\<lambda>r. case r of None \<Rightarrow> True | Some rb \<Rightarrow> ranges_ok (length img) ms rb)"
proof -
  define off :: u32 where "off = le_word (take 4 (drop (cd + 24) img))"
  have ld: "load_le 4 img (cd + 24) = Some off" using assms(3) by (simp add: off_def)
  obtain vs p where u: "ulebs 4 img (unat off) = Some (vs, p)" and v: "vs = None \<or> (\<exists>l. vs = Some l \<and> length l = 4)"
    using ulebs_total by blast
  show ?thesis
  proof (cases "off = 0 \<or> unat off \<ge> length img \<or> vs = None")
    case True
    then show ?thesis using assms(1) ld u by (auto simp: parse_class_def)
  next
    case False
    then obtain a b c d where l: "vs = Some [a, b, c, d]" using v by (auto simp: length_Suc_conv numeral_eq_Suc)
    obtain r where r: "skip_fields (unat a + unat b) img p = Some r" using safe_skip_fields [of "unat a + unat b" img p] by (auto simp: safe_iff)
    show ?thesis
    proof (cases r)
      case None
      then show ?thesis using False assms(1) ld u l r by (simp add: parse_class_def)
    next
      case (Some q)
      obtain dr q1 rb1 where g: "parse_method_group ra img ms (unat c) 0 q rb = Some (dr, q1, rb1)" "ranges_ok (length img) ms rb1"
        using safe_method_group [OF assms(1,2), of ra "unat c" 0 q] by (auto simp: safe_iff)
      obtain vr q2 rb2 where g2: "parse_method_group ra img ms (unat d) 0 q1 rb1 = Some (vr, q2, rb2)" "ranges_ok (length img) ms rb2"
        using safe_method_group [OF g(2) assms(2), of ra "unat d" 0 q1] by (auto simp: safe_iff)
      show ?thesis using False ld u l r Some g g2 by (cases dr) (simp_all add: parse_class_def)
    qed
  qed
qed

lemma safe_parse_classes:
  "ranges_ok (length img) ms rb \<Longrightarrow> obj_bytes img \<Longrightarrow> list_all (\<lambda>i. off + i * 32 + 32 \<le> length img) is \<Longrightarrow>
     safe (parse_classes ra img ms off is rb) (\<lambda>r. case r of None \<Rightarrow> True | Some rb \<Rightarrow> ranges_ok (length img) ms rb)"
proof (induction "is" arbitrary: rb)
  case (Cons i "is")
  obtain r where "parse_class ra img ms (off + i * 32) rb = Some r" "case r of None \<Rightarrow> True | Some rb \<Rightarrow> ranges_ok (length img) ms rb"
    using safe_parse_class [OF Cons.prems(1,2), of "off + i * 32" ra] Cons.prems(3) by (auto simp: safe_iff)
  then show ?case using Cons by (cases r) simp_all
qed simp

section \<open>The ranges kept\<close>

text \<open>Sorted ranges that do not overlap.\<close>

definition disjoint_ranges :: "method_range list \<Rightarrow> bool" where
  "disjoint_ranges rs \<longleftrightarrow> sorted_wrt (\<lambda>a b. rend a \<le> rstart b) rs"

lemma set_keep_ranges: "set (keep_ranges p rs) \<subseteq> set rs"
  by (induction p rs rule: keep_ranges.induct) auto

lemma keep_disjoint:
  "list_all (\<lambda>r. rstart r \<le> rend r) rs \<Longrightarrow> rstart p \<le> rend p \<Longrightarrow> disjoint_ranges (p # keep_ranges p rs)"
proof (induction p rs rule: keep_ranges.induct)
  case (2 p r rs)
  show ?case
  proof (cases "rend p \<le> rstart r")
    case True
    then have "disjoint_ranges (r # keep_ranges r rs)" using 2 by simp
    moreover have "rend p \<le> rstart x" if "x \<in> set (keep_ranges r rs)" for x
    proof -
      have "rend r \<le> rstart x" using \<open>disjoint_ranges (r # keep_ranges r rs)\<close> that by (simp add: disjoint_ranges_def)
      then show ?thesis using True 2(3) by (auto intro: order_trans)
    qed
    ultimately show ?thesis using True by (simp add: disjoint_ranges_def)
  qed (use 2 in simp)
qed (simp add: disjoint_ranges_def)

text \<open>A range that is dropped starts inside one that is kept.\<close>

lemma keep_covers:
  "sorted (map rstart (p # rs)) \<Longrightarrow> r \<in> set rs \<Longrightarrow>
     r \<in> set (keep_ranges p rs) \<or> (\<exists>k \<in> set (p # keep_ranges p rs). rstart k \<le> rstart r \<and> rstart r < rend k)"
proof (induction p rs rule: keep_ranges.induct)
  case (2 p q rs)
  then show ?case
  proof (cases "rend p \<le> rstart q")
    case True
    then show ?thesis using 2 by (cases "r = q") auto
  next
    case False
    then show ?thesis using 2 by (cases "r = q") (auto simp: not_le)
  qed
qed simp

lemma drop_overlaps_spec:
  assumes q: "qsort_impl rstart qs" and r: "list_all (\<lambda>r. rstart r \<le> rend r) rs"
  shows "disjoint_ranges (drop_overlaps qs rs)" "set (drop_overlaps qs rs) \<subseteq> set rs"
    "x \<in> set rs \<Longrightarrow> x \<in> set (drop_overlaps qs rs) \<or> (\<exists>k \<in> set (drop_overlaps qs rs). rstart k \<le> rstart x \<and> rstart x < rend k)"
proof -
  have s: "set (qs rs) = set rs" "sorted (map rstart (qs rs))"
    using qsort_impl.qs_set [OF q] qsort_impl.qs_sorted [OF q] by auto
  have "disjoint_ranges (drop_overlaps qs rs) \<and> set (drop_overlaps qs rs) \<subseteq> set rs \<and>
    (x \<in> set rs \<longrightarrow> x \<in> set (drop_overlaps qs rs) \<or> (\<exists>k \<in> set (drop_overlaps qs rs). rstart k \<le> rstart x \<and> rstart x < rend k))"
  proof (cases "length rs > 1")
    case False
    then have "rs = [] \<or> (\<exists>a. rs = [a])" by (cases rs) auto
    then show ?thesis by (auto simp: drop_overlaps_def disjoint_ranges_def)
  next
    case True
    then obtain p ps where p: "qs rs = p # ps" using s(1) by (cases "qs rs") auto
    have a: "list_all (\<lambda>r. rstart r \<le> rend r) ps" "rstart p \<le> rend p" using r s(1) by (auto simp: p list_all_iff)
    have "set (p # keep_ranges p ps) \<subseteq> set rs" using set_keep_ranges [of p ps] s(1) by (auto simp: p)
    moreover have "x \<in> set (p # keep_ranges p ps) \<or> (\<exists>k \<in> set (p # keep_ranges p ps). rstart k \<le> rstart x \<and> rstart x < rend k)" if "x \<in> set rs"
      using keep_covers [of p ps x] s that by (auto simp: p)
    ultimately show ?thesis using True p keep_disjoint [OF a] by (simp add: drop_overlaps_def)
  qed
  then show "disjoint_ranges (drop_overlaps qs rs)" "set (drop_overlaps qs rs) \<subseteq> set rs"
    "x \<in> set rs \<Longrightarrow> x \<in> set (drop_overlaps qs rs) \<or> (\<exists>k \<in> set (drop_overlaps qs rs). rstart k \<le> rstart x \<and> rstart x < rend k)"
    by blast+
qed

definition dex_wf :: "dex_method_map \<Rightarrow> bool" where
  "dex_wf m \<longleftrightarrow> (let len = length (dimg m) in
     region_ok len (string_ids_off m) (string_ids_size m) 4 \<and> region_ok len (type_ids_off m) (type_ids_size m) 4 \<and>
     region_ok len (method_ids_off m) (method_ids_size m) 8 \<and>
     list_all (range_ok len (method_ids_size m)) (ranges m) \<and> (len < 2 ^ 32 \<longrightarrow> disjoint_ranges (ranges m)))"

lemma set_drop_overlaps:
  assumes "qsort_impl rstart qs"
  shows "set (drop_overlaps qs rs) \<subseteq> set rs"
proof (cases "qs rs")
  case (Cons p ps)
  then have "set (p # ps) = set rs" using qsort_impl.qs_set [OF assms, of rs] by simp
  then show ?thesis using set_keep_ranges [of p ps] by (auto simp: drop_overlaps_def Cons)
qed (simp add: drop_overlaps_def)

lemma region_entry: "region_ok len off n stride \<Longrightarrow> i < unat n \<Longrightarrow> unat off + i * stride + stride \<le> len"
proof -
  assume r: "region_ok len off n stride" and i: "i < unat n"
  have "i * stride + stride \<le> unat n * stride" using i by (metis Suc_leI add.commute mult_Suc mult_le_mono1)
  then show ?thesis using r unfolding region_ok_def by linarith
qed

lemma dex_map_build_result:
  assumes "obj_bytes img" "qsort_impl rstart qs"
  shows "safe (dex_map_build calloc_ok malloc_ok ra qs img) (\<lambda>r. case r of Rc_err \<Rightarrow> True | Rc_ok m \<Rightarrow> dex_wf m \<and> dimg m = img \<and>
    (\<exists>cs co cap rs. load_le 4 img 96 = Some (cs :: u32) \<and> load_le 4 img 100 = Some (co :: u32) \<and>
       parse_classes ra img (method_ids_size m) (unat co) [0..<unat cs] (0, []) = Some (Some (cap, rs)) \<and>
       list_all (range_ok (length img) (method_ids_size m)) rs \<and> ranges m = drop_overlaps qs rs))"
proof (cases "length img < 112 \<or> \<not> dex_magic img \<or> \<not> calloc_ok")
  case False
  define f :: "nat \<Rightarrow> u32" where "f = (\<lambda>o1. le_word (take 4 (drop o1 img)))"
  have ld: "load_le 4 img o1 = Some (f o1)" if "o1 + 4 \<le> 112" for o1 using False that by (simp add: f_def)
  let ?ok = "region_ok (length img) (f 60) (f 56) 4 \<and> region_ok (length img) (f 68) (f 64) 4 \<and>
    region_ok (length img) (f 92) (f 88) 8 \<and> region_ok (length img) (f 100) (f 96) 32"
  show ?thesis
  proof (cases "?ok \<and> malloc_ok")
    case True
    then have "list_all (\<lambda>i. unat (f 100) + i * 32 + 32 \<le> length img) [0..<unat (f 96)]"
      using region_entry [of "length img" "f 100" "f 96" 32] by (auto simp: list_all_iff)
    then obtain r where r: "parse_classes ra img (f 88) (unat (f 100)) [0..<unat (f 96)] (0, []) = Some r"
      "case r of None \<Rightarrow> True | Some rb \<Rightarrow> ranges_ok (length img) (f 88) rb"
      using safe_parse_classes [of img "f 88" "(0, [])" "unat (f 100)" "[0..<unat (f 96)]" ra] assms(1) by (auto simp: safe_iff ranges_ok_def)
    have "list_all (range_ok (length img) (f 88)) (drop_overlaps qs rs) \<and> (length img < 2 ^ 32 \<longrightarrow> disjoint_ranges (drop_overlaps qs rs))"
      if "list_all (range_ok (length img) (f 88)) rs" for rs
      using that set_drop_overlaps [OF assms(2), of rs] drop_overlaps_spec(1) [OF assms(2), of rs]
      by (auto simp: list_all_iff range_ok_def)
    then show ?thesis using False True r
      by (cases r) (auto simp: dex_map_build_def ld dex_wf_def Let_def ranges_ok_def simp del: load_le_in)
  qed (use False in \<open>auto simp: dex_map_build_def ld simp del: load_le_in\<close>)
qed (auto simp: dex_map_build_def)

text \<open>C28: no image can make the builder read outside it. On arbitrary bytes, whatever the allocator answers,
  building the method map ends and touches only the image; a map it returns has its tables inside the
  image, names only methods that exist, and (for images below 4 GB, the format's limit) its code ranges lie
  inside the image, sorted and without overlaps.\<close>

theorem dex_map_build_safe:
  assumes "obj_bytes img" "qsort_impl rstart qs"
  shows "safe (dex_map_build calloc_ok malloc_ok ra qs img) (\<lambda>r. case r of Rc_err \<Rightarrow> True | Rc_ok m \<Rightarrow> dex_wf m \<and> dimg m = img)"
  by (rule safe_mono [OF dex_map_build_result [OF assms]]) (auto split: rc.splits)

section \<open>Lookups\<close>

definition covers :: "u32 \<Rightarrow> method_range \<Rightarrow> bool" where
  "covers off r \<longleftrightarrow> rstart r \<le> off \<and> off < rend r"

declare dex_bsearch.simps [simp del]

lemma dex_bsearch_step:
  "lo < hi \<Longrightarrow> dex_bsearch rs off lo hi =
     (if off < rstart (rs ! (lo + (hi - lo) div 2)) then dex_bsearch rs off lo (lo + (hi - lo) div 2)
      else if off \<ge> rend (rs ! (lo + (hi - lo) div 2)) then dex_bsearch rs off (lo + (hi - lo) div 2 + 1) hi
      else Some (rs ! (lo + (hi - lo) div 2)))"
  by (subst dex_bsearch.simps) (simp add: Let_def)

lemma dex_bsearch_Some: "dex_bsearch rs off lo hi = Some r \<Longrightarrow> hi \<le> length rs \<Longrightarrow> r \<in> set rs \<and> covers off r"
proof (induction rs off lo hi rule: dex_bsearch.induct)
  case (1 rs off lo hi)
  let ?m = "lo + (hi - lo) div 2"
  show ?case
  proof (cases "lo < hi")
    case True
    then have "?m < length rs" using 1(4) by auto
    then show ?thesis using 1 True by (auto simp: dex_bsearch_step covers_def not_less not_le split: if_splits)
  next
    case False
    then show ?thesis using 1(3) by (subst (asm) dex_bsearch.simps) simp
  qed
qed

lemma dex_bsearch_None:
  "dex_bsearch rs off lo hi = None \<Longrightarrow> hi \<le> length rs \<Longrightarrow> disjoint_ranges rs \<Longrightarrow> list_all (\<lambda>r. rstart r \<le> rend r) rs \<Longrightarrow>
     lo \<le> i \<Longrightarrow> i < hi \<Longrightarrow> \<not> covers off (rs ! i)"
proof (induction rs off lo hi rule: dex_bsearch.induct)
  case (1 rs off lo hi)
  let ?m = "lo + (hi - lo) div 2"
  have m: "?m < length rs" "lo < hi" using 1(4,7,8) by auto
  have le: "rstart (rs ! j) \<le> rend (rs ! j)" if "j < length rs" for j using 1(6) that by (simp add: list_all_length)
  have ord: "rend (rs ! j) \<le> rstart (rs ! k)" if "j < k" "k < length rs" for j k
    using sorted_wrt_nth_less [OF 1(5) [unfolded disjoint_ranges_def] that] .
  consider "off < rstart (rs ! ?m)" | "rstart (rs ! ?m) \<le> off" "rend (rs ! ?m) \<le> off" | "rstart (rs ! ?m) \<le> off" "off < rend (rs ! ?m)"
    by (meson not_le)
  then show ?case
  proof cases
    case 1
    have "dex_bsearch rs off lo ?m = None" using "1.prems"(1) dex_bsearch_step [OF m(2), of rs off] 1 by simp
    then have "\<not> covers off (rs ! i)" if "i < ?m" using "1.IH"(1) [OF m(2) refl 1] "1.prems" that m by auto
    moreover have "\<not> covers off (rs ! i)" if "?m \<le> i"
    proof (cases "i = ?m")
      case False
      then have "rend (rs ! ?m) \<le> rstart (rs ! i)" using ord [of ?m i] that "1.prems"(2,6) by simp
      then have "off < rstart (rs ! i)" using 1 le [OF m(1)] by (meson le_less_trans less_le_trans order_trans)
      then show ?thesis by (auto simp: covers_def dest: leD)
    qed (use 1 in \<open>auto simp: covers_def dest: leD\<close>)
    ultimately show ?thesis by (meson not_le)
  next
    case 2
    then have n: "\<not> off < rstart (rs ! ?m)" by simp
    have "dex_bsearch rs off (?m + 1) hi = None" using "1.prems"(1) unfolding dex_bsearch_step [OF m(2), of rs off] if_not_P [OF n] if_P [OF 2(2)] .
    then have "\<not> covers off (rs ! i)" if "?m + 1 \<le> i" using "1.IH"(2) [OF m(2) refl n 2(2)] "1.prems" that by auto
    moreover have "\<not> covers off (rs ! i)" if "i \<le> ?m"
    proof (cases "i = ?m")
      case False
      then have "rend (rs ! i) \<le> rstart (rs ! ?m)" using ord [of i ?m] that m(1) by simp
      then have "rend (rs ! i) \<le> off" using 2(1) by (rule order_trans)
      then show ?thesis by (simp add: covers_def leD)
    qed (use 2 in \<open>simp add: covers_def leD\<close>)
    ultimately show ?thesis by (metis Suc_eq_plus1 not_less_eq_eq)
  next
    case 3
    then show ?thesis using "1.prems"(1) dex_bsearch_step [OF m(2), of rs off] by (auto dest: leD split: if_splits)
  qed
qed

lemma covers_unique:
  assumes d: "disjoint_ranges rs" and r: "r \<in> set rs" "covers off r" and q: "q \<in> set rs" "covers off q"
  shows "r = q"
proof -
  obtain i j where i: "i < length rs" "r = rs ! i" and j: "j < length rs" "q = rs ! j" using r(1) q(1) by (auto simp: in_set_conv_nth)
  have "\<not> a < b" if "a < length rs" "b < length rs" "covers off (rs ! a)" "covers off (rs ! b)" for a b
  proof
    assume "a < b"
    then have "rend (rs ! a) \<le> rstart (rs ! b)" using sorted_wrt_nth_less [OF d [unfolded disjoint_ranges_def]] that by blast
    then show False using that(3,4) by (auto simp: covers_def dest: leD order_trans)
  qed
  then have "i = j" using i j r(2) q(2) by (meson linorder_neqE_nat)
  then show ?thesis using i j by simp
qed

lemma dex_bsearch_find:
  assumes "disjoint_ranges rs" "list_all (\<lambda>r. rstart r \<le> rend r) rs"
  shows "dex_bsearch rs off 0 (length rs) = find (covers off) rs"
proof (cases "dex_bsearch rs off 0 (length rs)")
  case None
  have "\<not> covers off (rs ! i)" if "i < length rs" for i using dex_bsearch_None [OF None order_refl assms] that by simp
  then have "find (covers off) rs = None" by (auto simp: find_None_iff in_set_conv_nth)
  then show ?thesis using None by simp
next
  case (Some r)
  then have r: "r \<in> set rs" "covers off r" using dex_bsearch_Some by auto
  then obtain q where q: "find (covers off) rs = Some q" using find_None_iff [of "covers off" rs] by fastforce
  then have "q \<in> set rs" "covers off q" using find_Some_iff [of "covers off" rs q] by auto
  then show ?thesis using covers_unique [OF assms(1) r] Some q by simp
qed

subsection \<open>Names\<close>

text \<open>What a string and a method name are, with no buffer in the way.\<close>

definition string_at :: "dex_method_map \<Rightarrow> u32 \<Rightarrow> string option" where
  "string_at m idx =
     (let data_off = unat (le_word (take 4 (drop (unat (string_ids_off m) + unat idx * 4) (dimg m))) :: u32) in
      if idx < string_ids_size m \<and> data_off < length (dimg m)
      then (case uleb128 (dimg m) data_off of
              Some (Some _, pos) \<Rightarrow> Some (map (char_of \<circ> unat) (takeWhile (\<lambda>c. c \<noteq> 0) (drop pos (dimg m))))
            | _ \<Rightarrow> None)
      else None)"

definition within :: "nat \<Rightarrow> string \<Rightarrow> string option" where
  "within sz s = (if length s < sz then Some s else None)"

text \<open>A string that fits the 256-byte buffers names are read into.\<close>

definition short_string :: "dex_method_map \<Rightarrow> u32 \<Rightarrow> string option" where
  "short_string m idx = Option.bind (string_at m idx) (within 256)"

definition is_class_desc :: "string \<Rightarrow> bool" where
  "is_class_desc desc \<longleftrightarrow> 2 \<le> length desc \<and> hd desc = CHR ''L'' \<and> last desc = CHR '';''"

definition method_name :: "dex_method_map \<Rightarrow> u32 \<Rightarrow> nat \<Rightarrow> string option" where
  "method_name m midx outsz =
     (let ent = drop (unat (method_ids_off m) + unat midx * 8) (dimg m);
          class_idx = (le_word (take 2 ent) :: u16); name_idx = (le_word (take 4 (drop 4 ent)) :: u32);
          desc_idx = (le_word (take 4 (drop (unat (type_ids_off m) + unat class_idx * 4) (dimg m))) :: u32)
      in if midx < method_ids_size m \<and> (ucast class_idx :: u32) < type_ids_size m then do {
           name \<leftarrow> short_string m name_idx;
           desc \<leftarrow> short_string m desc_idx;
           (if is_class_desc desc then within outsz (dotted desc @ ''.'' @ name) else None)
         } else None)"

lemma dex_copy_eq: "o1 < outsz \<Longrightarrow> dex_copy outsz o1 bs =
   (let s = map (char_of \<circ> unat) (takeWhile (\<lambda>c. c \<noteq> 0) bs) in if o1 + length s < outsz then Some s else None)"
  by (induction bs arbitrary: o1) (auto simp: Let_def)

lemma dex_string_eq:
  assumes "dex_wf m" "0 < outsz"
  shows "dex_string m idx outsz = Some (Option.bind (string_at m idx) (within outsz))"
proof (cases "idx < string_ids_size m")
  case True
  define off :: u32 where "off = le_word (take 4 (drop (unat (string_ids_off m) + unat idx * 4) (dimg m)))"
  have "unat (string_ids_off m) + unat idx * 4 + 4 \<le> length (dimg m)"
    using region_entry [of "length (dimg m)" "string_ids_off m" "string_ids_size m" 4 "unat idx"] assms(1) True
    by (simp add: dex_wf_def Let_def word_less_nat_alt)
  then have ld: "load_le 4 (dimg m) (unat (string_ids_off m) + unat idx * 4) = Some off" by (simp add: off_def)
  obtain v pos where u: "uleb128 (dimg m) (unat off) = Some (v, pos)" using safe_uleb128 [of "dimg m" "unat off"] by (auto simp: safe_iff)
  have "dex_copy outsz 0 bs = within outsz (map (char_of \<circ> unat) (takeWhile (\<lambda>c. c \<noteq> 0) bs))" for bs
    using dex_copy_eq [OF assms(2)] by (simp add: within_def Let_def)
  then show ?thesis using True ld u
    by (cases v) (auto simp: dex_string_def string_at_def Let_def off_def [symmetric] simp del: load_le_in)
qed (simp add: dex_string_def string_at_def Let_def not_less leD)

lemma dex_string_short: "dex_wf m \<Longrightarrow> dex_string m idx 256 = Some (short_string m idx)"
  using dex_string_eq [of m 256] by (simp add: short_string_def)

lemma put_chars_eq: "length out < outsz \<Longrightarrow> put_chars outsz out cs = (if length out + length cs < outsz then Some (out @ cs) else None)"
  by (induction cs arbitrary: out) auto

lemma put_name:
  assumes "0 < outsz"
  shows "do { out \<leftarrow> put_chars outsz [] a; out \<leftarrow> put_chars outsz out ''.''; put_chars outsz out b } = within outsz (a @ ''.'' @ b)"
  using assms by (auto simp: put_chars_eq within_def split: if_splits)

lemma unat_ucast16: "unat (ucast (c :: u16) :: u32) = unat c"
proof -
  have "unat c < 2 ^ LENGTH(16)" by (rule unsigned_less)
  then show ?thesis by (simp add: unsigned_ucast_eq take_bit_nat_eq_self_iff)
qed

lemma method_idx_to_name_eq:
  assumes w: "dex_wf m" and o: "0 < outsz"
  shows "method_idx_to_name m midx outsz = Some (method_name m midx outsz)"
proof (cases "midx < method_ids_size m")
  case True
  let ?e = "unat (method_ids_off m) + unat midx * 8"
  define ci :: u16 where "ci = le_word (take 2 (drop ?e (dimg m)))"
  define ni :: u32 where "ni = le_word (take 4 (drop (?e + 4) (dimg m)))"
  have "?e + 8 \<le> length (dimg m)"
    using region_entry [of "length (dimg m)" "method_ids_off m" "method_ids_size m" 8 "unat midx"] w True
    by (simp add: dex_wf_def Let_def word_less_nat_alt)
  then have ld: "load_le 2 (dimg m) ?e = Some ci" "load_le 4 (dimg m) (?e + 4) = Some ni" by (simp_all add: ci_def ni_def)
  have ne: "le_word (take 4 (drop 4 (drop ?e (dimg m)))) = ni" by (simp add: ni_def add.commute)
  show ?thesis
  proof (cases "(ucast ci :: u32) < type_ids_size m")
    case False
    then show ?thesis using True ld
      by (auto simp: method_idx_to_name_def method_name_def Let_def ci_def [symmetric] dex_string_short [OF w] simp del: load_le_in split: option.splits)
  next
    case t: True
    define di :: u32 where "di = le_word (take 4 (drop (unat (type_ids_off m) + unat ci * 4) (dimg m)))"
    have "unat ci < unat (type_ids_size m)" using t by (simp add: word_less_nat_alt unat_ucast16)
    then have "unat (type_ids_off m) + unat ci * 4 + 4 \<le> length (dimg m)"
      using region_entry [of "length (dimg m)" "type_ids_off m" "type_ids_size m" 4 "unat ci"] w by (simp add: dex_wf_def Let_def)
    then have ld2: "load_le 4 (dimg m) (unat (type_ids_off m) + unat ci * 4) = Some di" by (simp add: di_def)
    have name: "method_name m midx outsz = do {
         name \<leftarrow> short_string m ni;
         desc \<leftarrow> short_string m di;
         (if is_class_desc desc then within outsz (dotted desc @ ''.'' @ name) else None) }"
      unfolding method_name_def Let_def ci_def [symmetric] ne di_def [symmetric] using True t by simp
    show ?thesis
    proof (cases "short_string m ni = None \<or> short_string m di = None")
      case True
      then show ?thesis unfolding name using \<open>midx < _\<close> t ld ld2
        by (auto simp: method_idx_to_name_def Let_def dex_string_short [OF w] simp del: load_le_in split: option.splits)
    next
      case False
      then obtain nm desc where "short_string m ni = Some nm" "short_string m di = Some desc" by auto
      then show ?thesis unfolding name using True t ld ld2
        by (auto simp: method_idx_to_name_def Let_def dex_string_short [OF w] is_class_desc_def put_name [OF o] not_less not_le leD
            simp del: load_le_in put_chars.simps)
    qed
  qed
qed (simp add: method_idx_to_name_def method_name_def Let_def not_less leD)


text \<open>C29: the method found is the method that covers the offset, and no range of the image is lost but to an
  overlap. On a map built from an image below 4 GB, the binary search gives exactly the first range, in table
  order, that holds the offset, and no other range holds it; an offset that was inside some range read from
  the classes but is found nowhere was claimed by a range that starts inside one that was kept.\<close>

theorem dex_lookup_correct:
  assumes o: "obj_bytes img" and q: "qsort_impl rstart qs" and l: "length img < 2 ^ 32"
    and build: "dex_map_build calloc_ok malloc_ok ra qs img = Some (Rc_ok m)"
    and defs: "load_le 4 img 96 = Some (cs :: u32)" "load_le 4 img 100 = Some (co :: u32)"
    and classes: "parse_classes ra img (method_ids_size m) (unat co) [0..<unat cs] (0, []) = Some (Some (cap, rs))"
  shows "dex_lookup_range m off = map_option (\<lambda>r. (method_idx r, rstart r)) (find (covers off) (ranges m)) \<and>
    (\<forall>r. r \<in> set rs \<and> covers off r \<longrightarrow>
       dex_lookup_range m off = Some (method_idx r, rstart r) \<or>
       (\<exists>k \<in> set (ranges m). rstart k \<le> rstart r \<and> rstart r < rend k))"
proof -
  have w: "dex_wf m" "dimg m = img" and ok: "list_all (range_ok (length img) (method_ids_size m)) rs" and rs: "ranges m = drop_overlaps qs rs"
    using dex_map_build_result [OF o q, of calloc_ok malloc_ok ra] build defs classes by (auto simp del: load_le_in)
  have b: "list_all (\<lambda>r. rstart r \<le> rend r) rs" using ok l by (auto simp: list_all_iff range_ok_def)
  have d: "disjoint_ranges (ranges m)" "list_all (\<lambda>r. rstart r \<le> rend r) (ranges m)"
    using w l by (auto simp: dex_wf_def Let_def list_all_iff range_ok_def)
  have f: "dex_lookup_range m off = map_option (\<lambda>r. (method_idx r, rstart r)) (find (covers off) (ranges m))"
    by (simp add: dex_lookup_range_def dex_bsearch_find [OF d])
  have "dex_lookup_range m off = Some (method_idx r, rstart r)" if r: "r \<in> set (ranges m)" "covers off r" for r
  proof -
    obtain k where k: "find (covers off) (ranges m) = Some k" using r find_None_iff [of "covers off" "ranges m"] by fastforce
    then have "k \<in> set (ranges m)" "covers off k" using find_Some_iff [of "covers off" "ranges m" k] by auto
    then show ?thesis using covers_unique [OF d(1) r] f k by simp
  qed
  then show ?thesis using f drop_overlaps_spec(3) [OF q b] by (auto simp: rs)
qed

text \<open>A name is the name of the method, whole, or nothing. On any map that was built, neither lookup reads
  outside the image; what they write is the class descriptor with dots for slashes, a dot and the method's
  name, with room for its terminator, and a name that would not fit is reported as a miss, never cut short.\<close>

theorem dex_names_exact:
  assumes w: "dex_wf m"
  shows "dex_name_by_index m midx outsz = Some (method_name m midx outsz) \<and>
    dex_map_lookup m off outsz = Some (Option.bind (dex_lookup_range m off) (\<lambda>(i, _). method_name m i outsz)) \<and>
    (case method_name m midx outsz of None \<Rightarrow> True | Some s \<Rightarrow> length s < outsz \<and> midx < method_ids_size m)"
proof -
  have z: "method_name m i 0 = None" for i by (simp add: method_name_def Let_def within_def Option.bind_eq_None_conv)
  have "dex_map_lookup m off outsz = Some (Option.bind (dex_lookup_range m off) (\<lambda>(i, _). method_name m i outsz))"
    by (cases "outsz = 0") (auto simp: dex_map_lookup_def dex_lookup_range_def method_idx_to_name_eq [OF w] z split: option.splits bind_splits)
  moreover have "dex_name_by_index m midx outsz = Some (method_name m midx outsz)"
    by (simp add: dex_name_by_index_def method_idx_to_name_eq [OF w] z)
  moreover have "length s < outsz \<and> midx < method_ids_size m" if "method_name m midx outsz = Some s" for s
    using that by (auto simp: method_name_def Let_def within_def bind_eq_Some_conv split: if_splits)
  ultimately show ?thesis by (auto split: option.splits)
qed


section \<open>A small image\<close>

text \<open>One class \<open>LA/B;\<close> with a method \<open>m\<close> of ten bytes of code at 192, and a second one whose code claims to start
  at 200, inside the first.\<close>

definition sample_dex :: bytes where
  "sample_dex =
     [0x64, 0x65, 0x78, 0x0a, 0x30, 0x33, 0x35, 0, 0, 0, 0, 0, 0, 0, 0, 0,
      0, 0, 0, 0, 0, 0, 0, 0, 0, 0, 0, 0, 0, 0, 0, 0,
      0, 0, 0, 0, 0, 0, 0, 0, 0, 0, 0, 0, 0, 0, 0, 0,
      0, 0, 0, 0, 0, 0, 0, 0, 0x02, 0, 0, 0, 0x70, 0, 0, 0,
      0x01, 0, 0, 0, 0x78, 0, 0, 0, 0, 0, 0, 0, 0, 0, 0, 0,
      0, 0, 0, 0, 0, 0, 0, 0, 0x01, 0, 0, 0, 0x7c, 0, 0, 0,
      0x01, 0, 0, 0, 0x84, 0, 0, 0, 0, 0, 0, 0, 0, 0, 0, 0,
      0xcc, 0, 0, 0, 0xd3, 0, 0, 0, 0, 0, 0, 0, 0, 0, 0, 0,
      0x01, 0, 0, 0, 0, 0, 0, 0, 0, 0, 0, 0, 0, 0, 0, 0,
      0, 0, 0, 0, 0, 0, 0, 0, 0, 0, 0, 0, 0xa4, 0, 0, 0,
      0, 0, 0, 0, 0, 0, 0x01, 0x01, 0, 0x01, 0xb0, 0x01, 0, 0x01, 0xb8, 0x01,
      0, 0, 0, 0, 0, 0, 0, 0, 0, 0, 0, 0, 0x05, 0, 0, 0,
      0, 0, 0, 0, 0x02, 0, 0, 0, 0, 0, 0, 0, 0x05, 0x4c, 0x41, 0x2f,
      0x42, 0x3b, 0, 0x01, 0x6d, 0]"

definition dex_map_ex :: dex_method_map where
  "dex_map_ex = \<lparr>dimg = sample_dex, string_ids_off = 112, string_ids_size = 2, type_ids_off = 120, type_ids_size = 1,
     method_ids_off = 124, method_ids_size = 1, ranges = [\<lparr>rstart = 192, rend = 202, method_idx = 0\<rparr>]\<rparr>"

interpretation qsort_dex: qsort_impl rstart "sort_key rstart"
  by unfold_locales simp_all

lemma uleb_loop_numeral:
  "uleb_loop (numeral n) buf shift result pos =
     (if pos \<ge> length buf then Some (None, pos)
      else do {
        b \<leftarrow> byte_at buf pos;
        let result = result OR push_bit shift (ucast (b AND 0x7f));
        (if b AND 0x80 = 0 then Some (Some result, pos + 1) else uleb_loop (pred_numeral n) buf (shift + 7) result (pos + 1))
      })"
  by (simp add: numeral_eq_Suc)

lemma ulebs_numeral:
  "ulebs (numeral n) buf pos = do {
     (v, pos) \<leftarrow> uleb128 buf pos;
     (case v of
        None \<Rightarrow> Some (None, pos)
      | Some v \<Rightarrow> do { (vs, pos) \<leftarrow> ulebs (pred_numeral n) buf pos; Some (map_option ((#) v) vs, pos) })
   }"
  by (simp add: numeral_eq_Suc)

lemmas dex_eval = uleb128_def uleb_loop_numeral ulebs_numeral Let_def

lemma dex_obj_ex: "length sample_dex = 214" "obj_bytes sample_dex"
  by (simp_all add: obj_bytes_def sample_dex_def)

lemma dex_ulebs_ex:
  "ulebs 4 sample_dex 164 = Some (Some [0, 0, 1, 1], 168)" "ulebs 3 sample_dex 168 = Some (Some [0, 1, 176], 172)"
  "ulebs 3 sample_dex 172 = Some (Some [0, 1, 184], 176)"
  by (simp_all add: sample_dex_def dex_eval)

lemma dex_class_off_ex: "load_le 4 sample_dex (132 + 24) = Some (164 :: u32)"
  by (simp add: sample_dex_def)

lemma dex_insns_ex: "load_le 4 sample_dex 188 = Some (5 :: u32)" "load_le 4 sample_dex 196 = Some (2 :: u32)"
  by (simp_all add: sample_dex_def)

lemma dex_classes_ex:
  "parse_classes (\<lambda>_. True) sample_dex 1 132 [0..<1] (0, []) =
     Some (Some (64, [\<lparr>rstart = 192, rend = 202, method_idx = 0\<rparr>, \<lparr>rstart = 200, rend = 204, method_idx = 0\<rparr>]))"
  using dex_class_off_ex by (simp add: parse_class_def dex_ulebs_ex dex_obj_ex(1) group_entry_def dex_insns_ex szsub_ge push_range_def
    Let_def del: load_le_in)


lemma dex_header_ex:
  "load_le 4 sample_dex 56 = Some (2 :: u32)" "load_le 4 sample_dex 60 = Some (112 :: u32)"
  "load_le 4 sample_dex 64 = Some (1 :: u32)" "load_le 4 sample_dex 68 = Some (120 :: u32)"
  "load_le 4 sample_dex 88 = Some (1 :: u32)" "load_le 4 sample_dex 92 = Some (124 :: u32)"
  "load_le 4 sample_dex 96 = Some (1 :: u32)" "load_le 4 sample_dex 100 = Some (132 :: u32)"
  by (simp_all add: sample_dex_def)

lemma dex_build_ex: "dex_map_build True True (\<lambda>_. True) (sort_key rstart) sample_dex = Some (Rc_ok dex_map_ex)"
proof -
  have "dex_magic sample_dex" by (simp add: dex_magic_def sample_dex_def)
  then show ?thesis using dex_classes_ex
    by (simp add: dex_map_build_def dex_header_ex dex_obj_ex(1) region_ok_def dex_map_ex_def drop_overlaps_def del: load_le_in parse_classes.simps)
qed

lemma dex_name_ex: "method_name dex_map_ex 0 8 = Some ''A.B.m''"
  by (simp add: method_name_def dex_map_ex_def short_string_def string_at_def sample_dex_def dex_eval within_def is_class_desc_def dotted_def char_of_def bit_0)

lemma dex_map_build_safe_witness:
  "safe (dex_map_build True True (\<lambda>_. True) (sort_key rstart) sample_dex) (\<lambda>r. r = Rc_ok dex_map_ex) \<and> dex_wf dex_map_ex"
  using dex_map_build_safe [OF dex_obj_ex(2) qsort_dex.qsort_impl_axioms, of True True "\<lambda>_. True"] by (simp add: dex_build_ex)

lemma dex_lookup_correct_witness: "dex_lookup_range dex_map_ex 201 = Some (0, 192) \<and> dex_lookup_range dex_map_ex 203 = None"
proof -
  have l: "length sample_dex < 2 ^ 32" by (simp add: dex_obj_ex(1))
  have c: "parse_classes (\<lambda>_. True) sample_dex (method_ids_size dex_map_ex) (unat (132 :: u32)) [0..<unat (1 :: u32)] (0, []) =
     Some (Some (64, [\<lparr>rstart = 192, rend = 202, method_idx = 0\<rparr>, \<lparr>rstart = 200, rend = 204, method_idx = 0\<rparr>]))"
    using dex_classes_ex by (simp add: dex_map_ex_def del: parse_classes.simps)
  note f = dex_lookup_correct [OF dex_obj_ex(2) qsort_dex.qsort_impl_axioms l dex_build_ex dex_header_ex(7,8) c, THEN conjunct1]
  show ?thesis using f [of 201] f [of 203] by (simp add: dex_map_ex_def covers_def)
qed

lemma dex_names_exact_witness:
  "dex_name_by_index dex_map_ex 0 8 = Some (Some ''A.B.m'') \<and> dex_map_lookup dex_map_ex 201 8 = Some (Some ''A.B.m'')"
proof -
  have w: "dex_wf dex_map_ex"
    using dex_map_build_result [OF dex_obj_ex(2) qsort_dex.qsort_impl_axioms, of True True "\<lambda>_. True"] by (simp add: dex_build_ex)
  have r: "dex_lookup_range dex_map_ex 201 = Some (0, 192)"
    by (simp add: dex_lookup_range_def dex_map_ex_def dex_bsearch_step)
  show ?thesis using dex_names_exact [OF w, of 0 8 201] by (simp add: r dex_name_ex)
qed

end
