(* ===== verification/Burst_Window.thy ===== *)
theory Burst_Window
  imports Bpf_Map
begin

unbundle bit_operations_syntax

text \<open>
  What the burst analyzers of \<open>src/src/modules/\<close> count: touches of a process inside a window that opens with the
  first touch and closes when it is too old or when the count reaches a threshold. The window of every
  process is a plain list here; the locale \<open>burst_detector\<close> is the contract of a detector that keeps the same
  windows in kernel maps, and its lemmas say which bursts such a detector reports.
\<close>

section \<open>Touches and windows\<close>

text \<open>One touch: whether the ring buffer grants an event, the kernel's process and thread identifier, the clock,
  and what was touched.\<close>

record 'a touch =
  granted :: bool
  task_id :: u64
  at_ns :: u64
  what :: 'a

definition tgid_of :: "u64 \<Rightarrow> u32" where
  "tgid_of i = ucast (drop_bit 32 i)"

abbreviation tpid :: "'a touch \<Rightarrow> u32" where "tpid t \<equiv> tgid_of (task_id t)"

type_synonym 'a windows = "u32 \<rightharpoonup> u64 \<times> 'a list"

definition window_touch :: "u64 \<Rightarrow> nat \<Rightarrow> 'a touch \<Rightarrow> 'a windows \<Rightarrow> (u64 \<times> 'a list) option \<times> 'a windows" where
  "window_touch W N t w =
     (let (start, xs) = (case w (tpid t) of
            None \<Rightarrow> (at_ns t, [])
          | Some (start, xs) \<Rightarrow> if at_ns t - start > W then (at_ns t, []) else (start, xs));
          xs = xs @ [what t]
      in if length xs = N then (Some (start, xs), w(tpid t \<mapsto> (at_ns t, [])))
         else (None, w(tpid t \<mapsto> (start, xs))))"

text \<open>Running a handler over a sequence of calls.\<close>

definition steps :: "('t \<Rightarrow> 's \<Rightarrow> 'e \<times> 's) \<Rightarrow> 't list \<Rightarrow> 's \<Rightarrow> 's" where
  "steps f ts s = fold (\<lambda>t s. snd (f t s)) ts s"

lemma steps_simps [simp]: "steps f [] s = s" "steps f (t # ts) s = steps f ts (snd (f t s))" "steps f (ts @ us) s = steps f us (steps f ts s)"
  by (simp_all add: steps_def)

definition mine :: "u32 \<Rightarrow> 'a touch list \<Rightarrow> 'a touch list" where
  "mine p ts = filter (\<lambda>t. tpid t = p) ts"

lemma mine_simps [simp]:
  "mine p [] = []" "mine p (t # ts) = (if tpid t = p then t # mine p ts else mine p ts)" "mine p (ts @ us) = mine p ts @ mine p us"
  by (simp_all add: mine_def)

section \<open>What a window holds\<close>

text \<open>After touches in the order of the clock, the window of a process holds its last touches, none older than
  the start, and fewer than the threshold.\<close>

definition window_of :: "nat \<Rightarrow> 'a touch list \<Rightarrow> u32 \<Rightarrow> (u64 \<times> 'a list) option \<Rightarrow> bool" where
  "window_of N ts p v \<longleftrightarrow> (case v of
     None \<Rightarrow> mine p ts = []
   | Some (start, xs) \<Rightarrow> length xs < N \<and> start \<in> at_ns ` set ts \<and>
       (\<exists>old q. mine p ts = old @ q \<and> xs = map what q \<and> (\<forall>t\<in>set q. start \<le> at_ns t)))"

definition sorted_times :: "'a touch list \<Rightarrow> bool" where
  "sorted_times ts \<longleftrightarrow> sorted (map at_ns ts)"

lemma sorted_times_app: "sorted_times (ts @ us) \<Longrightarrow> sorted_times ts"
  by (simp add: sorted_times_def sorted_append)

lemma sorted_times_le: "sorted_times (ts @ [t]) \<Longrightarrow> u \<in> set ts \<Longrightarrow> at_ns u \<le> at_ns t"
  by (simp add: sorted_times_def sorted_append)

text \<open>The window a touch falls into: the one that is open, or a new one.\<close>

lemma window_touch_open:
  assumes w: "window_of N ts (tpid t) (w (tpid t))" and s: "sorted_times (ts @ [t])" and N: "0 < N"
  obtains st old q where "mine (tpid t) ts = old @ q" "\<forall>u\<in>set q. st \<le> at_ns u \<and> at_ns u \<le> at_ns t" "length q < N"
    "st \<in> at_ns ` set (ts @ [t])" "st \<le> at_ns t" "at_ns t - st \<le> W"
    "window_touch W N t w =
       (if Suc (length q) = N then (Some (st, map what (q @ [t])), w(tpid t \<mapsto> (at_ns t, [])))
        else (None, w(tpid t \<mapsto> (st, map what (q @ [t])))))"
proof (cases "\<exists>st ys. w (tpid t) = Some (st, ys) \<and> \<not> at_ns t - st > W")
  case True
  then obtain st ys where w1: "w (tpid t) = Some (st, ys)" "\<not> at_ns t - st > W" by blast
  then obtain old q where q: "mine (tpid t) ts = old @ q" "ys = map what q" "\<forall>t\<in>set q. st \<le> at_ns t" "st \<in> at_ns ` set ts" "length ys < N"
    using w by (auto simp: window_of_def)
  have "set q \<subseteq> set (mine (tpid t) ts)" unfolding q(1) by simp
  then have "set q \<subseteq> set ts" by (auto simp: mine_def)
  then have "\<forall>u\<in>set q. st \<le> at_ns u \<and> at_ns u \<le> at_ns t" using q(3) sorted_times_le [OF s] by blast
  moreover have "st \<le> at_ns t" using q(4) sorted_times_le [OF s] by blast
  ultimately show ?thesis using that [OF q(1)] w1 q by (auto simp: window_touch_def Let_def)
next
  case False
  have "window_touch W N t w = (if Suc 0 = N then (Some (at_ns t, [what t]), w(tpid t \<mapsto> (at_ns t, [])))
       else (None, w(tpid t \<mapsto> (at_ns t, [what t]))))"
    using False by (cases "w (tpid t)") (auto simp: window_touch_def Let_def)
  then show ?thesis using that [of "mine (tpid t) ts" "[]" "at_ns t"] N by simp
qed

lemma window_touch_holds:
  assumes w: "window_of N ts (tpid t) (w (tpid t))" and s: "sorted_times (ts @ [t])" and N: "0 < N"
    and v: "window_touch W N t w = (a, w')"
  shows "window_of N (ts @ [t]) (tpid t) (w' (tpid t))"
    "a = Some (start, xs) \<Longrightarrow> \<exists>old q. mine (tpid t) (ts @ [t]) = old @ q \<and> length q = N \<and> xs = map what q \<and>
       (\<forall>u\<in>set q. start \<le> at_ns u \<and> at_ns u \<le> at_ns t) \<and> start \<le> at_ns t \<and> at_ns t - start \<le> W"
proof -
  obtain st old q where o: "mine (tpid t) ts = old @ q" "\<forall>u\<in>set q. st \<le> at_ns u \<and> at_ns u \<le> at_ns t" "length q < N"
      "st \<in> at_ns ` set (ts @ [t])" "st \<le> at_ns t" "at_ns t - st \<le> W"
    and e: "window_touch W N t w =
       (if Suc (length q) = N then (Some (st, map what (q @ [t])), w(tpid t \<mapsto> (at_ns t, [])))
        else (None, w(tpid t \<mapsto> (st, map what (q @ [t])))))"
    by (rule window_touch_open [where w = w and W = W, OF w s N])
  have q: "mine (tpid t) (ts @ [t]) = old @ (q @ [t])" "\<forall>u\<in>set (q @ [t]). st \<le> at_ns u \<and> at_ns u \<le> at_ns t"
    using o(1,2,5) by auto
  show "window_of N (ts @ [t]) (tpid t) (w' (tpid t))"
  proof (cases "Suc (length q) = N")
    case True
    then show ?thesis using v e N by (auto simp: window_of_def intro!: exI [of _ "mine (tpid t) (ts @ [t])"] exI [of _ "[]"])
  next
    case False
    then have "w' (tpid t) = Some (st, map what (q @ [t]))" "length (q @ [t]) < N" using v e o(3) by auto
    moreover have "\<exists>old' q'. mine (tpid t) (ts @ [t]) = old' @ q' \<and> map what (q @ [t]) = map what q' \<and> (\<forall>u\<in>set q'. st \<le> at_ns u)"
      using q by blast
    ultimately show ?thesis using o(4) by (simp add: window_of_def del: mine_simps map_append set_append)
  qed
  show "\<exists>old q. mine (tpid t) (ts @ [t]) = old @ q \<and> length q = N \<and> xs = map what q \<and>
       (\<forall>u\<in>set q. start \<le> at_ns u \<and> at_ns u \<le> at_ns t) \<and> start \<le> at_ns t \<and> at_ns t - start \<le> W" if "a = Some (start, xs)"
  proof -
    have "length (q @ [t]) = N" "start = st" "xs = map what (q @ [t])" using that v e by (auto split: if_splits)
    then show ?thesis using q o(5,6) by blast
  qed
qed

lemma window_touch_other: "p \<noteq> tpid t \<Longrightarrow> snd (window_touch W N t w) p = w p"
  by (auto simp: window_touch_def Let_def split: option.splits prod.splits)

lemma windows_hold:
  "sorted_times ts \<Longrightarrow> 0 < N \<Longrightarrow> window_of N ts p (steps (window_touch W N) ts Map.empty p)"
proof (induction ts rule: rev_induct)
  case (snoc t ts)
  let ?w = "steps (window_touch W N) ts Map.empty"
  have h: "window_of N ts p (?w p)" using snoc sorted_times_app by blast
  obtain a w' where v: "window_touch W N t ?w = (a, w')" by fastforce
  show ?case
  proof (cases "p = tpid t")
    case True
    then show ?thesis using window_touch_holds(1) [OF _ snoc.prems v] h by (simp add: v)
  next
    case False
    then have "w' p = ?w p" using window_touch_other [of p t W N ?w] v by simp
    then show ?thesis using h False v by (auto simp: window_of_def split: option.splits)
  qed
qed (simp add: window_of_def)

section \<open>Bursts that are caught\<close>

lemma word_diff_mono: "(t0 :: 'a::len word) \<le> a \<Longrightarrow> a \<le> u \<Longrightarrow> u - a \<le> u - t0"
  by (simp add: word_le_nat_alt unat_sub)

text \<open>Enough touches while the window stays open fill it; \<open>alerts\<close> says that one of the touches does.\<close>

definition alerts :: "('a touch \<Rightarrow> 's \<Rightarrow> 'e option \<times> 's) \<Rightarrow> u32 \<Rightarrow> 'a touch list \<Rightarrow> 's \<Rightarrow> bool" where
  "alerts f p ts s \<longleftrightarrow> (\<exists>pre t post. ts = pre @ t # post \<and> tpid t = p \<and> fst (f t (steps f pre s)) \<noteq> None)"

lemma alerts_Nil [simp]: "\<not> alerts f p [] s"
  by (simp add: alerts_def)

lemma alerts_Cons [simp]: "alerts f p (t # ts) s \<longleftrightarrow> tpid t = p \<and> fst (f t s) \<noteq> None \<or> alerts f p ts (snd (f t s))"
proof
  assume "alerts f p (t # ts) s"
  then obtain pre u post where u: "t # ts = pre @ u # post" "tpid u = p" "fst (f u (steps f pre s)) \<noteq> None" by (auto simp: alerts_def)
  then show "tpid t = p \<and> fst (f t s) \<noteq> None \<or> alerts f p ts (snd (f t s))" by (cases pre) (auto simp: alerts_def)
next
  assume "tpid t = p \<and> fst (f t s) \<noteq> None \<or> alerts f p ts (snd (f t s))"
  then show "alerts f p (t # ts) s"
  proof
    assume "tpid t = p \<and> fst (f t s) \<noteq> None"
    then show ?thesis unfolding alerts_def by (intro exI [of _ "[]"] exI [of _ t] exI [of _ ts]) simp
  next
    assume "alerts f p ts (snd (f t s))"
    then show ?thesis unfolding alerts_def by (metis append_Cons steps_simps(2))
  qed
qed

lemma alerts_append: "alerts f p (ts @ us) s \<longleftrightarrow> alerts f p ts s \<or> alerts f p us (steps f ts s)"
  by (induction ts arbitrary: s) auto

lemma alerts_head: "tpid t = p \<Longrightarrow> fst (f t s) \<noteq> None \<Longrightarrow> alerts f p (t # ts) s"
  by simp

lemma alerts_tail: "alerts f p ts (snd (f t s)) \<Longrightarrow> alerts f p (t # ts) s"
  by simp

lemma window_fills:
  "w p = Some (st, xs) \<Longrightarrow> \<forall>t\<in>set ts. at_ns t - st \<le> W \<Longrightarrow> length xs < N \<Longrightarrow> N \<le> length xs + length (mine p ts) \<Longrightarrow>
     alerts (window_touch W N) p ts w"
proof (induction ts arbitrary: w xs)
  case (Cons t ts)
  show ?case
  proof (cases "tpid t = p")
    case False
    then have "snd (window_touch W N t w) p = Some (st, xs)" using window_touch_other [of p t] Cons.prems(1) by auto
    then show ?thesis using Cons False by (intro alerts_tail Cons.IH) auto
  next
    case True
    then have e: "window_touch W N t w = (if Suc (length xs) = N then (Some (st, xs @ [what t]), w(p \<mapsto> (at_ns t, [])))
        else (None, w(p \<mapsto> (st, xs @ [what t]))))"
      using Cons.prems(1,2) by (auto simp: window_touch_def Let_def)
    show ?thesis
    proof (cases "Suc (length xs) = N")
      case False
      then have "snd (window_touch W N t w) p = Some (st, xs @ [what t])" using e by simp
      moreover have "length (xs @ [what t]) < N" "N \<le> length (xs @ [what t]) + length (mine p ts)"
        using Cons.prems(3,4) True False by auto
      ultimately show ?thesis using Cons.prems(2) by (intro alerts_tail Cons.IH [of _ "xs @ [what t]"]) auto
    qed (use e True in \<open>auto intro: alerts_head\<close>)
  qed
qed simp

text \<open>Fewer touches leave the window open.\<close>

lemma window_opens:
  assumes "case w (tpid t) of None \<Rightarrow> True | Some (st, xs) \<Rightarrow> at_ns t - st > W" "1 < N"
  shows "window_touch W N t w = (None, w(tpid t \<mapsto> (at_ns t, [what t])))"
  using assms by (cases "w (tpid t)") (auto simp: window_touch_def Let_def)

lemma window_quiet:
  "w (tpid t) = Some (st, xs) \<Longrightarrow> at_ns t - st \<le> W \<Longrightarrow> length xs + k < N \<Longrightarrow>
     steps (window_touch W N) (replicate k t) w (tpid t) = Some (st, xs @ replicate k (what t)) \<and>
     \<not> alerts (window_touch W N) (tpid t) (replicate k t) w"
proof (induction k arbitrary: w xs)
  case (Suc k)
  define w' where "w' = w(tpid t \<mapsto> (st, xs @ [what t]))"
  have e: "window_touch W N t w = (None, w')" using Suc.prems by (simp add: window_touch_def Let_def leD w'_def)
  have "w' (tpid t) = Some (st, xs @ [what t])" "length (xs @ [what t]) + k < N" using Suc.prems by (auto simp: w'_def)
  from Suc.IH [where w = w', OF this(1) Suc.prems(2) this(2)] show ?case by (simp add: e)
qed simp

text \<open>A window that is open when a burst begins can split it once.\<close>

definition open_count :: "'a windows \<Rightarrow> u32 \<Rightarrow> nat" where
  "open_count w p = (case w p of None \<Rightarrow> 0 | Some (_, xs) \<Rightarrow> length xs)"

lemma burst_alerts:
  "open_count w p < N \<Longrightarrow> sorted_times ts \<Longrightarrow> \<forall>t\<in>set ts. t0 \<le> at_ns t \<and> at_ns t - t0 \<le> W \<Longrightarrow>
     2 * N - 1 \<le> open_count w p + length (mine p ts) \<Longrightarrow> alerts (window_touch W N) p ts w"
proof (induction ts arbitrary: w)
  case (Cons t ts)
  have sorted: "sorted_times ts" "\<forall>u\<in>set ts. at_ns t \<le> at_ns u" using Cons.prems(2) by (auto simp: sorted_times_def)
  show ?case
  proof (cases "tpid t = p")
    case False
    then have "snd (window_touch W N t w) p = w p" using window_touch_other [of p t] by auto
    then have "open_count (snd (window_touch W N t w)) p = open_count w p" by (simp add: open_count_def)
    then show ?thesis using Cons False sorted by (intro alerts_tail Cons.IH) auto
  next
    case True
    show ?thesis
    proof (cases "\<exists>st xs. w p = Some (st, xs) \<and> at_ns t - st \<le> W")
      case old: True
      then obtain st xs where w: "w p = Some (st, xs)" "at_ns t - st \<le> W" by blast
      then have e: "window_touch W N t w = (if Suc (length xs) = N then (Some (st, xs @ [what t]), w(p \<mapsto> (at_ns t, [])))
          else (None, w(p \<mapsto> (st, xs @ [what t]))))"
        using True by (auto simp: window_touch_def Let_def)
      show ?thesis
      proof (cases "Suc (length xs) = N")
        case False
        then have "open_count (snd (window_touch W N t w)) p = Suc (open_count w p)" using e w by (simp add: open_count_def)
        then show ?thesis using Cons.prems True False sorted w(1) by (intro alerts_tail Cons.IH) (auto simp: open_count_def)
      qed (use e True in \<open>auto intro: alerts_head\<close>)
    next
      case fresh: False
      then have e: "window_touch W N t w = (if Suc 0 = N then (Some (at_ns t, [what t]), w(p \<mapsto> (at_ns t, [])))
          else (None, w(p \<mapsto> (at_ns t, [what t]))))"
        using True by (cases "w p") (auto simp: window_touch_def Let_def)
      have u: "\<forall>u\<in>set ts. at_ns u - at_ns t \<le> W"
        using sorted(2) Cons.prems(3) word_diff_mono [of t0 "at_ns t"] by (meson list.set_intros order_trans)
      show ?thesis
      proof (cases "Suc 0 = N")
        case False
        then have "snd (window_touch W N t w) p = Some (at_ns t, [what t])" using e by simp
        moreover have "N \<le> length [what t] + length (mine p ts)" "length [what t] < N" using Cons.prems(1,4) True False by auto
        ultimately show ?thesis using u by (intro alerts_tail window_fills) auto
      qed (use e True in \<open>auto intro: alerts_head\<close>)
    qed
  qed
qed (simp add: open_count_def)

section \<open>Detectors\<close>

text \<open>A detector keeps the windows of the processes \<open>S\<close>, of which there are at most \<open>cap\<close>, in its own state.
  An event is reported for a full window when the ring buffer grants it; \<open>reports\<close> is what the event says: the
  process, the start of the window and what was touched in it.\<close>

locale burst_detector =
  fixes W :: u64 and N cap :: nat
    and step :: "'a touch \<Rightarrow> 's \<Rightarrow> 'e option \<times> 's"
    and init :: 's
    and win :: "'s \<Rightarrow> 'a windows"
    and inv :: "u32 set \<Rightarrow> 's \<Rightarrow> bool"
    and reports :: "u64 \<Rightarrow> 'e \<Rightarrow> u32 \<Rightarrow> u64 \<Rightarrow> 'a list \<Rightarrow> bool"
  assumes threshold: "0 < N"
    and init_inv: "finite S \<Longrightarrow> card S \<le> cap \<Longrightarrow> inv S init"
    and init_win: "win init = Map.empty"
    and step_inv: "inv S s \<Longrightarrow> tpid t \<in> S \<Longrightarrow> inv S (snd (step t s))"
    and step_win: "inv S s \<Longrightarrow> tpid t \<in> S \<Longrightarrow> win (snd (step t s)) = snd (window_touch W N t (win s))"
    and step_event: "inv S s \<Longrightarrow> tpid t \<in> S \<Longrightarrow> fst (step t s) = None \<longleftrightarrow> \<not> granted t \<or> fst (window_touch W N t (win s)) = None"
    and step_reports: "inv S s \<Longrightarrow> tpid t \<in> S \<Longrightarrow> fst (step t s) = Some e \<Longrightarrow> fst (window_touch W N t (win s)) = Some (start, xs) \<Longrightarrow>
      reports (at_ns t) e (tpid t) start xs"
begin

lemma run_inv: "inv S s \<Longrightarrow> tpid ` set ts \<subseteq> S \<Longrightarrow> inv S (steps step ts s)"
  by (induction ts arbitrary: s) (auto intro: step_inv)

lemma run_win: "inv S s \<Longrightarrow> tpid ` set ts \<subseteq> S \<Longrightarrow> win (steps step ts s) = steps (window_touch W N) ts (win s)"
proof (induction ts arbitrary: s)
  case (Cons t ts)
  then show ?case using step_inv [of S s t] step_win [of S s t] by simp
qed simp

text \<open>An event names exactly the last touches of its process, as many as the threshold, all within the window.\<close>

lemma event_sound:
  assumes S: "finite S" "card S \<le> cap" "tpid ` set (ts @ [t]) \<subseteq> S" and s: "sorted_times (ts @ [t])"
    and e: "step t (steps step ts init) = (Some e, s')"
  shows "\<exists>old q start. mine (tpid t) (ts @ [t]) = old @ q \<and> length q = N \<and> reports (at_ns t) e (tpid t) start (map what q) \<and>
    (\<forall>u\<in>set q. start \<le> at_ns u \<and> at_ns u \<le> at_ns t) \<and> start \<le> at_ns t \<and> at_ns t - start \<le> W"
proof -
  let ?s = "steps step ts init" and ?w = "steps (window_touch W N) ts Map.empty"
  have i: "inv S ?s" "tpid t \<in> S" using run_inv init_inv S by auto
  have w: "win ?s = ?w" using run_win [OF init_inv [OF S(1,2)]] S(3) init_win by simp
  have h: "window_of N ts (tpid t) (?w (tpid t))" by (rule windows_hold [OF sorted_times_app [OF s] threshold])
  obtain a w' where v: "window_touch W N t ?w = (a, w')" by fastforce
  moreover have "a \<noteq> None" using step_event [OF i] e v w by auto
  ultimately obtain start xs where a: "a = Some (start, xs)" by auto
  have "reports (at_ns t) e (tpid t) start xs" using step_reports [OF i] e v w a by simp
  then show ?thesis using window_touch_holds(2) [OF h s threshold v a] by blast
qed

text \<open>Twice the threshold less one touches within the length of a window always raise an event.\<close>

lemma burst_caught:
  assumes S: "finite S" "card S \<le> cap" "tpid ` set (ts @ us) \<subseteq> S" and s: "sorted_times (ts @ us)"
    and g: "\<forall>u\<in>set us. granted u" and short: "\<forall>u\<in>set us. at_ns u - at_ns (hd us) \<le> W" and n: "2 * N - 1 \<le> length (mine p us)"
  shows "alerts step p us (steps step ts init)"
proof -
  let ?s = "steps step ts init"
  have i: "inv S ?s" using run_inv [OF init_inv [OF S(1,2)]] S(3) by auto
  have "window_of N ts p (steps (window_touch W N) ts Map.empty p)" by (rule windows_hold [OF sorted_times_app [OF s] threshold])
  moreover have "win ?s = steps (window_touch W N) ts Map.empty" using run_win [OF init_inv [OF S(1,2)], of ts] S(3) init_win by auto
  ultimately have "open_count (win ?s) p < N" using threshold by (auto simp: open_count_def window_of_def split: option.splits)
  moreover have "sorted_times us" using s by (simp add: sorted_times_def sorted_append)
  moreover have "\<forall>u\<in>set us. at_ns (hd us) \<le> at_ns u" using \<open>sorted_times us\<close> by (cases us) (auto simp: sorted_times_def)
  ultimately have "alerts (window_touch W N) p us (win ?s)" using short n by (intro burst_alerts [of _ _ _ _ "at_ns (hd us)"]) auto
  then obtain pre t post where u: "us = pre @ t # post" "tpid t = p" "fst (window_touch W N t (steps (window_touch W N) pre (win ?s))) \<noteq> None"
    by (auto simp: alerts_def)
  have "tpid ` set pre \<subseteq> S" "tpid t \<in> S" using S(3) u(1) by auto
  then have "fst (step t (steps step pre ?s)) \<noteq> None"
    using step_event [OF run_inv [OF i]] run_win [OF i, of pre] u g by auto
  then show ?thesis using u by (auto simp: alerts_def)
qed

text \<open>Between two windows nearly twice the threshold passes unseen: one touch opens a window, the next ones
  come at its very end, and the rest one tick later.\<close>

lemma alerts_win: "inv S s \<Longrightarrow> tpid ` set us \<subseteq> S \<Longrightarrow> alerts step p us s \<Longrightarrow> alerts (window_touch W N) p us (win s)"
proof (induction us arbitrary: s)
  case (Cons u us)
  have u: "tpid u \<in> S" "tpid ` set us \<subseteq> S" using Cons.prems(2) by auto
  have "alerts step p us (snd (step u s)) \<Longrightarrow> alerts (window_touch W N) p us (snd (window_touch W N u (win s)))"
    using Cons.IH [OF step_inv [OF Cons.prems(1) u(1)] u(2)] step_win [OF Cons.prems(1) u(1)] by simp
  then show ?case using Cons.prems(3) step_event [OF Cons.prems(1) u(1)] by auto
qed simp

lemma split_burst_missed:
  assumes cap: "1 \<le> cap" and t: "tpid t = p" "tpid u = p" "tpid v = p"
    and at: "at_ns u - at_ns t \<le> W" "at_ns v - at_ns t > W" and N: "1 < N"
  shows "\<not> alerts step p (t # replicate (N - 2) u @ v # replicate (N - 2) v) init"
proof
  define w where "w = Map.empty(p \<mapsto> (at_ns t, [what t]))"
  define w1 where "w1 = steps (window_touch W N) (replicate (N - 2) u) w"
  define w2 where "w2 = w1(p \<mapsto> (at_ns v, [what v]))"
  have a: "window_touch W N t Map.empty = (None, w)" using window_opens [where w = Map.empty and t = t and W = W and N = N] N t(1) by (simp add: w_def)
  have "w (tpid u) = Some (at_ns t, [what t])" "length [what t] + (N - 2) < N" using N t by (auto simp: w_def)
  from window_quiet [where w = w and t = u, OF this(1) at(1) this(2)]
  have b: "w1 p = Some (at_ns t, what t # replicate (N - 2) (what u))" "\<not> alerts (window_touch W N) p (replicate (N - 2) u) w"
    using t by (auto simp: w1_def)
  have c: "window_touch W N v w1 = (None, w2)" using window_opens [where w = w1 and t = v and W = W and N = N] b(1) at(2) N t by (simp add: w2_def)
  have "w2 (tpid v) = Some (at_ns v, [what v])" "at_ns v - at_ns v \<le> W" "length [what v] + (N - 2) < N" using N t by (auto simp: w2_def)
  from window_quiet [where w = w2 and t = v, OF this] have d: "\<not> alerts (window_touch W N) p (replicate (N - 2) v) w2" using t by simp
  have i: "inv {p} init" by (rule init_inv) (use cap in simp_all)
  have p: "tpid ` set (t # replicate (N - 2) u @ v # replicate (N - 2) v) \<subseteq> {p}" using t by auto
  assume "alerts step p (t # replicate (N - 2) u @ v # replicate (N - 2) v) init"
  from alerts_win [OF i p this]
  have "alerts (window_touch W N) p (t # replicate (N - 2) u @ v # replicate (N - 2) v) Map.empty" unfolding init_win .
  then show False using a b(2) c d by (simp add: alerts_append w1_def [symmetric])
qed

text \<open>The threshold is reached by that many touches at one time.\<close>

lemma threshold_alerts:
  assumes cap: "1 \<le> cap" and g: "granted t" and N: "1 < N"
  shows "fst (step t (steps step (t # replicate (N - 2) t) init)) \<noteq> None"
proof -
  define w where "w = Map.empty(tpid t \<mapsto> (at_ns t, [what t]))"
  have a: "window_touch W N t Map.empty = (None, w)" using window_opens [where w = Map.empty and t = t and W = W and N = N] N by (simp add: w_def)
  have "w (tpid t) = Some (at_ns t, [what t])" "at_ns t - at_ns t \<le> W" "length [what t] + (N - 2) < N" using N by (auto simp: w_def)
  from window_quiet [where w = w and t = t, OF this] have "steps (window_touch W N) (t # replicate (N - 2) t) Map.empty (tpid t) = Some (at_ns t, what t # replicate (N - 2) (what t))"
    by (simp add: a)
  then have "fst (window_touch W N t (steps (window_touch W N) (t # replicate (N - 2) t) Map.empty)) \<noteq> None"
    using N by (simp add: window_touch_def Let_def)
  moreover have i: "inv {tpid t} init" by (rule init_inv) (use cap in simp_all)
  moreover have p: "tpid ` set (t # replicate (N - 2) t) \<subseteq> {tpid t}" by auto
  ultimately show ?thesis using step_event [OF run_inv [OF i p], of t] g run_win [OF i p] init_win by simp
qed

end

end
