(* ===== verification/Bpf_Gate.thy ===== *)
theory Bpf_Gate
  imports Burst_Window
begin

unbundle bit_operations_syntax

text \<open>
  What the kernel-side analyzers share: the target filters (\<open>uid_filter.bpf.h\<close>, \<open>pid_filter.bpf.h\<close>), the follow-fork
  propagator (\<open>follow_fork.bpf.h\<close>) and the path tests (\<open>path_gate.bpf.h\<close>) of \<open>src/src/common/\<close>.

  \<^item> a call of a probe is a \<open>kctx\<close>: the task's credentials and identifier, the clock, the argument registers, the
    user memory its pointers lead to (\<open>None\<close> is a fault), what the probe's stack buffer held before,
    and whether the ring buffer grants an event;
  \<^item> a fixed-size text buffer is the list of its 256 characters, with the terminator and what is behind it.
\<close>

record kctx =
  k_uid_gid :: u64
  k_id :: u64
  k_now :: u64
  k_regs :: "nat \<Rightarrow> u64"
  k_str :: "u64 \<Rightarrow> string option"
  k_mem :: "u64 \<Rightarrow> nat \<Rightarrow> bytes option"
  k_stack :: string
  k_rb :: bool

section \<open>Filters\<close>

record targets =
  target_uids :: "(u32, u8) bpf_map"
  target_pids :: "(u32, u8) bpf_map"

definition uid_matches :: "targets \<Rightarrow> kctx \<Rightarrow> bool" where
  "uid_matches tg c \<longleftrightarrow> bpf_lookup (target_uids tg) (ucast (k_uid_gid c)) \<noteq> None"

definition pid_matches :: "targets \<Rightarrow> kctx \<Rightarrow> bool" where
  "pid_matches tg c \<longleftrightarrow> bpf_lookup (target_pids tg) (tgid_of (k_id c)) \<noteq> None"

abbreviation PIDS_MAX :: nat where "PIDS_MAX \<equiv> 64"

definition anubee_follow_fork :: "u64 \<Rightarrow> u32 \<Rightarrow> targets \<Rightarrow> targets" where
  "anubee_follow_fork task child tg =
     (if bpf_lookup (target_pids tg) (tgid_of task) = None then tg
      else tg\<lparr>target_pids := bpf_update PIDS_MAX child 1 (target_pids tg)\<rparr>)"

section \<open>Paths\<close>

definition text_of :: "string \<Rightarrow> string" where
  "text_of b = takeWhile (\<lambda>c. c \<noteq> NUL) b"

text \<open>\<open>bpf_probe_read_user_str\<close> into a buffer of \<open>sz\<close> that held \<open>old\<close>.\<close>

definition read_str :: "nat \<Rightarrow> string \<Rightarrow> string \<Rightarrow> string" where
  "read_str sz u old = (let s = take (sz - 1) (text_of u) in s @ NUL # drop (length s + 1) old)"

definition path_has_prefix :: "string \<Rightarrow> string \<Rightarrow> nat \<Rightarrow> bool" where
  "path_has_prefix path pre plen \<longleftrightarrow> list_all (\<lambda>i. path ! i = pre ! i) [0..<min 32 plen]"

definition path_has_component :: "string \<Rightarrow> string \<Rightarrow> nat \<Rightarrow> bool" where
  "path_has_component path needle nlen \<longleftrightarrow>
     list_ex (\<lambda>start. list_all (\<lambda>i. path ! (start + i) = needle ! i) [0..<min 16 nlen]) [0..<48]"

text \<open>A pointer argument without its tag, and the string it leads to.\<close>

definition untag :: "u64 \<Rightarrow> u64" where
  "untag p = p AND 0x00FFFFFFFFFFFFFF"

definition path_arg :: "nat \<Rightarrow> kctx \<Rightarrow> string option" where
  "path_arg i c = map_option (\<lambda>u. read_str 256 u (k_stack c)) (k_str c (untag (k_regs c i)))"

section \<open>What the filters and tests decide\<close>

lemma text_of_no_nul: "NUL \<notin> set (text_of u)"
  by (auto simp: text_of_def dest: set_takeWhileD)

lemma text_of_read_str [simp]: "text_of (read_str sz u old) = take (sz - 1) (text_of u)"
proof -
  have "NUL \<notin> set (take (sz - 1) (text_of u))" using text_of_no_nul [of u] in_set_takeD by fastforce
  then have "takeWhile (\<lambda>c. c \<noteq> NUL) (take (sz - 1) (text_of u) @ [NUL] @ r) = take (sz - 1) (text_of u)" for r
    by (subst takeWhile_append2) auto
  then show ?thesis unfolding read_str_def by (simp add: Let_def text_of_def)
qed

text \<open>The prefix test looks at the string alone, whatever the buffer held.\<close>

lemma prefix_read_str:
  assumes n: "NUL \<notin> set pre" "length pre < sz" "length pre \<le> 32"
  shows "path_has_prefix (read_str sz u old) pre (length pre) \<longleftrightarrow> take (length pre) (text_of u) = pre"
proof -
  let ?s = "take (sz - 1) (text_of u)" and ?b = "read_str sz u old"
  have b: "?b = ?s @ NUL # drop (length ?s + 1) old" by (simp add: read_str_def Let_def)
  have "path_has_prefix ?b pre (length pre) \<longleftrightarrow> (\<forall>i < length pre. ?b ! i = pre ! i)"
    using n(3) by (auto simp: path_has_prefix_def list_all_iff min_def)
  also have "\<dots> \<longleftrightarrow> length pre \<le> length ?s \<and> (\<forall>i < length pre. ?s ! i = pre ! i)"
  proof (cases "length pre \<le> length ?s")
    case True
    then show ?thesis unfolding b by (auto simp: nth_append)
  next
    case False
    then have "pre ! length ?s \<in> set pre" by (intro nth_mem) linarith
    then have "?b ! length ?s = NUL" "pre ! length ?s \<noteq> NUL" using n(1) unfolding b by (auto simp: nth_append)
    then show ?thesis using False by (metis not_le)
  qed
  also have "\<dots> \<longleftrightarrow> take (length pre) (text_of u) = pre"
    using n(2) by (auto simp: list_eq_iff_nth_eq)
  finally show ?thesis .
qed

lemma prefix_read_str_n:
  "length pre = n \<Longrightarrow> NUL \<notin> set pre \<Longrightarrow> n < sz \<Longrightarrow> n \<le> 32 \<Longrightarrow>
     path_has_prefix (read_str sz u old) pre n \<longleftrightarrow> take n (text_of u) = pre"
  using prefix_read_str [of pre sz u old] by simp

text \<open>The component test finds what a path contains near its beginning.\<close>

lemma component_found:
  assumes "text_of u = a @ needle @ b" "length a < 48" "length needle \<le> 16" "length a + length needle < sz"
  shows "path_has_component (read_str sz u old) needle (length needle)"
proof -
  have "read_str sz u old ! (length a + i) = needle ! i" if "i < length needle" for i
    using assms(1,4) that by (auto simp: read_str_def Let_def nth_append)
  then show ?thesis using assms(2,3) by (auto simp: path_has_component_def list_ex_iff list_all_iff intro!: bexI [of _ "length a"])
qed

lemma component_chars:
  assumes "path_has_component path needle (length needle)" "length needle \<le> 16" "63 \<le> length path"
  shows "set needle \<subseteq> set path"
proof
  fix x assume "x \<in> set needle"
  then obtain i where i: "i < length needle" "x = needle ! i" by (auto simp: in_set_conv_nth)
  obtain start where s: "start < 48" "\<forall>i < length needle. path ! (start + i) = needle ! i"
    using assms(1,2) by (auto simp: path_has_component_def list_ex_iff list_all_iff)
  then have "x = path ! (start + i)" "start + i < length path" using i assms(2,3) by auto
  then show "x \<in> set path" by simp
qed

lemma no_component: "length needle = n \<Longrightarrow> n \<le> 16 \<Longrightarrow> 63 \<le> length path \<Longrightarrow> \<not> set needle \<subseteq> set path \<Longrightarrow> \<not> path_has_component path needle n"
  using component_chars by blast

section \<open>Following forks\<close>

lemma tracked_update:
  "bpf_lookup m p \<noteq> None \<Longrightarrow> bpf_lookup (bpf_update mx k v m) p \<noteq> None"
  by (auto simp: bpf_lookup_def bpf_update_def AList.update_conv')

lemma length_new_key: "map_of m k = None \<Longrightarrow> length (AList.update k v m) = Suc (length m)"
  by (induction m) auto

text \<open>Every thread a tracked process starts takes an entry of the map as well: once the threads fill it, a process
  forked later is not followed.\<close>

theorem follow_fork_crowded_out:
  assumes "bpf_lookup (target_pids tg) (tgid_of task) \<noteq> None" "distinct tids" "\<forall>t\<in>set tids. bpf_lookup (target_pids tg) t = None"
    "PIDS_MAX \<le> length (target_pids tg) + length tids" "child \<notin> set tids" "bpf_lookup (target_pids tg) child = None"
  shows "bpf_lookup (target_pids (anubee_follow_fork task child (fold (anubee_follow_fork task) tids tg))) child = None"
  using assms
proof (induction tids arbitrary: tg)
  case Nil
  then show ?case by (simp add: anubee_follow_fork_def bpf_update_def bpf_lookup_def)
next
  case (Cons t tids)
  let ?tg = "anubee_follow_fork task t tg"
  have e: "target_pids ?tg = bpf_update PIDS_MAX t 1 (target_pids tg)" using Cons.prems(1) by (auto simp: anubee_follow_fork_def)
  have look: "bpf_lookup (target_pids ?tg) x = None" if "bpf_lookup (target_pids tg) x = None" "x \<noteq> t" for x
    using that by (simp add: e bpf_lookup_def bpf_update_def AList.update_conv')
  have len: "PIDS_MAX \<le> length (target_pids ?tg) + length tids"
    using Cons.prems(3,4) by (auto simp: e bpf_update_def bpf_lookup_def length_new_key)
  have "\<forall>x\<in>set tids. bpf_lookup (target_pids ?tg) x = None" using Cons.prems(2,3) look by (metis distinct.simps(2) list.set_intros(2))
  moreover have "bpf_lookup (target_pids ?tg) (tgid_of task) \<noteq> None" unfolding e by (rule tracked_update [OF Cons.prems(1)])
  moreover have "bpf_lookup (target_pids ?tg) child = None" using look Cons.prems(5,6) by simp
  ultimately show ?case using Cons.IH [of ?tg] Cons.prems(2,5) len by simp
qed

end
