(* ===== verification/Burst_Detect.thy ===== *)
theory Burst_Detect
  imports Bpf_Gate
begin

unbundle bit_operations_syntax

text \<open>
  The burst analyzers of \<open>src/src/modules/\<close>: \<open>massdelete_detect.bpf.c\<close> with \<open>massdelete_detect_classify.c\<close>, and
  \<open>accessibility_detect.bpf.c\<close> with \<open>accessibility_detect_classify.c\<close>.

  \<^item> the two programs count in the same way (the second says that it mirrors the first), so \<open>burst_record\<close> is the
    common body, with the window, the threshold, the index mask of the ring and the ring's length as arguments;
  \<^item> handlers run one at a time; the zero template is always found, as an array map always has its entry;
  \<^item> a path is a C string of at most 255 characters, the size of the probe's buffer, so copying it into
    a slot of 256 bytes keeps it whole. The task's name is left out of the events.
\<close>

section \<open>Counting\<close>

record 'a burst_state =
  window_start_ns :: u64
  touches_seen :: u32
  ring_head :: u32
  ring :: "'a list"

record 'a burst_maps =
  burst_map :: "(u32, 'a burst_state) bpf_map"
  burst_dropped :: u64

abbreviation BURST_MAX :: nat where "BURST_MAX \<equiv> 128"

definition burst_reset :: "u64 \<Rightarrow> 'a burst_state \<Rightarrow> 'a burst_state" where
  "burst_reset now st = st\<lparr>window_start_ns := now, touches_seen := 0, ring_head := 0\<rparr>"

definition burst_store :: "u64 \<Rightarrow> u32 \<Rightarrow> u64 \<Rightarrow> 'a \<Rightarrow> 'a burst_state \<Rightarrow> 'a burst_state" where
  "burst_store W rmask now x st =
     (let st = (if now - window_start_ns st > W then burst_reset now st else st);
          slot = ring_head st AND rmask
      in st\<lparr>ring := (ring st)[unat slot := x], ring_head := ring_head st + 1, touches_seen := touches_seen st + 1\<rparr>)"

definition burst_find :: "'a list \<Rightarrow> u64 \<Rightarrow> u32 \<Rightarrow> 'a burst_maps \<Rightarrow> ('a burst_state \<times> (u32, 'a burst_state) bpf_map) option" where
  "burst_find zero now pid s = (case bpf_lookup (burst_map s) pid of
     Some st \<Rightarrow> Some (st, burst_map s)
   | None \<Rightarrow> (let st = \<lparr>window_start_ns = 0, touches_seen = 0, ring_head = 0, ring = zero\<rparr> in
       map_option (\<lambda>m. (st\<lparr>window_start_ns := now\<rparr>, m)) (bpf_insert BURST_MAX pid st (burst_map s))))"

definition burst_record ::
  "u64 \<Rightarrow> u32 \<Rightarrow> u32 \<Rightarrow> 'a list \<Rightarrow> ('a burst_state \<Rightarrow> 'e) \<Rightarrow> bool \<Rightarrow> u64 \<Rightarrow> u64 \<Rightarrow> 'a \<Rightarrow> 'a burst_maps \<Rightarrow> 'e option \<times> 'a burst_maps" where
  "burst_record W thr rmask zero mk rb task now x s =
     (let pid = tgid_of task
      in case burst_find zero now pid s of
           None \<Rightarrow> (None, s)
         | Some (st, m) \<Rightarrow>
             let st = burst_store W rmask now x st in
             if touches_seen st \<noteq> thr then (None, s\<lparr>burst_map := bpf_update BURST_MAX pid st m\<rparr>)
             else if \<not> rb then (None, s\<lparr>burst_map := bpf_update BURST_MAX pid (burst_reset now st) m, burst_dropped := burst_dropped s + 1\<rparr>)
             else (Some (mk st), s\<lparr>burst_map := bpf_update BURST_MAX pid (burst_reset now st) m\<rparr>))"

section \<open>Mass deletion\<close>

abbreviation BURST_WINDOW_NS :: u64 where "BURST_WINDOW_NS \<equiv> 10 * 1000000000"
abbreviation MASSDELETE_DETECT_RING_LEN :: nat where "MASSDELETE_DETECT_RING_LEN \<equiv> 32"
abbreviation MASSDELETE_DETECT_THRESHOLD :: nat where "MASSDELETE_DETECT_THRESHOLD \<equiv> 20"

record massdelete_detect_event =
  md_pid :: u32
  md_tid :: u32
  md_ts_ns :: u64
  md_touch_count :: u32
  md_window_ms :: u32
  md_paths :: "string list"
  md_sample_path :: string

type_synonym massdelete = "string burst_maps"

definition record_touch :: "bool \<Rightarrow> u64 \<Rightarrow> u64 \<Rightarrow> string \<Rightarrow> massdelete \<Rightarrow> massdelete_detect_event option \<times> massdelete" where
  "record_touch rb task now path =
     burst_record BURST_WINDOW_NS (of_nat MASSDELETE_DETECT_THRESHOLD) (of_nat MASSDELETE_DETECT_RING_LEN - 1)
       (replicate MASSDELETE_DETECT_RING_LEN '''')
       (\<lambda>st. \<lparr>md_pid = tgid_of task, md_tid = ucast task, md_ts_ns = now, md_touch_count = touches_seen st,
          md_window_ms = ucast ((now - window_start_ns st) div 1000000), md_paths = ring st, md_sample_path = path\<rparr>)
       rb task now path"

definition path_is_interesting :: "string \<Rightarrow> bool" where
  "path_is_interesting path \<longleftrightarrow> path_has_prefix path ''/storage/emulated/'' 18 \<or> path_has_prefix path ''/sdcard/'' 8"

definition on_path :: "nat \<Rightarrow> targets \<Rightarrow> kctx \<Rightarrow> massdelete \<Rightarrow> massdelete_detect_event option \<times> massdelete" where
  "on_path i tg c s =
     (if \<not> uid_matches tg c \<and> \<not> pid_matches tg c then (None, s)
      else case path_arg i c of
          None \<Rightarrow> (None, s)
        | Some path \<Rightarrow>
            if \<not> path_is_interesting path then (None, s)
            else record_touch (k_rb c) (k_id c) (k_now c) (text_of path) s)"

definition on_renameat :: "targets \<Rightarrow> kctx \<Rightarrow> massdelete \<Rightarrow> massdelete_detect_event option \<times> massdelete" where
  "on_renameat = on_path 3"

definition on_renameat2 :: "targets \<Rightarrow> kctx \<Rightarrow> massdelete \<Rightarrow> massdelete_detect_event option \<times> massdelete" where
  "on_renameat2 = on_path 3"

definition on_unlinkat :: "targets \<Rightarrow> kctx \<Rightarrow> massdelete \<Rightarrow> massdelete_detect_event option \<times> massdelete" where
  "on_unlinkat = on_path 1"

text \<open>The user side: how many of the paths differ, and the alert.\<close>

definition burst_distinct_count :: "string list \<Rightarrow> nat \<Rightarrow> nat" where
  "burst_distinct_count paths n =
     fold (\<lambda>i distinct. if list_ex (\<lambda>j. paths ! j = paths ! i) [0..<i] then distinct else distinct + 1) [0..<n] 0"

definition classify_burst :: "int \<Rightarrow> int \<Rightarrow> int \<Rightarrow> u32" where
  "classify_burst touch_count distinct_count manage_ext_storage =
     (let cat = 0;
          cat = (if touch_count \<ge> int MASSDELETE_DETECT_THRESHOLD \<and> distinct_count \<ge> 10 then cat OR 1 else cat);
          cat = (if manage_ext_storage = 1 then cat OR 2 else cat)
      in cat)"

section \<open>Accessibility\<close>

abbreviation A11Y_WINDOW_NS :: u64 where "A11Y_WINDOW_NS \<equiv> 5 * 1000000000"
abbreviation ACCESSIBILITY_DETECT_CODE_RING_LEN :: nat where "ACCESSIBILITY_DETECT_CODE_RING_LEN \<equiv> 64"
abbreviation ACCESSIBILITY_DETECT_THRESHOLD :: nat where "ACCESSIBILITY_DETECT_THRESHOLD \<equiv> 50"

record accessibility_detect_event =
  a11y_pid :: u32
  a11y_tid :: u32
  a11y_ts_ns :: u64
  a11y_touch_count :: u32
  a11y_window_ms :: u32
  code_samples :: "u32 list"

type_synonym a11y = "u32 burst_maps"

definition record_call :: "bool \<Rightarrow> u64 \<Rightarrow> u64 \<Rightarrow> u32 \<Rightarrow> a11y \<Rightarrow> accessibility_detect_event option \<times> a11y" where
  "record_call rb task now code =
     burst_record A11Y_WINDOW_NS (of_nat ACCESSIBILITY_DETECT_THRESHOLD) (of_nat ACCESSIBILITY_DETECT_CODE_RING_LEN - 1)
       (replicate ACCESSIBILITY_DETECT_CODE_RING_LEN 0)
       (\<lambda>st. \<lparr>a11y_pid = tgid_of task, a11y_tid = ucast task, a11y_ts_ns = now, a11y_touch_count = touches_seen st,
          a11y_window_ms = ucast ((now - window_start_ns st) div 1000000), code_samples = ring st\<rparr>)
       rb task now code"

definition on_binder_transaction ::
  "u32 \<Rightarrow> targets \<Rightarrow> kctx \<Rightarrow> bool \<Rightarrow> u32 \<Rightarrow> u32 \<Rightarrow> a11y \<Rightarrow> accessibility_detect_event option \<times> a11y" where
  "on_binder_transaction sys_server_pid tg c reply to_proc code s =
     (if \<not> uid_matches tg c \<and> \<not> pid_matches tg c then (None, s)
      else if reply then (None, s)
      else if sys_server_pid = 0 \<or> to_proc \<noteq> sys_server_pid then (None, s)
      else record_call (k_rb c) (k_id c) (k_now c) code s)"

definition classify_accessibility :: "int \<Rightarrow> int \<Rightarrow> u32" where
  "classify_accessibility touch_count g =
     (let cat = 0;
          cat = (if touch_count \<ge> int ACCESSIBILITY_DETECT_THRESHOLD then cat OR 1 else cat);
          cat = (if g = 1 then cat OR 2 else cat)
      in cat)"

section \<open>The maps hold the windows\<close>

definition burst_ok :: "nat \<Rightarrow> nat \<Rightarrow> 'a burst_state \<Rightarrow> bool" where
  "burst_ok N len st \<longleftrightarrow> length (ring st) = len \<and> unat (touches_seen st) < N \<and> ring_head st = touches_seen st"

definition burst_inv :: "nat \<Rightarrow> nat \<Rightarrow> u32 set \<Rightarrow> 'a burst_maps \<Rightarrow> bool" where
  "burst_inv N len S s \<longleftrightarrow> finite S \<and> card S \<le> BURST_MAX \<and> keys_ok (burst_map s) \<and> dom (bpf_lookup (burst_map s)) \<subseteq> S \<and>
     (\<forall>p st. bpf_lookup (burst_map s) p = Some st \<longrightarrow> burst_ok N len st)"

definition burst_window :: "'a burst_state \<Rightarrow> u64 \<times> 'a list" where
  "burst_window st = (window_start_ns st, take (unat (touches_seen st)) (ring st))"

definition burst_win :: "'a burst_maps \<Rightarrow> 'a windows" where
  "burst_win s p = map_option burst_window (bpf_lookup (burst_map s) p)"

interpretation bursts: bpf_hash BURST_MAX bpf_lookup "bpf_update BURST_MAX :: u32 \<Rightarrow> 'a burst_state \<Rightarrow> _" bpf_delete keys_ok
  by (rule bpf_hash_alist)

definition burst_start :: "'a burst_maps" where
  "burst_start = \<lparr>burst_map = [], burst_dropped = 0\<rparr>"

lemma burst_store_window:
  assumes ok: "burst_ok N len st" and n: "N \<le> len" "N < 2 ^ 32" and m: "\<And>h. unat h < N \<Longrightarrow> h AND rmask = h"
  shows "burst_store W rmask now x st =
    (let (start, xs) = (if now - window_start_ns st > W then (now, []) else burst_window st)
     in \<lparr>window_start_ns = start, touches_seen = of_nat (length xs) + 1, ring_head = of_nat (length xs) + 1,
         ring = (ring st)[length xs := x]\<rparr>)"
    "length (snd (burst_window st)) = unat (touches_seen st)"
proof -
  have o: "length (ring st) = len" "unat (touches_seen st) < N" "ring_head st = touches_seen st" using ok by (auto simp: burst_ok_def)
  show l: "length (snd (burst_window st)) = unat (touches_seen st)" using o n by (simp add: burst_window_def)
  have "(0 :: u32) AND rmask = 0" by simp
  then show "burst_store W rmask now x st =
    (let (start, xs) = (if now - window_start_ns st > W then (now, []) else burst_window st)
     in \<lparr>window_start_ns = start, touches_seen = of_nat (length xs) + 1, ring_head = of_nat (length xs) + 1,
         ring = (ring st)[length xs := x]\<rparr>)"
    using l o m [OF o(2)] by (cases st) (auto simp: burst_store_def burst_reset_def Let_def burst_window_def min_def)
qed


lemma burst_find_room:
  assumes i: "burst_inv N len S s" and p: "pid \<in> S" and N: "0 < N" and z: "length zero = len"
  obtains st m where "burst_find zero now pid s = Some (st, m)" "burst_ok N len st"
    "\<forall>st'. keys_ok (bpf_update BURST_MAX pid st' m)" "\<forall>st'. bpf_lookup (bpf_update BURST_MAX pid st' m) = (bpf_lookup (burst_map s))(pid \<mapsto> st')"
    "case bpf_lookup (burst_map s) pid of None \<Rightarrow> burst_window st = (now, []) | Some st0 \<Rightarrow> st = st0"
proof (cases "bpf_lookup (burst_map s) pid")
  case (Some st)
  have k: "keys_ok (burst_map s)" using i by (simp add: burst_inv_def)
  show ?thesis using that [of st "burst_map s"] Some bursts.upd_inv [OF k] bursts.look_upd [OF k, of pid] i
    by (auto simp: burst_find_def burst_inv_def)
next
  case None
  have k: "keys_ok (burst_map s)" using i by (simp add: burst_inv_def)
  have "dom (bpf_lookup (burst_map s)) \<subset> S" using i None p by (auto simp: burst_inv_def)
  then have "card (dom (bpf_lookup (burst_map s))) < card S" using i by (intro psubset_card_mono) (auto simp: burst_inv_def)
  then have r: "length (burst_map s) < BURST_MAX" using i card_dom_map_of [OF k] by (simp add: burst_inv_def bpf_lookup_def [abs_def])
  let ?z = "\<lparr>window_start_ns = 0, touches_seen = 0, ring_head = 0, ring = zero\<rparr>"
  let ?m = "bpf_update BURST_MAX pid ?z (burst_map s)"
  have f: "burst_find zero now pid s = Some (?z\<lparr>window_start_ns := now\<rparr>, ?m)"
    using None r by (simp add: burst_find_def bpf_insert_def bpf_update_def bpf_lookup_def Let_def)
  have m: "keys_ok ?m" "bpf_lookup ?m = (bpf_lookup (burst_map s))(pid \<mapsto> ?z)"
    using bursts.upd_inv [OF k] bursts.look_upd [OF k, of pid] r card_dom_map_of [OF k] by (auto simp: bpf_lookup_def [abs_def])
  show ?thesis using that [OF f] m bursts.upd_inv [OF m(1)] bursts.look_upd [OF m(1), of pid] None N z
    by (simp add: burst_ok_def burst_window_def)
qed

text \<open>Whatever the window, a touch adds to it, and fills it at the threshold.\<close>

lemma burst_store_ok:
  assumes ok: "burst_ok N len st" and n: "N \<le> len" "N < 2 ^ 32" and m: "\<And>h. unat h < N \<Longrightarrow> h AND rmask = h"
    and w: "(start, xs) = (if now - window_start_ns st > W then (now, []) else burst_window st)"
  shows "touches_seen (burst_store W rmask now x st) = of_nat N \<longleftrightarrow> Suc (length xs) = N"
    "burst_window (burst_store W rmask now x st) = (start, xs @ [x])"
    "Suc (length xs) \<noteq> N \<Longrightarrow> burst_ok N len (burst_store W rmask now x st)"
    "burst_ok N len (burst_reset t (burst_store W rmask now x st))"
    "burst_window (burst_reset t (burst_store W rmask now x st)) = (t, [])"
proof -
  have o: "length (ring st) = len" "unat (touches_seen st) < N" using ok by (auto simp: burst_ok_def)
  have l: "length xs < N" "take (length xs) (ring st) = xs"
    using w burst_store_window(2) [OF ok n m] o by (auto simp: burst_window_def min_def split: if_splits)
  have e: "burst_store W rmask now x st = \<lparr>window_start_ns = start, touches_seen = of_nat (Suc (length xs)), ring_head = of_nat (Suc (length xs)),
      ring = (ring st)[length xs := x]\<rparr>"
    using burst_store_window(1) [OF ok n m, where W = W and now = now and x = x] w [symmetric] by (simp add: add.commute)
  have u: "unat (of_nat (Suc (length xs)) :: u32) = Suc (length xs)" "unat (of_nat N :: u32) = N"
    using l(1) n(2) unfolding unat_of_nat by simp_all
  have "(of_nat (Suc (length xs)) :: u32) = of_nat N \<longleftrightarrow> Suc (length xs) = N"
    using u by metis
  then show "touches_seen (burst_store W rmask now x st) = of_nat N \<longleftrightarrow> Suc (length xs) = N" by (simp add: e)
  show "burst_window (burst_store W rmask now x st) = (start, xs @ [x])"
    using u l o n(1) by (simp add: e burst_window_def take_Suc_conv_app_nth)
  show "burst_ok N len (burst_store W rmask now x st)" if "Suc (length xs) \<noteq> N" using that u l(1) o(1) by (simp add: e burst_ok_def)
  show "burst_ok N len (burst_reset t (burst_store W rmask now x st))" using o(1) l(1) by (simp add: e burst_ok_def burst_reset_def)
  show "burst_window (burst_reset t (burst_store W rmask now x st)) = (t, [])" by (simp add: burst_reset_def burst_window_def)
qed

text \<open>The window a touch falls into, in the two views.\<close>

lemma window_touch_eq:
  assumes "(start, xs) = (if at_ns t - fst v > W then (at_ns t, []) else v)" "case w (tpid t) of None \<Rightarrow> v = (at_ns t, []) | Some v0 \<Rightarrow> v = v0"
  shows "window_touch W N t w =
    (if Suc (length xs) = N then (Some (start, xs @ [what t]), w(tpid t \<mapsto> (at_ns t, []))) else (None, w(tpid t \<mapsto> (start, xs @ [what t]))))"
  using assms by (cases "w (tpid t)"; cases v) (auto simp: window_touch_def Let_def split: if_splits)

definition burst_event :: "nat \<Rightarrow> ('a burst_state \<Rightarrow> 'e) \<Rightarrow> 'e \<Rightarrow> u64 \<Rightarrow> 'a list \<Rightarrow> bool" where
  "burst_event N mk e start xs \<longleftrightarrow>
     (\<exists>st. e = mk st \<and> window_start_ns st = start \<and> touches_seen st = of_nat N \<and> take N (ring st) = xs)"

lemma burst_record_sim:
  fixes s :: "'a burst_maps" and t :: "'a touch" and W :: u64 and mk :: "'a burst_state \<Rightarrow> 'e"
  assumes i: "burst_inv N len S s" and p: "tpid t \<in> S" and N: "0 < N" "N \<le> len" "N < 2 ^ 32" and z: "length zero = len"
    and m: "\<And>h. unat h < N \<Longrightarrow> h AND rmask = h"
  defines "r \<equiv> burst_record W (of_nat N) rmask zero mk (granted t) (task_id t) (at_ns t) (what t) s"
  shows "burst_inv N len S (snd r)" "burst_win (snd r) = snd (window_touch W N t (burst_win s))"
    "fst r = None \<longleftrightarrow> \<not> granted t \<or> fst (window_touch W N t (burst_win s)) = None"
    "fst r = Some e \<Longrightarrow> fst (window_touch W N t (burst_win s)) = Some (start, xs) \<Longrightarrow> burst_event N mk e start xs"
proof -
  obtain st mp where f: "burst_find zero (at_ns t) (tpid t) s = Some (st, mp)" and ok: "burst_ok N len st"
    and kl: "\<forall>st'. keys_ok (bpf_update BURST_MAX (tpid t) st' mp)" "\<forall>st'. bpf_lookup (bpf_update BURST_MAX (tpid t) st' mp) = (bpf_lookup (burst_map s))(tpid t \<mapsto> st')"
    and c: "case bpf_lookup (burst_map s) (tpid t) of None \<Rightarrow> burst_window st = (at_ns t, []) | Some st0 \<Rightarrow> st = st0"
    by (rule burst_find_room [OF i p N(1) z, where now = "at_ns t"])
  obtain a ys where w: "(a, ys) = (if at_ns t - window_start_ns st > W then (at_ns t, []) else burst_window st)"
    by (metis surj_pair)
  let ?st = "burst_store W rmask (at_ns t) (what t) st"
  note o = burst_store_ok [OF ok N(2,3) m w]
  have v: "window_touch W N t (burst_win s) = (if Suc (length ys) = N then (Some (a, ys @ [what t]), (burst_win s)(tpid t \<mapsto> (at_ns t, [])))
      else (None, (burst_win s)(tpid t \<mapsto> (a, ys @ [what t]))))"
    by (rule window_touch_eq [where v = "burst_window st"]) (use w c in \<open>auto simp: burst_window_def burst_win_def split: option.splits\<close>)
  have r: "r = (if Suc (length ys) \<noteq> N then (None, s\<lparr>burst_map := bpf_update BURST_MAX (tpid t) ?st mp\<rparr>)
     else if \<not> granted t then (None, s\<lparr>burst_map := bpf_update BURST_MAX (tpid t) (burst_reset (at_ns t) ?st) mp, burst_dropped := burst_dropped s + 1\<rparr>)
     else (Some (mk ?st), s\<lparr>burst_map := bpf_update BURST_MAX (tpid t) (burst_reset (at_ns t) ?st) mp\<rparr>))"
    unfolding r_def burst_record_def Let_def f using o(1) by simp
  have win: "burst_win (s\<lparr>burst_map := bpf_update BURST_MAX (tpid t) st' mp, burst_dropped := d\<rparr>) = (burst_win s)(tpid t \<mapsto> burst_window st')" for st' d
    by (auto simp: burst_win_def kl fun_eq_iff)
  have inv: "burst_inv N len S (s\<lparr>burst_map := bpf_update BURST_MAX (tpid t) st' mp, burst_dropped := d\<rparr>)" if "burst_ok N len st'" for st' d
    using i p that by (auto simp: burst_inv_def kl split: if_splits)
  show "burst_inv N len S (snd r)" using inv [where d = "burst_dropped s"] inv o(3,4) by (auto simp: r)
  show "burst_win (snd r) = snd (window_touch W N t (burst_win s))" using win [where d = "burst_dropped s"] win o(2,5) by (auto simp: r v)
  show "fst r = None \<longleftrightarrow> \<not> granted t \<or> fst (window_touch W N t (burst_win s)) = None" by (auto simp: r v)
  show "burst_event N mk e start xs" if "fst r = Some e" "fst (window_touch W N t (burst_win s)) = Some (start, xs)"
    using that o(1,2) N(3) unfolding burst_event_def by (intro exI [of _ ?st]) (auto simp: r v burst_window_def unat_of_nat split: if_splits)
qed

lemma burst_start_ok: "finite S \<Longrightarrow> card S \<le> BURST_MAX \<Longrightarrow> burst_inv N len S burst_start" "burst_win burst_start = Map.empty"
  by (auto simp: burst_inv_def burst_start_def keys_ok_def bpf_lookup_def burst_win_def fun_eq_iff)

lemma and_mask_low: "unat (h :: u32) < 2 ^ k \<Longrightarrow> h AND mask k = h"
  by (simp add: take_bit_eq_mask [symmetric] word_unat_eq_iff unsigned_take_bit_eq take_bit_nat_eq_self)

text \<open>So the common body is a detector, for any way to make an event from a touch and the state.\<close>

definition burst_reports :: "nat \<Rightarrow> ('a touch \<Rightarrow> 'a burst_state \<Rightarrow> 'e) \<Rightarrow> u64 \<Rightarrow> 'e \<Rightarrow> u32 \<Rightarrow> u64 \<Rightarrow> 'a list \<Rightarrow> bool" where
  "burst_reports N mk now e p start xs \<longleftrightarrow> (\<exists>t. at_ns t = now \<and> tpid t = p \<and> burst_event N (mk t) e start xs)"

lemma burst_record_detector:
  fixes zero :: "'a list"
  assumes N: "0 < N" "N \<le> len" "N < 2 ^ 32" and z: "length zero = len" and m: "\<And>h. unat h < N \<Longrightarrow> h AND rmask = h"
  shows "burst_detector W N BURST_MAX
    (\<lambda>t. burst_record W (of_nat N) rmask zero (mk t) (granted t) (task_id t) (at_ns t) (what t))
    burst_start burst_win (burst_inv N len) (burst_reports N mk)"
proof
  fix S and s :: "'a burst_maps" and t :: "'a touch" and e start xs
  assume s: "burst_inv N len S s" "tpid t \<in> S"
  let ?r = "burst_record W (of_nat N) rmask zero (mk t) (granted t) (task_id t) (at_ns t) (what t) s"
  note sim = burst_record_sim [OF s N z m, of W "mk t"]
  show "burst_inv N len S (snd ?r)" by (rule sim(1))
  show "burst_win (snd ?r) = snd (window_touch W N t (burst_win s))" by (rule sim(2))
  show "fst ?r = None \<longleftrightarrow> \<not> granted t \<or> fst (window_touch W N t (burst_win s)) = None" by (rule sim(3))
  assume "fst ?r = Some e" "fst (window_touch W N t (burst_win s)) = Some (start, xs)"
  then show "burst_reports N mk (at_ns t) e (tpid t) start xs" using sim(4) by (auto simp: burst_reports_def)
qed (simp_all add: N(1) burst_start_ok)

definition touch_step :: "string touch \<Rightarrow> massdelete \<Rightarrow> massdelete_detect_event option \<times> massdelete" where
  "touch_step t = record_touch (granted t) (task_id t) (at_ns t) (what t)"

definition call_step :: "u32 touch \<Rightarrow> a11y \<Rightarrow> accessibility_detect_event option \<times> a11y" where
  "call_step t = record_call (granted t) (task_id t) (at_ns t) (what t)"

definition md_event :: "string touch \<Rightarrow> string burst_state \<Rightarrow> massdelete_detect_event" where
  "md_event t st = \<lparr>md_pid = tpid t, md_tid = ucast (task_id t), md_ts_ns = at_ns t, md_touch_count = touches_seen st,
     md_window_ms = ucast ((at_ns t - window_start_ns st) div 1000000), md_paths = ring st, md_sample_path = what t\<rparr>"

definition a11y_event :: "u32 touch \<Rightarrow> u32 burst_state \<Rightarrow> accessibility_detect_event" where
  "a11y_event t st = \<lparr>a11y_pid = tpid t, a11y_tid = ucast (task_id t), a11y_ts_ns = at_ns t, a11y_touch_count = touches_seen st,
     a11y_window_ms = ucast ((at_ns t - window_start_ns st) div 1000000), code_samples = ring st\<rparr>"

interpretation massdelete: burst_detector BURST_WINDOW_NS MASSDELETE_DETECT_THRESHOLD BURST_MAX touch_step burst_start burst_win
  "burst_inv MASSDELETE_DETECT_THRESHOLD MASSDELETE_DETECT_RING_LEN" "burst_reports MASSDELETE_DETECT_THRESHOLD md_event"
  unfolding touch_step_def [abs_def] record_touch_def md_event_def [abs_def]
  by (rule burst_record_detector) (use and_mask_low [of _ 5] in \<open>auto simp: mask_eq_exp_minus_1\<close>)

interpretation accessibility: burst_detector A11Y_WINDOW_NS ACCESSIBILITY_DETECT_THRESHOLD BURST_MAX call_step burst_start burst_win
  "burst_inv ACCESSIBILITY_DETECT_THRESHOLD ACCESSIBILITY_DETECT_CODE_RING_LEN" "burst_reports ACCESSIBILITY_DETECT_THRESHOLD a11y_event"
  unfolding call_step_def [abs_def] record_call_def a11y_event_def [abs_def]
  by (rule burst_record_detector) (use and_mask_low [of _ 6] in \<open>auto simp: mask_eq_exp_minus_1\<close>)

section \<open>The probes\<close>

datatype md_probe = Renameat | Renameat2 | Unlinkat

fun md_step :: "targets \<Rightarrow> md_probe \<times> kctx \<Rightarrow> massdelete \<Rightarrow> massdelete_detect_event option \<times> massdelete" where
  "md_step tg (Renameat, c) = on_renameat tg c"
| "md_step tg (Renameat2, c) = on_renameat2 tg c"
| "md_step tg (Unlinkat, c) = on_unlinkat tg c"

text \<open>The touch a call stands for: one by a target, of a path on external storage.\<close>

fun md_touch :: "targets \<Rightarrow> md_probe \<times> kctx \<Rightarrow> string touch option" where
  "md_touch tg (pr, c) =
     (case k_str c (untag (k_regs c (if pr = Unlinkat then 1 else 3))) of
        Some u \<Rightarrow>
          if (uid_matches tg c \<or> pid_matches tg c) \<and> (take 18 (text_of u) = ''/storage/emulated/'' \<or> take 8 (text_of u) = ''/sdcard/'')
          then Some \<lparr>granted = k_rb c, task_id = k_id c, at_ns = k_now c, what = take 255 (text_of u)\<rparr> else None
      | None \<Rightarrow> None)"

lemma path_is_interesting_iff:
  "path_is_interesting (read_str 256 u old) \<longleftrightarrow> take 18 (text_of u) = ''/storage/emulated/'' \<or> take 8 (text_of u) = ''/sdcard/''"
  unfolding path_is_interesting_def by (subst (1 2) prefix_read_str_n) simp_all

lemma md_step_touch: "md_step tg op s = (case md_touch tg op of None \<Rightarrow> (None, s) | Some t \<Rightarrow> touch_step t s)"
proof -
  obtain pr c where op: "op = (pr, c)" by fastforce
  show ?thesis unfolding op
    by (cases pr) (auto simp: on_renameat_def on_renameat2_def on_unlinkat_def on_path_def path_arg_def path_is_interesting_iff touch_step_def
        split: option.splits)
qed

lemma md_steps: "steps (md_step tg) ops s = steps touch_step (List.map_filter (md_touch tg) ops) s"
  by (induction ops arbitrary: s) (auto simp: md_step_touch map_filter_simps split: option.splits)

abbreviation op_now :: "md_probe \<times> kctx \<Rightarrow> u64" where "op_now op \<equiv> k_now (snd op)"
abbreviation op_pid :: "md_probe \<times> kctx \<Rightarrow> u32" where "op_pid op \<equiv> tgid_of (k_id (snd op))"

lemma md_touch_Some: "md_touch tg op = Some t \<Longrightarrow> at_ns t = op_now op \<and> tpid t = op_pid op \<and> granted t = k_rb (snd op)"
  by (cases op) (auto split: option.splits if_splits)

lemma map_filter_append: "List.map_filter f (xs @ ys) = List.map_filter f xs @ List.map_filter f ys"
  by (induction xs) (auto simp: map_filter_simps split: option.splits)

lemma set_map_filter: "t \<in> set (List.map_filter f xs) \<Longrightarrow> \<exists>x\<in>set xs. f x = Some t"
  by (induction xs) (auto simp: map_filter_simps split: option.splits)

lemma touches_pids: "tpid ` set (List.map_filter (md_touch tg) ops) \<subseteq> op_pid ` set ops"
  by (auto dest!: set_map_filter md_touch_Some)

lemma touches_sorted: "sorted (map op_now ops) \<Longrightarrow> sorted_times (List.map_filter (md_touch tg) ops)"
proof (induction ops)
  case (Cons op ops)
  then show ?case by (auto simp: sorted_times_def map_filter_simps dest!: set_map_filter md_touch_Some split: option.splits)
qed (simp add: sorted_times_def map_filter_simps)

section \<open>The user side\<close>

lemma distinct_fold:
  "fold (\<lambda>i d. if list_ex (\<lambda>j. xs ! j = xs ! i) [0..<i] then d else d + 1) [0..<n] 0 = card (set (take n xs))" if "n \<le> length xs"
  using that
proof (induction n)
  case (Suc n)
  have t: "set (take (Suc n) xs) = insert (xs ! n) (set (take n xs))" using Suc.prems by (simp add: take_Suc_conv_app_nth)
  have "list_ex (\<lambda>j. xs ! j = xs ! n) [0..<n] \<longleftrightarrow> xs ! n \<in> set (take n xs)"
    using Suc.prems by (force simp: list_ex_iff in_set_conv_nth)
  then show ?case using Suc t by (simp add: insert_absorb)
qed simp

lemma distinct_count_set: "n \<le> length paths \<Longrightarrow> burst_distinct_count paths n = card (set (take n paths))"
  unfolding burst_distinct_count_def by (rule distinct_fold)


lemma alerts_of_touches:
  "alerts touch_step p (List.map_filter (md_touch tg) us) s \<Longrightarrow>
     \<exists>pre op post. us = pre @ op # post \<and> op_pid op = p \<and> fst (md_step tg op (steps (md_step tg) pre s)) \<noteq> None"
proof (induction us arbitrary: s)
  case (Cons op us)
  show ?case
  proof (cases "\<exists>t. md_touch tg op = Some t \<and> tpid t = p \<and> fst (touch_step t s) \<noteq> None")
    case True
    then obtain t where t: "md_touch tg op = Some t" "tpid t = p" "fst (touch_step t s) \<noteq> None" by blast
    then have "op_pid op = p" "fst (md_step tg op s) \<noteq> None" using md_touch_Some [OF t(1)] by (auto simp: md_step_touch)
    then show ?thesis by (intro exI [of _ "[]"] exI [of _ op] exI [of _ us]) simp
  next
    case False
    have "alerts touch_step p (List.map_filter (md_touch tg) us) (snd (md_step tg op s))"
    proof (cases "md_touch tg op")
      case (Some t)
      then have "alerts touch_step p (t # List.map_filter (md_touch tg) us) s" using Cons.prems by (simp add: map_filter_simps)
      then obtain pre u post where u: "t # List.map_filter (md_touch tg) us = pre @ u # post" "tpid u = p" "fst (touch_step u (steps touch_step pre s)) \<noteq> None"
        by (auto simp: alerts_def)
      then show ?thesis using False Some by (cases pre) (auto simp: alerts_def md_step_touch)
    qed (use Cons.prems in \<open>simp add: map_filter_simps md_step_touch\<close>)
    then obtain pre o' post where "us = pre @ o' # post" "op_pid o' = p" "fst (md_step tg o' (steps (md_step tg) pre (snd (md_step tg op s)))) \<noteq> None"
      using Cons.IH by blast
    then show ?thesis by (intro exI [of _ "op # pre"] exI [of _ o'] exI [of _ post]) simp
  qed
qed (simp add: alerts_def map_filter_simps)


section \<open>Alerts\<close>

lemma word_sub_le_window: "(t0 :: u64) \<le> a \<Longrightarrow> a \<le> u \<Longrightarrow> u - t0 \<le> W \<Longrightarrow> u - a \<le> W"
  using word_diff_mono order_trans by blast

lemma window_ms_le: "(d :: u64) \<le> of_nat (k * 1000000) \<Longrightarrow> k * 1000000 < 2 ^ 32 * 1000000 \<Longrightarrow> unat (ucast (d div 1000000) :: u32) \<le> k"
proof -
  assume d: "d \<le> of_nat (k * 1000000)" and k: "k * 1000000 < 2 ^ 32 * 1000000"
  have "unat (of_nat (k * 1000000) :: u64) = k * 1000000" using k unfolding unat_of_nat by simp
  then have "unat d \<le> k * 1000000" using d by (simp add: word_le_nat_alt)
  then have "unat d div 1000000 \<le> k" by simp
  moreover have "unat (ucast (d div 1000000) :: u32) \<le> unat (d div 1000000)" by (simp add: unsigned_ucast_eq)
  ultimately show ?thesis by (simp add: unat_div)
qed

lemma burst_reports_md:
  assumes "burst_reports 20 md_event now e p start xs"
  shows "md_pid e = p" "md_ts_ns e = now" "md_touch_count e = 20" "md_window_ms e = ucast ((now - start) div 1000000)" "take 20 (md_paths e) = xs"
  using assms by (auto simp: burst_reports_def burst_event_def md_event_def)

text \<open>C30: a mass-deletion alert says the truth about the burst. Whatever calls came before, in the order of the
  clock and by at most 128 processes, an alert names the calling process; the first twenty paths it carries
  are the last twenty paths this process renamed to or unlinked on external storage, in order, all within
  the ten seconds before; and the number of distinct files computed from it is right.\<close>

theorem massdelete_alert_exact:
  assumes few: "card (op_pid ` set (ops @ [op])) \<le> BURST_MAX" and s: "sorted (map op_now (ops @ [op]))"
    and e: "md_step tg op (steps (md_step tg) ops burst_start) = (Some e, s')"
  shows "\<exists>old q. mine (op_pid op) (List.map_filter (md_touch tg) (ops @ [op])) = old @ q \<and> length q = 20 \<and>
    md_pid e = op_pid op \<and> md_ts_ns e = op_now op \<and> md_touch_count e = 20 \<and> unat (md_window_ms e) \<le> 10000 \<and>
    take 20 (md_paths e) = map what q \<and> (\<forall>u\<in>set q. at_ns u \<le> op_now op \<and> op_now op - at_ns u \<le> BURST_WINDOW_NS) \<and>
    burst_distinct_count (md_paths e) 20 = card (set (map what q))"
proof -
  obtain t where t: "md_touch tg op = Some t" using e by (auto simp: md_step_touch split: option.splits)
  let ?ts = "List.map_filter (md_touch tg) ops"
  have f: "List.map_filter (md_touch tg) (ops @ [op]) = ?ts @ [t]" by (simp add: map_filter_append map_filter_simps t)
  have p: "tpid t = op_pid op" "at_ns t = op_now op" using md_touch_Some [OF t] by auto
  have S: "tpid ` set (?ts @ [t]) \<subseteq> op_pid ` set (ops @ [op])" using touches_pids [of tg "ops @ [op]"] unfolding f .
  have o: "sorted_times (?ts @ [t])" using touches_sorted [OF s, of tg] unfolding f .
  have "touch_step t (steps touch_step ?ts burst_start) = (Some e, s')" using e t by (simp add: md_step_touch md_steps)
  then obtain old q start where q: "mine (tpid t) (?ts @ [t]) = old @ q" "length q = 20" and r: "burst_reports 20 md_event (at_ns t) e (tpid t) start (map what q)"
    and b: "\<forall>u\<in>set q. start \<le> at_ns u \<and> at_ns u \<le> at_ns t" "start \<le> at_ns t" "at_ns t - start \<le> BURST_WINDOW_NS"
    using massdelete.event_sound [OF _ few S o] by blast
  note m = burst_reports_md [OF r]
  have "unat (md_window_ms e) \<le> 10000" unfolding m(4) by (rule window_ms_le) (use b(3) in simp_all)
  moreover have "\<forall>u\<in>set q. at_ns u \<le> op_now op \<and> op_now op - at_ns u \<le> BURST_WINDOW_NS"
    using b word_sub_le_window p(2) by metis
  moreover have "20 \<le> length (md_paths e)" using m(5) q(2) by (metis length_map length_take min.cobounded1)
  then have "burst_distinct_count (md_paths e) 20 = card (set (map what q))" by (simp only: distinct_count_set m(5))
  ultimately show ?thesis using q m p by (intro exI [of _ old] exI [of _ q]) (simp add: f)
qed




section \<open>A small run\<close>

definition sample_targets :: targets where
  "sample_targets = \<lparr>target_uids = [(10123, 1)], target_pids = []\<rparr>"

definition sample_call :: "md_probe \<times> kctx" where
  "sample_call = (Unlinkat, \<lparr>k_uid_gid = 10123, k_id = 0x4d200000501, k_now = 7000000000, k_regs = (\<lambda>i. if i = 1 then 0xb400000000001000 else 0),
     k_str = (\<lambda>p. if p = 0x1000 then Some ''/sdcard/a'' else None), k_mem = (\<lambda>_ _. None), k_stack = replicate 256 CHR ''x'', k_rb = True\<rparr>)"

definition sample_touch :: "string touch" where
  "sample_touch = \<lparr>granted = True, task_id = 0x4d200000501, at_ns = 7000000000, what = ''/sdcard/a''\<rparr>"

lemma sample_call_touch: "md_touch sample_targets sample_call = Some sample_touch"
  by (simp add: sample_call_def sample_targets_def sample_touch_def uid_matches_def bpf_lookup_def untag_def text_of_def)

lemma sample_replicate: "List.map_filter (md_touch sample_targets) (replicate n sample_call) = replicate n sample_touch"
  by (induction n) (simp_all add: map_filter_simps sample_call_touch)

lemma sample_alert: "fst (md_step sample_targets sample_call (steps (md_step sample_targets) (replicate 19 sample_call) burst_start)) \<noteq> None"
proof -
  have r: "replicate 19 sample_touch = sample_touch # replicate 18 sample_touch" by (simp add: numeral_eq_Suc)
  show ?thesis using massdelete.threshold_alerts [of sample_touch]
    by (simp add: md_step_touch sample_call_touch md_steps sample_replicate r del: steps_simps replicate_Suc) (simp add: sample_touch_def)
qed

lemma massdelete_alert_exact_witness:
  "\<exists>e s'. md_step sample_targets sample_call (steps (md_step sample_targets) (replicate 19 sample_call) burst_start) = (Some e, s') \<and>
     md_pid e = 1234 \<and> md_touch_count e = 20 \<and> length (take 20 (md_paths e)) = 20"
proof -
  obtain e s' where e: "md_step sample_targets sample_call (steps (md_step sample_targets) (replicate 19 sample_call) burst_start) = (Some e, s')"
    using sample_alert by (cases "md_step sample_targets sample_call (steps (md_step sample_targets) (replicate 19 sample_call) burst_start)") auto
  have "op_pid sample_call = 1234" by (simp add: sample_call_def tgid_of_def)
  then show ?thesis using massdelete_alert_exact [of "replicate 19 sample_call" sample_call sample_targets e s'] e by (auto simp: sorted_append simp del: length_take)
qed



text \<open>The windows do not slide. One call opens a window; forty-eight more at its very end and forty-nine a nanosecond
  later raise no alert, although \<open>mod_events.h\<close> speaks of a sliding window and the threshold is fifty.\<close>

abbreviation call_at :: "u64 \<Rightarrow> u32 \<Rightarrow> u64 \<Rightarrow> u32 touch" where
  "call_at task code now \<equiv> \<lparr>granted = True, task_id = task, at_ns = now, what = code\<rparr>"

theorem a11y_window_tumbles:
  "\<not> alerts call_step (tgid_of task)
     (call_at task c t0 # replicate 48 (call_at task c (t0 + A11Y_WINDOW_NS)) @ replicate 49 (call_at task c (t0 + A11Y_WINDOW_NS + 1))) burst_start"
proof -
  have r: "replicate 49 x = x # replicate (ACCESSIBILITY_DETECT_THRESHOLD - 2) x" for x :: "u32 touch" by (simp add: numeral_eq_Suc)
  have "\<not> alerts call_step (tgid_of task) (call_at task c t0 # replicate (ACCESSIBILITY_DETECT_THRESHOLD - 2) (call_at task c (t0 + A11Y_WINDOW_NS)) @
     call_at task c (t0 + A11Y_WINDOW_NS + 1) # replicate (ACCESSIBILITY_DETECT_THRESHOLD - 2) (call_at task c (t0 + A11Y_WINDOW_NS + 1))) burst_start"
    by (rule accessibility.split_burst_missed) simp_all
  then show ?thesis unfolding r by simp
qed

end
