(* ===== verification/Exfil_Detect.thy ===== *)
theory Exfil_Detect
  imports Bpf_Gate
begin

unbundle bit_operations_syntax

text \<open>
  \<open>src/src/modules/exfil_detect.bpf.c\<close>: opening a sensitive file arms a process, the bytes it then sends to
  outside addresses are added up, and a total over the threshold inside the window raises an alert.

  \<^item> \<open>exfil\<close> is the two maps and the drop counter; handlers run one at a time;
  \<^item> texts in the state are C strings of at most 255 characters, the size of the probe's path buffer, so that
    copies between the buffers keep them whole. The task's name is left out of the event.
\<close>

section \<open>State\<close>

abbreviation EXFIL_WINDOW_NS :: u64 where "EXFIL_WINDOW_NS \<equiv> 30 * 1000000000"
abbreviation EXFIL_BYTE_THRESHOLD :: u64 where "EXFIL_BYTE_THRESHOLD \<equiv> 512 * 1024"
abbreviation EXFIL_RECENT_NS :: u64 where "EXFIL_RECENT_NS \<equiv> 3 * 1000000000"
abbreviation EXFIL_DETECT_RING_LEN :: nat where "EXFIL_DETECT_RING_LEN \<equiv> 32"
abbreviation EXFIL_MAX :: nat where "EXFIL_MAX \<equiv> 128"
abbreviation SOCK_FDS_MAX :: nat where "SOCK_FDS_MAX \<equiv> 256"

record exfil_state =
  x_window_start :: u64
  primed :: bool
  bytes_sent :: u64
  sample_path :: string
  sensitive_paths :: "string list"
  sensitive_ts_ns :: "u64 list"
  sensitive_path_count :: u32
  paths_truncated :: bool
  dest :: bytes
  dest_len :: u32

record exfil =
  exfil_map :: "(u32, exfil_state) bpf_map"
  sock_fds :: "(u64, u8) bpf_map"
  x_dropped :: u64

record exfil_detect_event =
  xe_pid :: u32
  xe_tid :: u32
  xe_ts_ns :: u64
  xe_bytes_sent :: u64
  xe_window_ms :: u32
  xe_sample_path :: string
  xe_paths :: "string list"
  xe_path_count :: u32
  xe_truncated :: bool
  xe_dest :: bytes
  xe_dest_len :: u32

definition exfil_zero :: exfil_state where
  "exfil_zero = \<lparr>x_window_start = 0, primed = False, bytes_sent = 0, sample_path = '''', sensitive_paths = replicate EXFIL_DETECT_RING_LEN '''',
     sensitive_ts_ns = replicate EXFIL_DETECT_RING_LEN 0, sensitive_path_count = 0, paths_truncated = False, dest = replicate 28 0, dest_len = 0\<rparr>"

section \<open>Deciding\<close>

definition path_is_sensitive :: "string \<Rightarrow> bool" where
  "path_is_sensitive path \<longleftrightarrow>
     (let under_storage = path_has_prefix path ''/storage/emulated/'' 18 \<or> path_has_prefix path ''/sdcard/'' 8;
          under_data = path_has_prefix path ''/data/data/'' 11 \<or> path_has_prefix path ''/data/user/'' 11
      in (under_storage \<or> under_data) \<and>
         (under_storage \<and>
            (path_has_component path ''/DCIM/'' 6 \<or> path_has_component path ''/Download/'' 10 \<or> path_has_component path ''/Documents/'' 11 \<or>
             path_has_component path ''/WhatsApp/'' 10 \<or> path_has_component path ''/Telegram/'' 10 \<or> path_has_component path ''/Pictures/'' 10) \<or>
          path_has_component path ''.keystore'' 9 \<or> path_has_component path ''wallet'' 6 \<or> path_has_component path ''id_rsa'' 6 \<or>
          path_has_component path ''.pem'' 4 \<or> path_has_component path ''cookies'' 7 \<or> path_has_component path ''seed'' 4))"

definition sockaddr_is_loopback :: "bytes \<Rightarrow> bool" where
  "sockaddr_is_loopback sa \<longleftrightarrow>
     (let fam = (le_word (take 2 sa) :: u16) in
      if fam = 2 then sa ! 4 = 127
      else if fam = 10 then list_all (\<lambda>i. sa ! (8 + i) = 0) [0..<15] \<and> sa ! (8 + 15) = 1
      else False)"

section \<open>Counting\<close>

definition exfil_event :: "u64 \<Rightarrow> u64 \<Rightarrow> exfil_state \<Rightarrow> exfil_detect_event" where
  "exfil_event task now st =
     (let recent = map (\<lambda>i. now - sensitive_ts_ns st ! i \<le> EXFIL_RECENT_NS) [0..<EXFIL_DETECT_RING_LEN] in
      \<lparr>xe_pid = tgid_of task, xe_tid = ucast task, xe_ts_ns = now, xe_bytes_sent = bytes_sent st,
       xe_window_ms = ucast ((now - x_window_start st) div 1000000), xe_sample_path = sample_path st,
       xe_paths = map (\<lambda>i. if recent ! i then sensitive_paths st ! i else '''') [0..<EXFIL_DETECT_RING_LEN],
       xe_path_count = of_nat (length (filter id recent)), xe_truncated = paths_truncated st, xe_dest = dest st, xe_dest_len = dest_len st\<rparr>)"

definition put_state :: "u32 \<Rightarrow> exfil_state \<Rightarrow> exfil \<Rightarrow> exfil" where
  "put_state pid st s = s\<lparr>exfil_map := bpf_update EXFIL_MAX pid st (exfil_map s)\<rparr>"

definition record_bytes :: "bool \<Rightarrow> u64 \<Rightarrow> u64 \<Rightarrow> u64 \<Rightarrow> exfil \<Rightarrow> exfil_detect_event option \<times> exfil" where
  "record_bytes rb task now n s =
     (let pid = tgid_of task in
      case bpf_lookup (exfil_map s) pid of
        None \<Rightarrow> (None, s)
      | Some st \<Rightarrow>
          if now - x_window_start st > EXFIL_WINDOW_NS then (None, put_state pid (st\<lparr>primed := False, bytes_sent := 0\<rparr>) s)
          else if \<not> primed st then (None, s)
          else let st = st\<lparr>bytes_sent := bytes_sent st + n\<rparr> in
            if bytes_sent st < EXFIL_BYTE_THRESHOLD then (None, put_state pid st s)
            else if \<not> rb then (None, put_state pid (st\<lparr>primed := False, bytes_sent := 0\<rparr>) (s\<lparr>x_dropped := x_dropped s + 1\<rparr>))
            else (Some (exfil_event task now st), put_state pid (st\<lparr>primed := False, bytes_sent := 0\<rparr>) s))"

definition arm_state :: "u64 \<Rightarrow> string \<Rightarrow> exfil_state \<Rightarrow> exfil_state" where
  "arm_state now path st =
     (let slot = unat (sensitive_path_count st AND (of_nat EXFIL_DETECT_RING_LEN - 1)) in
      st\<lparr>primed := True, sample_path := path, sensitive_paths := (sensitive_paths st)[slot := path],
         sensitive_ts_ns := (sensitive_ts_ns st)[slot := now],
         paths_truncated := (if sensitive_path_count st \<ge> of_nat EXFIL_DETECT_RING_LEN then True else paths_truncated st),
         sensitive_path_count := sensitive_path_count st + 1\<rparr>)"

definition arm_on_sensitive_read :: "u64 \<Rightarrow> u64 \<Rightarrow> string \<Rightarrow> exfil \<Rightarrow> exfil" where
  "arm_on_sensitive_read task now path s =
     (let pid = tgid_of task in
      case bpf_lookup (exfil_map s) pid of
        None \<Rightarrow>
          (case bpf_insert EXFIL_MAX pid exfil_zero (exfil_map s) of
             None \<Rightarrow> s
           | Some m \<Rightarrow> put_state pid (arm_state now path (exfil_zero\<lparr>x_window_start := now\<rparr>)) (s\<lparr>exfil_map := m\<rparr>))
      | Some st \<Rightarrow>
          put_state pid (arm_state now path
            (if now - x_window_start st > EXFIL_WINDOW_NS
             then st\<lparr>x_window_start := now, bytes_sent := 0, sensitive_path_count := 0, paths_truncated := False\<rparr>
             else st)) s)"

section \<open>The probes\<close>

definition gated :: "targets \<Rightarrow> kctx \<Rightarrow> bool" where
  "gated tg c \<longleftrightarrow> \<not> (\<not> uid_matches tg c \<and> \<not> pid_matches tg c)"

definition sock_key :: "kctx \<Rightarrow> u64" where
  "sock_key c = push_bit 32 (ucast (tgid_of (k_id c))) OR ucast (ucast (k_regs c 0) :: u32)"

definition on_openat :: "targets \<Rightarrow> kctx \<Rightarrow> exfil \<Rightarrow> exfil_detect_event option \<times> exfil" where
  "on_openat tg c s =
     (if \<not> gated tg c then (None, s)
      else case path_arg 1 c of
          None \<Rightarrow> (None, s)
        | Some path \<Rightarrow>
            if \<not> path_is_sensitive path then (None, s)
            else (None, arm_on_sensitive_read (k_id c) (k_now c) (text_of path) s))"

definition on_openat2 :: "targets \<Rightarrow> kctx \<Rightarrow> exfil \<Rightarrow> exfil_detect_event option \<times> exfil" where
  "on_openat2 = on_openat"

definition on_connect :: "targets \<Rightarrow> kctx \<Rightarrow> exfil \<Rightarrow> exfil_detect_event option \<times> exfil" where
  "on_connect tg c s =
     (if \<not> gated tg c then (None, s)
      else let cnt = min 28 (unat ((ucast (k_regs c 2) :: u32) AND 31)) in
        if cnt = 0 then (None, s)
        else case k_mem c (untag (k_regs c 1)) cnt of
            None \<Rightarrow> (None, s)
          | Some b \<Rightarrow>
              let sa = b @ replicate (28 - cnt) 0 in
              if sockaddr_is_loopback sa then (None, s)
              else let s = s\<lparr>sock_fds := bpf_update SOCK_FDS_MAX (sock_key c) 1 (sock_fds s)\<rparr>; tgid = tgid_of (k_id c) in
                case bpf_lookup (exfil_map s) tgid of
                  None \<Rightarrow> (None, s)
                | Some st \<Rightarrow> (None, put_state tgid (st\<lparr>dest := sa, dest_len := 28\<rparr>) s))"

definition on_sendto :: "targets \<Rightarrow> kctx \<Rightarrow> exfil \<Rightarrow> exfil_detect_event option \<times> exfil" where
  "on_sendto tg c s =
     (if \<not> gated tg c then (None, s)
      else let addr = untag (k_regs c 4) in
        if addr \<noteq> 0 \<and> (case k_mem c addr 28 of None \<Rightarrow> False | Some sa \<Rightarrow> sockaddr_is_loopback sa) then (None, s)
        else record_bytes (k_rb c) (k_id c) (k_now c) (k_regs c 2) s)"

definition on_write :: "targets \<Rightarrow> kctx \<Rightarrow> exfil \<Rightarrow> exfil_detect_event option \<times> exfil" where
  "on_write tg c s =
     (if \<not> gated tg c then (None, s)
      else if bpf_lookup (sock_fds s) (sock_key c) = None then (None, s)
      else record_bytes (k_rb c) (k_id c) (k_now c) (k_regs c 2) s)"

fun iov_total :: "nat \<Rightarrow> nat \<Rightarrow> kctx \<Rightarrow> u64 \<Rightarrow> u64" where
  "iov_total 0 i c tot = tot"
| "iov_total (Suc k) i c tot =
     (if of_nat i \<ge> k_regs c 2 then tot
      else case k_mem c (untag (k_regs c 1) + of_nat (i * 16)) 16 of
          None \<Rightarrow> tot
        | Some iov \<Rightarrow> iov_total k (i + 1) c (tot + le_word (take 8 (drop 8 iov))))"

definition on_writev :: "targets \<Rightarrow> kctx \<Rightarrow> exfil \<Rightarrow> exfil_detect_event option \<times> exfil" where
  "on_writev tg c s =
     (if \<not> gated tg c then (None, s)
      else if bpf_lookup (sock_fds s) (sock_key c) = None then (None, s)
      else record_bytes (k_rb c) (k_id c) (k_now c) (iov_total 8 0 c 0) s)"

definition on_close :: "targets \<Rightarrow> kctx \<Rightarrow> exfil \<Rightarrow> exfil_detect_event option \<times> exfil" where
  "on_close tg c s =
     (if \<not> gated tg c then (None, s) else (None, s\<lparr>sock_fds := bpf_delete (sock_key c) (sock_fds s)\<rparr>))"

datatype x_probe = X_openat | X_openat2 | X_connect | X_sendto | X_write | X_writev | X_close

fun x_step :: "targets \<Rightarrow> x_probe \<times> kctx \<Rightarrow> exfil \<Rightarrow> exfil_detect_event option \<times> exfil" where
  "x_step tg (X_openat, c) = on_openat tg c"
| "x_step tg (X_openat2, c) = on_openat2 tg c"
| "x_step tg (X_connect, c) = on_connect tg c"
| "x_step tg (X_sendto, c) = on_sendto tg c"
| "x_step tg (X_write, c) = on_write tg c"
| "x_step tg (X_writev, c) = on_writev tg c"
| "x_step tg (X_close, c) = on_close tg c"

definition exfil_start :: exfil where
  "exfil_start = \<lparr>exfil_map = [], sock_fds = [], x_dropped = 0\<rparr>"


section \<open>What the state remembers\<close>

text \<open>What a call means for the detector: a sensitive file opened, or bytes sent outside.\<close>

datatype xact = Opened u32 u64 string | Sent u32 u64 u64

fun x_act :: "targets \<Rightarrow> x_probe \<times> kctx \<Rightarrow> exfil \<Rightarrow> xact option" where
  "x_act tg (pr, c) s =
     (if \<not> gated tg c then None
      else if pr = X_openat \<or> pr = X_openat2 then
        (case path_arg 1 c of
           None \<Rightarrow> None
         | Some path \<Rightarrow> if path_is_sensitive path then Some (Opened (tgid_of (k_id c)) (k_now c) (text_of path)) else None)
      else if pr = X_sendto then
        (if untag (k_regs c 4) \<noteq> 0 \<and> (case k_mem c (untag (k_regs c 4)) 28 of None \<Rightarrow> False | Some sa \<Rightarrow> sockaddr_is_loopback sa) then None
         else Some (Sent (tgid_of (k_id c)) (k_now c) (k_regs c 2)))
      else if (pr = X_write \<or> pr = X_writev) \<and> bpf_lookup (sock_fds s) (sock_key c) \<noteq> None then
        Some (Sent (tgid_of (k_id c)) (k_now c) (if pr = X_write then k_regs c 2 else iov_total 8 0 c 0))
      else None)"

fun x_acts :: "targets \<Rightarrow> (x_probe \<times> kctx) list \<Rightarrow> exfil \<Rightarrow> xact list" where
  "x_acts tg [] s = []"
| "x_acts tg (op # ops) s = (case x_act tg op s of None \<Rightarrow> [] | Some a \<Rightarrow> [a]) @ x_acts tg ops (snd (x_step tg op s))"

fun opens :: "u32 \<Rightarrow> xact list \<Rightarrow> (u64 \<times> string) list" where
  "opens p [] = []"
| "opens p (Opened q t path # as) = (if q = p then (t, path) # opens p as else opens p as)"
| "opens p (Sent q t n # as) = opens p as"

fun sends :: "u32 \<Rightarrow> xact list \<Rightarrow> (u64 \<times> u64) list" where
  "sends p [] = []"
| "sends p (Opened q t path # as) = sends p as"
| "sends p (Sent q t n # as) = (if q = p then (t, n) # sends p as else sends p as)"

lemma opens_append [simp]: "opens p (as @ bs) = opens p as @ opens p bs"
  by (induction p as rule: opens.induct) auto

lemma sends_append [simp]: "sends p (as @ bs) = sends p as @ sends p bs"
  by (induction p as rule: sends.induct) auto

definition st_slots :: "(u64 \<times> string) list \<Rightarrow> exfil_state \<Rightarrow> bool" where
  "st_slots os st \<longleftrightarrow> length (sensitive_paths st) = EXFIL_DETECT_RING_LEN \<and> length (sensitive_ts_ns st) = EXFIL_DETECT_RING_LEN \<and>
     (\<forall>i < EXFIL_DETECT_RING_LEN. sensitive_paths st ! i = [] \<or> (sensitive_ts_ns st ! i, sensitive_paths st ! i) \<in> set os)"

definition st_open :: "(u64 \<times> string) list \<Rightarrow> exfil_state \<Rightarrow> bool" where
  "st_open os st \<longleftrightarrow> st_slots os st \<and> os \<noteq> [] \<and> x_window_start st \<in> fst ` set os \<and> sample_path st = snd (last os)"

definition st_sum :: "(u64 \<times> u64) list \<Rightarrow> exfil_state \<Rightarrow> bool" where
  "st_sum ss st \<longleftrightarrow> (\<not> primed st \<longrightarrow> bytes_sent st = 0) \<and>
     (\<exists>old q. ss = old @ q \<and> bytes_sent st = sum_list (map snd q) \<and> (\<forall>x\<in>set q. x_window_start st \<le> fst x))"

definition st_ok :: "(u64 \<times> string) list \<Rightarrow> (u64 \<times> u64) list \<Rightarrow> exfil_state \<Rightarrow> bool" where
  "st_ok os ss st \<longleftrightarrow> st_open os st \<and> st_sum ss st"

lemma st_ok_upd [simp]:
  "st_open os (st\<lparr>bytes_sent := b\<rparr>) = st_open os st" "st_open os (st\<lparr>primed := r\<rparr>) = st_open os st"
  "st_open os (st\<lparr>dest := d\<rparr>) = st_open os st" "st_open os (st\<lparr>dest_len := l\<rparr>) = st_open os st"
  "st_sum ss (st\<lparr>dest := d\<rparr>) = st_sum ss st" "st_sum ss (st\<lparr>dest_len := l\<rparr>) = st_sum ss st"
  by (simp_all add: st_open_def st_slots_def st_sum_def)

lemma st_sum_zero: "bytes_sent st = 0 \<Longrightarrow> st_sum ss st"
  unfolding st_sum_def by (intro conjI impI exI [of _ ss] exI [of _ "[]"]) simp_all

lemma st_sum_add:
  assumes "st_sum ss st" "primed st" "x_window_start st \<le> t"
  shows "st_sum (ss @ [(t, n)]) (st\<lparr>bytes_sent := bytes_sent st + n\<rparr>)"
proof -
  obtain old q where q: "ss = old @ q" "bytes_sent st = sum_list (map snd q)" "\<forall>x\<in>set q. x_window_start st \<le> fst x"
    using assms(1) by (auto simp: st_sum_def)
  show ?thesis using q assms(2,3) unfolding st_sum_def by (intro conjI exI [of _ old] exI [of _ "q @ [(t, n)]"]) auto
qed

definition x_ok :: "xact list \<Rightarrow> exfil \<Rightarrow> bool" where
  "x_ok as s \<longleftrightarrow> (\<forall>p st. bpf_lookup (exfil_map s) p = Some st \<longrightarrow> st_ok (opens p as) (sends p as) st)"

lemma lookup_put: "bpf_lookup (exfil_map s) p \<noteq> None \<Longrightarrow> bpf_lookup (exfil_map (put_state p st s)) = (bpf_lookup (exfil_map s))(p \<mapsto> st)"
  by (simp add: put_state_def lookup_update_present)

lemma st_ok_arm:
  assumes o: "st_slots os st" and s: "st_sum ss st" and w: "x_window_start st \<in> fst ` set (os @ [(t, path)])"
  shows "st_ok (os @ [(t, path)]) ss (arm_state t path st)"
proof -
  let ?i = "unat (sensitive_path_count st AND (of_nat EXFIL_DETECT_RING_LEN - 1))"
  have "sensitive_paths (arm_state t path st) ! i = [] \<or> (sensitive_ts_ns (arm_state t path st) ! i, sensitive_paths (arm_state t path st) ! i) \<in> set (os @ [(t, path)])"
    if "i < EXFIL_DETECT_RING_LEN" for i
    using o that by (cases "i = ?i") (auto simp: st_slots_def arm_state_def Let_def)
  then have "st_slots (os @ [(t, path)]) (arm_state t path st)" using o unfolding st_slots_def by (simp add: arm_state_def Let_def)
  then have "st_open (os @ [(t, path)]) (arm_state t path st)" using w unfolding st_open_def by (simp add: arm_state_def Let_def)
  moreover have "st_sum ss (arm_state t path st)" using s by (auto simp: st_sum_def arm_state_def Let_def)
  ultimately show ?thesis by (simp add: st_ok_def)
qed

text \<open>A call leaves the state of the other processes alone, and acts on its own as its meaning says.\<close>

lemma x_step_None:
  assumes "x_act tg op s = None" "bpf_lookup (exfil_map (snd (x_step tg op s))) p = Some st"
  shows "fst (x_step tg op s) = None \<and> (\<exists>st0 d l. bpf_lookup (exfil_map s) p = Some st0 \<and> st = st0\<lparr>dest := d, dest_len := l\<rparr>)"
proof -
  obtain pr c where op: "op = (pr, c)" by fastforce
  have same: ?thesis if "x_step tg op s = (None, s')" "exfil_map s' = exfil_map s" for s'
  proof -
    have "bpf_lookup (exfil_map s) p = Some st" "st = st\<lparr>dest := dest st, dest_len := dest_len st\<rparr>" using assms(2) that by auto
    then show ?thesis using that(1) by (metis fst_conv)
  qed
  show ?thesis
  proof (cases "pr = X_connect")
    case True
    then have e: "x_step tg op s = on_connect tg c s" by (simp add: op)
    show ?thesis
    proof (cases "\<exists>s'. on_connect tg c s = (None, s') \<and> exfil_map s' = exfil_map s")
      case False
      then obtain sa m st0 where "on_connect tg c s = (None, put_state (tgid_of (k_id c)) (st0\<lparr>dest := sa, dest_len := 28\<rparr>) (s\<lparr>sock_fds := m\<rparr>))"
        "bpf_lookup (exfil_map s) (tgid_of (k_id c)) = Some st0"
        by (auto simp: on_connect_def Let_def split: if_splits option.splits)
      moreover have "\<exists>d l. st = st\<lparr>dest := d, dest_len := l\<rparr>" by (intro exI [of _ "dest st"] exI [of _ "dest_len st"]) simp
      ultimately show ?thesis using assms(2) e by (auto simp: lookup_put split: if_splits)
    qed (use same e in auto)
  next
    case False
    have "\<exists>s'. x_step tg op s = (None, s') \<and> exfil_map s' = exfil_map s"
      using assms(1) False unfolding op
      by (cases pr) (simp_all add: on_openat_def on_openat2_def on_sendto_def on_write_def on_writev_def on_close_def Let_def
        split: if_splits option.splits)
    then show ?thesis using same by blast
  qed
qed

lemma x_step_Opened:
  assumes "x_act tg op s = Some (Opened p t path)"
  shows "x_step tg op s = (None, arm_on_sensitive_read (k_id (snd op)) t path s) \<and> t = k_now (snd op) \<and> p = tgid_of (k_id (snd op))"
proof -
  obtain pr c where op: "op = (pr, c)" by fastforce
  show ?thesis using assms unfolding op
    by (cases pr) (auto simp: on_openat_def on_openat2_def split: if_splits option.splits)
qed

lemma x_step_Sent:
  assumes "x_act tg op s = Some (Sent p t n)"
  shows "x_step tg op s = record_bytes (k_rb (snd op)) (k_id (snd op)) t n s \<and> t = k_now (snd op) \<and> p = tgid_of (k_id (snd op))"
proof -
  obtain pr c where op: "op = (pr, c)" by fastforce
  show ?thesis using assms unfolding op
    by (cases pr) (auto simp: on_sendto_def on_write_def on_writev_def Let_def split: if_splits option.splits)
qed

definition act_time :: "xact \<Rightarrow> u64" where
  "act_time a = (case a of Opened _ t _ \<Rightarrow> t | Sent _ t _ \<Rightarrow> t)"

lemma opens_times: "(t, path) \<in> set (opens p as) \<Longrightarrow> t \<in> act_time ` set as"
  by (induction p as rule: opens.induct) (auto simp: act_time_def split: if_splits)

lemma start_le:
  assumes "x_ok as s" "bpf_lookup (exfil_map s) p = Some st" "\<forall>a\<in>set as. act_time a \<le> t"
  shows "x_window_start st \<le> t"
proof -
  have "x_window_start st \<in> fst ` set (opens p as)" using assms(1,2) by (auto simp: x_ok_def st_ok_def st_open_def)
  then show ?thesis using opens_times assms(3) by fastforce
qed

lemma arm_x_ok:
  assumes ok: "x_ok as s" and p: "tgid_of task = p"
  shows "x_ok (as @ [Opened p t path]) (arm_on_sensitive_read task t path s)"
proof -
  have rest: "st_ok (opens q (as @ [Opened p t path])) (sends q (as @ [Opened p t path])) st'"
    if "q \<noteq> p" "bpf_lookup (exfil_map s) q = Some st'" for q st' using ok that by (simp add: x_ok_def)
  show ?thesis
  proof (cases "bpf_lookup (exfil_map s) p")
    case None
    show ?thesis
    proof (cases "bpf_insert EXFIL_MAX p exfil_zero (exfil_map s)")
      case full: None
      then show ?thesis using ok rest None p by (auto simp: x_ok_def arm_on_sensitive_read_def)
    next
      case (Some m)
      have "st_ok (opens p as @ [(t, path)]) (sends p as) (arm_state t path (exfil_zero\<lparr>x_window_start := t\<rparr>))"
        by (intro st_ok_arm st_sum_zero) (auto simp: exfil_zero_def st_slots_def)
      then show ?thesis using rest None Some p lookup_insert [OF Some]
        by (auto simp: x_ok_def arm_on_sensitive_read_def put_state_def lookup_update_present split: if_splits)
    qed
  next
    case (Some st)
    let ?st = "if t - x_window_start st > EXFIL_WINDOW_NS then st\<lparr>x_window_start := t, bytes_sent := 0, sensitive_path_count := 0, paths_truncated := False\<rparr> else st"
    have s: "st_open (opens p as) st" "st_sum (sends p as) st" using ok Some by (auto simp: x_ok_def st_ok_def)
    have "st_slots (opens p as) ?st" "x_window_start ?st \<in> fst ` set (opens p as @ [(t, path)])" using s(1) by (auto simp: st_open_def st_slots_def)
    moreover have "st_sum (sends p as) ?st" using s(2) by (cases "t - x_window_start st > EXFIL_WINDOW_NS") (auto intro: st_sum_zero)
    ultimately have "st_ok (opens p as @ [(t, path)]) (sends p as) (arm_state t path ?st)" by (intro st_ok_arm)
    then show ?thesis using rest Some p by (auto simp: x_ok_def arm_on_sensitive_read_def lookup_put split: if_splits)
  qed
qed

lemma sent_x_ok:
  assumes ok: "x_ok as s" and p: "tgid_of task = p" and t: "\<forall>a\<in>set as. act_time a \<le> t"
  shows "x_ok (as @ [Sent p t n]) (snd (record_bytes rb task t n s))"
proof (cases "bpf_lookup (exfil_map s) p")
  case None
  then show ?thesis using ok p by (auto simp: x_ok_def record_bytes_def)
next
  case (Some st)
  have s: "st_open (opens p as) st" "st_sum (sends p as) st" using ok Some by (auto simp: x_ok_def st_ok_def)
  have rest: "st_ok (opens q (as @ [Sent p t n])) (sends q (as @ [Sent p t n])) st'"
    if "q \<noteq> p" "bpf_lookup (exfil_map s) q = Some st'" for q st' using ok that by (simp add: x_ok_def)
  have zero: "st_ok (opens p as) (sends p as @ [(t, n)]) (st\<lparr>primed := False, bytes_sent := 0\<rparr>)"
    using s(1) by (simp add: st_ok_def st_sum_zero)
  have add: "st_ok (opens p as) (sends p as @ [(t, n)]) (st\<lparr>bytes_sent := bytes_sent st + n\<rparr>)" if "primed st"
    using s st_sum_add [OF s(2) that start_le [OF ok Some t]] by (simp add: st_ok_def)
  have keep: "st_ok (opens p as) (sends p as @ [(t, n)]) st" if "\<not> primed st"
  proof -
    have "bytes_sent st = 0" using s(2) that by (simp add: st_sum_def)
    then show ?thesis using s(1) by (simp add: st_ok_def st_sum_zero)
  qed
  have put: "x_ok (as @ [Sent p t n]) (put_state p st' (s\<lparr>x_dropped := d\<rparr>))" if "st_ok (opens p as) (sends p as @ [(t, n)]) st'" for st' d
    using rest that Some by (auto simp: x_ok_def lookup_put split: if_splits)
  have put0: "x_ok (as @ [Sent p t n]) (put_state p st' s)" if "st_ok (opens p as) (sends p as @ [(t, n)]) st'" for st'
    using put [OF that, of "x_dropped s"] by simp
  have same: "x_ok (as @ [Sent p t n]) s" if "\<not> primed st"
    using rest keep [OF that] Some by (auto simp: x_ok_def split: if_splits)
  show ?thesis using Some p put [OF zero] put0 [OF zero] put0 [OF add] same by (auto simp: record_bytes_def Let_def)
qed

lemma sends_times: "(t, n) \<in> set (sends p as) \<Longrightarrow> t \<in> act_time ` set as"
  by (induction p as rule: sends.induct) (auto simp: act_time_def split: if_splits)

lemma x_acts_append: "x_acts tg (ops @ us) s = x_acts tg ops s @ x_acts tg us (steps (x_step tg) ops s)"
  by (induction ops arbitrary: s) auto

lemma x_step_None_fst: "x_act tg op s = None \<Longrightarrow> fst (x_step tg op s) = None"
proof -
  assume a: "x_act tg op s = None"
  obtain pr c where op: "op = (pr, c)" by fastforce
  show ?thesis
  proof (cases "pr = X_connect")
    case True
    then show ?thesis by (simp add: op on_connect_def Let_def split: option.splits)
  next
    case False
    then show ?thesis using a unfolding op
      by (cases pr) (simp_all add: on_openat_def on_openat2_def on_sendto_def on_write_def on_writev_def on_close_def Let_def split: if_splits option.splits)
  qed
qed

lemma x_step_ok:
  assumes ok: "x_ok as s" and t: "\<forall>a\<in>set as. act_time a \<le> k_now (snd op)"
  shows "x_ok (as @ (case x_act tg op s of None \<Rightarrow> [] | Some a \<Rightarrow> [a])) (snd (x_step tg op s))"
proof (cases "x_act tg op s")
  case None
  have "st_ok (opens p as) (sends p as) st" if "bpf_lookup (exfil_map (snd (x_step tg op s))) p = Some st" for p st
    using x_step_None [OF None that] ok by (auto simp: x_ok_def st_ok_def)
  then show ?thesis using None by (simp add: x_ok_def)
next
  case (Some a)
  show ?thesis
  proof (cases a)
    case (Opened p t path)
    then show ?thesis using x_step_Opened [of tg op s p t path] Some arm_x_ok [OF ok] by simp
  next
    case (Sent p t n)
    then show ?thesis using x_step_Sent [of tg op s p t n] Some sent_x_ok [OF ok] t by simp
  qed
qed

lemma x_act_time: "x_act tg op s = Some a \<Longrightarrow> act_time a = k_now (snd op)"
proof (cases a)
  case (Opened p t path)
  moreover assume "x_act tg op s = Some a"
  ultimately show ?thesis using x_step_Opened [of tg op s p t path] by (simp add: act_time_def)
next
  case (Sent p t n)
  moreover assume "x_act tg op s = Some a"
  ultimately show ?thesis using x_step_Sent [of tg op s p t n] by (simp add: act_time_def)
qed

lemma x_run_ok:
  assumes "x_ok as s" "\<forall>a\<in>set as. \<forall>op\<in>set ops. act_time a \<le> k_now (snd op)" "sorted (map (k_now \<circ> snd) ops)"
  shows "x_ok (as @ x_acts tg ops s) (steps (x_step tg) ops s) \<and>
    (\<forall>a\<in>set (x_acts tg ops s). act_time a \<in> (k_now \<circ> snd) ` set ops)"
  using assms
proof (induction ops arbitrary: as s)
  case (Cons op ops)
  let ?a = "case x_act tg op s of None \<Rightarrow> [] | Some a \<Rightarrow> [a]"
  have a: "\<forall>a\<in>set ?a. act_time a = k_now (snd op)" using x_act_time by (auto split: option.splits)
  have "x_ok (as @ ?a) (snd (x_step tg op s))" using x_step_ok [OF Cons.prems(1)] Cons.prems(2) by simp
  moreover have "\<forall>a\<in>set (as @ ?a). \<forall>op\<in>set ops. act_time a \<le> k_now (snd op)" using Cons.prems(2,3) a by auto
  ultimately show ?case using Cons.IH [of "as @ ?a" "snd (x_step tg op s)"] Cons.prems(3) a by auto
qed simp

lemma x_start_ok: "x_ok [] exfil_start"
  by (simp add: x_ok_def exfil_start_def bpf_lookup_def)

section \<open>Alerts\<close>

lemma record_bytes_alert:
  assumes "record_bytes rb task t n s = (Some e, s')"
  obtains st where "bpf_lookup (exfil_map s) (tgid_of task) = Some st" "t - x_window_start st \<le> EXFIL_WINDOW_NS" "primed st"
    "bytes_sent st + n \<ge> EXFIL_BYTE_THRESHOLD" "e = exfil_event task t (st\<lparr>bytes_sent := bytes_sent st + n\<rparr>)"
  using assms by (auto simp: record_bytes_def Let_def not_less split: option.splits if_splits)

lemma word_window: "(t0 :: u64) \<le> a \<Longrightarrow> a \<le> u \<Longrightarrow> u - t0 \<le> W \<Longrightarrow> u - a \<le> W"
  using word_diff_mono order_trans by blast



section \<open>Evading the count\<close>

fun x_events :: "targets \<Rightarrow> (x_probe \<times> kctx) list \<Rightarrow> exfil \<Rightarrow> exfil_detect_event list" where
  "x_events tg [] s = []"
| "x_events tg (op # ops) s = (case fst (x_step tg op s) of None \<Rightarrow> [] | Some e \<Rightarrow> [e]) @ x_events tg ops (snd (x_step tg op s))"

definition wr :: "kctx \<Rightarrow> u64 \<Rightarrow> x_probe \<times> kctx" where
  "wr c n = (X_write, c\<lparr>k_regs := (k_regs c)(2 := n)\<rparr>)"

text \<open>A task whose writes are counted: armed inside the window, on a tracked socket.\<close>

definition counted :: "targets \<Rightarrow> kctx \<Rightarrow> exfil_state \<Rightarrow> exfil \<Rightarrow> bool" where
  "counted tg c st s \<longleftrightarrow> gated tg c \<and> bpf_lookup (sock_fds s) (sock_key c) \<noteq> None \<and> bpf_lookup (exfil_map s) (tgid_of (k_id c)) = Some st \<and>
     primed st \<and> k_now c - x_window_start st \<le> EXFIL_WINDOW_NS"

lemma wr_counts:
  assumes "counted tg c st s" "bytes_sent st + n < EXFIL_BYTE_THRESHOLD"
  shows "x_step tg (wr c n) s = (None, put_state (tgid_of (k_id c)) (st\<lparr>bytes_sent := bytes_sent st + n\<rparr>) s)"
    "counted tg c (st\<lparr>bytes_sent := bytes_sent st + n\<rparr>) (put_state (tgid_of (k_id c)) (st\<lparr>bytes_sent := bytes_sent st + n\<rparr>) s)"
proof -
  have g: "gated tg (c\<lparr>k_regs := r\<rparr>) = gated tg c" "sock_key (c\<lparr>k_regs := (k_regs c)(2 := n)\<rparr>) = sock_key c" for r
    by (simp_all add: gated_def uid_matches_def pid_matches_def sock_key_def)
  have "record_bytes (k_rb c) (k_id c) (k_now c) n s = (None, put_state (tgid_of (k_id c)) (st\<lparr>bytes_sent := bytes_sent st + n\<rparr>) s)"
    using assms by (simp add: record_bytes_def counted_def leD)
  then show "x_step tg (wr c n) s = (None, put_state (tgid_of (k_id c)) (st\<lparr>bytes_sent := bytes_sent st + n\<rparr>) s)"
    using assms(1) by (auto simp: wr_def on_write_def g counted_def)
  show "counted tg c (st\<lparr>bytes_sent := bytes_sent st + n\<rparr>) (put_state (tgid_of (k_id c)) (st\<lparr>bytes_sent := bytes_sent st + n\<rparr>) s)"
    using assms(1) by (simp add: counted_def lookup_put) (simp add: put_state_def)
qed

text \<open>C33: the byte count can be wound back. The probe adds the length an application asks to write, whether or not
  the kernel accepts it, in 64 bits: after each write of less than the threshold a write of the negated
  length, which the kernel refuses, sets the total to 0 again, so any amount can be sent without an alert.\<close>

theorem exfil_count_wound_back:
  assumes "counted tg c st s" "bytes_sent st = 0" "\<forall>n\<in>set ns. n < EXFIL_BYTE_THRESHOLD"
  shows "x_events tg (concat (map (\<lambda>n. [wr c n, wr c (- n)]) ns)) s = []"
  using assms(1,3)
proof (induction ns arbitrary: s)
  case (Cons n ns)
  let ?p = "tgid_of (k_id c)" and ?st = "st\<lparr>bytes_sent := bytes_sent st + n\<rparr>"
  have 1: "x_step tg (wr c n) s = (None, put_state ?p ?st s)" "counted tg c ?st (put_state ?p ?st s)"
    using wr_counts [OF Cons.prems(1), of n] Cons.prems(2) assms(2) by simp_all
  have z: "?st\<lparr>bytes_sent := bytes_sent ?st + - n\<rparr> = st" using assms(2) by (cases st) simp
  have 2: "x_step tg (wr c (- n)) (put_state ?p ?st s) = (None, put_state ?p st (put_state ?p ?st s))"
    "counted tg c st (put_state ?p st (put_state ?p ?st s))"
    using wr_counts [OF 1(2), of "- n"] assms(2) unfolding z by simp_all
  show ?case using Cons.IH [OF 2(2)] Cons.prems(2) 1(1) 2(1) by simp
qed simp

lemma arm_again:
  assumes "bpf_lookup (exfil_map s) (tgid_of task) = Some st" "t - x_window_start st \<le> EXFIL_WINDOW_NS"
  shows "bpf_lookup (exfil_map (arm_on_sensitive_read task t path s)) (tgid_of task) = Some (arm_state t path st)"
  using assms by (simp add: arm_on_sensitive_read_def lookup_put leD)

text \<open>A fresh read can be discarded as stale: opening another file does not move the start of the window, so bytes
  sent one nanosecond after the window's end are not counted although a sensitive file was just opened.\<close>

theorem exfil_fresh_read_discarded:
  fixes t0 :: u64 and path1 path2 :: string
  assumes "bpf_lookup (exfil_map s) (tgid_of task) = None" "length (exfil_map s) < EXFIL_MAX"
  defines "s2 \<equiv> arm_on_sensitive_read task (t0 + EXFIL_WINDOW_NS) path2 (arm_on_sensitive_read task t0 path1 s)"
  shows "\<exists>st s3. record_bytes rb task (t0 + EXFIL_WINDOW_NS + 1) n s2 = (None, s3) \<and> bpf_lookup (exfil_map s3) (tgid_of task) = Some st \<and> \<not> primed st"
proof -
  let ?p = "tgid_of task"
  obtain m where m: "bpf_insert EXFIL_MAX ?p exfil_zero (exfil_map s) = Some m" using assms(1,2) by (simp add: bpf_insert_def bpf_lookup_def)
  have "\<exists>st. bpf_lookup (exfil_map (arm_on_sensitive_read task t0 path1 s)) ?p = Some st \<and> x_window_start st = t0"
    using assms(1) m lookup_insert [OF m] by (simp add: arm_on_sensitive_read_def put_state_def lookup_update_present arm_state_def Let_def)
  then obtain st1 where 1: "bpf_lookup (exfil_map (arm_on_sensitive_read task t0 path1 s)) ?p = Some st1" "x_window_start st1 = t0" by blast
  then obtain st where "bpf_lookup (exfil_map s2) ?p = Some st" "x_window_start st = t0"
    using arm_again [OF 1(1), of "t0 + EXFIL_WINDOW_NS" path2] by (simp add: s2_def arm_state_def Let_def)
  then show ?thesis by (auto simp: record_bytes_def lookup_put)
qed

text \<open>The component test runs past the end of a short path: what the stack held before decides whether the
  path counts as sensitive.\<close>

theorem exfil_stale_stack:
  "path_is_sensitive (read_str 256 ''/sdcard/a'' (replicate 16 CHR ''x'' @ ''/DCIM/'' @ replicate 234 CHR ''x'')) \<and>
   \<not> path_is_sensitive (read_str 256 ''/sdcard/a'' (replicate 256 CHR ''x''))"
proof
  let ?b = "read_str 256 ''/sdcard/a'' (replicate 16 CHR ''x'' @ ''/DCIM/'' @ replicate 234 CHR ''x'')"
  have b: "?b = ''/sdcard/a'' @ NUL # replicate 6 CHR ''x'' @ ''/DCIM/'' @ replicate 234 CHR ''x''" by (simp add: read_str_def text_of_def)
  have "path_has_component ?b ''/DCIM/'' 6"
    unfolding path_has_component_def list_ex_iff b by (intro bexI [of _ 16]) (auto simp: list_all_iff upt_rec nth_append)
  moreover have "path_has_prefix ?b ''/sdcard/'' 8" by (subst prefix_read_str_n) (simp_all add: text_of_def)
  ultimately show "path_is_sensitive ?b" by (simp add: path_is_sensitive_def Let_def)
next
  let ?b = "read_str 256 ''/sdcard/a'' (replicate 256 CHR ''x'')"
  have b: "?b = ''/sdcard/a'' @ NUL # replicate 246 CHR ''x''" by (simp add: read_str_def text_of_def)
  have l: "63 \<le> length ?b" "set ?b = {CHR ''/'', CHR ''s'', CHR ''d'', CHR ''c'', CHR ''a'', CHR ''r'', NUL, CHR ''x''}" unfolding b by auto
  have "\<not> path_has_component ?b needle (length needle)"
    if "needle \<in> {''/DCIM/'', ''/Download/'', ''/Documents/'', ''/WhatsApp/'', ''/Telegram/'', ''/Pictures/'', ''.keystore'', ''wallet'', ''id_rsa'', ''.pem'', ''cookies'', ''seed''}" for needle
    using that by (intro no_component l) (auto simp: l)
  from this [of "''/DCIM/''"] this [of "''/Download/''"] this [of "''/Documents/''"] this [of "''/WhatsApp/''"] this [of "''/Telegram/''"] this [of "''/Pictures/''"]
    this [of "''.keystore''"] this [of "''wallet''"] this [of "''id_rsa''"] this [of "''.pem''"] this [of "''cookies''"] this [of "''seed''"]
  show "\<not> path_is_sensitive ?b" by (simp add: path_is_sensitive_def Let_def eval_nat_numeral)
qed


section \<open>A small run\<close>

definition x_targets :: targets where
  "x_targets = \<lparr>target_uids = [(10123, 1)], target_pids = []\<rparr>"

definition x_ctx :: kctx where
  "x_ctx = \<lparr>k_uid_gid = 10123, k_id = 0x4d200000501, k_now = 7000000000, k_regs = (\<lambda>i. if i = 1 then 0xb400000000001000 else if i = 2 then 524288 else 0),
     k_str = (\<lambda>p. if p = 0x1000 then Some ''/sdcard/DCIM/a'' else None), k_mem = (\<lambda>_ _. None), k_stack = replicate 256 CHR ''x'', k_rb = True\<rparr>"

lemma x_ctx_gated: "gated x_targets x_ctx"
  by (simp add: gated_def x_ctx_def x_targets_def uid_matches_def bpf_lookup_def)

lemma x_ctx_path: "path_arg 1 x_ctx = Some (read_str 256 ''/sdcard/DCIM/a'' (replicate 256 CHR ''x''))"
  "path_is_sensitive (read_str 256 ''/sdcard/DCIM/a'' old)"
proof -
  show "path_arg 1 x_ctx = Some (read_str 256 ''/sdcard/DCIM/a'' (replicate 256 CHR ''x''))" by (simp add: path_arg_def x_ctx_def untag_def)
  have "path_has_prefix (read_str 256 ''/sdcard/DCIM/a'' old) ''/sdcard/'' 8" by (subst prefix_read_str_n) (simp_all add: text_of_def)
  moreover have "path_has_component (read_str 256 ''/sdcard/DCIM/a'' old) ''/DCIM/'' (length ''/DCIM/'')"
    by (rule component_found [of _ "''/sdcard''" _ "''a''"]) (simp_all add: text_of_def)
  ultimately show "path_is_sensitive (read_str 256 ''/sdcard/DCIM/a'' old)" by (simp add: path_is_sensitive_def Let_def eval_nat_numeral)
qed

lemma x_run_ex:
  obtains e s' where "x_step x_targets (X_sendto, x_ctx) (steps (x_step x_targets) [(X_openat, x_ctx)] exfil_start) = (Some e, s')"
proof -
  have c: "tgid_of (k_id x_ctx) = 1234" "k_now x_ctx = 7000000000" "k_regs x_ctx 2 = 524288" "k_regs x_ctx 4 = 0" "k_rb x_ctx"
    by (simp_all add: x_ctx_def tgid_of_def)
  have "x_step x_targets (X_openat, x_ctx) exfil_start = (None, arm_on_sensitive_read (k_id x_ctx) 7000000000 ''/sdcard/DCIM/a'' exfil_start)"
    using x_ctx_gated x_ctx_path c by (simp add: on_openat_def) (simp add: text_of_def)
  moreover have "\<exists>e s'. record_bytes True (k_id x_ctx) 7000000000 524288 (arm_on_sensitive_read (k_id x_ctx) 7000000000 ''/sdcard/DCIM/a'' exfil_start) = (Some e, s')"
    by (simp add: record_bytes_def arm_on_sensitive_read_def c exfil_start_def bpf_lookup_def bpf_insert_def put_state_def bpf_update_def arm_state_def exfil_zero_def Let_def)
  ultimately show ?thesis using that x_ctx_gated c by (auto simp: on_sendto_def untag_def)
qed


definition x_counted :: exfil where
  "x_counted = \<lparr>exfil_map = [(1234, exfil_zero\<lparr>primed := True, x_window_start := 7000000000\<rparr>)], sock_fds = [(0x4d200000000, 1)], x_dropped = 0\<rparr>"

lemma exfil_count_wound_back_witness:
  "x_events x_targets [wr x_ctx 500000, wr x_ctx (- 500000), wr x_ctx 500000, wr x_ctx (- 500000)] x_counted = []"
proof -
  have "counted x_targets x_ctx (exfil_zero\<lparr>primed := True, x_window_start := 7000000000\<rparr>) x_counted"
    using x_ctx_gated by (simp add: counted_def x_counted_def) (simp add: x_ctx_def tgid_of_def sock_key_def bpf_lookup_def)
  from exfil_count_wound_back [OF this, of "[500000, 500000]"] show ?thesis by (simp add: exfil_zero_def)
qed

end
