(* ===== verification/Elf_Syms.thy ===== *)
theory Elf_Syms
  imports Dump_Check "HOL-Library.Sublist"
begin

unbundle bit_operations_syntax

text \<open>
  What the two symbol collectors (\<open>sym_elf.c\<close> for files, \<open>sym_jit.c\<close> for compiled Java code) have in common: the
  section headers of an ELF image, NUL-terminated names inside a buffer, the arena the names are copied to, and the
  binary search for the last entry at or below an address.

  \<^item> \<open>al k\<close> is the answer to the \<open>k\<close>-th allocation, with the contents of the new memory;
  \<^item> an arena is the list of the bytes in use and the capacity, 0 before the first allocation. Both programs copy names
    with the same code and differ in the first capacity only.
\<close>

type_synonym allocator = "nat \<Rightarrow> (nat \<Rightarrow> u8) option"

section \<open>Headers\<close>

record shdr64 =
  sh_name :: u32
  sh_type :: u32
  sh_offset :: u64
  sh_size :: u64
  sh_link :: u32
  sh_entsize :: u64

definition load_shdr :: "bytes \<Rightarrow> nat \<Rightarrow> shdr64 option" where
  "load_shdr buf off = do {
     b \<leftarrow> load_bytes buf off 64;
     Some \<lparr>sh_name = le_word (take 4 b), sh_type = le_word (take 4 (drop 4 b)), sh_offset = le_word (take 8 (drop 24 b)),
       sh_size = le_word (take 8 (drop 32 b)), sh_link = le_word (take 4 (drop 40 b)), sh_entsize = le_word (take 8 (drop 56 b))\<rparr>
   }"

definition e_shoff_of :: "bytes \<Rightarrow> u64" where "e_shoff_of eh = le_word (take 8 (drop 40 eh))"
definition e_shentsize_of :: "bytes \<Rightarrow> u16" where "e_shentsize_of eh = le_word (take 2 (drop 58 eh))"
definition e_shnum_of :: "bytes \<Rightarrow> u16" where "e_shnum_of eh = le_word (take 2 (drop 60 eh))"
definition e_shstrndx_of :: "bytes \<Rightarrow> u16" where "e_shstrndx_of eh = le_word (take 2 (drop 62 eh))"

abbreviation sh_limit :: "shdr64 \<Rightarrow> nat" where "sh_limit s \<equiv> unat (sh_offset s) + unat (sh_size s)"

lemma load_shdr_in: "off + 64 \<le> length buf \<Longrightarrow> \<exists>s. load_shdr buf off = Some s"
  by (simp add: load_shdr_def)

lemma load_shdr_append: "off + 64 \<le> length buf \<Longrightarrow> load_shdr (buf @ x) off = load_shdr buf off"
  by (simp add: load_shdr_def)

lemma unat_ucast32: "unat (ucast (c :: u32) :: u64) = unat c"
proof -
  have "unat c < 2 ^ 64" using unsigned_less [of c, where ?'a = nat] by simp
  then show ?thesis by (simp add: unsigned_ucast_eq take_bit_nat_eq_self_iff)
qed

lemma unat_of_nat64: "n < 2 ^ 64 \<Longrightarrow> unat (of_nat n :: u64) = n"
  by (simp add: unsigned_of_nat take_bit_eq_mod)

lemma sum_wrap_le:
  fixes a b :: u64
  shows "unat a + unat b < 2 ^ 64 \<Longrightarrow> len < 2 ^ 64 \<Longrightarrow> a + b > of_nat len \<longleftrightarrow> \<not> unat a + unat b \<le> len"
  by (simp add: word_less_nat_alt unat_word_ariths unsigned_of_nat take_bit_eq_mod not_le)

text \<open>The \<open>k\<close>-th of \<open>size div e\<close> entries of \<open>e\<close> bytes lies within \<open>size\<close> bytes.\<close>

lemma entry_within:
  fixes size e k :: nat
  assumes "0 < e" "k < size div e"
  shows "(k + 1) * e \<le> size"
  using assms less_eq_div_iff_mult_less_eq [of e "k + 1" size] by simp

section \<open>Names\<close>

definition c_string :: "bytes \<Rightarrow> nat \<Rightarrow> bytes option" where
  "c_string buf off = (if 0 \<in> set (drop off buf) then Some (takeWhile (\<lambda>b. b \<noteq> 0) (drop off buf)) else None)"

lemma c_string_append: "c_string b off \<noteq> None \<Longrightarrow> c_string (b @ b') off = c_string b off"
  by (auto simp: c_string_def takeWhile_append split: if_splits)

lemma c_string_end: "0 \<notin> set name \<Longrightarrow> c_string (b @ name @ [0]) (length b) = Some name"
  by (auto simp: c_string_def takeWhile_append)

lemma c_string_no_nul: "c_string b off = Some name \<Longrightarrow> 0 \<notin> set name"
  by (auto simp: c_string_def dest: set_takeWhileD split: if_splits)

lemma c_string_before:
  assumes "off \<le> len - 1" "0 \<in> set (drop (len - 1) buf)"
  shows "c_string buf off = Some (takeWhile (\<lambda>b. b \<noteq> 0) (drop off buf))"
  using subsetD [OF set_drop_subset_set_drop [OF assms(1)] assms(2)] by (simp add: c_string_def)

section \<open>The arena\<close>

function double_until :: "nat \<Rightarrow> nat \<Rightarrow> nat" where
  "double_until nc n = (if nc < n \<and> 0 < nc then double_until (nc * 2) n else nc)"
  by auto
termination by (relation "measure (\<lambda>(nc, n). n - nc)") auto

declare double_until.simps [simp del]

lemma double_until_ge: "0 < nc \<Longrightarrow> nc \<le> double_until nc n \<and> n \<le> double_until nc n"
proof (induction nc n rule: double_until.induct)
  case (1 nc n)
  then show ?case by (cases "nc < n") (subst (1 2) double_until.simps, simp)+
qed

type_synonym name_arena = "bytes \<times> nat"

definition arena_push :: "nat \<Rightarrow> allocator \<Rightarrow> bytes \<Rightarrow> name_arena \<times> nat \<Rightarrow> u32 \<times> name_arena \<times> nat" where
  "arena_push first al name = (\<lambda>((buf, cap), k).
     (let (ok, (buf, cap), k) =
        (if cap = 0 then (case al k of None \<Rightarrow> (False, (buf, cap), k + 1) | Some _ \<Rightarrow> (True, ([0], first), k + 1))
         else (True, (buf, cap), k))
      in if \<not> ok then (0, (buf, cap), k)
         else let len = length name + 1;
                  need = length buf + len;
                  (ok, cap, k) =
                    (if need > cap then
                       let nc = double_until (cap * 2) need in
                       (case al k of None \<Rightarrow> (False, cap, k + 1) | Some _ \<Rightarrow> (True, nc, k + 1))
                     else (True, cap, k))
              in if \<not> ok then (0, (buf, cap), k)
                 else (of_nat (length buf), (buf @ name @ [0], cap), k)))"

definition arena_wf :: "name_arena \<Rightarrow> bool" where
  "arena_wf = (\<lambda>(buf, cap). (cap = 0 \<longleftrightarrow> buf = []) \<and> length buf \<le> cap)"

text \<open>A name is stored behind the others and its offset is not 0, or the allocator refused and the offset is 0; what
  was in the arena stays where it was.\<close>

lemma arena_push_cases:
  assumes "arena_wf (buf, cap)" "0 \<notin> set name" "max 1 (length buf) + length name + 1 < 2 ^ 32" "0 < first"
    and push: "arena_push first al name ((buf, cap), k) = (off, (buf', cap'), k')"
  shows "arena_wf (buf', cap') \<and> length buf' \<le> max 1 (length buf) + length name + 1 \<and> (\<exists>x. buf' = buf @ x) \<and>
    (off = 0 \<and> (\<exists>n. al n = None) \<or> off \<noteq> 0 \<and> c_string buf' (unat off) = Some name)"
proof -
  define b0 where "b0 = (if cap = 0 then [0] else buf)"
  define c0 where "c0 = (if cap = 0 then first else cap)"
  define k0 where "k0 = (if cap = 0 then k + 1 else k)"
  define need where "need = length b0 + (length name + 1)"
  define c1 where "c1 = (if need > c0 then double_until (c0 * 2) need else c0)"
  have b0: "b0 \<noteq> []" "length b0 = max 1 (length buf)" "length b0 \<le> c0" "0 < c0" "\<exists>x. b0 = buf @ x"
    using assms(1,4) by (auto simp: b0_def c0_def arena_wf_def max_def Suc_le_eq)
  have c1: "need \<le> c1" "0 < c1" using double_until_ge [of "c0 * 2" need] b0(4) by (auto simp: c1_def)
  have off: "unat (of_nat (length b0) :: u32) = length b0" using assms(3) b0(2) by (simp add: unsigned_of_nat take_bit_eq_mod)
  then have nz: "(of_nat (length b0) :: u32) \<noteq> 0" using b0(1) by (metis length_0_conv unat_0)
  have "(off, (buf', cap'), k') =
      (if cap = 0 \<and> al k = None then (0, (buf, cap), k + 1)
       else if need > c0 \<and> al k0 = None then (0, (b0, c0), k0 + 1)
       else (of_nat (length b0), (b0 @ name @ [0], c1), if need > c0 then k0 + 1 else k0))"
    unfolding push [symmetric] arena_push_def c1_def need_def b0_def c0_def k0_def by (simp add: Let_def split: option.split)
  then consider (nomem) "off = 0" "(buf', cap') = (buf, cap) \<or> (buf', cap') = (b0, c0)" "\<exists>n. al n = None"
    | (ok) "off = of_nat (length b0)" "(buf', cap') = (b0 @ name @ [0], c1)"
    by (metis prod.inject)
  then show ?thesis
  proof cases
    case nomem
    then show ?thesis using b0 assms(1) by (auto simp: arena_wf_def)
  next
    case ok
    then show ?thesis using b0 c1 off nz c_string_end [OF assms(2), of b0] by (auto simp: arena_wf_def need_def)
  qed
qed

section \<open>Collecting\<close>

text \<open>Both collectors grow a table of (start, second field, name). \<open>wf\<close> is its invariant, \<open>view\<close> what it says, \<open>fill\<close> the number
  of arena bytes in use; an offset into the arena has 32 bits, so what is collected has to have room.\<close>

definition names_size :: "('a \<times> 'b \<times> bytes option) list \<Rightarrow> nat" where
  "names_size xs = sum_list (map (\<lambda>(s, e, n). length (the n) + 1) xs)"

lemma names_size_simps [simp]:
  "names_size [] = 0" "names_size (xs @ ys) = names_size xs + names_size ys" "names_size ((s, z, n) # xs) = length (the n) + 1 + names_size xs"
  by (simp_all add: names_size_def)

locale collector =
  fixes wf :: "'s \<Rightarrow> bool" and view :: "'s \<Rightarrow> (u64 \<times> u64 \<times> bytes option) list" and fill :: "'s \<Rightarrow> nat"
  assumes view_named: "wf s \<Longrightarrow> (a, b, n) \<in> set (view s) \<Longrightarrow> n \<noteq> None"
begin

definition room :: "'s \<Rightarrow> (u64 \<times> u64 \<times> bytes option) list \<Rightarrow> bool" where
  "room s xs \<longleftrightarrow> max 1 (fill s) + names_size xs < 2 ^ 32"

text \<open>From \<open>s\<close> to \<open>s'\<close> the table gained \<open>xs\<close>, less those for which there was no memory.\<close>

definition grown :: "allocator \<Rightarrow> (u64 \<times> u64 \<times> bytes option) list \<Rightarrow> 's \<Rightarrow> 's \<Rightarrow> bool" where
  "grown al xs s s' \<longleftrightarrow> wf s' \<and> fill s' \<le> max 1 (fill s) + names_size xs \<and>
     (\<exists>ys. subseq ys xs \<and> view s' = view s @ ys \<and> ((\<forall>n. al n \<noteq> None) \<longrightarrow> ys = xs))"

lemma grown_wf: "grown al xs s s' \<Longrightarrow> wf s'"
  by (simp add: grown_def)

lemma grown_refl: "wf s \<Longrightarrow> grown al [] s s"
  by (simp add: grown_def)

lemma grown_nothing: "wf s \<Longrightarrow> al n = None \<Longrightarrow> grown al xs s s"
  unfolding grown_def by (intro conjI exI [of _ "[]"]) (simp_all, metis option.distinct(1))

lemma grown_trans:
  assumes "grown al xs s s1" "grown al ys s1 s2"
  shows "grown al (xs @ ys) s s2"
proof -
  obtain us vs where "subseq us xs" "view s1 = view s @ us" "(\<forall>n. al n \<noteq> None) \<longrightarrow> us = xs"
    "subseq vs ys" "view s2 = view s1 @ vs" "(\<forall>n. al n \<noteq> None) \<longrightarrow> vs = ys"
    using assms unfolding grown_def by blast
  then have "subseq (us @ vs) (xs @ ys)" "view s2 = view s @ (us @ vs)" "(\<forall>n. al n \<noteq> None) \<longrightarrow> us @ vs = xs @ ys"
    by (auto intro: list_emb_append_mono)
  then show ?thesis using assms unfolding grown_def by (intro conjI exI [of _ "us @ vs"]) auto
qed

lemma room_after:
  assumes "grown al xs s s'" "room s (xs @ ys)"
  shows "wf s'" "room s' ys"
proof -
  have "wf s'" "fill s' \<le> max 1 (fill s) + names_size xs" using assms(1) by (auto simp: grown_def)
  then show "wf s'" "room s' ys" using assms(2) by (auto simp: room_def)
qed

lemma room_prefix: "room s (xs @ ys) \<Longrightarrow> room s xs"
  by (simp add: room_def)

text \<open>A loop that collects one item list per index.\<close>

lemma grown_loop:
  assumes step: "\<And>s n i. i \<in> set is \<Longrightarrow> wf s \<Longrightarrow> room s (items i) \<Longrightarrow> \<exists>s' n'. f i (s, n) = Some (s', n') \<and> grown al (items i) s s'"
    and loop_Nil: "\<And>st. loop [] st = Some st"
    and loop_Cons: "\<And>i is st. loop (i # is) st = Option.bind (f i st) (loop is)"
  shows "wf s \<Longrightarrow> room s (concat (map items is)) \<Longrightarrow> \<exists>s' n'. loop is (s, n) = Some (s', n') \<and> grown al (concat (map items is)) s s'"
  using step
proof (induction "is" arbitrary: s n)
  case Nil
  then show ?case by (simp add: loop_Nil grown_refl)
next
  case (Cons i "is")
  have R: "room s (items i @ concat (map items is))" using Cons.prems(2) by simp
  obtain s1 n1 where s1: "f i (s, n) = Some (s1, n1)" "grown al (items i) s s1"
    using Cons.prems(3) [of i s n] Cons.prems(1) room_prefix [OF R] by auto
  obtain s2 n2 where "loop is (s1, n1) = Some (s2, n2)" "grown al (concat (map items is)) s1 s2"
    using Cons.IH [OF room_after [OF s1(2) R]] Cons.prems(3) by fastforce
  then show ?case using s1 grown_trans by (auto simp: loop_Cons)
qed

end

section \<open>The search\<close>

lemma filter_prefix:
  assumes "n \<le> length es" "\<forall>i < length es. P (es ! i) \<longleftrightarrow> i < n"
  shows "filter P es = take n es"
proof -
  have "filter P (take n es) = take n es" using assms by (auto simp: filter_id_conv in_set_conv_nth)
  moreover have "filter P (drop n es) = []" using assms by (auto simp: filter_empty_conv in_set_conv_nth)
  ultimately show ?thesis by (metis append_Nil2 append_take_drop_id filter_append)
qed

text \<open>The last entry whose key is at or below the address.\<close>

definition last_at :: "('e \<Rightarrow> u64) \<Rightarrow> 'e list \<Rightarrow> u64 \<Rightarrow> 'e option" where
  "last_at key es addr = (case filter (\<lambda>e. key e \<le> addr) es of [] \<Rightarrow> None | x # xs \<Rightarrow> Some (last (x # xs)))"

text \<open>In a list ordered by distinct keys it is the entry with the greatest such key.\<close>

lemma last_at_max:
  assumes "sorted (map key es)" "distinct (map key es)"
  shows "last_at key es addr = Some e \<longleftrightarrow> e \<in> set es \<and> key e \<le> addr \<and> (\<forall>x \<in> set es. key x \<le> addr \<longrightarrow> key x \<le> key e)"
proof -
  let ?F = "filter (\<lambda>e. key e \<le> addr) es"
  have srt: "sorted (map key ?F)" using assms(1) by (rule sorted_filter)
  have top: "x \<in> set ?F \<Longrightarrow> key x \<le> key (last ?F)" for x
    using srt by (cases ?F rule: rev_cases) (auto simp: sorted_append)
  have uniq: "x \<in> set es \<Longrightarrow> y \<in> set es \<Longrightarrow> key x = key y \<Longrightarrow> x = y" for x y
    using assms(2) by (auto simp: distinct_map dest: inj_onD)
  have la: "last_at key es addr = (if ?F = [] then None else Some (last ?F))" by (cases ?F) (auto simp: last_at_def)
  show ?thesis
  proof
    assume "last_at key es addr = Some e"
    then have "?F \<noteq> []" "e = last ?F" using la by (auto split: if_splits)
    then show "e \<in> set es \<and> key e \<le> addr \<and> (\<forall>x \<in> set es. key x \<le> addr \<longrightarrow> key x \<le> key e)"
      using last_in_set [of ?F] top by auto
  next
    assume r: "e \<in> set es \<and> key e \<le> addr \<and> (\<forall>x \<in> set es. key x \<le> addr \<longrightarrow> key x \<le> key e)"
    then have ne: "?F \<noteq> []" by (auto simp: filter_empty_conv)
    then have "last ?F \<in> set es" "key (last ?F) \<le> addr" using last_in_set [OF ne] by auto
    moreover have "key e \<le> key (last ?F)" using top [of e] r by simp
    ultimately have "e = last ?F" using r by (intro uniq) (auto intro: order_antisym)
    then show "last_at key es addr = Some e" using la ne by simp
  qed
qed

text \<open>The loop both lookups run over their sorted entries.\<close>

locale floor_search =
  fixes key :: "'e \<Rightarrow> u64" and search :: "'e list \<Rightarrow> u64 \<Rightarrow> nat \<Rightarrow> nat \<Rightarrow> nat"
  assumes search_done: "\<not> lo < hi \<Longrightarrow> search es addr lo hi = lo"
    and search_right: "lo < hi \<Longrightarrow> key (es ! ((lo + hi) div 2)) \<le> addr \<Longrightarrow> search es addr lo hi = search es addr ((lo + hi) div 2 + 1) hi"
    and search_left: "lo < hi \<Longrightarrow> \<not> key (es ! ((lo + hi) div 2)) \<le> addr \<Longrightarrow> search es addr lo hi = search es addr lo ((lo + hi) div 2)"
begin

lemma search_bounds:
  assumes srt: "sorted (map key es)"
  shows "lo \<le> hi \<Longrightarrow> hi \<le> length es \<Longrightarrow> \<forall>i<lo. key (es ! i) \<le> addr \<Longrightarrow> \<forall>i. hi \<le> i \<and> i < length es \<longrightarrow> addr < key (es ! i) \<Longrightarrow>
     search es addr lo hi \<le> length es \<and> (\<forall>i < length es. key (es ! i) \<le> addr \<longleftrightarrow> i < search es addr lo hi)"
proof (induction "hi - lo" arbitrary: lo hi rule: less_induct)
  case less
  note lohi = less(2,3) and below = less(4) and above = less(5)
  have mono: "key (es ! i) \<le> key (es ! j)" if "i \<le> j" "j < length es" for i j
    using sorted_nth_mono [OF srt, of i j] that by simp
  let ?m = "(lo + hi) div 2"
  show ?case
  proof (cases "lo < hi")
    case False
    then have "search es addr lo hi = lo" by (rule search_done)
    moreover have "lo = hi" using False lohi by simp
    ultimately show ?thesis using lohi below above by (auto simp: not_less [symmetric])
  next
    case lt: True
    then have m: "lo \<le> ?m" "?m < hi" by auto
    show ?thesis
    proof (cases "key (es ! ?m) \<le> addr")
      case True
      have "key (es ! i) \<le> addr" if "i < ?m + 1" for i by (rule order_trans [OF mono True]) (use that m lohi in auto)
      then show ?thesis unfolding search_right [OF lt True] using m lohi above by (intro less(1)) auto
    next
      case False
      have "addr < key (es ! i)" if "?m \<le> i" "i < length es" for i using mono [OF that] False by (meson less_le_trans not_le)
      then show ?thesis unfolding search_left [OF lt False] using m lohi below by (intro less(1)) auto
    qed
  qed
qed

text \<open>The entry before the position found is the one wanted.\<close>

lemma search_last:
  assumes "sorted (map key es)"
  shows "last_at key es addr = (if search es addr 0 (length es) = 0 then None else Some (es ! (search es addr 0 (length es) - 1)))"
proof -
  let ?n = "search es addr 0 (length es)"
  have b: "?n \<le> length es" "\<forall>i < length es. key (es ! i) \<le> addr \<longleftrightarrow> i < ?n"
    using search_bounds [OF assms, of 0 "length es" addr] by (simp_all add: not_le [symmetric])
  have f: "filter (\<lambda>e. key e \<le> addr) es = take ?n es" by (rule filter_prefix [OF b])
  show ?thesis
  proof (cases "?n = 0")
    case True
    then show ?thesis using f by (simp add: last_at_def)
  next
    case False
    then have ne: "take ?n es \<noteq> []" using b(1) by auto
    then have "last (take ?n es) = es ! (?n - 1)" using False b(1)
      by (subst last_conv_nth) (simp_all only: length_take min_absorb2 nth_take, simp)
    then show ?thesis using False f ne by (auto simp: last_at_def split: list.splits)
  qed
qed

end

end
