(* ===== verification/Sym_Jit.thy ===== *)
theory Sym_Jit
  imports Elf_Syms
begin

unbundle bit_operations_syntax

text \<open>
  \<open>src/src/common/sym_jit.c\<close>: names for code that the Java runtime compiled into anonymous memory. The runtime
  publishes a list of small ELF images through \<open>__jit_debug_descriptor\<close>; the list is walked in the memory of the
  process, the symbols of the images are collected and sorted, and an address is looked up among them.

  \<^item> the process runs on while it is read: \<open>mem k\<close> is what the kernel returns during the \<open>k\<close>-th call of
    \<open>proc_mem_read\<close>; \<open>al k\<close> is the answer to the \<open>k\<close>-th allocation, with the contents of the new memory;
  \<^item> the scratch buffer is the list of its bytes up to its capacity, so an image of \<open>len\<close> bytes may be followed by
    what was there before; \<open>None\<close> is an access outside it;
  \<^item> the name arena is the list of the bytes in use. Sizes stay far below \<open>2 ^ 63\<close>, as an image has at most 64 MB.

  Locating the descriptor through the module's file and the cache of contexts by process are not modelled.
\<close>

section \<open>The map\<close>

record jit_entry =
  jit_start :: u64
  jit_end :: u64
  name_off :: u32

record jit_map =
  jit_e :: "jit_entry list"
  jit_cap :: nat
  arena :: bytes
  arena_cap :: nat

record jit_world =
  jit :: jit_map
  jit_scratch :: bytes
  mem_reads :: nat
  allocations :: nat

abbreviation JIT_MAX_ENTRIES :: nat where "JIT_MAX_ENTRIES \<equiv> 65536"
abbreviation JIT_MAX_SYMFILE :: nat where "JIT_MAX_SYMFILE \<equiv> 64 * 2 ^ 20"

definition jit_scratch_ensure :: "allocator \<Rightarrow> nat \<Rightarrow> jit_world \<Rightarrow> bool \<times> jit_world" where
  "jit_scratch_ensure al n w =
     (let cap = length (jit_scratch w) in
      if n \<le> cap then (True, w)
      else let nc = double_until (if cap \<noteq> 0 then cap else 65536) n; w' = w\<lparr>allocations := allocations w + 1\<rparr> in
        case al (allocations w) of
          None \<Rightarrow> (False, w')
        | Some f \<Rightarrow> (True, w'\<lparr>jit_scratch := jit_scratch w @ map f [cap..<nc]\<rparr>))"

definition jit_arena_add :: "allocator \<Rightarrow> bytes \<Rightarrow> jit_map \<times> nat \<Rightarrow> u32 \<times> jit_map \<times> nat" where
  "jit_arena_add al name = (\<lambda>(jm, k).
     (let (off, (buf, cap), k) = arena_push 8192 al name ((arena jm, arena_cap jm), k)
      in (off, jm\<lparr>arena := buf, arena_cap := cap\<rparr>, k)))"

definition jit_add :: "allocator \<Rightarrow> u64 \<Rightarrow> u64 \<Rightarrow> bytes \<Rightarrow> jit_map \<times> nat \<Rightarrow> jit_map \<times> nat" where
  "jit_add al start sz name = (\<lambda>(jm, k).
     (if start = 0 \<or> name = [] then (jm, k)
      else let (ok, jm, k) =
          (if length (jit_e jm) = jit_cap jm then
             (case al k of None \<Rightarrow> (False, jm, k + 1)
              | Some _ \<Rightarrow> (True, jm\<lparr>jit_cap := (if jit_cap jm \<noteq> 0 then jit_cap jm * 2 else 256)\<rparr>, k + 1))
           else (True, jm, k))
        in if \<not> ok then (jm, k)
           else let (off, jm, k) = jit_arena_add al name (jm, k) in
             if off = 0 then (jm, k)
             else (jm\<lparr>jit_e := jit_e jm @ [\<lparr>jit_start = start, jit_end = (if sz \<noteq> 0 then start + sz else start + 1), name_off = off\<rparr>]\<rparr>, k)))"

definition jit_reset :: "jit_map \<Rightarrow> jit_map" where
  "jit_reset jm = (let jm = jm\<lparr>jit_e := []\<rparr> in if arena_cap jm \<noteq> 0 then jm\<lparr>arena := take 1 (arena jm)\<rparr> else jm)"

section \<open>Reading an image\<close>

definition jit_sym :: "allocator \<Rightarrow> bytes \<Rightarrow> shdr64 \<Rightarrow> shdr64 \<Rightarrow> nat \<Rightarrow> jit_map \<times> nat \<Rightarrow> (jit_map \<times> nat) option" where
  "jit_sym al buf sec str k st = do {
     es \<leftarrow> load_bytes buf (unat (sh_offset sec) + k * unat (sh_entsize sec)) 24;
     let st_name = (le_word (take 4 es) :: u32);
     let st_info = es ! 4;
     let st_shndx = (le_word (take 2 (drop 6 es)) :: u16);
     let st_value = (le_word (take 8 (drop 8 es)) :: u64);
     let st_size = (le_word (take 8 (drop 16 es)) :: u64);
     (if st_value = 0 \<or> st_shndx = 0 \<or> st_name = 0 then Some st
      else if st_info AND 0xf \<noteq> 2 \<and> st_info AND 0xf \<noteq> 0 then Some st
      else if ucast st_name \<ge> sh_size str then Some st
      else do {
        name \<leftarrow> c_string buf (unat (sh_offset str) + unat st_name);
        Some (jit_add al st_value st_size name st)
      })
   }"

fun jit_syms :: "allocator \<Rightarrow> bytes \<Rightarrow> shdr64 \<Rightarrow> shdr64 \<Rightarrow> nat list \<Rightarrow> jit_map \<times> nat \<Rightarrow> (jit_map \<times> nat) option" where
  "jit_syms al buf sec str [] st = Some st"
| "jit_syms al buf sec str (k # ks) st = do { st \<leftarrow> jit_sym al buf sec str k st; jit_syms al buf sec str ks st }"

definition jit_section :: "allocator \<Rightarrow> bytes \<Rightarrow> nat \<Rightarrow> u64 \<Rightarrow> u16 \<Rightarrow> u16 \<Rightarrow> nat \<Rightarrow> jit_map \<times> nat \<Rightarrow> (jit_map \<times> nat) option" where
  "jit_section al buf len shoff shentsize shnum i st = do {
     sec \<leftarrow> load_shdr buf (unat shoff + i * unat shentsize);
     (if sh_type sec \<noteq> 2 \<and> sh_type sec \<noteq> 11 \<or> unat (sh_link sec) \<ge> unat shnum \<or> sh_entsize sec = 0 then Some st
      else do {
        str \<leftarrow> load_shdr buf (unat shoff + unat (sh_link sec) * unat shentsize);
        (if sh_offset sec + sh_size sec > of_nat len \<or> sh_offset str + sh_size str > of_nat len then Some st
         else jit_syms al buf sec str [0..<unat (sh_size sec div sh_entsize sec)] st)
      })
   }"

fun jit_sections :: "allocator \<Rightarrow> bytes \<Rightarrow> nat \<Rightarrow> u64 \<Rightarrow> u16 \<Rightarrow> u16 \<Rightarrow> nat list \<Rightarrow> jit_map \<times> nat \<Rightarrow> (jit_map \<times> nat) option" where
  "jit_sections al buf len shoff shentsize shnum [] st = Some st"
| "jit_sections al buf len shoff shentsize shnum (i # is) st = do {
     st \<leftarrow> jit_section al buf len shoff shentsize shnum i st;
     jit_sections al buf len shoff shentsize shnum is st
   }"

definition jit_ingest_elf :: "allocator \<Rightarrow> bytes \<Rightarrow> nat \<Rightarrow> jit_map \<times> nat \<Rightarrow> (jit_map \<times> nat) option" where
  "jit_ingest_elf al buf len st =
     (if len < 64 then Some st
      else do {
        eh \<leftarrow> load_bytes buf 0 64;
        let e_shoff = (le_word (take 8 (drop 40 eh)) :: u64);
        let e_shentsize = (le_word (take 2 (drop 58 eh)) :: u16);
        let e_shnum = (le_word (take 2 (drop 60 eh)) :: u16);
        (if \<not> elf64_magic eh then Some st
         else if e_shoff = 0 \<or> e_shnum = 0 \<or> unat e_shentsize < 64 then Some st
         else if e_shoff + of_nat (unat e_shnum * unat e_shentsize) > of_nat len then Some st
         else jit_sections al buf len e_shoff e_shentsize e_shnum [0..<unat e_shnum] st)
      })"

section \<open>Looking an address up\<close>

function jit_bsearch :: "jit_entry list \<Rightarrow> u64 \<Rightarrow> nat \<Rightarrow> nat \<Rightarrow> nat" where
  "jit_bsearch es addr lo hi =
     (if lo < hi then
        let mid = (lo + hi) div 2 in
        if jit_start (es ! mid) \<le> addr then jit_bsearch es addr (mid + 1) hi else jit_bsearch es addr lo mid
      else lo)"
  by pat_completeness auto
termination by (relation "measure (\<lambda>(es, addr, lo, hi). hi - lo)") auto

definition jit_lookup :: "jit_map \<Rightarrow> u64 \<Rightarrow> (bytes option \<times> u64) option" where
  "jit_lookup jm addr =
     (if jit_e jm = [] then None
      else let lo = jit_bsearch (jit_e jm) addr 0 (length (jit_e jm)) in
        if lo = 0 then None
        else let je = jit_e jm ! (lo - 1) in
          if addr \<ge> jit_end je then None
          else Some (c_string (arena jm) (unat (name_off je)), addr - jit_start je))"

section \<open>Refreshing\<close>

record art_ctx =
  located :: int
  desc_va :: u64
  last_head :: u64
  last_seqlock :: u32

definition mem_read :: "(nat \<Rightarrow> u64 \<Rightarrow> nat \<Rightarrow> bytes option) \<Rightarrow> u64 \<Rightarrow> bytes \<Rightarrow> nat \<Rightarrow> jit_world \<Rightarrow> (bytes \<times> nat \<times> jit_world) option" where
  "mem_read mem va dst len w =
     map_option (\<lambda>(dst, got). (dst, got, w\<lparr>mem_reads := mem_reads w + 1\<rparr>)) (proc_mem_read (mem (mem_reads w)) va dst len)"

definition rd_u32 :: "bytes \<Rightarrow> nat \<Rightarrow> u32" where "rd_u32 b o1 = le_word (take 4 (drop o1 b))"
definition rd_u64 :: "bytes \<Rightarrow> nat \<Rightarrow> u64" where "rd_u64 b o1 = le_word (take 8 (drop o1 b))"

definition jit_one :: "allocator \<Rightarrow> (nat \<Rightarrow> u64 \<Rightarrow> nat \<Rightarrow> bytes option) \<Rightarrow> bytes \<Rightarrow> jit_world \<Rightarrow> jit_world option" where
  "jit_one al mem ce w =
     (let symaddr = rd_u64 ce 16; symsize = unat (rd_u64 ce 24) in
      if symaddr \<noteq> 0 \<and> 64 \<le> symsize \<and> symsize \<le> JIT_MAX_SYMFILE then
        (let (ok, w) = jit_scratch_ensure al symsize w in
         if \<not> ok then Some w
         else do {
           (buf, got, w) \<leftarrow> mem_read mem symaddr (jit_scratch w) symsize w;
           let w = w\<lparr>jit_scratch := buf\<rparr>;
           (if got \<ge> 64 then do {
              (jm, k) \<leftarrow> jit_ingest_elf al buf symsize (jit w, allocations w);
              Some (w\<lparr>jit := jm, allocations := k\<rparr>)
            } else Some w)
         })
      else Some w)"

fun jit_walk :: "allocator \<Rightarrow> (nat \<Rightarrow> u64 \<Rightarrow> nat \<Rightarrow> bytes option) \<Rightarrow> nat \<Rightarrow> u64 \<Rightarrow> jit_world \<Rightarrow> jit_world option" where
  "jit_walk al mem 0 entry w = Some w"
| "jit_walk al mem (Suc guard) entry w =
     (if entry = 0 then Some w
      else do {
        (ce, got, w) \<leftarrow> mem_read mem entry (replicate 32 0) 32 w;
        (if got \<noteq> 32 then Some w
         else do { w \<leftarrow> jit_one al mem ce w; jit_walk al mem guard (rd_u64 ce 0) w })
      })"

fun art_attempts ::
  "allocator \<Rightarrow> (nat \<Rightarrow> u64 \<Rightarrow> nat \<Rightarrow> bytes option) \<Rightarrow> (jit_entry list \<Rightarrow> jit_entry list) \<Rightarrow> nat \<Rightarrow> art_ctx \<Rightarrow> jit_world \<Rightarrow> (art_ctx \<times> jit_world) option" where
  "art_attempts al mem qs 0 ac w = Some (ac, w)"
| "art_attempts al mem qs (Suc n) ac w = do {
     (desc, got, w) \<leftarrow> mem_read mem (desc_va ac) (replicate 48 0) 48 w;
     (if got \<noteq> 48 then Some (ac, w)
      else let s1 = rd_u32 desc 36 in
        if s1 AND 1 \<noteq> 0 then art_attempts al mem qs n ac w
        else do {
          let head = rd_u64 desc 16;
          let w = w\<lparr>jit := jit_reset (jit w)\<rparr>;
          w \<leftarrow> jit_walk al mem JIT_MAX_ENTRIES head w;
          (d2, got, w) \<leftarrow> mem_read mem (desc_va ac) (replicate 48 0) 48 w;
          (if got \<noteq> 48 then Some (ac, w)
           else if rd_u32 d2 36 = s1 then
             (let jm = jit w; jm = (if jit_e jm \<noteq> [] then jm\<lparr>jit_e := qs (jit_e jm)\<rparr> else jm)
              in Some (ac\<lparr>last_seqlock := s1, last_head := head\<rparr>, w\<lparr>jit := jm\<rparr>))
           else art_attempts al mem qs n ac w)
        })
   }"

definition art_refresh ::
  "allocator \<Rightarrow> (nat \<Rightarrow> u64 \<Rightarrow> nat \<Rightarrow> bytes option) \<Rightarrow> (jit_entry list \<Rightarrow> jit_entry list) \<Rightarrow> bool \<Rightarrow> art_ctx \<Rightarrow> jit_world \<Rightarrow> (art_ctx \<times> jit_world) option" where
  "art_refresh al mem qs fd_ok ac w =
     (if located ac \<noteq> 1 \<or> desc_va ac = 0 then Some (ac, w)
      else if \<not> fd_ok then Some (ac\<lparr>located := -1\<rparr>, w)
      else do {
        (desc, got, w) \<leftarrow> mem_read mem (desc_va ac) (replicate 48 0) 48 w;
        (if got \<noteq> 48 then Some (ac, w)
         else if rd_u32 desc 0 \<noteq> 1 then Some (ac\<lparr>located := -1\<rparr>, w)
         else let seq = rd_u32 desc 36; head = rd_u64 desc 16 in
           if seq AND 1 = 0 \<and> seq = last_seqlock ac \<and> head = last_head ac \<and> jit_e (jit w) \<noteq> [] then Some (ac, w)
           else art_attempts al mem qs 4 ac w)
      })"

definition art_reset :: "art_ctx \<Rightarrow> jit_world \<Rightarrow> art_ctx \<times> jit_world" where
  "art_reset ac w = (ac\<lparr>located := 0, desc_va := 0, last_head := 0, last_seqlock := 0\<rparr>, w\<lparr>jit := jit_reset (jit w)\<rparr>)"

section \<open>Lookups\<close>

declare jit_bsearch.simps [simp del]

interpretation jit: floor_search jit_start jit_bsearch
  by unfold_locales (subst jit_bsearch.simps, simp add: Let_def)+

lemma jit_lookup_last:
  assumes "sorted (map jit_start (jit_e jm))"
  shows "jit_lookup jm addr = (case last_at jit_start (jit_e jm) addr of
      None \<Rightarrow> None
    | Some e \<Rightarrow> if addr < jit_end e then Some (c_string (arena jm) (unat (name_off e)), addr - jit_start e) else None)"
  unfolding jit.search_last [OF assms] jit_lookup_def
  by (auto simp: Let_def not_le jit.search_done)

section \<open>Adding a symbol\<close>

text \<open>What a map says: each entry with the name its offset gives.\<close>

definition jit_view :: "jit_map \<Rightarrow> (u64 \<times> u64 \<times> bytes option) list" where
  "jit_view jm = map (\<lambda>e. (jit_start e, jit_end e, c_string (arena jm) (unat (name_off e)))) (jit_e jm)"

definition jit_wf :: "jit_map \<Rightarrow> bool" where
  "jit_wf jm \<longleftrightarrow> arena_wf (arena jm, arena_cap jm) \<and>
     length (jit_e jm) \<le> jit_cap jm \<and> (\<forall>e \<in> set (jit_e jm). c_string (arena jm) (unat (name_off e)) \<noteq> None)"

lemma jit_extend:
  assumes "jit_wf jm" "arena jm' = arena jm @ x" "jit_e jm' = jit_e jm" "jit_cap jm' = jit_cap jm" "arena_wf (arena jm', arena_cap jm')"
  shows "jit_view jm' = jit_view jm" "jit_wf jm'"
proof -
  have "c_string (arena jm') (unat (name_off e)) = c_string (arena jm) (unat (name_off e)) \<and> c_string (arena jm) (unat (name_off e)) \<noteq> None" if "e \<in> set (jit_e jm)" for e
    using that assms(1) unfolding assms(2) jit_wf_def by (intro conjI c_string_append) auto
  then show "jit_view jm' = jit_view jm" "jit_wf jm'" using assms unfolding jit_wf_def jit_view_def by (auto simp: assms(3,4))
qed

text \<open>A name is stored behind the others, or the map says what it said before and the offset is 0.\<close>

lemma jit_arena_add_cases:
  assumes "jit_wf jm" "0 \<notin> set name" "max 1 (length (arena jm)) + length name + 1 < 2 ^ 32" "jit_arena_add al name (jm, k) = (off, jm', k')"
  shows "jit_e jm' = jit_e jm \<and> jit_cap jm' = jit_cap jm \<and> jit_wf jm' \<and> length (arena jm') \<le> max 1 (length (arena jm)) + length name + 1 \<and>
    jit_view jm' = jit_view jm \<and>
    (off = 0 \<and> (\<exists>n. al n = None) \<or> off \<noteq> 0 \<and> c_string (arena jm') (unat off) = Some name)"
proof -
  obtain buf cap where p: "arena_push 8192 al name ((arena jm, arena_cap jm), k) = (off, (buf, cap), k')" "jm' = jm\<lparr>arena := buf, arena_cap := cap\<rparr>"
    using assms(4) by (auto simp: jit_arena_add_def Let_def split: prod.splits)
  have w: "arena_wf (arena jm, arena_cap jm)" using assms(1) by (simp add: jit_wf_def)
  note c = arena_push_cases [OF w assms(2,3) _ p(1)]
  then obtain x where "buf = arena jm @ x" by auto
  then have "jit_view jm' = jit_view jm" "jit_wf jm'" using c p(2) by (intro jit_extend [OF assms(1), of _ x]; simp)+
  then show ?thesis using c p(2) by simp
qed

definition jit_item :: "u64 \<Rightarrow> u64 \<Rightarrow> bytes \<Rightarrow> u64 \<times> u64 \<times> bytes option" where
  "jit_item start sz name = (start, (if sz \<noteq> 0 then start + sz else start + 1), Some name)"

lemma jit_add_cases:
  assumes "jit_wf jm" "0 \<notin> set name" "max 1 (length (arena jm)) + length name + 1 < 2 ^ 32" "jit_add al start sz name (jm, k) = (jm', k')"
  shows "jit_wf jm' \<and> length (arena jm') \<le> max 1 (length (arena jm)) + length name + 1 \<and>
    (jit_view jm' = jit_view jm \<and> (start = 0 \<or> name = [] \<or> (\<exists>n. al n = None)) \<or>
     jit_view jm' = jit_view jm @ [jit_item start sz name] \<and> start \<noteq> 0 \<and> name \<noteq> [])"
proof (cases "start = 0 \<or> name = []")
  case True
  then show ?thesis using assms by (auto simp: jit_add_def)
next
  case False
  define jm0 where "jm0 = (if length (jit_e jm) = jit_cap jm then jm\<lparr>jit_cap := (if jit_cap jm \<noteq> 0 then jit_cap jm * 2 else 256)\<rparr> else jm)"
  have m0: "jit_e jm0 = jit_e jm" "arena jm0 = arena jm" "arena_cap jm0 = arena_cap jm" "length (jit_e jm) < jit_cap jm0"
    using assms(1) by (auto simp: jm0_def jit_wf_def)
  have i0: "jit_view jm0 = jit_view jm" "jit_wf jm0" using assms(1) m0 by (auto simp: jit_view_def jit_wf_def)
  show ?thesis
  proof (cases "length (jit_e jm) = jit_cap jm \<and> al k = None")
    case True
    then show ?thesis using assms False by (auto simp: jit_add_def)
  next
    case roomy: False
    define k0 where "k0 = (if length (jit_e jm) = jit_cap jm then k + 1 else k)"
    obtain off jm1 k1 where a: "jit_arena_add al name (jm0, k0) = (off, jm1, k1)" by (metis prod_cases3)
    have c: "jit_e jm1 = jit_e jm0 \<and> jit_cap jm1 = jit_cap jm0 \<and> jit_wf jm1 \<and> length (arena jm1) \<le> max 1 (length (arena jm0)) + length name + 1 \<and>
        jit_view jm1 = jit_view jm0 \<and> (off = 0 \<and> (\<exists>n. al n = None) \<or> off \<noteq> 0 \<and> c_string (arena jm1) (unat off) = Some name)"
      using assms(3) by (intro jit_arena_add_cases [OF i0(2) assms(2) _ a]) (simp add: m0)
    have r: "jm' = (if off = 0 then jm1 else jm1\<lparr>jit_e := jit_e jm1 @ [\<lparr>jit_start = start, jit_end = (if sz \<noteq> 0 then start + sz else start + 1), name_off = off\<rparr>]\<rparr>)"
      using assms(4) False roomy a by (auto simp: jit_add_def jm0_def k0_def Let_def split: if_splits option.splits prod.splits)
    show ?thesis using c r i0 m0 False by (auto simp: jit_view_def jit_wf_def jit_item_def)
  qed
qed

section \<open>The symbols of an image\<close>

interpretation jc: collector jit_wf jit_view "\<lambda>jm. length (arena jm)"
  by unfold_locales (auto simp: jit_wf_def jit_view_def)

lemma jit_add_grown:
  assumes "jit_wf jm" "0 \<notin> set name" "name \<noteq> [] \<Longrightarrow> max 1 (length (arena jm)) + length name + 1 < 2 ^ 32" "start \<noteq> 0"
  obtains jm' k' where "jit_add al start sz name (jm, k) = (jm', k')"
    "jc.grown al (if name = [] then [] else [jit_item start sz name]) jm jm'"
proof -
  obtain jm' k' where a: "jit_add al start sz name (jm, k) = (jm', k')" by (metis surj_pair)
  have "jc.grown al (if name = [] then [] else [jit_item start sz name]) jm jm'"
  proof (cases "name = []")
    case True
    then show ?thesis using a assms(1) jc.grown_refl by (simp add: jit_add_def)
  next
    case False
    then show ?thesis using jit_add_cases [OF assms(1,2) assms(3) [OF False] a] assms(4) unfolding jc.grown_def
      by (auto simp: jit_item_def intro: exI [of _ "[]"] exI [of _ "[jit_item start sz name]"])
  qed
  then show thesis using a that by blast
qed

definition sym_items :: "bytes \<Rightarrow> shdr64 \<Rightarrow> shdr64 \<Rightarrow> nat \<Rightarrow> (u64 \<times> u64 \<times> bytes option) list" where
  "sym_items buf sec str k =
     (let es = take 24 (drop (unat (sh_offset sec) + k * unat (sh_entsize sec)) buf);
          st_name = (le_word (take 4 es) :: u32); st_value = le_word (take 8 (drop 8 es));
          name = takeWhile (\<lambda>b. b \<noteq> 0) (drop (unat (sh_offset str) + unat st_name) buf)
      in if st_value \<noteq> 0 \<and> (le_word (take 2 (drop 6 es)) :: u16) \<noteq> 0 \<and> st_name \<noteq> 0 \<and>
            (es ! 4 AND 0xf = 2 \<or> es ! 4 AND 0xf = 0) \<and> unat st_name < unat (sh_size str) \<and> name \<noteq> []
         then [jit_item st_value (le_word (take 8 (drop 16 es))) name] else [])"

definition shdr_at :: "bytes \<Rightarrow> u64 \<Rightarrow> u16 \<Rightarrow> nat \<Rightarrow> shdr64" where
  "shdr_at buf shoff shentsize i = the (load_shdr buf (unat shoff + i * unat shentsize))"

definition is_symtab :: "u16 \<Rightarrow> shdr64 \<Rightarrow> bool" where
  "is_symtab shnum sec \<longleftrightarrow> (sh_type sec = 2 \<or> sh_type sec = 11) \<and> unat (sh_link sec) < unat shnum \<and> sh_entsize sec \<noteq> 0"

definition sec_items :: "bytes \<Rightarrow> nat \<Rightarrow> u64 \<Rightarrow> u16 \<Rightarrow> u16 \<Rightarrow> nat \<Rightarrow> (u64 \<times> u64 \<times> bytes option) list" where
  "sec_items buf len shoff shentsize shnum i =
     (let sec = shdr_at buf shoff shentsize i; str = shdr_at buf shoff shentsize (unat (sh_link sec)) in
      if is_symtab shnum sec \<and> sh_limit sec \<le> len \<and> sh_limit str \<le> len
      then concat (map (sym_items buf sec str) [0..<unat (sh_size sec) div unat (sh_entsize sec)]) else [])"

text \<open>The sums of the headers do not wrap, a symbol table has whole entries, and the buffer has a NUL at or behind
  the last byte of the image.\<close>

definition sec_sane :: "bytes \<Rightarrow> u64 \<Rightarrow> u16 \<Rightarrow> u16 \<Rightarrow> nat \<Rightarrow> bool" where
  "sec_sane buf shoff shentsize shnum i \<longleftrightarrow>
     (let sec = shdr_at buf shoff shentsize i; str = shdr_at buf shoff shentsize (unat (sh_link sec)) in
      is_symtab shnum sec \<longrightarrow> sh_limit sec < 2 ^ 64 \<and> sh_limit str < 2 ^ 64 \<and> 24 \<le> unat (sh_entsize sec))"

lemma jit_sym_grown:
  assumes "jit_wf jm" "sh_limit sec \<le> len" "sh_limit str \<le> len" "24 \<le> unat (sh_entsize sec)" "k < unat (sh_size sec) div unat (sh_entsize sec)"
    "len \<le> length buf" "0 \<in> set (drop (len - 1) buf)" "jc.room jm (sym_items buf sec str k)"
  obtains jm' n' where "jit_sym al buf sec str k (jm, n) = Some (jm', n')" "jc.grown al (sym_items buf sec str k) jm jm'"
proof -
  let ?o = "unat (sh_offset sec) + k * unat (sh_entsize sec)"
  let ?es = "take 24 (drop ?o buf)"
  let ?nm = "le_word (take 4 ?es) :: u32" and ?v = "le_word (take 8 (drop 8 ?es)) :: u64" and ?z = "le_word (take 8 (drop 16 ?es)) :: u64"
  let ?name = "takeWhile (\<lambda>b. b \<noteq> 0) (drop (unat (sh_offset str) + unat ?nm) buf)"
  have "(k + 1) * unat (sh_entsize sec) \<le> unat (sh_size sec)"
    using assms(4,5) by (intro entry_within) simp_all
  then have in_buf: "?o + 24 \<le> length buf" using assms(2,4,6) by simp
  let ?go = "?v \<noteq> 0 \<and> (le_word (take 2 (drop 6 ?es)) :: u16) \<noteq> 0 \<and> ?nm \<noteq> 0 \<and> (?es ! 4 AND 0xf = 2 \<or> ?es ! 4 AND 0xf = 0) \<and> unat ?nm < unat (sh_size str)"
  have cmp: "ucast ?nm \<ge> sh_size str \<longleftrightarrow> \<not> unat ?nm < unat (sh_size str)" by (simp add: word_le_nat_alt not_less unat_ucast32)
  have it: "sym_items buf sec str k = (if ?go \<and> ?name \<noteq> [] then [jit_item ?v ?z ?name] else [])"
    by (simp add: sym_items_def Let_def)
  show thesis
  proof (cases ?go)
    case True
    then have "unat (sh_offset str) + unat ?nm \<le> len - 1" using assms(3) by linarith
    then have str: "c_string buf (unat (sh_offset str) + unat ?nm) = Some ?name" using assms(7) by (rule c_string_before)
    then have "0 \<notin> set ?name" by (rule c_string_no_nul)
    moreover have "max 1 (length (arena jm)) + length ?name + 1 < 2 ^ 32" if "?name \<noteq> []"
      using assms(8) True that unfolding it jc.room_def by (simp add: jit_item_def)
    ultimately obtain jm' k' where "jit_add al ?v ?z ?name (jm, n) = (jm', k')" "jc.grown al (if ?name = [] then [] else [jit_item ?v ?z ?name]) jm jm'"
      using True jit_add_grown [OF assms(1), of ?name ?v al ?z n] by blast
    note add = this
    have "jit_sym al buf sec str k (jm, n) = Some (jit_add al ?v ?z ?name (jm, n))"
      using True in_buf cmp str unfolding jit_sym_def by (auto simp: Let_def)
    moreover have "sym_items buf sec str k = (if ?name = [] then [] else [jit_item ?v ?z ?name])" using True unfolding it by argo
    ultimately show thesis using that [of jm' k'] add by (simp only:)
  next
    case False
    then have "jit_sym al buf sec str k (jm, n) = Some (jm, n)" using in_buf cmp by (auto simp: jit_sym_def Let_def)
    then show thesis using that jc.grown_refl [OF assms(1)] it False by auto
  qed
qed

lemma jit_syms_grown:
  assumes "sh_limit sec \<le> len" "sh_limit str \<le> len" "24 \<le> unat (sh_entsize sec)" "len \<le> length buf" "0 \<in> set (drop (len - 1) buf)"
    "\<forall>k \<in> set ks. k < unat (sh_size sec) div unat (sh_entsize sec)"
  shows "jit_wf jm \<Longrightarrow> jc.room jm (concat (map (sym_items buf sec str) ks)) \<Longrightarrow>
    \<exists>jm' n'. jit_syms al buf sec str ks (jm, n) = Some (jm', n') \<and> jc.grown al (concat (map (sym_items buf sec str) ks)) jm jm'"
proof (rule jc.grown_loop)
  fix jm n k assume "k \<in> set ks" "jit_wf jm" "jc.room jm (sym_items buf sec str k)"
  moreover from this have "k < unat (sh_size sec) div unat (sh_entsize sec)" using assms(6) by blast
  ultimately show "\<exists>jm' n'. jit_sym al buf sec str k (jm, n) = Some (jm', n') \<and> jc.grown al (sym_items buf sec str k) jm jm'"
    using jit_sym_grown [OF _ assms(1-3) _ assms(4,5), of jm k al n] by blast
qed simp_all

lemma jit_section_grown:
  assumes "unat shoff + unat shnum * unat shentsize \<le> len" "64 \<le> unat shentsize" "len \<le> length buf" "0 \<in> set (drop (len - 1) buf)" "len < 2 ^ 64"
    "i < unat shnum" "sec_sane buf shoff shentsize shnum i" "jit_wf jm" "jc.room jm (sec_items buf len shoff shentsize shnum i)"
  shows "\<exists>jm' n'. jit_section al buf len shoff shentsize shnum i (jm, n) = Some (jm', n') \<and> jc.grown al (sec_items buf len shoff shentsize shnum i) jm jm'"
proof -
  have at: "load_shdr buf (unat shoff + j * unat shentsize) = Some (shdr_at buf shoff shentsize j)" if "j < unat shnum" for j
  proof -
    have "(j + 1) * unat shentsize \<le> unat shnum * unat shentsize" using that by (intro mult_le_mono1) simp
    then have "unat shoff + j * unat shentsize + 64 \<le> length buf" using assms(1-3) by simp
    then show ?thesis using load_shdr_in unfolding shdr_at_def by fastforce
  qed
  define sec where "sec = shdr_at buf shoff shentsize i"
  define str where "str = shdr_at buf shoff shentsize (unat (sh_link sec))"
  let ?r = "jit_section al buf len shoff shentsize shnum i (jm, n)" and ?x = "sec_items buf len shoff shentsize shnum i"
  let ?ks = "[0..<unat (sh_size sec) div unat (sh_entsize sec)]"
  show ?thesis
  proof (cases "is_symtab shnum sec")
    case False
    then have "?r = Some (jm, n)" "?x = []"
      using at [OF assms(6)] by (auto simp: jit_section_def is_symtab_def sec_items_def sec_def [symmetric] Let_def not_less)
    then show ?thesis using jc.grown_refl [OF assms(8)] by simp
  next
    case True
    then have str: "load_shdr buf (unat shoff + unat (sh_link sec) * unat shentsize) = Some str" using at by (simp add: str_def is_symtab_def)
    have sane: "sh_limit sec < 2 ^ 64" "sh_limit str < 2 ^ 64" "24 \<le> unat (sh_entsize sec)"
      using assms(7) True by (simp_all add: sec_sane_def Let_def sec_def [symmetric] str_def [symmetric])
    note lim = sum_wrap_le [OF sane(1) assms(5)] sum_wrap_le [OF sane(2) assms(5)]
    have it: "?x = (if sh_limit sec \<le> len \<and> sh_limit str \<le> len then concat (map (sym_items buf sec str) ?ks) else [])"
      using True by (simp add: sec_items_def Let_def sec_def [symmetric] str_def [symmetric])
    have r: "?r = (if sh_limit sec \<le> len \<and> sh_limit str \<le> len then jit_syms al buf sec str ?ks (jm, n) else Some (jm, n))"
      using at [OF assms(6)] True str lim unfolding jit_section_def by (auto simp: is_symtab_def sec_def [symmetric] unat_div_distrib)
    show ?thesis
    proof (cases "sh_limit sec \<le> len \<and> sh_limit str \<le> len")
      case False
      then have "?r = Some (jm, n)" "?x = []" using r it by argo+
      then show ?thesis using jc.grown_refl [OF assms(8)] by simp
    next
      case True
      then show ?thesis using jit_syms_grown [OF _ _ sane(3) assms(3,4), of str ?ks jm al n] assms(8,9) r it by auto
    qed
  qed
qed

lemma jit_sections_grown:
  assumes "unat shoff + unat shnum * unat shentsize \<le> len" "64 \<le> unat shentsize" "len \<le> length buf" "0 \<in> set (drop (len - 1) buf)" "len < 2 ^ 64"
    "\<forall>i \<in> set is. i < unat shnum \<and> sec_sane buf shoff shentsize shnum i"
  shows "jit_wf jm \<Longrightarrow> jc.room jm (concat (map (sec_items buf len shoff shentsize shnum) is)) \<Longrightarrow>
    \<exists>jm' n'. jit_sections al buf len shoff shentsize shnum is (jm, n) = Some (jm', n') \<and>
      jc.grown al (concat (map (sec_items buf len shoff shentsize shnum) is)) jm jm'"
  by (rule jc.grown_loop) (use jit_section_grown [OF assms(1-5)] assms(6) in auto)

definition image_table :: "bytes \<Rightarrow> bool" where
  "image_table eh \<longleftrightarrow> elf64_magic eh \<and> e_shoff_of eh \<noteq> 0 \<and> e_shnum_of eh \<noteq> 0 \<and> 64 \<le> unat (e_shentsize_of eh)"

definition table_limit :: "bytes \<Rightarrow> nat" where
  "table_limit eh = unat (e_shoff_of eh) + unat (e_shnum_of eh) * unat (e_shentsize_of eh)"

text \<open>The function symbols of an image, in the order of its tables.\<close>

definition image_items :: "bytes \<Rightarrow> nat \<Rightarrow> (u64 \<times> u64 \<times> bytes option) list" where
  "image_items buf len =
     (let eh = take 64 buf in
      if 64 \<le> len \<and> image_table eh \<and> table_limit eh \<le> len
      then concat (map (sec_items buf len (e_shoff_of eh) (e_shentsize_of eh) (e_shnum_of eh)) [0..<unat (e_shnum_of eh)]) else [])"

definition image_sane :: "bytes \<Rightarrow> nat \<Rightarrow> bool" where
  "image_sane buf len \<longleftrightarrow>
     (let eh = take 64 buf in
      0 \<in> set (drop (len - 1) buf) \<and>
      (64 \<le> len \<and> image_table eh \<longrightarrow> table_limit eh < 2 ^ 64 \<and>
        (table_limit eh \<le> len \<longrightarrow> list_all (sec_sane buf (e_shoff_of eh) (e_shentsize_of eh) (e_shnum_of eh)) [0..<unat (e_shnum_of eh)])))"

lemma jit_ingest_grown:
  assumes "jit_wf jm" "len \<le> length buf" "len < 2 ^ 64" "image_sane buf len" "jc.room jm (image_items buf len)"
  obtains jm' n' where "jit_ingest_elf al buf len (jm, n) = Some (jm', n')" "jc.grown al (image_items buf len) jm jm'"
proof (cases "64 \<le> len \<and> image_table (take 64 buf)")
  case False
  then have "jit_ingest_elf al buf len (jm, n) = Some (jm, n)"
    using assms(2) by (auto simp: jit_ingest_elf_def image_table_def Let_def e_shoff_of_def e_shentsize_of_def e_shnum_of_def not_le)
  moreover have "image_items buf len = []" using False by (auto simp: image_items_def Let_def)
  ultimately show thesis using that jc.grown_refl [OF assms(1)] by auto
next
  case True
  let ?eh = "take 64 buf" let ?o = "e_shoff_of ?eh" and ?z = "e_shentsize_of ?eh" and ?k = "e_shnum_of ?eh"
  have lim: "table_limit ?eh < 2 ^ 64" using assms(4) True by (simp add: image_sane_def Let_def)
  then have "unat (of_nat (unat ?k * unat ?z) :: u64) = unat ?k * unat ?z" unfolding table_limit_def by (intro unat_of_nat64) linarith
  then have gt: "?o + of_nat (unat ?k * unat ?z) > of_nat len \<longleftrightarrow> \<not> table_limit ?eh \<le> len"
    using sum_wrap_le [of ?o "of_nat (unat ?k * unat ?z)" len] lim assms(3) by (simp add: table_limit_def)
  have e: "jit_ingest_elf al buf len (jm, n) = (if table_limit ?eh \<le> len then jit_sections al buf len ?o ?z ?k [0..<unat ?k] (jm, n) else Some (jm, n))"
    using True assms(2) gt unfolding jit_ingest_elf_def
    by (auto simp: image_table_def Let_def e_shoff_of_def e_shentsize_of_def e_shnum_of_def)
  show thesis
  proof (cases "table_limit ?eh \<le> len")
    case False
    then show thesis using that e jc.grown_refl [OF assms(1)] by (auto simp: image_items_def Let_def)
  next
    case tab: True
    have it: "image_items buf len = concat (map (sec_items buf len ?o ?z ?k) [0..<unat ?k])" using True tab by (simp add: image_items_def Let_def)
    have "0 \<in> set (drop (len - 1) buf)" "\<forall>i \<in> set [0..<unat ?k]. i < unat ?k \<and> sec_sane buf ?o ?z ?k i"
      using assms(4) True tab by (auto simp: image_sane_def Let_def list_all_iff)
    then show thesis using jit_sections_grown [OF tab [unfolded table_limit_def] _ assms(2) _ assms(3), of "[0..<unat ?k]" jm al n] assms(1) True assms(5) that tab e
      unfolding it [symmetric] by (auto simp: image_table_def)
  qed
qed

text \<open>The symbols do not depend on what follows the image in the buffer.\<close>

lemma shdr_at_append:
  "i < unat shnum \<Longrightarrow> 64 \<le> unat shentsize \<Longrightarrow> unat shoff + unat shnum * unat shentsize \<le> length buf \<Longrightarrow>
   shdr_at (buf @ x) shoff shentsize i = shdr_at buf shoff shentsize i"
proof -
  assume a: "i < unat shnum" "64 \<le> unat shentsize" "unat shoff + unat shnum * unat shentsize \<le> length buf"
  have "(i + 1) * unat shentsize \<le> unat shnum * unat shentsize" using a(1) by (intro mult_le_mono1) simp
  then show ?thesis using a unfolding shdr_at_def by (subst load_shdr_append) simp_all
qed

lemma sym_items_append:
  assumes "sh_limit sec \<le> length buf" "sh_limit str \<le> length buf" "24 \<le> unat (sh_entsize sec)" "k < unat (sh_size sec) div unat (sh_entsize sec)"
    "0 \<in> set (drop (length buf - 1) buf)"
  shows "sym_items (buf @ x) sec str k = sym_items buf sec str k"
proof -
  let ?o = "unat (sh_offset sec) + k * unat (sh_entsize sec)"
  have "(k + 1) * unat (sh_entsize sec) \<le> unat (sh_size sec)"
    using assms(3,4) by (intro entry_within) simp_all
  then have es: "take 24 (drop ?o (buf @ x)) = take 24 (drop ?o buf)" using assms(1,3) by simp
  have nm: "takeWhile (\<lambda>b. b \<noteq> 0) (drop (unat (sh_offset str) + j) (buf @ x)) = takeWhile (\<lambda>b. b \<noteq> 0) (drop (unat (sh_offset str) + j) buf)"
    if "j < unat (sh_size str)" for j
  proof -
    have "unat (sh_offset str) + j \<le> length buf - 1" using that assms(2) by linarith
    from subsetD [OF set_drop_subset_set_drop [OF this] assms(5)] show ?thesis by (auto simp: takeWhile_append)
  qed
  show ?thesis unfolding sym_items_def Let_def es using nm by (auto split del: if_split cong: if_cong conj_cong)
qed

lemma is_symtab_link: "is_symtab shnum sec \<Longrightarrow> unat (sh_link sec) < unat shnum"
  by (simp add: is_symtab_def)

lemma sec_items_append:
  assumes "unat shoff + unat shnum * unat shentsize \<le> length buf" "64 \<le> unat shentsize" "i < unat shnum" "0 \<in> set (drop (length buf - 1) buf)"
    "sec_sane buf shoff shentsize shnum i"
  shows "sec_items (buf @ x) (length buf) shoff shentsize shnum i = sec_items buf (length buf) shoff shentsize shnum i"
    "sec_sane (buf @ x) shoff shentsize shnum i"
proof -
  define sec where "sec = shdr_at buf shoff shentsize i"
  define str where "str = shdr_at buf shoff shentsize (unat (sh_link sec))"
  have sec': "shdr_at (buf @ x) shoff shentsize i = sec" unfolding sec_def by (rule shdr_at_append [OF assms(3,2,1)])
  have str': "is_symtab shnum sec \<Longrightarrow> shdr_at (buf @ x) shoff shentsize (unat (sh_link sec)) = str"
    unfolding str_def by (rule shdr_at_append [OF is_symtab_link assms(2,1)])
  show "sec_sane (buf @ x) shoff shentsize shnum i"
    using assms(5) str' unfolding sec_sane_def Let_def sec' sec_def [symmetric] str_def [symmetric] by simp
  have sane: "24 \<le> unat (sh_entsize sec)" if "is_symtab shnum sec"
    using assms(5) that by (simp add: sec_sane_def Let_def sec_def [symmetric])
  have "map (sym_items (buf @ x) sec str) [0..<unat (sh_size sec) div unat (sh_entsize sec)] =
      map (sym_items buf sec str) [0..<unat (sh_size sec) div unat (sh_entsize sec)]"
    if "is_symtab shnum sec" "sh_limit sec \<le> length buf" "sh_limit str \<le> length buf"
    using sym_items_append [OF that(2,3) sane [OF that(1)] _ assms(4)] by (intro map_cong) auto
  then show "sec_items (buf @ x) (length buf) shoff shentsize shnum i = sec_items buf (length buf) shoff shentsize shnum i"
    using str' unfolding sec_items_def Let_def sec' sec_def [symmetric] str_def [symmetric] by (auto simp del: map_eq_conv)
qed

lemma image_append:
  assumes "image_sane buf (length buf)" "64 \<le> length buf"
  shows "image_items (buf @ x) (length buf) = image_items buf (length buf)" "image_sane (buf @ x) (length buf)"
proof -
  let ?eh = "take 64 buf" let ?o = "e_shoff_of ?eh" and ?z = "e_shentsize_of ?eh" and ?k = "e_shnum_of ?eh"
  have eh: "take 64 (buf @ x) = ?eh" using assms(2) by simp
  have nul: "0 \<in> set (drop (length buf - 1) buf)" using assms(1) by (simp add: image_sane_def Let_def)
  have each: "sec_items (buf @ x) (length buf) ?o ?z ?k i = sec_items buf (length buf) ?o ?z ?k i \<and> sec_sane (buf @ x) ?o ?z ?k i"
    if "image_table ?eh" "table_limit ?eh \<le> length buf" "i < unat ?k" for i
    using sec_items_append [OF that(2) [unfolded table_limit_def] _ that(3) nul, of x] that assms
    by (auto simp: image_table_def image_sane_def Let_def list_all_iff)
  show "image_items (buf @ x) (length buf) = image_items buf (length buf)"
    unfolding image_items_def Let_def eh using each by (auto intro!: arg_cong [of _ _ concat] map_cong)
  show "image_sane (buf @ x) (length buf)"
    using assms(1) nul each unfolding image_sane_def Let_def eh by (auto simp: list_all_iff)
qed

section \<open>The walk over the list\<close>

lemma mem_read_loop_append:
  assumes "pread_of m pread"
  shows "off \<le> len \<Longrightarrow> length dst = len \<Longrightarrow>
    mem_read_loop pread va len off (dst @ x) got = map_option (\<lambda>(d, g). (d @ x, g)) (mem_read_loop pread va len off dst got)"
proof (induction "len - off" arbitrary: off dst got rule: less_induct)
  case less
  show ?case
  proof (cases "off < len")
    case False
    then show ?thesis by (simp add: mem_read_loop.simps)
  next
    case True
    let ?c = "mem_chunk va len off" and ?a = "va + of_nat off"
    note c = mem_chunk_bounds [OF True, of va]
    show ?thesis
    proof (cases "pread ?a ?c")
      case None
      then show ?thesis using less(1) [of "off + ?c" dst got] True c less(3) by (simp add: mem_read_loop.simps [of pread va len off] Let_def)
    next
      case (Some r)
      have "case pread ?a ?c of None \<Rightarrow> m ?a = None | Some r \<Rightarrow> r \<noteq> [] \<and> length r \<le> ?c \<and> (\<forall>i<length r. m (?a + of_nat i) = Some (r ! i))"
        using assms c unfolding pread_of_def by blast
      then have r: "r \<noteq> []" "length r \<le> ?c" using Some by simp_all
      let ?k = "off + length r" and ?d = "take off dst @ r @ drop (off + length r) dst"
      have k: "?k \<le> len" "off < ?k" using r c by auto
      have st: "store_bytes dst off r = Some ?d" "store_bytes (dst @ x) off r = Some (?d @ x)" using k less(3) by (auto simp: store_bytes_def)
      have "mem_read_loop pread va len ?k (?d @ x) (got + length r) =
          map_option (\<lambda>(d, g). (d @ x, g)) (mem_read_loop pread va len ?k ?d (got + length r))"
      proof (rule less(1))
        show "len - ?k < len - off" "?k \<le> len" using k by linarith+
        show "length ?d = len" using k less(3) by simp
      qed
      then show ?thesis using True Some r(1) st by (simp add: mem_read_loop.simps [of pread va len off] Let_def)
    qed
  qed
qed

definition mem_range :: "(u64 \<Rightarrow> u8 option) \<Rightarrow> u64 \<Rightarrow> nat \<Rightarrow> bytes" where
  "mem_range m va len = map (\<lambda>i. the (m (va + of_nat i))) [0..<len]"

lemma mem_range_length [simp]: "length (mem_range m va len) = len"
  by (simp add: mem_range_def)

lemma proc_mem_read_range:
  assumes "mem_paged m" "pread_of m pread" "len \<le> length dst" "\<forall>i<len. readable m va i"
  shows "proc_mem_read pread va dst len = Some (mem_range m va len @ drop len dst, len)"
proof -
  have "proc_mem_read pread va (take len dst) len = Some (mem_range m va len, len)"
    using proc_mem_read_seen [OF assms(1,2), of va "take len dst"] assms(3,4)
    by (auto simp: min_absorb2 seen_def mem_range_def filter_id_conv intro!: map_cong split: option.splits)
  then show ?thesis using mem_read_loop_append [OF assms(2), of 0 len "take len dst" va "drop len dst" 0] assms(3)
    by (simp add: proc_mem_read_def min_absorb2)
qed

text \<open>What the list in memory describes, entry by entry, and what has to hold of it to be read safely.\<close>

definition entry_image :: "bytes \<Rightarrow> bool" where
  "entry_image ce \<longleftrightarrow> rd_u64 ce 16 \<noteq> 0 \<and> 64 \<le> unat (rd_u64 ce 24) \<and> unat (rd_u64 ce 24) \<le> JIT_MAX_SYMFILE"

definition entry_items :: "(u64 \<Rightarrow> u8 option) \<Rightarrow> bytes \<Rightarrow> (u64 \<times> u64 \<times> bytes option) list" where
  "entry_items m ce = (if entry_image ce then image_items (mem_range m (rd_u64 ce 16) (unat (rd_u64 ce 24))) (unat (rd_u64 ce 24)) else [])"

definition entry_ok :: "(u64 \<Rightarrow> u8 option) \<Rightarrow> bytes \<Rightarrow> bool" where
  "entry_ok m ce \<longleftrightarrow> (entry_image ce \<longrightarrow> list_all (readable m (rd_u64 ce 16)) [0..<unat (rd_u64 ce 24)] \<and>
     image_sane (mem_range m (rd_u64 ce 16) (unat (rd_u64 ce 24))) (unat (rd_u64 ce 24)))"

fun list_items :: "(u64 \<Rightarrow> u8 option) \<Rightarrow> nat \<Rightarrow> u64 \<Rightarrow> (u64 \<times> u64 \<times> bytes option) list" where
  "list_items m 0 entry = []"
| "list_items m (Suc guard) entry =
     (if entry = 0 \<or> \<not> list_all (readable m entry) [0..<32] then []
      else let ce = mem_range m entry 32 in entry_items m ce @ list_items m guard (rd_u64 ce 0))"

fun list_ok :: "(u64 \<Rightarrow> u8 option) \<Rightarrow> nat \<Rightarrow> u64 \<Rightarrow> bool" where
  "list_ok m 0 entry = True"
| "list_ok m (Suc guard) entry =
     (entry = 0 \<or> \<not> list_all (readable m entry) [0..<32] \<or> entry_ok m (mem_range m entry 32) \<and> list_ok m guard (rd_u64 (mem_range m entry 32) 0))"

lemma jit_scratch_ensure_cases:
  obtains w' where "jit_scratch_ensure al n w = (True, w')" "jit w' = jit w" "n \<le> length (jit_scratch w')"
  | w' k where "jit_scratch_ensure al n w = (False, w')" "jit w' = jit w" "al k = None"
proof -
  let ?c = "length (jit_scratch w)" let ?nc = "double_until (if ?c \<noteq> 0 then ?c else 65536) n"
  have nc: "?c \<le> ?nc" "n \<le> ?nc" using double_until_ge [of "if ?c \<noteq> 0 then ?c else 65536" n] by (auto split: if_splits)
  show thesis
  proof (cases "n \<le> ?c")
    case True
    then show thesis using that(1) by (simp add: jit_scratch_ensure_def)
  next
    case False
    show thesis
    proof (cases "al (allocations w)")
      case None
      then show thesis using False that(2) [of "w\<lparr>allocations := allocations w + 1\<rparr>"] by (simp add: jit_scratch_ensure_def Let_def)
    next
      case (Some f)
      then show thesis using False nc that(1) [of "w\<lparr>allocations := allocations w + 1, jit_scratch := jit_scratch w @ map f [?c..<?nc]\<rparr>"]
        by (simp add: jit_scratch_ensure_def Let_def)
    qed
  qed
qed

lemma jit_one_grown:
  assumes "mem_paged m" "pread_of m pread" "entry_ok m ce" "jit_wf (jit w)" "jc.room (jit w) (entry_items m ce)"
  obtains w' where "jit_one al (\<lambda>_. pread) ce w = Some w'" "jc.grown al (entry_items m ce) (jit w) (jit w')"
proof (cases "entry_image ce")
  case False
  then have "jit_one al (\<lambda>_. pread) ce w = Some w" by (auto simp: jit_one_def entry_image_def Let_def)
  then show thesis using that False jc.grown_refl [OF assms(4)] by (simp add: entry_items_def)
next
  case True
  let ?a = "rd_u64 ce 16" and ?z = "unat (rd_u64 ce 24)" let ?img = "mem_range m ?a ?z"
  have img: "\<forall>i<?z. readable m ?a i" "image_sane ?img ?z" "64 \<le> ?z" "?z < 2 ^ 64" using assms(3) True by (auto simp: entry_ok_def entry_image_def list_all_iff)
  have it: "entry_items m ce = image_items ?img ?z" using True by (simp add: entry_items_def)
  have go: "rd_u64 ce 16 \<noteq> 0 \<and> 64 \<le> ?z \<and> ?z \<le> JIT_MAX_SYMFILE" using True by (simp add: entry_image_def)
  show thesis
  proof (cases rule: jit_scratch_ensure_cases [of al ?z w])
    case (2 w1 k)
    then have "jit_one al (\<lambda>_. pread) ce w = Some w1" using go unfolding jit_one_def by (simp add: Let_def)
    then show thesis using that 2 jc.grown_nothing [OF assms(4), of al k] by simp
  next
    case (1 w1)
    let ?buf = "?img @ drop ?z (jit_scratch w1)"
    have rd: "proc_mem_read pread ?a (jit_scratch w1) ?z = Some (?buf, ?z)" by (rule proc_mem_read_range [OF assms(1,2) 1(3) img(1)])
    have same: "image_items ?buf ?z = image_items ?img ?z" "image_sane ?buf ?z"
      using image_append [of ?img "drop ?z (jit_scratch w1)"] img by simp_all
    obtain jm' n' where g: "jit_ingest_elf al ?buf ?z (jit w, allocations w1) = Some (jm', n')" "jc.grown al (image_items ?buf ?z) (jit w) jm'"
      using jit_ingest_grown [OF assms(4) _ img(4) same(2), of al "allocations w1"] assms(5) it same(1) 1(3) by auto
    then have "jit_one al (\<lambda>_. pread) ce w =
        Some (w1\<lparr>mem_reads := mem_reads w1 + 1, jit_scratch := ?buf, jit := jm', allocations := n'\<rparr>)"
      using go 1 rd img(3) unfolding jit_one_def mem_read_def by (simp add: Let_def)
    then show thesis using that g(2) it same(1) by simp
  qed
qed

lemma mem_read_steady:
  assumes "mem_paged m" "pread_of m pread"
  shows "list_all (readable m va) [0..<n] \<Longrightarrow> mem_read (\<lambda>_. pread) va (replicate n 0) n w = Some (mem_range m va n, n, w\<lparr>mem_reads := mem_reads w + 1\<rparr>)"
    "\<not> list_all (readable m va) [0..<n] \<Longrightarrow> \<exists>b got. mem_read (\<lambda>_. pread) va (replicate n 0) n w = Some (b, got, w\<lparr>mem_reads := mem_reads w + 1\<rparr>) \<and> got \<noteq> n"
proof -
  assume "list_all (readable m va) [0..<n]"
  then show "mem_read (\<lambda>_. pread) va (replicate n 0) n w = Some (mem_range m va n, n, w\<lparr>mem_reads := mem_reads w + 1\<rparr>)"
    using proc_mem_read_range [OF assms, of n "replicate n 0" va] by (simp add: mem_read_def list_all_iff)
next
  assume "\<not> list_all (readable m va) [0..<n]"
  then obtain i where "i \<in> set [0..<n]" "\<not> readable m va i" by (auto simp: list_all_iff)
  then have "length (filter (readable m va) [0..<n]) < length [0..<n]" by (rule length_filter_less)
  then show "\<exists>b got. mem_read (\<lambda>_. pread) va (replicate n 0) n w = Some (b, got, w\<lparr>mem_reads := mem_reads w + 1\<rparr>) \<and> got \<noteq> n"
    using proc_mem_read_seen [OF assms, of va "replicate n 0"] by (simp add: mem_read_def)
qed

lemma jit_walk_grown:
  assumes "mem_paged m" "pread_of m pread"
  shows "jit_wf (jit w) \<Longrightarrow> list_ok m guard entry \<Longrightarrow> jc.room (jit w) (list_items m guard entry) \<Longrightarrow>
    \<exists>w'. jit_walk al (\<lambda>_. pread) guard entry w = Some w' \<and> jc.grown al (list_items m guard entry) (jit w) (jit w')"
proof (induction guard arbitrary: entry w)
  case 0
  then show ?case by (simp add: jc.grown_refl)
next
  case (Suc guard)
  let ?w1 = "w\<lparr>mem_reads := mem_reads w + 1\<rparr>" and ?ce = "mem_range m entry 32"
  consider "entry = 0" | "entry \<noteq> 0" "\<not> list_all (readable m entry) [0..<32]" | "entry \<noteq> 0" "list_all (readable m entry) [0..<32]" by blast
  then show ?case
  proof cases
    case 1
    then show ?thesis using Suc.prems by (simp add: jc.grown_refl)
  next
    case 2
    then obtain b got where "mem_read (\<lambda>_. pread) entry (replicate 32 0) 32 w = Some (b, got, ?w1)" "got \<noteq> 32"
      using mem_read_steady(2) [OF assms 2(2)] by blast
    then show ?thesis using 2 Suc.prems(1) by (simp add: jc.grown_refl)
  next
    case 3
    note rd = mem_read_steady(1) [OF assms 3(2), of w]
    have it: "list_items m (Suc guard) entry = entry_items m ?ce @ list_items m guard (rd_u64 ?ce 0)" using 3 by (simp add: Let_def)
    have R: "jc.room (jit ?w1) (entry_items m ?ce @ list_items m guard (rd_u64 ?ce 0))" using Suc.prems(3) it by simp
    have ok: "entry_ok m ?ce" "list_ok m guard (rd_u64 ?ce 0)" using Suc.prems(2) 3 by simp_all
    obtain w2 where w2: "jit_one al (\<lambda>_. pread) ?ce ?w1 = Some w2" "jc.grown al (entry_items m ?ce) (jit ?w1) (jit w2)"
      using jit_one_grown [OF assms ok(1) _ jc.room_prefix [OF R]] Suc.prems(1) by auto
    obtain w3 where "jit_walk al (\<lambda>_. pread) guard (rd_u64 ?ce 0) w2 = Some w3" "jc.grown al (list_items m guard (rd_u64 ?ce 0)) (jit w2) (jit w3)"
      using Suc.IH [OF jc.room_after(1) [OF w2(2) R] ok(2) jc.room_after(2) [OF w2(2) R]] by blast
    then show ?thesis using 3 rd w2 it jc.grown_trans [OF w2(2)] by simp
  qed
qed

section \<open>Publishing\<close>

abbreviation qsorts :: "(jit_entry list \<Rightarrow> jit_entry list) \<Rightarrow> bool" where
  "qsorts qs \<equiv> \<forall>es. mset (qs es) = mset es \<and> sorted (map jit_start (qs es))"

lemma jit_reset_wf: "jit_wf jm \<Longrightarrow> jit_wf (jit_reset jm) \<and> jit_view (jit_reset jm) = [] \<and> length (arena (jit_reset jm)) \<le> 1"
  by (auto simp: arena_wf_def jit_wf_def jit_reset_def jit_view_def Let_def)

definition published :: "(u64 \<times> u64 \<times> bytes option) list \<Rightarrow> jit_map \<Rightarrow> bool" where
  "published xs jm \<longleftrightarrow> jit_wf jm \<and> sorted (map jit_start (jit_e jm)) \<and> mset (jit_view jm) = mset xs"

lemma published_sort:
  assumes "jit_wf jm" "qsorts qs"
  shows "published (jit_view jm) (if jit_e jm \<noteq> [] then jm\<lparr>jit_e := qs (jit_e jm)\<rparr> else jm)"
proof -
  have m: "mset (qs (jit_e jm)) = mset (jit_e jm)" "sorted (map jit_start (qs (jit_e jm)))" using assms(2) by auto
  then have "length (qs (jit_e jm)) = length (jit_e jm)" "set (qs (jit_e jm)) = set (jit_e jm)" by (metis size_mset, metis set_mset_mset)
  then show ?thesis using assms(1) m by (auto simp: published_def jit_wf_def jit_view_def)
qed

lemma art_attempts_steady:
  assumes "mem_paged m" "pread_of m pread" "jit_wf (jit w)" "qsorts qs"
    "list_all (readable m (desc_va ac)) [0..<48]" "desc = mem_range m (desc_va ac) 48" "rd_u32 desc 36 AND 1 = 0"
    "list_ok m JIT_MAX_ENTRIES (rd_u64 desc 16)" "names_size (list_items m JIT_MAX_ENTRIES (rd_u64 desc 16)) < 2 ^ 32 - 1"
  shows "\<exists>w' ys. art_attempts al (\<lambda>_. pread) qs (Suc n) ac w = Some (ac\<lparr>last_seqlock := rd_u32 desc 36, last_head := rd_u64 desc 16\<rparr>, w') \<and>
    published ys (jit w') \<and> subseq ys (list_items m JIT_MAX_ENTRIES (rd_u64 desc 16)) \<and>
    ((\<forall>n. al n \<noteq> None) \<longrightarrow> ys = list_items m JIT_MAX_ENTRIES (rd_u64 desc 16))"
proof -
  let ?xs = "list_items m JIT_MAX_ENTRIES (rd_u64 desc 16)"
  let ?w1 = "w\<lparr>mem_reads := mem_reads w + 1\<rparr>" let ?w2 = "?w1\<lparr>jit := jit_reset (jit ?w1)\<rparr>"
  note rd = mem_read_steady(1) [OF assms(1,2,5), folded assms(6)]
  have w2: "jit_wf (jit ?w2)" "jit_view (jit ?w2) = []" "jc.room (jit ?w2) ?xs"
    using jit_reset_wf [OF assms(3)] assms(9) by (auto simp: jc.room_def)
  obtain w3 where w3: "jit_walk al (\<lambda>_. pread) JIT_MAX_ENTRIES (rd_u64 desc 16) ?w2 = Some w3" "jc.grown al ?xs (jit ?w2) (jit w3)"
    using jit_walk_grown [OF assms(1,2) w2(1) assms(8) w2(3)] by blast
  obtain ys where ys: "subseq ys ?xs" "jit_view (jit w3) = ys" "(\<forall>n. al n \<noteq> None) \<longrightarrow> ys = ?xs" "jit_wf (jit w3)"
    using w3(2) w2(2) unfolding jc.grown_def by auto
  let ?jm = "if jit_e (jit w3) \<noteq> [] then (jit w3)\<lparr>jit_e := qs (jit_e (jit w3))\<rparr> else jit w3"
  have "art_attempts al (\<lambda>_. pread) qs (Suc n) ac w = Some (ac\<lparr>last_seqlock := rd_u32 desc 36, last_head := rd_u64 desc 16\<rparr>, w3\<lparr>mem_reads := mem_reads w3 + 1, jit := ?jm\<rparr>)"
    using rd assms(7) w3(1) by (simp add: Let_def)
  then show ?thesis using ys published_sort [OF ys(4) assms(4)] by (intro exI [of _ "w3\<lparr>mem_reads := mem_reads w3 + 1, jit := ?jm\<rparr>"] exI [of _ ys]) simp
qed


section \<open>Lookups in a published map\<close>

text \<open>C35: in a sorted map whose symbols start at different addresses, a lookup finds exactly the symbol that starts closest
  below the address, provided the address is inside it, and reports its name and the distance from its start; in every
  other case it finds nothing.\<close>

theorem jit_lookup_correct:
  assumes "sorted (map jit_start (jit_e jm))" "distinct (map jit_start (jit_e jm))"
  shows "jit_lookup jm addr = Some (nm, d) \<longleftrightarrow>
    (\<exists>s e. (s, e, nm) \<in> set (jit_view jm) \<and> s \<le> addr \<and> addr < e \<and> d = addr - s \<and>
      (\<forall>(s', e', nm') \<in> set (jit_view jm). s' \<le> addr \<longrightarrow> s' \<le> s))"
proof -
  have "jit_lookup jm addr = Some (nm, d) \<longleftrightarrow>
      (\<exists>e. last_at jit_start (jit_e jm) addr = Some e \<and> addr < jit_end e \<and> nm = c_string (arena jm) (unat (name_off e)) \<and> d = addr - jit_start e)"
    unfolding jit_lookup_last [OF assms(1)] by (auto split: option.splits if_splits)
  then show ?thesis unfolding last_at_max [OF assms] by (auto simp: jit_view_def)
qed

definition two_methods :: jit_map where
  "two_methods = \<lparr>jit_e = [\<lparr>jit_start = 0x1000, jit_end = 0x1010, name_off = 1\<rparr>, \<lparr>jit_start = 0x2000, jit_end = 0x2008, name_off = 3\<rparr>],
     jit_cap = 256, arena = [0, 0x66, 0, 0x67, 0], arena_cap = 8192\<rparr>"

lemma jit_lookup_correct_witness:
  "jit_lookup two_methods 0x2004 = Some (Some [0x67], 4) \<and> jit_lookup two_methods 0x1800 \<noteq> Some (Some [0x66], 0x800)"
proof -
  have s: "sorted (map jit_start (jit_e two_methods))" "distinct (map jit_start (jit_e two_methods))" by (simp_all add: two_methods_def)
  have v: "jit_view two_methods = [(0x1000, 0x1010, Some [0x66]), (0x2000, 0x2008, Some [0x67])]"
    by (simp add: two_methods_def jit_view_def c_string_def)
  show ?thesis unfolding jit_lookup_correct [OF s] v by simp
qed

text \<open>The search relies on the order: in the same map the other way round, a method is not found.\<close>

lemma jit_lookup_unsorted:
  "jit_lookup (two_methods\<lparr>jit_e := rev (jit_e two_methods)\<rparr>) 0x2004 = None \<and> jit_lookup two_methods 0x2004 = Some (Some [0x67], 4)"
  by (simp add: two_methods_def jit_lookup_def jit_bsearch.simps c_string_def Let_def)

section \<open>What is not caught\<close>

text \<open>The bounds check of the section table wraps. An image whose table offset lies just below \<open>2 ^ 64\<close>, so that
  offset plus size is small again, passes the check and the walk reads outside the buffer.\<close>

theorem jit_ingest_wraps:
  assumes "64 \<le> len" "len \<le> length buf" "length buf < 2 ^ 63" "image_table (take 64 buf)"
    "2 ^ 64 \<le> table_limit (take 64 buf)" "table_limit (take 64 buf) \<le> 2 ^ 64 + len"
  shows "jit_ingest_elf al buf len st = None"
proof -
  let ?eh = "take 64 buf" let ?o = "e_shoff_of ?eh" and ?z = "e_shentsize_of ?eh" and ?k = "e_shnum_of ?eh"
  have "unat ?k \<le> 2 ^ 16" "unat ?z \<le> 2 ^ 16" using unsigned_less [of ?k, where ?'a = nat] unsigned_less [of ?z, where ?'a = nat] by simp_all
  from mult_le_mono [OF this] have kz: "unat ?k * unat ?z \<le> 2 ^ 32" by simp
  then have kz': "unat (of_nat (unat ?k * unat ?z) :: u64) = unat ?k * unat ?z" by (intro unat_of_nat64) simp
  have "unat (?o + of_nat (unat ?k * unat ?z)) = table_limit ?eh - 2 ^ 64"
  proof -
    have "unat (?o + of_nat (unat ?k * unat ?z)) = table_limit ?eh mod 2 ^ 64"
      by (subst unat_word_ariths(1)) (simp only: kz', simp add: table_limit_def)
    also have "\<dots> = table_limit ?eh - 2 ^ 64" using assms(2,3,5,6) by (subst le_mod_geq) simp_all
    finally show ?thesis .
  qed
  then have pass: "\<not> ?o + of_nat (unat ?k * unat ?z) > of_nat len"
    using assms(2,3,6) by (simp add: word_less_nat_alt unat_of_nat64 not_less)
  have "2 ^ 64 - 2 ^ 32 \<le> unat ?o" using assms(5) kz by (simp add: table_limit_def)
  then have "load_shdr buf (unat ?o) = None" using assms(3) by (simp add: load_shdr_def load_bytes_def)
  moreover have "0 < unat ?k" using assms(4) by (simp add: image_table_def unat_gt_0)
  note upt_conv_Cons [OF this]
  ultimately have "jit_sections al buf len ?o ?z ?k [0..<unat ?k] st = None" by (simp add: jit_section_def)
  then show ?thesis using assms(1,2,4) pass
    unfolding jit_ingest_elf_def by (simp add: image_table_def Let_def e_shoff_of_def e_shentsize_of_def e_shnum_of_def)
qed

definition wrapping_image :: bytes where
  "wrapping_image = [0x7f, 0x45, 0x4c, 0x46, 2] @ replicate 35 0 @ le_bytes 8 (0xffffffffffffffc0 :: u64) @ replicate 10 0 @ [64, 0, 1, 0, 0, 0]"

lemma jit_ingest_wraps_witness:
  "jit_ingest_elf (\<lambda>_. None) wrapping_image 64 (\<lparr>jit_e = [], jit_cap = 0, arena = [], arena_cap = 0\<rparr>, 0) = None"
proof (rule jit_ingest_wraps)
  show "64 \<le> (64 :: nat)" "64 \<le> length wrapping_image" "length wrapping_image < 2 ^ 63" by (simp_all add: wrapping_image_def)
  have eh: "take 64 wrapping_image = wrapping_image" by (simp add: wrapping_image_def)
  have f: "elf64_magic wrapping_image" "e_shoff_of wrapping_image = 0xffffffffffffffc0" "e_shentsize_of wrapping_image = 64" "e_shnum_of wrapping_image = 1" by code_simp+
  show "image_table (take 64 wrapping_image)" "2 ^ 64 \<le> table_limit (take 64 wrapping_image)" "table_limit (take 64 wrapping_image) \<le> 2 ^ 64 + 64"
    by (simp_all add: eh f image_table_def table_limit_def)
qed

text \<open>When the descriptor cannot be read after the walk, the entries collected so far stay in use: neither sorted
  nor marked as the state of the list they were read from.\<close>

lemma art_attempts_unpublished:
  assumes "mem_read mem (desc_va ac) (replicate 48 0) 48 w = Some (desc, 48, w1)" "rd_u32 desc 36 AND 1 = 0"
    "jit_walk al mem JIT_MAX_ENTRIES (rd_u64 desc 16) (w1\<lparr>jit := jit_reset (jit w1)\<rparr>) = Some w2"
    "mem_read mem (desc_va ac) (replicate 48 0) 48 w2 = Some (d2, got, w3)" "got \<noteq> 48"
  shows "art_attempts al mem qs (Suc n) ac w = Some (ac, w3) \<and> jit w3 = jit w2"
  using assms by (auto simp: Let_def mem_read_def)

text \<open>A process with one page at 0x1000 that holds the descriptor, one list entry and its image with one symbol.\<close>

definition jit_desc :: bytes where
  "jit_desc = le_bytes 4 (1 :: u32) @ replicate 12 0 @ le_bytes 8 (0x1030 :: u64) @ replicate 12 0 @ le_bytes 4 (2 :: u32) @ replicate 8 0"

definition jit_code_entry :: bytes where
  "jit_code_entry = replicate 16 0 @ le_bytes 8 (0x1050 :: u64) @ le_bytes 8 (245 :: u64)"

definition jit_image :: bytes where
  "jit_image = [0x7f, 0x45, 0x4c, 0x46, 2] @ replicate 35 0 @ le_bytes 8 (64 :: u64) @ replicate 10 0 @ [64, 0, 2, 0, 0, 0] @
     replicate 4 0 @ le_bytes 4 (2 :: u32) @ replicate 16 0 @ le_bytes 8 (192 :: u64) @ le_bytes 8 (48 :: u64) @ le_bytes 4 (1 :: u32) @ replicate 12 0 @ le_bytes 8 (24 :: u64) @
     replicate 4 0 @ le_bytes 4 (3 :: u32) @ replicate 16 0 @ le_bytes 8 (240 :: u64) @ le_bytes 8 (5 :: u64) @ replicate 24 0 @
     replicate 24 0 @
     le_bytes 4 (1 :: u32) @ [2, 0, 1, 0] @ le_bytes 8 (0x7000 :: u64) @ le_bytes 8 (16 :: u64) @
     [0, 0x66, 0x6f, 0x6f, 0]"

definition jit_page :: bytes where "jit_page = jit_desc @ jit_code_entry @ jit_image"

definition jit_mem :: "u64 \<Rightarrow> u8 option" where
  "jit_mem a = (if drop_bit 12 a = 1 then Some (if unat (a - 0x1000) < length jit_page then jit_page ! unat (a - 0x1000) else 0) else None)"

definition jit_pread :: "u64 \<Rightarrow> nat \<Rightarrow> bytes option" where
  "jit_pread va n = map_option (\<lambda>b. [b]) (jit_mem va)"

lemma jit_lengths: "length jit_desc = 48" "length jit_code_entry = 32" "length jit_image = 245" "length jit_page = 325"
  by (simp_all add: jit_desc_def jit_code_entry_def jit_image_def jit_page_def)

lemma jit_mem_ok: "mem_paged jit_mem" "pread_of jit_mem jit_pread"
  by (auto simp: mem_paged_def pread_of_def jit_mem_def jit_pread_def)

lemma jit_mem_page:
  assumes "k < 325"
  shows "jit_mem (0x1000 + of_nat k) = Some (jit_page ! k)"
proof -
  have k: "unat (of_nat k :: u64) = k" using assms by (intro unat_of_nat64) simp
  have "unat (0x1000 + of_nat k :: u64) = 0x1000 + k" using assms k by (simp add: unat_word_ariths)
  then have "unat (drop_bit 12 (0x1000 + of_nat k :: u64)) = unat (1 :: u64)" using assms by (simp add: drop_bit_eq_div unat_div_distrib)
  then have "drop_bit 12 (0x1000 + of_nat k :: u64) = 1" by (simp only: word_unat_eq_iff)
  then show ?thesis using assms k by (simp add: jit_mem_def jit_lengths)
qed

lemma jit_mem_range:
  assumes "k + n \<le> 325" "va = 0x1000 + of_nat k"
  shows "mem_range jit_mem va n = take n (drop k jit_page)" "list_all (readable jit_mem va) [0..<n]"
proof -
  have a: "jit_mem (va + of_nat i) = Some (jit_page ! (k + i))" if "i < n" for i
    using jit_mem_page [of "k + i"] that assms by (simp add: add.assoc)
  show "mem_range jit_mem va n = take n (drop k jit_page)"
    unfolding mem_range_def using a assms(1) by (intro nth_equalityI) (auto simp: jit_lengths)
  show "list_all (readable jit_mem va) [0..<n]" using a by (simp add: list_all_iff)
qed

lemma jit_mem_parts:
  "mem_range jit_mem 0x1000 48 = jit_desc" "list_all (readable jit_mem 0x1000) [0..<48]"
  "mem_range jit_mem 0x1030 32 = jit_code_entry" "list_all (readable jit_mem 0x1030) [0..<32]"
  "mem_range jit_mem 0x1050 245 = jit_image" "list_all (readable jit_mem 0x1050) [0..<245]"
  using jit_mem_range [of 0 48 "0x1000"] jit_mem_range [of 48 32 "0x1030"] jit_mem_range [of 80 245 "0x1050"]
  by (simp_all add: jit_page_def jit_lengths)

lemma jit_fields:
  "rd_u32 jit_desc 0 = 1" "rd_u32 jit_desc 36 = 2" "rd_u64 jit_desc 16 = 0x1030"
  "rd_u64 jit_code_entry 0 = 0" "rd_u64 jit_code_entry 16 = 0x1050" "rd_u64 jit_code_entry 24 = 245"
  by code_simp+

definition jit_symtab :: shdr64 where
  "jit_symtab = \<lparr>sh_name = 0, sh_type = 2, sh_offset = 192, sh_size = 48, sh_link = 1, sh_entsize = 24\<rparr>"

definition jit_strtab :: shdr64 where
  "jit_strtab = \<lparr>sh_name = 0, sh_type = 3, sh_offset = 240, sh_size = 5, sh_link = 0, sh_entsize = 0\<rparr>"

lemma jit_image_parts:
  "elf64_magic (take 64 jit_image)" "e_shoff_of (take 64 jit_image) = 64" "e_shentsize_of (take 64 jit_image) = 64" "e_shnum_of (take 64 jit_image) = 2"
  "load_shdr jit_image 64 = Some jit_symtab" "load_shdr jit_image 128 = Some jit_strtab" "0 \<in> set (drop 244 jit_image)"
  "sym_items jit_image jit_symtab jit_strtab 0 = []" "sym_items jit_image jit_symtab jit_strtab 1 = [(0x7000, 0x7010, Some [0x66, 0x6f, 0x6f])]"
  by code_simp+

lemma jit_image_facts:
  "image_items jit_image 245 = [(0x7000, 0x7010, Some [0x66, 0x6f, 0x6f])]" "image_sane jit_image 245"
proof -
  have sh: "shdr_at jit_image 64 64 0 = jit_symtab" "shdr_at jit_image 64 64 (Suc 0) = jit_strtab" by (simp_all add: shdr_at_def jit_image_parts)
  have tab: "is_symtab 2 jit_symtab" "\<not> is_symtab 2 jit_strtab" "sh_link jit_symtab = 1" by (simp_all add: is_symtab_def jit_symtab_def jit_strtab_def)
  have lim: "sh_limit jit_symtab = 240" "sh_limit jit_strtab = 245" "[0..<unat (sh_size jit_symtab) div unat (sh_entsize jit_symtab)] = [0, 1]" "24 \<le> unat (sh_entsize jit_symtab)"
    by (simp_all add: jit_symtab_def jit_strtab_def upt_rec)
  have sec: "sec_items jit_image 245 64 64 2 0 = [(0x7000, 0x7010, Some [0x66, 0x6f, 0x6f])]" "sec_items jit_image 245 64 64 2 (Suc 0) = []"
    using jit_image_parts(8,9) by (simp_all add: sec_items_def sh tab lim Let_def)
  have two: "[0..<2] = [0, Suc 0]" by (simp add: upt_rec)
  have hd: "image_table (take 64 jit_image)" "table_limit (take 64 jit_image) = 192" by (simp_all add: image_table_def table_limit_def jit_image_parts)
  show "image_items jit_image 245 = [(0x7000, 0x7010, Some [0x66, 0x6f, 0x6f])]"
    by (simp add: image_items_def Let_def hd jit_image_parts two sec)
  show "image_sane jit_image 245"
    using jit_image_parts(7) by (simp add: image_sane_def Let_def hd jit_image_parts two sec_sane_def sh tab lim)
qed


end
