(* ===== verification/Sym_Elf.thy ===== *)
theory Sym_Elf
  imports Elf_Syms
begin

unbundle bit_operations_syntax

text \<open>
  \<open>src/src/common/sym_elf.c\<close>: the symbol table of a module, collected from the \<open>.dynsym\<close>, \<open>.symtab\<close> and
  \<open>.gnu_debugdata\<close> sections of its file, sorted, with one entry per address; and the nearest symbol below an address.

  \<^item> a buffer is the list of its bytes, and a pointer into it the list with an offset: \<open>None\<close> is a read outside it;
  \<^item> the file is the list of its bytes, or \<open>None\<close> when it cannot be opened; \<open>pread_all\<close> reads from it;
  \<^item> \<open>al k\<close> is the answer to the \<open>k\<close>-th allocation, \<open>xz\<close> the decoder of the compression library, \<open>qs\<close> its \<open>qsort\<close>.
\<close>

section \<open>Symbols\<close>

record sym =
  sym_value :: u64
  sym_size :: u64
  sym_name_off :: u32

record dynsym =
  ds_str :: bytes
  ds_strcap :: nat
  ds_s :: "sym list"
  ds_ok :: bool

definition arena_add :: "allocator \<Rightarrow> bytes \<Rightarrow> dynsym \<times> nat \<Rightarrow> u32 \<times> dynsym \<times> nat" where
  "arena_add al name = (\<lambda>(ds, k).
     (let (off, (buf, cap), k) = arena_push 4096 al name ((ds_str ds, ds_strcap ds), k)
      in (off, ds\<lparr>ds_str := buf, ds_strcap := cap\<rparr>, k)))"

text \<open>\<open>memchr(str + off, 0, n)\<close>: reads until it meets a NUL.\<close>

definition memchr_nul :: "bytes \<Rightarrow> nat \<Rightarrow> nat \<Rightarrow> bool option" where
  "memchr_nul str off n = (if 0 \<in> set (take n (drop off str)) then Some True else if off + n \<le> length str then Some False else None)"

definition skipped_type :: "u8 \<Rightarrow> bool" where
  "skipped_type st_info \<longleftrightarrow> (let t = st_info AND 0xf in t = 1 \<or> t = 3 \<or> t = 4 \<or> t = 6)"

definition add_symbol :: "allocator \<Rightarrow> bytes \<Rightarrow> nat \<Rightarrow> nat \<Rightarrow> bytes \<Rightarrow> nat \<Rightarrow> nat \<Rightarrow> nat \<Rightarrow> dynsym \<times> nat \<Rightarrow> (dynsym \<times> nat) option" where
  "add_symbol al symbuf so entsize str sto strn i = (\<lambda>(ds, k). do {
     es \<leftarrow> load_bytes symbuf (so + i * entsize) 24;
     let st_name = (le_word (take 4 es) :: u32);
     let st_info = es ! 4;
     let st_shndx = (le_word (take 2 (drop 6 es)) :: u16);
     let st_value = (le_word (take 8 (drop 8 es)) :: u64);
     let st_size = (le_word (take 8 (drop 16 es)) :: u64);
     (if st_value = 0 \<or> st_shndx = 0 \<or> st_name = 0 then Some (ds, k)
      else if skipped_type st_info then Some (ds, k)
      else if unat st_name \<ge> strn then Some (ds, k)
      else do {
        nul \<leftarrow> memchr_nul str (sto + unat st_name) (strn - unat st_name);
        (if \<not> nul then Some (ds, k)
         else do {
           name \<leftarrow> c_string str (sto + unat st_name);
           let (off, ds, k) = arena_add al name (ds, k);
           Some (if off = 0 then (ds, k)
                 else (ds\<lparr>ds_s := ds_s ds @ [\<lparr>sym_value = st_value, sym_size = st_size, sym_name_off = off\<rparr>]\<rparr>, k))
         })
      })
   })"

fun add_symbol_loop :: "allocator \<Rightarrow> bytes \<Rightarrow> nat \<Rightarrow> nat \<Rightarrow> bytes \<Rightarrow> nat \<Rightarrow> nat \<Rightarrow> nat list \<Rightarrow> dynsym \<times> nat \<Rightarrow> (dynsym \<times> nat) option" where
  "add_symbol_loop al symbuf so entsize str sto strn [] st = Some st"
| "add_symbol_loop al symbuf so entsize str sto strn (i # is) st = do {
     st \<leftarrow> add_symbol al symbuf so entsize str sto strn i st;
     add_symbol_loop al symbuf so entsize str sto strn is st
   }"

definition add_symbols :: "allocator \<Rightarrow> bytes \<Rightarrow> nat \<Rightarrow> nat \<Rightarrow> nat \<Rightarrow> bytes \<Rightarrow> nat \<Rightarrow> nat \<Rightarrow> dynsym \<times> nat \<Rightarrow> (dynsym \<times> nat) option" where
  "add_symbols al symbuf so symbytes entsize str sto strn = (\<lambda>(ds, k).
     (let entsize = (if entsize = 0 then 24 else entsize); count = symbytes div entsize in
      if count = 0 then Some (ds, k)
      else case al k of
        None \<Rightarrow> Some (ds, k + 1)
      | Some _ \<Rightarrow> add_symbol_loop al symbuf so entsize str sto strn [0..<count] (ds, k + 1)))"

section \<open>Sources\<close>

definition pread_all :: "bytes \<Rightarrow> nat \<Rightarrow> u64 \<Rightarrow> bytes option" where
  "pread_all file n off = (if n = 0 then Some [] else if unat off + n \<le> length file then Some (take n (drop (unat off) file)) else None)"

definition ingest_fd_section :: "allocator \<Rightarrow> bytes \<Rightarrow> u64 \<Rightarrow> shdr64 \<Rightarrow> shdr64 \<Rightarrow> dynsym \<times> nat \<Rightarrow> (dynsym \<times> nat) option" where
  "ingest_fd_section al file elf_off symsec strsec = (\<lambda>(ds, k).
     (if sh_size symsec = 0 then Some (ds, k)
      else if al k = None \<or> al (k + 1) = None then Some (ds, k + 2)
      else case pread_all file (unat (sh_size strsec)) (elf_off + sh_offset strsec) of
        None \<Rightarrow> Some (ds, k + 2)
      | Some strbuf \<Rightarrow>
          (case pread_all file (unat (sh_size symsec)) (elf_off + sh_offset symsec) of
             None \<Rightarrow> Some (ds, k + 2)
           | Some symbuf \<Rightarrow> add_symbols al symbuf 0 (unat (sh_size symsec)) (unat (sh_entsize symsec)) strbuf 0 (unat (sh_size strsec)) (ds, k + 2))))"

datatype lzma_ret = LZMA_OK bytes | LZMA_BUF_ERROR | LZMA_OTHER

fun decompress_tries :: "allocator \<Rightarrow> (bytes \<Rightarrow> nat \<Rightarrow> lzma_ret) \<Rightarrow> bytes \<Rightarrow> nat \<Rightarrow> nat \<Rightarrow> nat \<Rightarrow> bytes option \<times> nat" where
  "decompress_tries al xz inp 0 cap k = (None, k)"
| "decompress_tries al xz inp (Suc n) cap k =
     (case al k of
        None \<Rightarrow> (None, k + 1)
      | Some _ \<Rightarrow> (case xz inp cap of
          LZMA_OK out \<Rightarrow> (Some out, k + 1)
        | LZMA_BUF_ERROR \<Rightarrow> decompress_tries al xz inp n (cap * 2) (k + 1)
        | LZMA_OTHER \<Rightarrow> (None, k + 1)))"

definition decompress_xz :: "allocator \<Rightarrow> (bytes \<Rightarrow> nat \<Rightarrow> lzma_ret) \<Rightarrow> bytes \<Rightarrow> nat \<Rightarrow> bytes option \<times> nat" where
  "decompress_xz al xz inp k = decompress_tries al xz inp 8 (length inp * 5 + 4096) k"

definition elf_shtab_in_bounds :: "u64 \<Rightarrow> u32 \<Rightarrow> u32 \<Rightarrow> nat \<Rightarrow> bool option" where
  "elf_shtab_in_bounds e_shoff e_shnum e_shentsize len =
     (if unat e_shoff > len then Some False
      else if e_shentsize = 0 then None
      else Some (\<not> unat e_shnum > (len - unat e_shoff) div unat e_shentsize))"

definition embedded_section :: "allocator \<Rightarrow> bytes \<Rightarrow> u64 \<Rightarrow> u16 \<Rightarrow> u16 \<Rightarrow> nat \<Rightarrow> dynsym \<times> nat \<Rightarrow> (dynsym \<times> nat) option" where
  "embedded_section al buf shoff shentsize shnum i st = do {
     sec \<leftarrow> load_shdr buf (unat shoff + i * unat shentsize);
     (if sh_type sec \<noteq> 2 \<or> unat (sh_link sec) \<ge> unat shnum then Some st
      else do {
        str \<leftarrow> load_shdr buf (unat shoff + unat (sh_link sec) * unat shentsize);
        (if sh_offset sec + sh_size sec > of_nat (length buf) \<or> sh_offset str + sh_size str > of_nat (length buf) then Some st
         else add_symbols al buf (unat (sh_offset sec)) (unat (sh_size sec)) (unat (sh_entsize sec)) buf (unat (sh_offset str)) (unat (sh_size str)) st)
      })
   }"

fun embedded_sections :: "allocator \<Rightarrow> bytes \<Rightarrow> u64 \<Rightarrow> u16 \<Rightarrow> u16 \<Rightarrow> nat list \<Rightarrow> dynsym \<times> nat \<Rightarrow> (dynsym \<times> nat) option" where
  "embedded_sections al buf shoff shentsize shnum [] st = Some st"
| "embedded_sections al buf shoff shentsize shnum (i # is) st = do {
     st \<leftarrow> embedded_section al buf shoff shentsize shnum i st;
     embedded_sections al buf shoff shentsize shnum is st
   }"

definition ingest_embedded :: "allocator \<Rightarrow> bytes \<Rightarrow> dynsym \<times> nat \<Rightarrow> (dynsym \<times> nat) option" where
  "ingest_embedded al buf st =
     (if length buf < 64 then Some st
      else do {
        eh \<leftarrow> load_bytes buf 0 64;
        (if \<not> elf64_magic eh then Some st
         else if e_shoff_of eh = 0 \<or> e_shnum_of eh = 0 \<or> unat (e_shentsize_of eh) < 64 then Some st
         else do {
           ok \<leftarrow> elf_shtab_in_bounds (e_shoff_of eh) (ucast (e_shnum_of eh)) (ucast (e_shentsize_of eh)) (length buf);
           (if \<not> ok then Some st
            else embedded_sections al buf (e_shoff_of eh) (e_shentsize_of eh) (e_shnum_of eh) [0..<unat (e_shnum_of eh)] st)
         })
      })"

section \<open>The module's table\<close>

text \<open>\<open>strcmp(buf + off, lit) == 0\<close>: reads up to the first difference.\<close>

fun strcmp_eq :: "bytes \<Rightarrow> nat \<Rightarrow> bytes \<Rightarrow> bool option" where
  "strcmp_eq buf off [] = map_option (\<lambda>b. b = 0) (byte_at buf off)"
| "strcmp_eq buf off (c # cs) = do { b \<leftarrow> byte_at buf off; (if b = c then strcmp_eq buf (off + 1) cs else Some False) }"

definition gnu_debugdata :: bytes where
  "gnu_debugdata = [0x2e, 0x67, 0x6e, 0x75, 0x5f, 0x64, 0x65, 0x62, 0x75, 0x67, 0x64, 0x61, 0x74, 0x61]"

abbreviation SECTION_CAP :: nat where "SECTION_CAP \<equiv> 64 * 2 ^ 20"

fun dedup :: "sym list \<Rightarrow> sym list \<Rightarrow> sym list" where
  "dedup w [] = w"
| "dedup w (r # rs) = (if w \<noteq> [] \<and> sym_value (last w) = sym_value r then dedup w rs else dedup (w @ [r]) rs)"

definition dynsym_finalize :: "(sym list \<Rightarrow> sym list) \<Rightarrow> dynsym \<Rightarrow> dynsym" where
  "dynsym_finalize qs ds = (if ds_s ds = [] then ds else ds\<lparr>ds_s := dedup [] (qs (ds_s ds))\<rparr>)"

text \<open>The section names: the table, or nothing when it is absent, empty, too large or unreadable.\<close>

definition section_names :: "allocator \<Rightarrow> bytes \<Rightarrow> u64 \<Rightarrow> bytes \<Rightarrow> bytes \<Rightarrow> nat \<Rightarrow> bytes option \<times> nat" where
  "section_names al file elf_off eh sh k =
     (if unat (e_shstrndx_of eh) < unat (e_shnum_of eh) then
        (case load_shdr sh (unat (e_shstrndx_of eh) * 64) of
           None \<Rightarrow> (None, k)
         | Some s \<Rightarrow>
             if sh_size s \<noteq> 0 \<and> unat (sh_size s) < SECTION_CAP then
               (case al k of None \<Rightarrow> (None, k + 1) | Some _ \<Rightarrow> (pread_all file (unat (sh_size s)) (elf_off + sh_offset s), k + 1))
             else (None, k))
      else (None, k))"

definition parse_section ::
  "allocator \<Rightarrow> (bytes \<Rightarrow> nat \<Rightarrow> lzma_ret) \<Rightarrow> bytes \<Rightarrow> u64 \<Rightarrow> u16 \<Rightarrow> bytes \<Rightarrow> bytes option \<Rightarrow> nat \<Rightarrow> dynsym \<times> nat \<Rightarrow> (dynsym \<times> nat) option" where
  "parse_section al xz file elf_off shnum sh shstr i = (\<lambda>(ds, k). do {
     s \<leftarrow> load_shdr sh (i * 64);
     (if sh_type s = 11 \<or> sh_type s = 2 then
        (if unat (sh_link s) < unat shnum then do {
           str \<leftarrow> load_shdr sh (unat (sh_link s) * 64);
           ingest_fd_section al file elf_off s str (ds, k)
         } else Some (ds, k))
      else case shstr of
        None \<Rightarrow> Some (ds, k)
      | Some names \<Rightarrow>
          if \<not> unat (sh_name s) < length names then Some (ds, k)
          else do {
            eq \<leftarrow> strcmp_eq names (unat (sh_name s)) gnu_debugdata;
            (if \<not> eq \<or> sh_size s = 0 \<or> \<not> unat (sh_size s) < SECTION_CAP then Some (ds, k)
             else case al k of
               None \<Rightarrow> Some (ds, k + 1)
             | Some _ \<Rightarrow>
                 (case pread_all file (unat (sh_size s)) (elf_off + sh_offset s) of
                    None \<Rightarrow> Some (ds, k + 1)
                  | Some cz \<Rightarrow>
                      (case decompress_xz al xz cz (k + 1) of
                         (None, k) \<Rightarrow> Some (ds, k)
                       | (Some raw, k) \<Rightarrow> ingest_embedded al raw (ds, k))))
          })
   })"

fun parse_sections ::
  "allocator \<Rightarrow> (bytes \<Rightarrow> nat \<Rightarrow> lzma_ret) \<Rightarrow> bytes \<Rightarrow> u64 \<Rightarrow> u16 \<Rightarrow> bytes \<Rightarrow> bytes option \<Rightarrow> nat list \<Rightarrow> dynsym \<times> nat \<Rightarrow> (dynsym \<times> nat) option" where
  "parse_sections al xz file elf_off shnum sh shstr [] st = Some st"
| "parse_sections al xz file elf_off shnum sh shstr (i # is) st = do {
     st \<leftarrow> parse_section al xz file elf_off shnum sh shstr i st;
     parse_sections al xz file elf_off shnum sh shstr is st
   }"

definition parse_symbols ::
  "allocator \<Rightarrow> (bytes \<Rightarrow> nat \<Rightarrow> lzma_ret) \<Rightarrow> (sym list \<Rightarrow> sym list) \<Rightarrow> bytes option \<Rightarrow> string \<Rightarrow> u64 \<Rightarrow> dynsym \<times> nat \<Rightarrow> (dynsym \<times> nat) option" where
  "parse_symbols al xz qs opened path elf_off = (\<lambda>(ds, k).
     (let ds = ds\<lparr>ds_ok := False\<rparr> in
      if path = [] \<or> hd path = CHR ''['' then Some (ds, k)
      else case opened of
        None \<Rightarrow> Some (ds, k)
      | Some file \<Rightarrow>
          (case pread_all file 64 elf_off of
             None \<Rightarrow> Some (ds, k)
           | Some eh \<Rightarrow>
               if \<not> elf64_magic eh then Some (ds, k)
               else if e_shoff_of eh = 0 \<or> e_shnum_of eh = 0 \<or> e_shentsize_of eh \<noteq> 64 then Some (ds, k)
               else case al k of
                 None \<Rightarrow> Some (ds, k + 1)
               | Some _ \<Rightarrow>
                   (case pread_all file (unat (e_shnum_of eh) * 64) (elf_off + e_shoff_of eh) of
                      None \<Rightarrow> Some (ds, k + 1)
                    | Some sh \<Rightarrow> do {
                        let (shstr, k) = section_names al file elf_off eh sh (k + 1);
                        (ds, k) \<leftarrow> parse_sections al xz file elf_off (e_shnum_of eh) sh shstr [0..<unat (e_shnum_of eh)] (ds, k);
                        Some ((dynsym_finalize qs ds)\<lparr>ds_ok := True\<rparr>, k)
                      }))))"

section \<open>The lookup\<close>

function sym_bsearch :: "sym list \<Rightarrow> u64 \<Rightarrow> nat \<Rightarrow> nat \<Rightarrow> nat" where
  "sym_bsearch s vaddr lo hi =
     (if lo < hi then
        let mid = (lo + hi) div 2 in
        if sym_value (s ! mid) \<le> vaddr then sym_bsearch s vaddr (mid + 1) hi else sym_bsearch s vaddr lo mid
      else lo)"
  by pat_completeness auto
termination by (relation "measure (\<lambda>(s, vaddr, lo, hi). hi - lo)") auto

definition sym_lookup :: "dynsym option \<Rightarrow> u64 \<Rightarrow> (bytes option \<times> u64) option" where
  "sym_lookup ds vaddr =
     (case ds of
        None \<Rightarrow> None
      | Some ds \<Rightarrow>
          if \<not> ds_ok ds \<or> ds_s ds = [] then None
          else let lo = sym_bsearch (ds_s ds) vaddr 0 (length (ds_s ds)) in
            if lo = 0 then None
            else let s = ds_s ds ! (lo - 1); d = vaddr - sym_value s in
              if sym_size s \<noteq> 0 \<and> d \<ge> sym_size s then None
              else if sym_size s = 0 \<and> d > 0x1000 then None
              else Some (c_string (ds_str ds) (unat (sym_name_off s)), d))"


section \<open>Collecting symbols\<close>

declare sym_bsearch.simps [simp del]

definition ds_view :: "dynsym \<Rightarrow> (u64 \<times> u64 \<times> bytes option) list" where
  "ds_view ds = map (\<lambda>s. (sym_value s, sym_size s, c_string (ds_str ds) (unat (sym_name_off s)))) (ds_s ds)"

definition ds_wf :: "dynsym \<Rightarrow> bool" where
  "ds_wf ds \<longleftrightarrow> arena_wf (ds_str ds, ds_strcap ds) \<and> (\<forall>s \<in> set (ds_s ds). c_string (ds_str ds) (unat (sym_name_off s)) \<noteq> None)"

interpretation dc: collector ds_wf ds_view "\<lambda>ds. length (ds_str ds)"
  by unfold_locales (auto simp: ds_wf_def ds_view_def)

lemma ds_extend:
  assumes "ds_wf ds" "ds_str ds' = ds_str ds @ x" "ds_s ds' = ds_s ds" "arena_wf (ds_str ds', ds_strcap ds')"
  shows "ds_view ds' = ds_view ds" "ds_wf ds'"
proof -
  have "c_string (ds_str ds') (unat (sym_name_off s)) = c_string (ds_str ds) (unat (sym_name_off s)) \<and> c_string (ds_str ds) (unat (sym_name_off s)) \<noteq> None" if "s \<in> set (ds_s ds)" for s
    using that assms(1) unfolding assms(2) ds_wf_def by (intro conjI c_string_append) auto
  then show "ds_view ds' = ds_view ds" "ds_wf ds'" using assms unfolding ds_wf_def ds_view_def by (auto simp: assms(3))
qed

text \<open>Storing a symbol, or nothing when there is no memory for its name.\<close>

lemma arena_add_grown:
  assumes "ds_wf ds" "0 \<notin> set name" "dc.room ds [(v, z, Some name)]" "arena_add al name (ds, k) = (off, ds1, k1)"
  shows "dc.grown al [(v, z, Some name)] ds (if off = 0 then ds1 else ds1\<lparr>ds_s := ds_s ds1 @ [\<lparr>sym_value = v, sym_size = z, sym_name_off = off\<rparr>]\<rparr>)"
proof -
  obtain buf cap where p: "arena_push 4096 al name ((ds_str ds, ds_strcap ds), k) = (off, (buf, cap), k1)" "ds1 = ds\<lparr>ds_str := buf, ds_strcap := cap\<rparr>"
    using assms(4) by (auto simp: arena_add_def Let_def split: prod.splits)
  have w: "arena_wf (ds_str ds, ds_strcap ds)" using assms(1) by (simp add: ds_wf_def)
  have r: "max 1 (length (ds_str ds)) + length name + 1 < 2 ^ 32" using assms(3) by (simp add: dc.room_def)
  note c = arena_push_cases [OF w assms(2) r _ p(1)]
  then obtain x where "buf = ds_str ds @ x" by auto
  then have e: "ds_view ds1 = ds_view ds" "ds_wf ds1" using c p(2) by (intro ds_extend [OF assms(1), of _ x]; simp)+
  show ?thesis
  proof (cases "off = 0")
    case True
    then show ?thesis using c e p(2) unfolding dc.grown_def by (auto intro: exI [of _ "[]"])
  next
    case False
    then have "c_string (ds_str ds1) (unat off) = Some name" "length (ds_str ds1) \<le> max 1 (length (ds_str ds)) + (length name + 1)" using c p(2) by auto
    then show ?thesis using False e unfolding dc.grown_def by (auto simp: ds_view_def ds_wf_def)
  qed
qed

text \<open>What one entry of a symbol table contributes, and what a table does.\<close>

definition entry_items :: "bytes \<Rightarrow> nat \<Rightarrow> nat \<Rightarrow> bytes \<Rightarrow> nat \<Rightarrow> nat \<Rightarrow> nat \<Rightarrow> (u64 \<times> u64 \<times> bytes option) list" where
  "entry_items symbuf so entsize str sto strn i =
     (let es = take 24 (drop (so + i * entsize) symbuf); st_name = (le_word (take 4 es) :: u32); st_value = (le_word (take 8 (drop 8 es)) :: u64)
      in if st_value \<noteq> 0 \<and> (le_word (take 2 (drop 6 es)) :: u16) \<noteq> 0 \<and> st_name \<noteq> 0 \<and> \<not> skipped_type (es ! 4) \<and> unat st_name < strn \<and>
            0 \<in> set (take (strn - unat st_name) (drop (sto + unat st_name) str))
         then [(st_value, le_word (take 8 (drop 16 es)), Some (takeWhile (\<lambda>b. b \<noteq> 0) (drop (sto + unat st_name) str)))] else [])"

definition table_items :: "bytes \<Rightarrow> nat \<Rightarrow> nat \<Rightarrow> nat \<Rightarrow> bytes \<Rightarrow> nat \<Rightarrow> nat \<Rightarrow> (u64 \<times> u64 \<times> bytes option) list" where
  "table_items symbuf so symbytes entsize str sto strn =
     (let entsize = (if entsize = 0 then 24 else entsize)
      in concat (map (entry_items symbuf so entsize str sto strn) [0..<symbytes div entsize]))"

lemma add_symbol_grown:
  assumes "so + i * entsize + 24 \<le> length symbuf" "sto + strn \<le> length str" "ds_wf ds" "dc.room ds (entry_items symbuf so entsize str sto strn i)"
  shows "\<exists>ds' k'. add_symbol al symbuf so entsize str sto strn i (ds, k) = Some (ds', k') \<and> dc.grown al (entry_items symbuf so entsize str sto strn i) ds ds'"
proof -
  let ?es = "take 24 (drop (so + i * entsize) symbuf)"
  let ?nm = "le_word (take 4 ?es) :: u32" and ?v = "le_word (take 8 (drop 8 ?es)) :: u64" and ?z = "le_word (take 8 (drop 16 ?es)) :: u64"
  let ?o = "sto + unat ?nm" let ?name = "takeWhile (\<lambda>b. b \<noteq> 0) (drop ?o str)"
  let ?go = "?v \<noteq> 0 \<and> (le_word (take 2 (drop 6 ?es)) :: u16) \<noteq> 0 \<and> ?nm \<noteq> 0 \<and> \<not> skipped_type (?es ! 4) \<and> unat ?nm < strn"
  let ?nul = "0 \<in> set (take (strn - unat ?nm) (drop ?o str))"
  have it: "entry_items symbuf so entsize str sto strn i = (if ?go \<and> ?nul then [(?v, ?z, Some ?name)] else [])"
    by (simp add: entry_items_def Let_def)
  have mc: "memchr_nul str ?o (strn - unat ?nm) = Some ?nul" if ?go using that assms(2) by (simp add: memchr_nul_def)
  obtain off ds1 k1 where a: "arena_add al ?name (ds, k) = (off, ds1, k1)" by (metis prod_cases3)
  let ?ds2 = "if off = 0 then ds1 else ds1\<lparr>ds_s := ds_s ds1 @ [\<lparr>sym_value = ?v, sym_size = ?z, sym_name_off = off\<rparr>]\<rparr>"
  show ?thesis
  proof (cases "?go \<and> ?nul")
    case True
    then have "0 \<in> set (drop ?o str)" using set_take_subset by fastforce
    then have cs: "c_string str ?o = Some ?name" by (simp add: c_string_def)
    have "add_symbol al symbuf so entsize str sto strn i (ds, k) = Some (?ds2, k1)"
      using True assms(1) mc cs a unfolding add_symbol_def by (simp add: Let_def)
    moreover have "dc.grown al [(?v, ?z, Some ?name)] ds ?ds2"
      using True assms(4) unfolding it by (intro arena_add_grown [OF assms(3) c_string_no_nul [OF cs] _ a]) simp
    ultimately show ?thesis using True unfolding it by auto
  next
    case False
    have "add_symbol al symbuf so entsize str sto strn i (ds, k) = Some (ds, k)"
    proof (cases ?go)
      case True
      then show ?thesis using False assms(1) mc [OF True] unfolding add_symbol_def by (simp add: Let_def)
    next
      case F: False
      then show ?thesis using assms(1) unfolding add_symbol_def by (auto simp: Let_def not_less)
    qed
    then show ?thesis using False dc.grown_refl [OF assms(3)] unfolding it by auto
  qed
qed

lemma add_symbols_grown:
  assumes "entsize = 0 \<or> 24 \<le> entsize" "so + symbytes \<le> length symbuf" "sto + strn \<le> length str"
    "ds_wf ds" "dc.room ds (table_items symbuf so symbytes entsize str sto strn)"
  shows "\<exists>ds' k'. add_symbols al symbuf so symbytes entsize str sto strn (ds, k) = Some (ds', k') \<and> dc.grown al (table_items symbuf so symbytes entsize str sto strn) ds ds'"
proof -
  define e where "e = (if entsize = 0 then 24 else entsize)"
  have e: "24 \<le> e" using assms(1) by (auto simp: e_def)
  have it: "table_items symbuf so symbytes entsize str sto strn = concat (map (entry_items symbuf so e str sto strn) [0..<symbytes div e])"
    by (simp add: table_items_def e_def Let_def)
  have within: "so + i * e + 24 \<le> length symbuf" if "i \<in> set [0..<symbytes div e]" for i
    using entry_within [of e i symbytes] that e assms(2) by simp
  have loop: "\<exists>ds' k'. add_symbol_loop al symbuf so e str sto strn [0..<symbytes div e] (ds, n) = Some (ds', k') \<and>
      dc.grown al (table_items symbuf so symbytes entsize str sto strn) ds ds'" for n
    unfolding it by (rule dc.grown_loop) (use add_symbol_grown [OF within assms(3)] assms(4,5) it in auto)
  show ?thesis
  proof (cases "al k")
    case None
    then have "add_symbols al symbuf so symbytes entsize str sto strn (ds, k) \<in> {Some (ds, k), Some (ds, k + 1)}"
      by (simp add: add_symbols_def Let_def)
    then show ?thesis using dc.grown_nothing [OF assms(4), of al k] None by auto
  next
    case (Some f)
    then have "add_symbols al symbuf so symbytes entsize str sto strn (ds, k) =
        (if symbytes div e = 0 then Some (ds, k) else add_symbol_loop al symbuf so e str sto strn [0..<symbytes div e] (ds, k + 1))"
      by (simp add: add_symbols_def e_def Let_def)
    then show ?thesis using loop [of "k + 1"] dc.grown_refl [OF assms(4)] it by (cases "symbytes div e = 0") auto
  qed
qed


definition fd_items :: "bytes \<Rightarrow> u64 \<Rightarrow> shdr64 \<Rightarrow> shdr64 \<Rightarrow> (u64 \<times> u64 \<times> bytes option) list" where
  "fd_items file elf_off symsec strsec =
     (if sh_size symsec = 0 then []
      else case pread_all file (unat (sh_size strsec)) (elf_off + sh_offset strsec) of
        None \<Rightarrow> []
      | Some strbuf \<Rightarrow>
          (case pread_all file (unat (sh_size symsec)) (elf_off + sh_offset symsec) of
             None \<Rightarrow> []
           | Some symbuf \<Rightarrow> table_items symbuf 0 (unat (sh_size symsec)) (unat (sh_entsize symsec)) strbuf 0 (unat (sh_size strsec))))"

abbreviation ent_ok :: "shdr64 \<Rightarrow> bool" where "ent_ok s \<equiv> sh_entsize s = 0 \<or> 24 \<le> unat (sh_entsize s)"

lemma pread_all_length: "pread_all file n off = Some b \<Longrightarrow> length b = n"
  by (auto simp: pread_all_def split: if_splits)

lemma ingest_fd_grown:
  assumes "ent_ok symsec" "ds_wf ds" "dc.room ds (fd_items file elf_off symsec strsec)"
  shows "\<exists>ds' k'. ingest_fd_section al file elf_off symsec strsec (ds, k) = Some (ds', k') \<and> dc.grown al (fd_items file elf_off symsec strsec) ds ds'"
proof -
  let ?z = "unat (sh_size symsec)" and ?sz = "unat (sh_size strsec)"
  let ?r = "ingest_fd_section al file elf_off symsec strsec (ds, k)" and ?x = "fd_items file elf_off symsec strsec"
  consider "sh_size symsec = 0" | "sh_size symsec \<noteq> 0" "al k = None \<or> al (k + 1) = None"
    | "sh_size symsec \<noteq> 0" "al k \<noteq> None" "al (k + 1) \<noteq> None" by blast
  then show ?thesis
  proof cases
    case 1
    then show ?thesis using dc.grown_refl [OF assms(2)] by (simp add: ingest_fd_section_def fd_items_def)
  next
    case 2
    then have "?r = Some (ds, k + 2)" by (simp add: ingest_fd_section_def)
    then show ?thesis using 2(2) dc.grown_nothing [OF assms(2), of al k ?x] dc.grown_nothing [OF assms(2), of al "k + 1" ?x] by auto
  next
    case 3
    show ?thesis
    proof (cases "pread_all file ?sz (elf_off + sh_offset strsec) = None \<or> pread_all file ?z (elf_off + sh_offset symsec) = None")
      case True
      then have "?r = Some (ds, k + 2)" "?x = []" using 3 by (auto simp: ingest_fd_section_def fd_items_def split: option.splits)
      then show ?thesis using dc.grown_refl [OF assms(2)] by simp
    next
      case False
      then obtain strbuf symbuf where b: "pread_all file ?sz (elf_off + sh_offset strsec) = Some strbuf" "pread_all file ?z (elf_off + sh_offset symsec) = Some symbuf" by auto
      have r: "?r = add_symbols al symbuf 0 ?z (unat (sh_entsize symsec)) strbuf 0 ?sz (ds, k + 2)"
        "?x = table_items symbuf 0 ?z (unat (sh_entsize symsec)) strbuf 0 ?sz" using 3 b by (auto simp: ingest_fd_section_def fd_items_def)
      have e: "unat (sh_entsize symsec) = 0 \<or> 24 \<le> unat (sh_entsize symsec)" using assms(1) by (auto simp: unat_eq_zero)
      show ?thesis unfolding r
        by (rule add_symbols_grown [OF e]) (use pread_all_length [OF b(1)] pread_all_length [OF b(2)] assms(2,3) r(2) in auto)
    qed
  qed
qed

text \<open>The check of the section table is right on all inputs: it accepts exactly the tables that end within the buffer,
  computed without wrap-around, and divides only by an entry size that is not 0.\<close>

lemma elf_shtab_in_bounds_exact:
  assumes "e_shentsize \<noteq> 0"
  shows "elf_shtab_in_bounds e_shoff e_shnum e_shentsize len = Some (unat e_shoff + unat e_shnum * unat e_shentsize \<le> len)"
proof -
  have z: "0 < unat e_shentsize" using assms by (simp add: unat_gt_0)
  show ?thesis
  proof (cases "unat e_shoff \<le> len")
    case True
    then show ?thesis using assms less_eq_div_iff_mult_less_eq [OF z, of "unat e_shnum" "len - unat e_shoff"]
      by (auto simp: elf_shtab_in_bounds_def not_less)
  next
    case False
    then show ?thesis by (simp add: elf_shtab_in_bounds_def)
  qed
qed

lemma elf_shtab_ucast:
  fixes z n :: u16
  assumes "64 \<le> unat z"
  shows "elf_shtab_in_bounds off (ucast n) (ucast z) len = Some (unat off + unat n * unat z \<le> len)"
proof -
  have "(ucast z :: u32) \<noteq> 0" "unat (ucast z :: u32) = unat z" "unat (ucast n :: u32) = unat n"
    using assms unsigned_less [of z, where ?'a = nat] unsigned_less [of n, where ?'a = nat]
    by (auto simp: unsigned_ucast_eq take_bit_nat_eq_self simp flip: unat_eq_zero)
  then show ?thesis using elf_shtab_in_bounds_exact by simp
qed

definition emb_shdr :: "bytes \<Rightarrow> nat \<Rightarrow> shdr64" where
  "emb_shdr buf i = the (load_shdr buf (unat (e_shoff_of (take 64 buf)) + i * unat (e_shentsize_of (take 64 buf))))"

definition emb_items :: "bytes \<Rightarrow> nat \<Rightarrow> (u64 \<times> u64 \<times> bytes option) list" where
  "emb_items buf i =
     (let sec = emb_shdr buf i; str = emb_shdr buf (unat (sh_link sec)) in
      if sh_type sec = 2 \<and> unat (sh_link sec) < unat (e_shnum_of (take 64 buf)) \<and> sh_limit sec \<le> length buf \<and> sh_limit str \<le> length buf
      then table_items buf (unat (sh_offset sec)) (unat (sh_size sec)) (unat (sh_entsize sec)) buf (unat (sh_offset str)) (unat (sh_size str)) else [])"

definition emb_sane :: "bytes \<Rightarrow> nat \<Rightarrow> bool" where
  "emb_sane buf i \<longleftrightarrow>
     (let sec = emb_shdr buf i; str = emb_shdr buf (unat (sh_link sec)) in
      sh_type sec = 2 \<and> unat (sh_link sec) < unat (e_shnum_of (take 64 buf)) \<longrightarrow> ent_ok sec \<and> sh_limit sec < 2 ^ 64 \<and> sh_limit str < 2 ^ 64)"

definition emb_table :: "bytes \<Rightarrow> bool" where
  "emb_table buf \<longleftrightarrow> (let eh = take 64 buf in
     64 \<le> length buf \<and> elf64_magic eh \<and> e_shoff_of eh \<noteq> 0 \<and> e_shnum_of eh \<noteq> 0 \<and> 64 \<le> unat (e_shentsize_of eh) \<and>
     unat (e_shoff_of eh) + unat (e_shnum_of eh) * unat (e_shentsize_of eh) \<le> length buf)"

abbreviation emb_idx :: "bytes \<Rightarrow> nat list" where "emb_idx buf \<equiv> [0..<unat (e_shnum_of (take 64 buf))]"

definition embedded_items :: "bytes \<Rightarrow> (u64 \<times> u64 \<times> bytes option) list" where
  "embedded_items buf = (if emb_table buf then concat (map (emb_items buf) (emb_idx buf)) else [])"

definition embedded_sane :: "bytes \<Rightarrow> bool" where
  "embedded_sane buf \<longleftrightarrow> length buf < 2 ^ 63 \<and> (emb_table buf \<longrightarrow> list_all (emb_sane buf) (emb_idx buf))"

lemma embedded_section_grown:
  assumes "emb_table buf" "length buf < 2 ^ 63" "i < unat (e_shnum_of (take 64 buf))" "emb_sane buf i" "ds_wf ds" "dc.room ds (emb_items buf i)"
  shows "\<exists>ds' k'. embedded_section al buf (e_shoff_of (take 64 buf)) (e_shentsize_of (take 64 buf)) (e_shnum_of (take 64 buf)) i (ds, k) = Some (ds', k') \<and>
    dc.grown al (emb_items buf i) ds ds'"
proof -
  let ?o = "e_shoff_of (take 64 buf)" and ?z = "e_shentsize_of (take 64 buf)" and ?n = "e_shnum_of (take 64 buf)"
  have at: "load_shdr buf (unat ?o + j * unat ?z) = Some (emb_shdr buf j)" if "j < unat ?n" for j
  proof -
    have "(j + 1) * unat ?z \<le> unat ?n * unat ?z" using that by (intro mult_le_mono1) simp
    then have "unat ?o + j * unat ?z + 64 \<le> length buf" using assms(1) by (simp add: emb_table_def Let_def)
    then show ?thesis using load_shdr_in unfolding emb_shdr_def by fastforce
  qed
  define sec where "sec = emb_shdr buf i"
  define str where "str = emb_shdr buf (unat (sh_link sec))"
  let ?r = "embedded_section al buf ?o ?z ?n i (ds, k)" and ?x = "emb_items buf i"
  let ?go = "sh_type sec = 2 \<and> unat (sh_link sec) < unat ?n"
  let ?in = "sh_limit sec \<le> length buf \<and> sh_limit str \<le> length buf"
  let ?t = "table_items buf (unat (sh_offset sec)) (unat (sh_size sec)) (unat (sh_entsize sec)) buf (unat (sh_offset str)) (unat (sh_size str))"
  let ?add = "add_symbols al buf (unat (sh_offset sec)) (unat (sh_size sec)) (unat (sh_entsize sec)) buf (unat (sh_offset str)) (unat (sh_size str)) (ds, k)"
  have it: "?x = (if ?go \<and> ?in then ?t else [])" by (simp add: emb_items_def Let_def sec_def [symmetric] str_def [symmetric])
  show ?thesis
  proof (cases ?go)
    case False
    then have "?r = Some (ds, k)" "?x = []" using at [OF assms(3)] it by (auto simp: embedded_section_def sec_def [symmetric] not_less)
    then show ?thesis using dc.grown_refl [OF assms(5)] by simp
  next
    case True
    then have str: "load_shdr buf (unat ?o + unat (sh_link sec) * unat ?z) = Some str" using at by (simp add: str_def)
    have sane: "ent_ok sec" "sh_limit sec < 2 ^ 64" "sh_limit str < 2 ^ 64"
      using assms(4) True by (simp_all add: emb_sane_def Let_def sec_def [symmetric] str_def [symmetric])
    have l: "length buf < 2 ^ 64" using assms(2) by simp
    note lim = sum_wrap_le [OF sane(2) l] sum_wrap_le [OF sane(3) l]
    have r: "?r = (if ?in then ?add else Some (ds, k))"
      using at [OF assms(3)] True str lim unfolding embedded_section_def by (auto simp: sec_def [symmetric])
    have e: "unat (sh_entsize sec) = 0 \<or> 24 \<le> unat (sh_entsize sec)" using sane(1) by (auto simp: unat_eq_zero)
    show ?thesis
    proof (cases ?in)
      case False
      then have "?r = Some (ds, k)" "?x = []" unfolding r it by (simp_all only: simp_thms if_False)
      then show ?thesis using dc.grown_refl [OF assms(5)] by simp
    next
      case True
      then have "?r = ?add" "?x = ?t" by (simp_all only: r it \<open>?go\<close> simp_thms if_True)
      then show ?thesis using add_symbols_grown [OF e _ _ assms(5), of "unat (sh_offset sec)" "unat (sh_size sec)" buf "unat (sh_offset str)" "unat (sh_size str)" buf al k] True assms(6) by simp
    qed
  qed
qed

lemma ingest_embedded_grown:
  assumes "embedded_sane buf" "ds_wf ds" "dc.room ds (embedded_items buf)"
  shows "\<exists>ds' k'. ingest_embedded al buf (ds, k) = Some (ds', k') \<and> dc.grown al (embedded_items buf) ds ds'"
proof -
  let ?eh = "take 64 buf" let ?o = "e_shoff_of ?eh" and ?z = "e_shentsize_of ?eh" and ?n = "e_shnum_of ?eh"
  have r: "ingest_embedded al buf (ds, k) = (if emb_table buf then embedded_sections al buf ?o ?z ?n (emb_idx buf) (ds, k) else Some (ds, k))"
    using elf_shtab_ucast [of ?z ?o ?n "length buf"]
    by (auto simp: ingest_embedded_def emb_table_def Let_def not_le not_less)
  show ?thesis
  proof (cases "emb_table buf")
    case True
    have "\<exists>ds' k'. embedded_sections al buf ?o ?z ?n (emb_idx buf) (ds, k) = Some (ds', k') \<and> dc.grown al (concat (map (emb_items buf) (emb_idx buf))) ds ds'"
      by (rule dc.grown_loop) (use embedded_section_grown [OF True] assms True in \<open>auto simp: embedded_sane_def embedded_items_def list_all_iff\<close>)
    then show ?thesis using True r by (simp add: embedded_items_def)
  next
    case False
    then show ?thesis using r dc.grown_refl [OF assms(2)] by (simp add: embedded_items_def)
  qed
qed


section \<open>A module\<close>

text \<open>What the sources of a module say, with memory to spare: the decoder's answer, the section names, the items of each section.\<close>

fun unxz :: "(bytes \<Rightarrow> nat \<Rightarrow> lzma_ret) \<Rightarrow> bytes \<Rightarrow> nat \<Rightarrow> nat \<Rightarrow> bytes option" where
  "unxz xz inp 0 cap = None"
| "unxz xz inp (Suc n) cap = (case xz inp cap of LZMA_OK out \<Rightarrow> Some out | LZMA_BUF_ERROR \<Rightarrow> unxz xz inp n (cap * 2) | LZMA_OTHER \<Rightarrow> None)"

lemma decompress_unxz:
  "fst (decompress_tries al xz inp n cap k) = unxz xz inp n cap \<or> fst (decompress_tries al xz inp n cap k) = None \<and> (\<exists>m. al m = None)"
  by (induction al xz inp n cap k rule: decompress_tries.induct) (auto split: option.splits lzma_ret.splits)

definition sh_at :: "bytes \<Rightarrow> nat \<Rightarrow> shdr64" where "sh_at sh i = the (load_shdr sh (i * 64))"

definition module_names :: "bytes \<Rightarrow> u64 \<Rightarrow> bytes \<Rightarrow> bytes \<Rightarrow> bytes option" where
  "module_names file elf_off eh sh = fst (section_names (\<lambda>_. Some (\<lambda>_. 0)) file elf_off eh sh 0)"

lemma section_names_cases:
  "fst (section_names al file elf_off eh sh k) = module_names file elf_off eh sh \<or> fst (section_names al file elf_off eh sh k) = None \<and> (\<exists>m. al m = None)"
  by (auto simp: module_names_def section_names_def split: option.splits)

definition debug_items :: "(bytes \<Rightarrow> nat \<Rightarrow> lzma_ret) \<Rightarrow> bytes \<Rightarrow> u64 \<Rightarrow> shdr64 \<Rightarrow> bytes option" where
  "debug_items xz file elf_off s =
     (if sh_size s = 0 \<or> \<not> unat (sh_size s) < SECTION_CAP then None
      else case pread_all file (unat (sh_size s)) (elf_off + sh_offset s) of
        None \<Rightarrow> None
      | Some cz \<Rightarrow> unxz xz cz 8 (length cz * 5 + 4096))"

definition section_items :: "(bytes \<Rightarrow> nat \<Rightarrow> lzma_ret) \<Rightarrow> bytes \<Rightarrow> u64 \<Rightarrow> bytes \<Rightarrow> bytes \<Rightarrow> nat \<Rightarrow> (u64 \<times> u64 \<times> bytes option) list" where
  "section_items xz file elf_off eh sh i =
     (let s = sh_at sh i in
      if sh_type s = 11 \<or> sh_type s = 2 then
        (if unat (sh_link s) < unat (e_shnum_of eh) then fd_items file elf_off s (sh_at sh (unat (sh_link s))) else [])
      else case module_names file elf_off eh sh of
        None \<Rightarrow> []
      | Some names \<Rightarrow>
          if unat (sh_name s) < length names \<and> strcmp_eq names (unat (sh_name s)) gnu_debugdata = Some True
          then (case debug_items xz file elf_off s of None \<Rightarrow> [] | Some raw \<Rightarrow> embedded_items raw) else [])"

definition section_sane :: "(bytes \<Rightarrow> nat \<Rightarrow> lzma_ret) \<Rightarrow> bytes \<Rightarrow> u64 \<Rightarrow> bytes \<Rightarrow> bytes \<Rightarrow> nat \<Rightarrow> bool" where
  "section_sane xz file elf_off eh sh i \<longleftrightarrow>
     (let s = sh_at sh i in
      if sh_type s = 11 \<or> sh_type s = 2 then unat (sh_link s) < unat (e_shnum_of eh) \<longrightarrow> ent_ok s
      else case module_names file elf_off eh sh of
        None \<Rightarrow> True
      | Some names \<Rightarrow> unat (sh_name s) < length names \<longrightarrow>
          (case strcmp_eq names (unat (sh_name s)) gnu_debugdata of
             None \<Rightarrow> False
           | Some eq \<Rightarrow> eq \<longrightarrow> (case debug_items xz file elf_off s of None \<Rightarrow> True | Some raw \<Rightarrow> embedded_sane raw)))"

lemma parse_section_grown:
  assumes sh: "length sh = unat (e_shnum_of eh) * 64" "i < unat (e_shnum_of eh)"
    and names: "shstr = module_names file elf_off eh sh \<or> shstr = None \<and> (\<exists>m. al m = None)"
    and sane: "section_sane xz file elf_off eh sh i" and wf: "ds_wf ds" and room: "dc.room ds (section_items xz file elf_off eh sh i)"
  shows "\<exists>ds' k'. parse_section al xz file elf_off (e_shnum_of eh) sh shstr i (ds, k) = Some (ds', k') \<and> dc.grown al (section_items xz file elf_off eh sh i) ds ds'"
proof -
  define s where "s = sh_at sh i"
  let ?r = "parse_section al xz file elf_off (e_shnum_of eh) sh shstr i (ds, k)" and ?x = "section_items xz file elf_off eh sh i"
  have at: "load_shdr sh (j * 64) = Some (sh_at sh j)" if "j < unat (e_shnum_of eh)" for j
    using load_shdr_in [of "j * 64" sh] that sh(1) by (auto simp: sh_at_def)
  have skip: "?r = Some (ds, m) \<Longrightarrow> ?x = [] \<or> (\<exists>m. al m = None) \<Longrightarrow> ?thesis" for m
    using dc.grown_refl [OF wf] dc.grown_nothing [OF wf] by auto
  show ?thesis
  proof (cases "sh_type s = 11 \<or> sh_type s = 2")
    case True
    then have r: "?r = (if unat (sh_link s) < unat (e_shnum_of eh) then ingest_fd_section al file elf_off s (sh_at sh (unat (sh_link s))) (ds, k) else Some (ds, k))"
      "?x = (if unat (sh_link s) < unat (e_shnum_of eh) then fd_items file elf_off s (sh_at sh (unat (sh_link s))) else [])"
      using at [OF sh(2)] at [of "unat (sh_link s)"] by (auto simp: parse_section_def section_items_def s_def Let_def)
    have "unat (sh_link s) < unat (e_shnum_of eh) \<Longrightarrow> ent_ok s" using sane True by (simp add: section_sane_def s_def Let_def)
    then show ?thesis using r ingest_fd_grown [OF _ wf] room dc.grown_refl [OF wf] by (cases "unat (sh_link s) < unat (e_shnum_of eh)") auto
  next
    case other: False
    show ?thesis
    proof (cases shstr)
      case None
      then have "?r = Some (ds, k)" using other at [OF sh(2)] by (simp add: parse_section_def s_def)
      moreover have "?x = [] \<or> (\<exists>m. al m = None)" using names None other by (auto simp: section_items_def s_def Let_def)
      ultimately show ?thesis by (rule skip)
    next
      case (Some nm)
      then have nm: "module_names file elf_off eh sh = Some nm" using names by auto
      let ?cmp = "strcmp_eq nm (unat (sh_name s)) gnu_debugdata"
      show ?thesis
      proof (cases "unat (sh_name s) < length nm \<and> ?cmp = Some True")
        case False
        have "?r = Some (ds, k)" "?x = []"
          using False sane other nm Some at [OF sh(2)]
          by (auto simp: parse_section_def section_items_def section_sane_def s_def Let_def split: option.splits)
        then show ?thesis using skip by blast
      next
        case hit: True
        have x: "?x = (case debug_items xz file elf_off s of None \<Rightarrow> [] | Some raw \<Rightarrow> embedded_items raw)"
          using hit nm other by (simp add: section_items_def s_def Let_def)
        have esane: "debug_items xz file elf_off s = Some raw \<Longrightarrow> embedded_sane raw" for raw
          using sane hit nm other by (simp add: section_sane_def s_def Let_def)
        show ?thesis
        proof (cases "sh_size s = 0 \<or> \<not> unat (sh_size s) < SECTION_CAP \<or> al k = None \<or> pread_all file (unat (sh_size s)) (elf_off + sh_offset s) = None")
          case True
          then have "\<exists>m. ?r = Some (ds, m)" using hit Some other at [OF sh(2)] by (auto simp: parse_section_def s_def split: option.splits)
          moreover have "?x = [] \<or> (\<exists>m. al m = None)" using True x by (auto simp: debug_items_def)
          ultimately show ?thesis using skip by blast
        next
          case False
          then obtain cz where cz: "pread_all file (unat (sh_size s)) (elf_off + sh_offset s) = Some cz" by auto
          obtain r1 k1 where d: "decompress_xz al xz cz (k + 1) = (r1, k1)" by (metis surj_pair)
          have r: "?r = (case r1 of None \<Rightarrow> Some (ds, k1) | Some raw \<Rightarrow> ingest_embedded al raw (ds, k1))"
            using False cz d hit Some other at [OF sh(2)] by (auto simp: parse_section_def s_def split: option.splits)
          have u: "r1 = debug_items xz file elf_off s \<or> r1 = None \<and> (\<exists>m. al m = None)"
            using decompress_unxz [of al xz cz 8 "length cz * 5 + 4096" "k + 1"] d False cz by (simp add: decompress_xz_def debug_items_def)
          show ?thesis
          proof (cases r1)
            case None
            then show ?thesis using r u x by (intro skip) auto
          next
            case (Some raw)
            then have "debug_items xz file elf_off s = Some raw" using u by simp
            then show ?thesis using r x Some ingest_embedded_grown [OF esane wf, of raw al k1] room by simp
          qed
        qed
      qed
    qed
  qed
qed


definition module_header :: "bytes \<Rightarrow> u64 \<Rightarrow> (bytes \<times> bytes) option" where
  "module_header file elf_off =
     (case pread_all file 64 elf_off of
        None \<Rightarrow> None
      | Some eh \<Rightarrow>
          if \<not> elf64_magic eh \<or> e_shoff_of eh = 0 \<or> e_shnum_of eh = 0 \<or> e_shentsize_of eh \<noteq> 64 then None
          else map_option (Pair eh) (pread_all file (unat (e_shnum_of eh) * 64) (elf_off + e_shoff_of eh)))"

definition module_items :: "(bytes \<Rightarrow> nat \<Rightarrow> lzma_ret) \<Rightarrow> bytes \<Rightarrow> u64 \<Rightarrow> (u64 \<times> u64 \<times> bytes option) list" where
  "module_items xz file elf_off =
     (case module_header file elf_off of
        None \<Rightarrow> []
      | Some (eh, sh) \<Rightarrow> concat (map (section_items xz file elf_off eh sh) [0..<unat (e_shnum_of eh)]))"

definition module_sane :: "(bytes \<Rightarrow> nat \<Rightarrow> lzma_ret) \<Rightarrow> bytes \<Rightarrow> u64 \<Rightarrow> bool" where
  "module_sane xz file elf_off \<longleftrightarrow>
     (case module_header file elf_off of
        None \<Rightarrow> True
      | Some (eh, sh) \<Rightarrow> list_all (section_sane xz file elf_off eh sh) [0..<unat (e_shnum_of eh)])"

definition ds_zero :: dynsym where
  "ds_zero = \<lparr>ds_str = [], ds_strcap = 0, ds_s = [], ds_ok = False\<rparr>"

text \<open>One entry per address.\<close>

lemma dedup_strict:
  "sorted (map sym_value (w @ xs)) \<Longrightarrow> distinct (map sym_value w) \<Longrightarrow>
   sorted (map sym_value (dedup w xs)) \<and> distinct (map sym_value (dedup w xs)) \<and> set (dedup w xs) \<subseteq> set (w @ xs) \<and>
   sym_value ` set (dedup w xs) = sym_value ` set (w @ xs)"
proof (induction w xs rule: dedup.induct)
  case (2 w r rs)
  show ?case
  proof (cases "w \<noteq> [] \<and> sym_value (last w) = sym_value r")
    case True
    then have "sym_value r \<in> sym_value ` set w" by (metis imageI last_in_set)
    then show ?thesis using 2(1) [OF True] 2(3,4) True by (auto simp: sorted_append)
  next
    case False
    have "sym_value r \<notin> sym_value ` set w"
    proof
      assume "sym_value r \<in> sym_value ` set w"
      then obtain x where x: "x \<in> set w" "sym_value x = sym_value r" by auto
      then have ne: "w \<noteq> []" by auto
      then have "sym_value x \<le> sym_value (last w)" using x 2(3) by (cases w rule: rev_cases) (auto simp: sorted_append)
      moreover have "sym_value (last w) \<le> sym_value r" using ne 2(3) by (auto simp: sorted_append)
      ultimately show False using x False ne by simp
    qed
    then show ?thesis using 2(2) [OF False] 2(3,4) False by (auto simp: sorted_append)
  qed
qed simp

lemma dynsym_finalize_strict:
  assumes "qsort_impl sym_value qs" "ds_wf ds"
  shows "ds_wf (dynsym_finalize qs ds)" "sorted (map sym_value (ds_s (dynsym_finalize qs ds)))" "distinct (map sym_value (ds_s (dynsym_finalize qs ds)))"
    "set (ds_view (dynsym_finalize qs ds)) \<subseteq> set (ds_view ds)" "fst ` set (ds_view (dynsym_finalize qs ds)) = fst ` set (ds_view ds)"
proof -
  let ?q = "qs (ds_s ds)"
  have q: "sorted (map sym_value ?q)" "set ?q = set (ds_s ds)"
    using qsort_impl.qs_sorted [OF assms(1)] qsort_impl.qs_set [OF assms(1)] by auto
  have d: "sorted (map sym_value (dedup [] ?q))" "distinct (map sym_value (dedup [] ?q))" "set (dedup [] ?q) \<subseteq> set (ds_s ds)"
    "sym_value ` set (dedup [] ?q) = sym_value ` set (ds_s ds)"
    using dedup_strict [of "[]" ?q] q by auto
  have s: "ds_s (dynsym_finalize qs ds) = (if ds_s ds = [] then [] else dedup [] ?q)" "ds_str (dynsym_finalize qs ds) = ds_str ds" "ds_strcap (dynsym_finalize qs ds) = ds_strcap ds"
    by (auto simp: dynsym_finalize_def)
  show "ds_wf (dynsym_finalize qs ds)" using assms(2) d(3) s by (auto simp: ds_wf_def)
  show "sorted (map sym_value (ds_s (dynsym_finalize qs ds)))" "distinct (map sym_value (ds_s (dynsym_finalize qs ds)))" using s d by auto
  show "set (ds_view (dynsym_finalize qs ds)) \<subseteq> set (ds_view ds)" using d(3) s by (auto simp: ds_view_def)
  have "fst ` set (ds_view x) = sym_value ` set (ds_s x)" for x by (force simp: ds_view_def)
  then show "fst ` set (ds_view (dynsym_finalize qs ds)) = fst ` set (ds_view ds)" using d(4) s by auto
qed

lemma parse_sections_grown:
  assumes "module_header file elf_off = Some (eh, sh)" "module_sane xz file elf_off" "ds_wf ds" "dc.room ds (module_items xz file elf_off)"
    "shstr = module_names file elf_off eh sh \<or> shstr = None \<and> (\<exists>m. al m = None)"
  shows "\<exists>ds' k'. parse_sections al xz file elf_off (e_shnum_of eh) sh shstr [0..<unat (e_shnum_of eh)] (ds, k) = Some (ds', k') \<and>
    dc.grown al (module_items xz file elf_off) ds ds'"
proof -
  have l: "length sh = unat (e_shnum_of eh) * 64"
    using assms(1) by (auto simp: module_header_def pread_all_length split: option.splits if_splits)
  have it: "module_items xz file elf_off = concat (map (section_items xz file elf_off eh sh) [0..<unat (e_shnum_of eh)])"
    using assms(1) by (simp add: module_items_def)
  have "i < unat (e_shnum_of eh) \<Longrightarrow> section_sane xz file elf_off eh sh i" for i
    using assms(1,2) by (simp add: module_sane_def list_all_iff)
  then show ?thesis unfolding it
    by (intro dc.grown_loop) (use parse_section_grown [OF l _ assms(5)] assms(3,4) it in auto)
qed

lemma parse_symbols_ok:
  assumes "qsort_impl sym_value qs" "path \<noteq> []" "hd path \<noteq> CHR ''[''" "module_header file elf_off = Some (eh, sh)"
    "module_sane xz file elf_off" "items = module_items xz file elf_off" "names_size items < 2 ^ 32 - 1"
  shows "\<exists>ds k'. parse_symbols al xz qs (Some file) path elf_off (ds_zero, k) = Some (ds, k') \<and>
    sorted (map sym_value (ds_s ds)) \<and> distinct (map sym_value (ds_s ds)) \<and> set (ds_view ds) \<subseteq> set items \<and>
    ((\<forall>n. al n \<noteq> None) \<longrightarrow> ds_ok ds \<and> fst ` set (ds_view ds) = fst ` set items)"
proof -
  have z: "ds_wf ds_zero" "ds_view ds_zero = []" "dc.room ds_zero items"
    using assms(7) by (simp_all add: ds_zero_def ds_wf_def ds_view_def arena_wf_def dc.room_def)
  have hd: "pread_all file 64 elf_off = Some eh" "elf64_magic eh" "e_shoff_of eh \<noteq> 0" "e_shnum_of eh \<noteq> 0" "e_shentsize_of eh = 64"
    "pread_all file (unat (e_shnum_of eh) * 64) (elf_off + e_shoff_of eh) = Some sh"
    using assms(4) by (auto simp: module_header_def split: option.splits if_splits)
  have zero: "ds_zero\<lparr>ds_ok := False\<rparr> = ds_zero" by (simp add: ds_zero_def)
  show ?thesis
  proof (cases "al k")
    case None
    then have "parse_symbols al xz qs (Some file) path elf_off (ds_zero, k) = Some (ds_zero, k + 1)"
      using assms(2,3) hd zero by (simp add: parse_symbols_def)
    then show ?thesis using None z(2) by (auto simp: ds_zero_def ds_view_def)
  next
    case (Some f)
    obtain shstr k1 where sn: "section_names al file elf_off eh sh (k + 1) = (shstr, k1)" by (metis surj_pair)
    have names: "shstr = module_names file elf_off eh sh \<or> shstr = None \<and> (\<exists>m. al m = None)"
      using section_names_cases [of al "file" elf_off eh sh "k + 1"] sn by simp
    obtain ds1 k2 where p: "parse_sections al xz file elf_off (e_shnum_of eh) sh shstr [0..<unat (e_shnum_of eh)] (ds_zero, k1) = Some (ds1, k2)"
        "dc.grown al items ds_zero ds1"
      using parse_sections_grown [OF assms(4,5) z(1) _ names] z(3) assms(6) by blast
    have r: "parse_symbols al xz qs (Some file) path elf_off (ds_zero, k) = Some ((dynsym_finalize qs ds1)\<lparr>ds_ok := True\<rparr>, k2)"
      using assms(2,3) hd zero Some sn p(1) by (simp add: parse_symbols_def)
    obtain ys where ys: "subseq ys items" "ds_view ds1 = ys" "(\<forall>n. al n \<noteq> None) \<longrightarrow> ys = items" "ds_wf ds1"
      using p(2) z(2) unfolding dc.grown_def by auto
    note f = dynsym_finalize_strict [OF assms(1) ys(4)]
    have sub: "set ys \<subseteq> set items" using list_emb_set [OF ys(1)] by blast
    have v: "ds_view (x\<lparr>ds_ok := True\<rparr>) = ds_view x" for x by (simp add: ds_view_def)
    show ?thesis using r f ys sub by (intro exI [of _ "(dynsym_finalize qs ds1)\<lparr>ds_ok := True\<rparr>"] exI [of _ k2]) (auto simp: v)
  qed
qed


section \<open>Nearest symbols\<close>

definition reaches :: "u64 \<Rightarrow> u64 \<Rightarrow> bool" where
  "reaches z d \<longleftrightarrow> (if z = 0 then d \<le> 0x1000 else d < z)"

interpretation se: floor_search sym_value sym_bsearch
  by unfold_locales (subst sym_bsearch.simps, simp add: Let_def)+

text \<open>C37: a lookup in such a table finds a symbol exactly when the symbol with the greatest address at or below the one asked for covers
  it: the offset is below the symbol's size, or at most 4096 when the size is 0. It reports the symbol's name and the offset.\<close>

theorem sym_lookup_nearest:
  assumes "ds_ok ds" "sorted (map sym_value (ds_s ds))" "distinct (map sym_value (ds_s ds))"
  shows "sym_lookup (Some ds) vaddr = Some (nm, d) \<longleftrightarrow>
    (\<exists>v z. (v, z, nm) \<in> set (ds_view ds) \<and> v \<le> vaddr \<and> d = vaddr - v \<and> reaches z d \<and>
      (\<forall>(v', z', nm') \<in> set (ds_view ds). v' \<le> vaddr \<longrightarrow> v' \<le> v))"
proof -
  have "sym_lookup (Some ds) vaddr = (case last_at sym_value (ds_s ds) vaddr of
      None \<Rightarrow> None
    | Some s \<Rightarrow> let d = vaddr - sym_value s in
        if reaches (sym_size s) d then Some (c_string (ds_str ds) (unat (sym_name_off s)), d) else None)"
    unfolding se.search_last [OF assms(2)] sym_lookup_def using assms(1) by (auto simp: Let_def not_le not_less se.search_done reaches_def)
  then have "sym_lookup (Some ds) vaddr = Some (nm, d) \<longleftrightarrow>
      (\<exists>s. last_at sym_value (ds_s ds) vaddr = Some s \<and> d = vaddr - sym_value s \<and> reaches (sym_size s) d \<and>
        nm = c_string (ds_str ds) (unat (sym_name_off s)))"
    by (auto simp: Let_def split: option.splits if_splits)
  moreover have "(\<exists>v z. (v, z, nm) \<in> set (ds_view ds) \<and> v \<le> vaddr \<and> d = vaddr - v \<and> reaches z d \<and>
      (\<forall>(v', z', nm') \<in> set (ds_view ds). v' \<le> vaddr \<longrightarrow> v' \<le> v)) \<longleftrightarrow>
    (\<exists>s \<in> set (ds_s ds). sym_value s \<le> vaddr \<and> d = vaddr - sym_value s \<and> reaches (sym_size s) d \<and>
      (\<forall>t \<in> set (ds_s ds). sym_value t \<le> vaddr \<longrightarrow> sym_value t \<le> sym_value s) \<and> nm = c_string (ds_str ds) (unat (sym_name_off s)))"
    unfolding ds_view_def by auto
  ultimately show ?thesis by (auto simp: last_at_max [OF assms(2,3)])
qed


text \<open>A file with a table of two symbols at the same address and one below it.\<close>

definition lib_symtab :: shdr64 where
  "lib_symtab = \<lparr>sh_name = 0, sh_type = 11, sh_offset = 192, sh_size = 72, sh_link = 1, sh_entsize = 24\<rparr>"

definition lib_strtab :: shdr64 where
  "lib_strtab = \<lparr>sh_name = 0, sh_type = 3, sh_offset = 264, sh_size = 7, sh_link = 0, sh_entsize = 0\<rparr>"

definition lib_headers :: bytes where
  "lib_headers = replicate 4 0 @ le_bytes 4 (11 :: u32) @ replicate 16 0 @ le_bytes 8 (192 :: u64) @ le_bytes 8 (72 :: u64) @ le_bytes 4 (1 :: u32) @ replicate 12 0 @ le_bytes 8 (24 :: u64) @
     replicate 4 0 @ le_bytes 4 (3 :: u32) @ replicate 16 0 @ le_bytes 8 (264 :: u64) @ le_bytes 8 (7 :: u64) @ replicate 24 0"

definition lib_symbols :: bytes where
  "lib_symbols =
     le_bytes 4 (1 :: u32) @ [2, 0, 1, 0] @ le_bytes 8 (0x7000 :: u64) @ le_bytes 8 (16 :: u64) @
     le_bytes 4 (3 :: u32) @ [2, 0, 1, 0] @ le_bytes 8 (0x7000 :: u64) @ le_bytes 8 (16 :: u64) @
     le_bytes 4 (5 :: u32) @ [2, 0, 1, 0] @ le_bytes 8 (0x6000 :: u64) @ le_bytes 8 (0 :: u64)"

definition lib_strings :: bytes where "lib_strings = [0, 0x66, 0, 0x67, 0, 0x68, 0]"

definition lib_file :: bytes where
  "lib_file = [0x7f, 0x45, 0x4c, 0x46, 2] @ replicate 35 0 @ le_bytes 8 (64 :: u64) @ replicate 10 0 @ [64, 0, 2, 0, 2, 0] @ lib_headers @ lib_symbols @ lib_strings"

abbreviation lib_items :: "(u64 \<times> u64 \<times> bytes option) list" where
  "lib_items \<equiv> [(0x7000, 16, Some [0x66]), (0x7000, 16, Some [0x67]), (0x6000, 0, Some [0x68])]"

lemma lib_parts:
  "elf64_magic (take 64 lib_file)" "e_shoff_of (take 64 lib_file) = 64" "e_shentsize_of (take 64 lib_file) = 64" "e_shnum_of (take 64 lib_file) = 2"
  "e_shstrndx_of (take 64 lib_file) = 2" "take 128 (drop 64 lib_file) = lib_headers" "take 72 (drop 192 lib_file) = lib_symbols" "take 7 (drop 264 lib_file) = lib_strings"
  "length lib_file = 271" "load_shdr lib_headers 0 = Some lib_symtab" "load_shdr lib_headers 64 = Some lib_strtab"
  "table_items lib_symbols 0 72 24 lib_strings 0 7 = lib_items"
  by code_simp+

lemma lib_facts:
  "module_header lib_file 0 = Some (take 64 lib_file, lib_headers)" "module_sane xz lib_file 0" "module_items xz lib_file 0 = lib_items"
proof -
  have h: "pread_all lib_file 64 0 = Some (take 64 lib_file)" "pread_all lib_file 128 64 = Some lib_headers"
    "pread_all lib_file 72 192 = Some lib_symbols" "pread_all lib_file 7 264 = Some lib_strings"
    by (simp_all add: pread_all_def lib_parts)
  show hd: "module_header lib_file 0 = Some (take 64 lib_file, lib_headers)" by (simp add: module_header_def h lib_parts)
  have nm: "module_names lib_file 0 (take 64 lib_file) lib_headers = None" by (simp add: module_names_def section_names_def lib_parts)
  have sh: "sh_at lib_headers 0 = lib_symtab" "sh_at lib_headers (Suc 0) = lib_strtab" by (simp_all add: sh_at_def lib_parts)
  have f: "sh_type lib_symtab = 11" "sh_link lib_symtab = 1" "sh_size lib_symtab = 72" "sh_offset lib_symtab = 192" "sh_entsize lib_symtab = 24"
    "sh_type lib_strtab = 3" "sh_size lib_strtab = 7" "sh_offset lib_strtab = 264"
    by (simp_all add: lib_symtab_def lib_strtab_def)
  have two: "[0..<2] = [0, Suc 0]" by (simp add: upt_rec)
  show "module_sane xz lib_file 0" by (simp add: module_sane_def hd section_sane_def Let_def sh f nm lib_parts two)
  show "module_items xz lib_file 0 = lib_items" by (simp add: module_items_def hd section_items_def fd_items_def Let_def sh f nm h lib_parts two)
qed

interpretation qsort_sym: qsort_impl sym_value "sort_key sym_value"
  by unfold_locales simp_all



definition two_syms :: dynsym where
  "two_syms = \<lparr>ds_str = [0, 0x66, 0, 0x67, 0], ds_strcap = 4096,
     ds_s = [\<lparr>sym_value = 0x1000, sym_size = 16, sym_name_off = 1\<rparr>, \<lparr>sym_value = 0x2000, sym_size = 0, sym_name_off = 3\<rparr>], ds_ok = True\<rparr>"

lemma sym_lookup_nearest_witness:
  "sym_lookup (Some two_syms) 0x3000 = Some (Some [0x67], 0x1000) \<and> sym_lookup (Some two_syms) 0x1010 \<noteq> Some (Some [0x66], 16)"
  using sym_lookup_nearest [of two_syms "0x3000" "Some [0x67]" "0x1000"] sym_lookup_nearest [of two_syms "0x1010" "Some [0x66]" "16"]
  by (simp add: two_syms_def ds_view_def c_string_def reaches_def)

section \<open>Untrusted headers\<close>

text \<open>An entry size below 24 makes the last entry reach past the table: a table of ten bytes with entries of ten is read outside its buffer.\<close>

lemma add_symbols_overreads:
  assumes "al k = Some f" "0 < entsize" "entsize < 24" "length symbuf = entsize"
  shows "add_symbols al symbuf 0 entsize entsize str sto strn (ds, k) = None"
proof -
  have "load_bytes symbuf 0 24 = None" using assms(3,4) by (simp add: load_bytes_def)
  then show ?thesis using assms by (simp add: add_symbols_def add_symbol_def)
qed

text \<open>The limits of an embedded section are sums that wrap: a table whose offset is close to \<open>2 ^ 64\<close> passes the comparison with the
  length and is read outside the image.\<close>

lemma embedded_section_wraps:
  assumes "load_shdr buf (unat shoff + i * unat shentsize) = Some sec" "sh_type sec = 2" "unat (sh_link sec) < unat shnum"
    "load_shdr buf (unat shoff + unat (sh_link sec) * unat shentsize) = Some str" "sh_offset str + sh_size str \<le> of_nat (length buf)"
    "sh_offset sec = - sh_size sec" "24 \<le> unat (sh_size sec)" "sh_entsize sec = 24" "length buf < unat (sh_offset sec)" "al k \<noteq> None"
  shows "embedded_section al buf shoff shentsize shnum i (ds, k) = None"
proof -
  have c: "unat (sh_size sec) div 24 = Suc (unat (sh_size sec) div 24 - 1)" using assms(7) by (simp add: Suc_leI div_greater_zero_iff)
  have l: "load_bytes buf (unat (sh_offset sec)) 24 = None" using assms(9) by (simp add: load_bytes_def)
  have "[0..<unat (sh_size sec) div 24] = 0 # [Suc 0..<unat (sh_size sec) div 24]" using c by (metis upt_conv_Cons zero_less_Suc)
  then have "add_symbols al buf (unat (sh_offset sec)) (unat (sh_size sec)) (unat (sh_entsize sec)) buf (unat (sh_offset str)) (unat (sh_size str)) (ds, k) = None"
    using assms(8,10) c l by (auto simp: add_symbols_def add_symbol_def)
  then show ?thesis using assms(1-6) by (simp add: embedded_section_def)
qed

end
