(* ===== verification/Sym_Apk.thy ===== *)
theory Sym_Apk
  imports Sym_Elf C_Text
begin

unbundle bit_operations_syntax

text \<open>
  \<open>src/src/common/sym_apk.c\<close>: the names of libraries mapped directly out of an application archive. The directory of the archive is read
  once per path and kept in an array of eight; the library is the stored entry whose data begin at the offset of the mapping.

  \<^item> the archive is the list of its bytes; \<open>fopen t p\<close> is what opening \<open>p\<close> gives as the \<open>t\<close>-th question to the system;
  \<^item> \<open>g_apk\<close> with its count is a list. A returned pointer is the text or the position it points to.
\<close>

section \<open>The directory\<close>

record apk_so_entry =
  so_name :: string
  data_start :: u64
  so_size :: u64

record apk_cache =
  apk_path :: string
  apk_entries :: "apk_so_entry list"

abbreviation APK_SO_MAX :: nat where "APK_SO_MAX \<equiv> 32"
abbreviation APK_CACHE_MAX :: nat where "APK_CACHE_MAX \<equiv> 8"

definition apk_le16 :: "bytes \<Rightarrow> nat \<Rightarrow> u16" where "apk_le16 b o1 = le_word (take 2 (drop o1 b))"
definition apk_le32 :: "bytes \<Rightarrow> nat \<Rightarrow> u32" where "apk_le32 b o1 = le_word (take 4 (drop o1 b))"

text \<open>The backward scan for the end-of-directory record, with the number of places left.\<close>

fun find_eocd :: "bytes \<Rightarrow> nat \<Rightarrow> nat \<Rightarrow> bytes option" where
  "find_eocd f 0 p = None"
| "find_eocd f (Suc n) p =
     (case pread_all f 4 (of_nat p) of
        None \<Rightarrow> None
      | Some b \<Rightarrow>
          if b = [0x50, 0x4b, 0x05, 0x06] then
            (case pread_all f 22 (of_nat p) of Some e \<Rightarrow> Some e | None \<Rightarrow> find_eocd f n (p - 1))
          else find_eocd f n (p - 1))"

text \<open>One directory record: a stored library below \<open>lib/\<close>, or nothing.\<close>

definition apk_entry :: "bytes \<Rightarrow> bytes \<Rightarrow> string \<Rightarrow> apk_so_entry option" where
  "apk_entry f cde fname =
     (let base = basename_of fname in
      if apk_le16 cde 10 \<noteq> 0 then None
      else if take 4 fname \<noteq> ''lib/'' then None
      else if length base < 4 \<or> drop (length base - 3) base \<noteq> ''.so'' then None
      else case pread_all f 30 (ucast (apk_le32 cde 42)) of
        None \<Rightarrow> None
      | Some lfh \<Rightarrow>
          if take 4 lfh \<noteq> [0x50, 0x4b, 0x03, 0x04] then None
          else Some \<lparr>so_name = snprintf 256 base,
                 data_start = ucast (apk_le32 cde 42) + 30 + ucast (apk_le16 lfh 26) + ucast (apk_le16 lfh 28),
                 so_size = ucast (apk_le32 cde 20)\<rparr>)"

fun apk_walk :: "bytes \<Rightarrow> nat \<Rightarrow> u64 \<Rightarrow> apk_so_entry list \<Rightarrow> apk_so_entry list" where
  "apk_walk f 0 cpos es = es"
| "apk_walk f (Suc n) cpos es =
     (if length es \<ge> APK_SO_MAX then es
      else case pread_all f 46 cpos of
        None \<Rightarrow> es
      | Some cde \<Rightarrow>
          if take 4 cde \<noteq> [0x50, 0x4b, 0x01, 0x02] then es
          else let cpos = cpos + 46; fname_len = apk_le16 cde 28;
                   fname = cstr (take (min (unat fname_len) 255) (drop (unat cpos) f))
               in apk_walk f n (cpos + (ucast fname_len + ucast (apk_le16 cde 30) + ucast (apk_le16 cde 32)))
                    (case apk_entry f cde fname of None \<Rightarrow> es | Some e \<Rightarrow> es @ [e]))"

definition apk_parse :: "(nat \<Rightarrow> string \<Rightarrow> bytes option) \<Rightarrow> string \<Rightarrow> apk_cache list \<times> nat \<Rightarrow> nat option \<times> apk_cache list \<times> nat" where
  "apk_parse fopen path = (\<lambda>(apks, t).
     (if length apks \<ge> APK_CACHE_MAX then (None, apks, t)
      else case fopen t path of
        None \<Rightarrow> (None, apks, t + 1)
      | Some f \<Rightarrow>
          if length f < 22 then (None, apks, t + 1)
          else case find_eocd f (length f - 22 - (length f - 22 - 65535) + 1) (length f - 22) of
            None \<Rightarrow> (None, apks, t + 1)
          | Some e \<Rightarrow>
              (Some (length apks),
               apks @ [\<lparr>apk_path = snprintf 256 path, apk_entries = apk_walk f (unat (apk_le16 e 10)) (ucast (apk_le32 e 16)) []\<rparr>], t + 1)))"

definition apk_get :: "(nat \<Rightarrow> string \<Rightarrow> bytes option) \<Rightarrow> string \<Rightarrow> apk_cache list \<times> nat \<Rightarrow> nat option \<times> apk_cache list \<times> nat" where
  "apk_get fopen path = (\<lambda>(apks, t).
     (case find (\<lambda>i. apk_path (apks ! i) = path) [0..<length apks] of
        Some i \<Rightarrow> (Some i, apks, t)
      | None \<Rightarrow> apk_parse fopen path (apks, t)))"

definition apk_so_name :: "(nat \<Rightarrow> string \<Rightarrow> bytes option) \<Rightarrow> string \<Rightarrow> u64 \<Rightarrow> apk_cache list \<times> nat \<Rightarrow> string option \<times> apk_cache list \<times> nat" where
  "apk_so_name fopen path elf_off st =
     (if length path < 4 \<or> drop (length path - 4) path \<noteq> ''.apk'' then (None, st)
      else case apk_get fopen path st of
        (None, apks, t) \<Rightarrow> (None, apks, t)
      | (Some i, apks, t) \<Rightarrow> (map_option so_name (find (\<lambda>e. data_start e = elf_off) (apk_entries (apks ! i))), apks, t))"

definition apk_list_sos :: "(nat \<Rightarrow> string \<Rightarrow> bytes option) \<Rightarrow> string \<Rightarrow> nat \<Rightarrow> apk_cache list \<times> nat \<Rightarrow> apk_so_entry list \<times> apk_cache list \<times> nat" where
  "apk_list_sos fopen path mx st =
     (case apk_get fopen path st of
        (None, apks, t) \<Rightarrow> ([], apks, t)
      | (Some i, apks, t) \<Rightarrow> (take mx (apk_entries (apks ! i)), apks, t))"


section \<open>What an archive says\<close>

text \<open>The records of the directory, as far as they are well formed, each with its file name.\<close>

fun cd_records :: "bytes \<Rightarrow> nat \<Rightarrow> u64 \<Rightarrow> (bytes \<times> string) list" where
  "cd_records f 0 cpos = []"
| "cd_records f (Suc n) cpos =
     (case pread_all f 46 cpos of
        None \<Rightarrow> []
      | Some cde \<Rightarrow>
          if take 4 cde \<noteq> [0x50, 0x4b, 0x01, 0x02] then []
          else (cde, cstr (take (min (unat (apk_le16 cde 28)) 255) (drop (unat (cpos + 46)) f))) #
            cd_records f n (cpos + 46 + (ucast (apk_le16 cde 28) + ucast (apk_le16 cde 30) + ucast (apk_le16 cde 32))))"

definition libs_at :: "bytes \<Rightarrow> nat \<Rightarrow> u64 \<Rightarrow> apk_so_entry list" where
  "libs_at f n cpos = List.map_filter (\<lambda>(cde, fname). apk_entry f cde fname) (cd_records f n cpos)"

abbreviation eocd_sig :: bytes where "eocd_sig \<equiv> [0x50, 0x4b, 0x05, 0x06]"

text \<open>The libraries of an archive: the directory is the one of the last end record in the last 64 KiB.\<close>

definition apk_libs :: "bytes \<Rightarrow> apk_so_entry list option" where
  "apk_libs f =
     (if length f < 22 then None
      else map_option (\<lambda>q. take APK_SO_MAX (libs_at f (unat (apk_le16 (take 22 (drop q f)) 10)) (ucast (apk_le32 (take 22 (drop q f)) 16))))
        (find (\<lambda>q. take 4 (drop q f) = eocd_sig) (rev [length f - 22 - 65535..<Suc (length f - 22)])))"

lemma map_filter_Cons: "List.map_filter g (x # xs) = (case g x of None \<Rightarrow> [] | Some y \<Rightarrow> [y]) @ List.map_filter g xs"
  by (simp add: List.map_filter_def split: option.split)

lemma apk_walk_libs: "length es \<le> APK_SO_MAX \<Longrightarrow> apk_walk f n cpos es = take APK_SO_MAX (es @ libs_at f n cpos)"
proof (induction f n cpos es rule: apk_walk.induct)
  case (2 f n cpos es)
  show ?case
  proof (cases "length es \<ge> APK_SO_MAX \<or> pread_all f 46 cpos = None \<or> take 4 (the (pread_all f 46 cpos)) \<noteq> [0x50, 0x4b, 0x01, 0x02]")
    case True
    then show ?thesis using "2.prems" by (auto simp: libs_at_def List.map_filter_def split: option.splits)
  next
    case False
    then obtain cde where c: "pread_all f 46 cpos = Some cde" "\<not> APK_SO_MAX \<le> length es" "take 4 cde = [0x50, 0x4b, 0x01, 0x02]" by auto
    define fname where "fname = cstr (take (min (unat (apk_le16 cde 28)) 255) (drop (unat (cpos + 46)) f))"
    define es1 where "es1 = (case apk_entry f cde fname of None \<Rightarrow> es | Some e \<Rightarrow> es @ [e])"
    let ?next = "cpos + 46 + (ucast (apk_le16 cde 28) + ucast (apk_le16 cde 30) + ucast (apk_le16 cde 32))"
    have "length es1 \<le> APK_SO_MAX" using c(2) by (auto simp: es1_def split: option.splits)
    then have ih: "apk_walk f n ?next es1 = take APK_SO_MAX (es1 @ libs_at f n ?next)"
      using "2.IH" [OF c(2,1) _ refl refl refl] c(3) by (simp add: es1_def fname_def)
    have w: "apk_walk f (Suc n) cpos es = apk_walk f n ?next es1" using c by (simp add: Let_def es1_def fname_def)
    have "libs_at f (Suc n) cpos = (case apk_entry f cde fname of None \<Rightarrow> [] | Some e \<Rightarrow> [e]) @ libs_at f n ?next"
      using c by (simp add: libs_at_def map_filter_Cons fname_def split: option.split)
    then show ?thesis unfolding w ih by (auto simp: es1_def split: option.splits)
  qed
qed (simp add: libs_at_def List.map_filter_def)

lemma find_eocd_last:
  assumes "length f < 2 ^ 63"
  shows "n \<le> Suc p \<Longrightarrow> p + 22 \<le> length f \<Longrightarrow>
    find_eocd f n p = map_option (\<lambda>q. take 22 (drop q f)) (find (\<lambda>q. take 4 (drop q f) = eocd_sig) (rev [Suc p - n..<Suc p]))"
proof (induction n arbitrary: p)
  case (Suc n)
  have "unat (of_nat p :: u64) = p" using Suc.prems(2) assms by (intro unat_of_nat64) simp
  then have rd: "pread_all f 4 (of_nat p) = Some (take 4 (drop p f))" "pread_all f 22 (of_nat p) = Some (take 22 (drop p f))"
    using Suc.prems(2) by (simp_all add: pread_all_def)
  have l: "rev [Suc p - Suc n..<Suc p] = p # rev [p - n..<p]" using Suc.prems(1) by simp
  show ?case
  proof (cases "take 4 (drop p f) = eocd_sig \<or> n = 0")
    case True
    then show ?thesis using rd l by auto
  next
    case False
    then have p: "Suc (p - 1) = p" using Suc.prems(1) by simp
    have "find_eocd f n (p - 1) = map_option (\<lambda>q. take 22 (drop q f)) (find (\<lambda>q. take 4 (drop q f) = eocd_sig) (rev [p - n..<p]))"
      using Suc.IH [of "p - 1"] Suc.prems p by simp
    then show ?thesis using False rd l by simp
  qed
qed simp

lemma apk_parse_libs:
  assumes "length f < 2 ^ 63" "fopen t path = Some f" "length path < 256" "length apks < APK_CACHE_MAX"
  shows "apk_parse fopen path (apks, t) =
    (case apk_libs f of None \<Rightarrow> (None, apks, t + 1) | Some es \<Rightarrow> (Some (length apks), apks @ [\<lparr>apk_path = path, apk_entries = es\<rparr>], t + 1))"
proof (cases "length f < 22")
  case False
  let ?p = "length f - 22"
  have n: "Suc ?p - (?p - (?p - 65535) + 1) = ?p - 65535" by simp
  have e: "find_eocd f (?p - (?p - 65535) + 1) ?p = map_option (\<lambda>q. take 22 (drop q f)) (find (\<lambda>q. take 4 (drop q f) = eocd_sig) (rev [?p - 65535..<Suc ?p]))"
    using find_eocd_last [OF assms(1), of "?p - (?p - 65535) + 1" ?p] False unfolding n by simp
  have p: "apk_parse fopen path (apks, t) = (case find_eocd f (?p - (?p - 65535) + 1) ?p of
      None \<Rightarrow> (None, apks, t + 1)
    | Some e \<Rightarrow> (Some (length apks), apks @ [\<lparr>apk_path = path, apk_entries = apk_walk f (unat (apk_le16 e 10)) (ucast (apk_le32 e 16)) []\<rparr>], t + 1))"
    unfolding apk_parse_def prod.case using False assms(2-4) by (simp only: not_le if_False option.case snprintf_fits not_less [symmetric] simp_thms)
  show ?thesis unfolding p e
    by (cases "find (\<lambda>q. take 4 (drop q f) = eocd_sig) (rev [?p - 65535..<Suc ?p])")
      (use False in \<open>simp_all only: apk_libs_def if_False option.map option.case apk_walk_libs list.size append_Nil zero_le\<close>)
qed (use assms(2,4) in \<open>simp add: apk_parse_def apk_libs_def\<close>)

section \<open>The cache\<close>

text \<open>The archives do not change: \<open>fs\<close> gives their contents. A cached archive holds the libraries its file says.\<close>

definition apks_ok :: "(string \<Rightarrow> bytes option) \<Rightarrow> apk_cache list \<Rightarrow> bool" where
  "apks_ok fs apks \<longleftrightarrow> length apks \<le> APK_CACHE_MAX \<and> (\<forall>c \<in> set apks. \<exists>f. fs (apk_path c) = Some f \<and> apk_libs f = Some (apk_entries c))"

definition lib_name :: "(string \<Rightarrow> bytes option) \<Rightarrow> string \<Rightarrow> u64 \<Rightarrow> string option" where
  "lib_name fs path elf_off =
     do { f \<leftarrow> fs path; es \<leftarrow> apk_libs f; map_option so_name (find (\<lambda>e. data_start e = elf_off) es) }"

text \<open>C40: the name of a library inside an archive. As long as the archive is among the eight that are kept, or there is room for it, the
  lookup answers as a direct reading of the archive's directory: the first stored library below \<open>lib/\<close>, of the first 32, whose
  data start at the offset. Arbitrary archive bytes are read without leaving the file; and the kept directories stay right. A ninth archive gets no names.\<close>

theorem apk_so_name_exact:
  assumes "apks_ok fs apks" "\<forall>t p. fopen t p = fs p" "\<forall>p f. fs p = Some f \<longrightarrow> length f < 2 ^ 63" "length path < 256"
    "4 \<le> length path" "drop (length path - 4) path = ''.apk''"
  shows "\<exists>apks' t'. apk_so_name fopen path elf_off (apks, t) =
      (if path \<in> apk_path ` set apks \<or> length apks < APK_CACHE_MAX then lib_name fs path elf_off else None, apks', t') \<and> apks_ok fs apks' \<and>
    take (length apks) apks' = apks"
proof -
  have apk: "\<not> (length path < 4 \<or> drop (length path - 4) path \<noteq> ''.apk'')" using assms(5,6) by simp
  show ?thesis
  proof (cases "find (\<lambda>i. apk_path (apks ! i) = path) [0..<length apks]")
    case (Some i)
    then have i: "i < length apks" "apk_path (apks ! i) = path" by (auto simp: find_Some_iff)
    then obtain f where f: "fs path = Some f" "apk_libs f = Some (apk_entries (apks ! i))" using assms(1) by (fastforce simp: apks_ok_def)
    have "path \<in> apk_path ` set apks" using i by (metis image_eqI nth_mem)
    then show ?thesis using Some f assms(1) apk by (auto simp: apk_so_name_def apk_get_def lib_name_def split: option.split)
  next
    case None
    then have new: "path \<notin> apk_path ` set apks" by (auto simp: find_None_iff in_set_conv_nth)
    have get: "apk_so_name fopen path elf_off (apks, t) = (case apk_parse fopen path (apks, t) of
        (None, apks, t) \<Rightarrow> (None, apks, t)
      | (Some i, apks, t) \<Rightarrow> (map_option so_name (find (\<lambda>e. data_start e = elf_off) (apk_entries (apks ! i))), apks, t))"
      using None apk by (simp add: apk_so_name_def apk_get_def)
    show ?thesis
    proof (cases "length apks < APK_CACHE_MAX \<and> fs path \<noteq> None")
      case True
      then obtain f where f: "fs path = Some f" by auto
      have p: "apk_parse fopen path (apks, t) =
          (case apk_libs f of None \<Rightarrow> (None, apks, t + 1) | Some es \<Rightarrow> (Some (length apks), apks @ [\<lparr>apk_path = path, apk_entries = es\<rparr>], t + 1))"
        using True f assms(2-4) by (intro apk_parse_libs) auto
      show ?thesis
      proof (cases "apk_libs f")
        case None
        then show ?thesis using True f p get assms(1) by (simp add: lib_name_def)
      next
        case (Some es)
        then have "apks_ok fs (apks @ [\<lparr>apk_path = path, apk_entries = es\<rparr>])" using True f assms(1) by (auto simp: apks_ok_def)
        then show ?thesis using True f p get Some by (auto simp: lib_name_def split: option.split)
      qed
    next
      case False
      then show ?thesis using get new assms(1,2) by (auto simp: apk_parse_def lib_name_def)
    qed
  qed
qed


text \<open>An archive with one stored library.\<close>

definition apk_fname :: bytes where "apk_fname = map (\<lambda>c. of_char c) ''lib/a/x.so''"

definition small_apk :: bytes where
  "small_apk = [0x50, 0x4b, 3, 4] @ replicate 22 0 @ [10, 0, 0, 0] @ apk_fname @ [1, 2, 3, 4] @
     [0x50, 0x4b, 1, 2] @ replicate 16 0 @ [4, 0, 0, 0] @ replicate 4 0 @ [10, 0] @ replicate 16 0 @ apk_fname @
     [0x50, 0x4b, 5, 6] @ replicate 6 0 @ [1, 0] @ replicate 4 0 @ [44, 0, 0, 0] @ [0, 0]"

lemma small_apk_parts:
  "length small_apk = 122" "take 4 (drop 100 small_apk) = eocd_sig" "apk_le16 (take 22 (drop 100 small_apk)) 10 = 1" "apk_le32 (take 22 (drop 100 small_apk)) 16 = 44"
  "libs_at small_apk 1 44 = [\<lparr>so_name = ''x.so'', data_start = 40, so_size = 4\<rparr>]"
  by code_simp+

lemma small_apk_libs: "apk_libs small_apk = Some [\<lparr>so_name = ''x.so'', data_start = 40, so_size = 4\<rparr>]"
proof -
  have "rev [length small_apk - 22 - 65535..<Suc (length small_apk - 22)] = 100 # rev [0..<100]"
    using upt_Suc_append [of 0 100] by (simp add: small_apk_parts(1))
  then have "find (\<lambda>q. take 4 (drop q small_apk) = eocd_sig) (rev [length small_apk - 22 - 65535..<Suc (length small_apk - 22)]) = Some 100"
    using small_apk_parts(2) by (simp only: find.simps if_True simp_thms)
  then show ?thesis using small_apk_parts unfolding apk_libs_def by simp
qed

lemma apk_so_name_exact_witness:
  "\<exists>apks t. apk_so_name (\<lambda>_ p. if p = ''/b.apk'' then Some small_apk else None) ''/b.apk'' 40 ([], 0) = (Some ''x.so'', apks, t)"
proof -
  let ?fs = "\<lambda>p. if p = ''/b.apk'' then Some small_apk else None"
  have a: "apks_ok ?fs []" "\<forall>(t :: nat) p. ?fs p = ?fs p" "\<forall>p f. ?fs p = Some f \<longrightarrow> length f < 2 ^ 63" "length ''/b.apk'' < 256" "4 \<le> length ''/b.apk''"
    "drop (length ''/b.apk'' - 4) ''/b.apk'' = ''.apk''"
    by (simp_all add: apks_ok_def small_apk_parts(1))
  have n: "lib_name ?fs ''/b.apk'' 40 = Some ''x.so''" by (simp add: lib_name_def small_apk_libs)
  show ?thesis using apk_so_name_exact [OF a, of 40 0] unfolding n by auto
qed

end
