(* ===== verification/Sym_Index.thy ===== *)
theory Sym_Index
  imports Probe_Table Sym_Elf Cfi_Unwind C_Text
begin

unbundle bit_operations_syntax

text \<open>
  \<open>src/src/common/sym_elf.c\<close>, second half: the per-module caches. A hash index from a module's path and offset leads to its
  symbol table (\<open>dynsym_get\<close>) or to its unwind section (\<open>cfi_get\<close>), which are built on first sight.

  \<^item> \<open>al\<close>, \<open>xz\<close> and \<open>qs\<close> are as in the first half; \<open>fopen t p\<close> is the content of the file \<open>p\<close> when the \<open>t\<close>-th question to
    the system is asked. One counter numbers all of them.
  \<^item> \<open>g_ds\<close> and \<open>g_cfi\<close> with their index are records; a pointer to an entry is its position. \<open>None\<close> is an access
    outside a buffer, or a search for a free slot that never ends.
\<close>

section \<open>The index\<close>

record elfidx_ent =
  ei_off :: u64
  ei_hash :: u32
  ei_idx :: nat
  ei_used :: bool

definition elfidx_empty :: elfidx_ent where
  "elfidx_empty = \<lparr>ei_off = 0, ei_hash = 0, ei_idx = 0, ei_used = False\<rparr>"

definition elf_path_hash :: "string \<Rightarrow> u64 \<Rightarrow> u32" where
  "elf_path_hash path elf_off =
     foldl (\<lambda>h c. (h XOR of_char c) * 16777619) 2166136261 path XOR ucast (elf_off XOR drop_bit 32 elf_off)"

abbreviation ei_key :: "elfidx_ent \<Rightarrow> u64 \<times> u32" where "ei_key e \<equiv> (ei_off e, ei_hash e)"
abbreviation key_hash :: "u64 \<times> u32 \<Rightarrow> nat" where "key_hash k \<equiv> unat (snd k)"

definition elfidx_get :: "elfidx_ent list \<Rightarrow> string \<Rightarrow> u64 \<Rightarrow> nat option" where
  "elfidx_get tab path elf_off =
     map_option (\<lambda>i. ei_idx (tab ! i)) (lp_find ei_used ei_key key_hash tab (elf_off, elf_path_hash path elf_off))"

definition elfidx_grow :: "allocator \<Rightarrow> elfidx_ent list \<Rightarrow> nat \<Rightarrow> nat \<Rightarrow> (elfidx_ent list \<times> nat) option" where
  "elfidx_grow al tab used t =
     (if (used + 1) * 4 \<ge> length tab * 3 then
        (case al t of
           None \<Rightarrow> Some (tab, t + 1)
         | Some _ \<Rightarrow> do {
             ng \<leftarrow> lp_rehash ei_used (\<lambda>e. key_hash (ei_key e)) tab (replicate (2 * length tab) elfidx_empty);
             Some (ng, t + 1)
           })
      else Some (tab, t))"

definition elfidx_put :: "allocator \<Rightarrow> string \<Rightarrow> u64 \<Rightarrow> nat \<Rightarrow> elfidx_ent list \<Rightarrow> nat \<Rightarrow> nat \<Rightarrow> (elfidx_ent list \<times> nat \<times> nat) option" where
  "elfidx_put al path elf_off idx tab used t =
     (if tab = [] \<and> al t = None then Some (tab, used, t + 1)
      else do {
        let (tab, t) = (if tab = [] then (replicate 256 elfidx_empty, t + 1) else (tab, t));
        (tab, t) \<leftarrow> elfidx_grow al tab used t;
        let ph = elf_path_hash path elf_off;
        i \<leftarrow> lp_free ei_used tab (length tab) (unat ph AND (length tab - 1));
        Some (tab[i := \<lparr>ei_off = elf_off, ei_hash = ph, ei_idx = idx, ei_used = True\<rparr>], used + 1, t)
      })"

section \<open>Files\<close>

definition anubee_map_files_path :: "int \<Rightarrow> u64 \<Rightarrow> u64 \<Rightarrow> string" where
  "anubee_map_files_path pid vstart vend =
     ''/proc/'' @ show_base 10 (nat pid) @ ''/map_files/'' @ show_base 16 (unat vstart) @ ''-'' @ show_base 16 (unat vend)"

definition open_module_file :: "(nat \<Rightarrow> string \<Rightarrow> bytes option) \<Rightarrow> string \<Rightarrow> int \<Rightarrow> u64 \<Rightarrow> u64 \<Rightarrow> nat \<Rightarrow> bytes option \<times> nat" where
  "open_module_file fopen path pid vstart vend t =
     (let real = snprintf 256 path; real = (case before_sub '' (deleted)'' real of Some b \<Rightarrow> b | None \<Rightarrow> real) in
      case fopen t real of
        Some f \<Rightarrow> (Some f, t + 1)
      | None \<Rightarrow>
          if pid > 0 then (fopen (t + 1) (snprintf 96 (anubee_map_files_path pid vstart vend)), t + 2) else (None, t + 1))"

abbreviation pseudo_path :: "string \<Rightarrow> bool" where "pseudo_path path \<equiv> path = [] \<or> hd path = CHR ''[''"

section \<open>Symbol tables\<close>

record 'e elf_cache =
  ec_ents :: "'e list"
  ec_tab :: "elfidx_ent list"
  ec_used :: nat

record dsmod =
  dm_path :: string
  dm_off :: u64
  dm_ds :: dynsym

text \<open>The entry the index leads to, if it is the one: the path is compared again.\<close>

definition cache_hit :: "('e \<Rightarrow> string) \<Rightarrow> 'e elf_cache \<Rightarrow> string \<Rightarrow> u64 \<Rightarrow> nat option option" where
  "cache_hit path_of c path elf_off =
     (case elfidx_get (ec_tab c) path elf_off of
        None \<Rightarrow> Some None
      | Some i \<Rightarrow> if i < length (ec_ents c) then Some (if path_of (ec_ents c ! i) = path then Some i else None) else None)"

definition dynsym_get ::
  "allocator \<Rightarrow> (bytes \<Rightarrow> nat \<Rightarrow> lzma_ret) \<Rightarrow> (sym list \<Rightarrow> sym list) \<Rightarrow> (nat \<Rightarrow> string \<Rightarrow> bytes option) \<Rightarrow>
   string \<Rightarrow> u64 \<Rightarrow> int \<Rightarrow> u64 \<Rightarrow> u64 \<Rightarrow> dsmod elf_cache \<times> nat \<Rightarrow> (nat option \<times> dsmod elf_cache \<times> nat) option" where
  "dynsym_get al xz qs fopen path elf_off pid vstart vend = (\<lambda>(c, t). do {
     hit \<leftarrow> cache_hit dm_path c path elf_off;
     (case hit of
        Some i \<Rightarrow> Some (Some i, c, t)
      | None \<Rightarrow>
          if al t = None then Some (None, c, t + 1)
          else do {
            let p = snprintf 256 path;
            let (opened, t) = (if pseudo_path p then (None, t + 1) else open_module_file fopen p pid vstart vend (t + 1));
            (ds, t) \<leftarrow> parse_symbols al xz qs opened p elf_off (ds_zero, t);
            (tab, used, t) \<leftarrow> elfidx_put al path elf_off (length (ec_ents c)) (ec_tab c) (ec_used c) t;
            Some (Some (length (ec_ents c)),
              \<lparr>ec_ents = ec_ents c @ [\<lparr>dm_path = p, dm_off = elf_off, dm_ds = ds\<rparr>], ec_tab = tab, ec_used = used\<rparr>, t)
          })
   })"

section \<open>Unwind sections\<close>

record cfimod =
  cm_path :: string
  cm_off :: u64
  cm_base :: u64
  cm_sec :: cfi_section
  cm_ok :: bool

definition sec_zero :: cfi_section where
  "sec_zero = \<lparr>sdata = [], slen = 0, fdes = [], section_vaddr = 0, owned = False\<rparr>"

fun dbg_walk :: "bytes \<Rightarrow> bytes \<Rightarrow> nat \<Rightarrow> nat \<Rightarrow> nat list \<Rightarrow> (nat \<times> nat) rc option" where
  "dbg_walk buf eh so sn [] = Some Rc_err"
| "dbg_walk buf eh so sn (i # is) = do {
     sh \<leftarrow> load_shdr buf (unat (e_shoff_of eh) + i * unat (e_shentsize_of eh));
     (if sh_name sh = 0 \<or> unat (sh_name sh) \<ge> sn then dbg_walk buf eh so sn is
      else do {
        eq \<leftarrow> strcmp_eq buf (so + unat (sh_name sh)) gnu_debugdata;
        (if \<not> eq then dbg_walk buf eh so sn is
         else if sh_size sh = 0 then Some Rc_err
         else if unat (sh_offset sh) > length buf \<or> unat (sh_size sh) > length buf - unat (sh_offset sh) then Some Rc_err
         else Some (Rc_ok (unat (sh_offset sh), unat (sh_size sh))))
      })
   }"

definition find_gnu_debugdata :: "bytes \<Rightarrow> (nat \<times> nat) rc option" where
  "find_gnu_debugdata buf =
     (if length buf < 64 then Some Rc_err
      else do {
        eh \<leftarrow> load_bytes buf 0 64;
        (if \<not> elf64_magic eh then Some Rc_err
         else if e_shoff_of eh = 0 \<or> e_shnum_of eh = 0 \<or> unat (e_shentsize_of eh) < 64 then Some Rc_err
         else do {
           ok \<leftarrow> elf_shtab_in_bounds (e_shoff_of eh) (ucast (e_shnum_of eh)) (ucast (e_shentsize_of eh)) (length buf);
           (if \<not> ok then Some Rc_err
            else if e_shstrndx_of eh = 0 \<or> unat (e_shstrndx_of eh) \<ge> unat (e_shnum_of eh) then Some Rc_err
            else do {
              h \<leftarrow> load_shdr buf (unat (e_shoff_of eh) + unat (e_shstrndx_of eh) * unat (e_shentsize_of eh));
              (if sh_size h = 0 \<or> unat (sh_offset h) > length buf \<or> unat (sh_size h) > length buf - unat (sh_offset h) then Some Rc_err
               else dbg_walk buf eh (unat (sh_offset h)) (unat (sh_size h)) [0..<unat (e_shnum_of eh)])
            })
         })
      })"

abbreviation CFI_MAX_MODULE_BYTES :: nat where "CFI_MAX_MODULE_BYTES \<equiv> 256 * 2 ^ 20"

text \<open>From the mini-debug-info: step 5 of \<open>cfi_get\<close>.\<close>

definition cfi_from_debugdata ::
  "allocator \<Rightarrow> (bytes \<Rightarrow> nat \<Rightarrow> lzma_ret) \<Rightarrow> (cfi_fde list \<Rightarrow> cfi_fde list) \<Rightarrow> (nat \<Rightarrow> bool) \<Rightarrow> bytes \<Rightarrow> nat \<Rightarrow> (cfi_section option \<times> nat) option" where
  "cfi_from_debugdata al xz qs mok buf t = do {
     r \<leftarrow> find_gnu_debugdata buf;
     (case r of
        Rc_err \<Rightarrow> Some (None, t)
      | Rc_ok (off, n) \<Rightarrow> do {
          cz \<leftarrow> load_bytes buf off n;
          let (inner, t) = decompress_xz al xz cz t;
          (case inner of
             None \<Rightarrow> Some (None, t)
           | Some b \<Rightarrow> do { r \<leftarrow> cfi_load_elf qs mok b; Some (case r of Rc_ok s \<Rightarrow> Some s | Rc_err \<Rightarrow> None, t) })
        })
   }"

definition cfi_load_module ::
  "allocator \<Rightarrow> (bytes \<Rightarrow> nat \<Rightarrow> lzma_ret) \<Rightarrow> (cfi_fde list \<Rightarrow> cfi_fde list) \<Rightarrow> (nat \<Rightarrow> bool) \<Rightarrow> (nat \<Rightarrow> string \<Rightarrow> bytes option) \<Rightarrow>
   string \<Rightarrow> u64 \<Rightarrow> int \<Rightarrow> u64 \<Rightarrow> u64 \<Rightarrow> nat \<Rightarrow> (cfi_section option \<times> nat) option" where
  "cfi_load_module al xz qs mok fopen path elf_off pid vstart vend t =
     (if pseudo_path path then Some (None, t)
      else let (opened, t) = open_module_file fopen path pid vstart vend t in
      case opened of
        None \<Rightarrow> Some (None, t)
      | Some f \<Rightarrow>
          if length f \<le> unat elf_off then Some (None, t)
          else let len = length f - unat elf_off in
          if len > CFI_MAX_MODULE_BYTES then Some (None, t)
          else if al t = None then Some (None, t + 1)
          else case pread_all f len elf_off of
            None \<Rightarrow> Some (None, t + 1)
          | Some buf \<Rightarrow> do {
              r \<leftarrow> cfi_load_elf qs mok buf;
              (case r of Rc_ok s \<Rightarrow> Some (Some s, t + 1) | Rc_err \<Rightarrow> cfi_from_debugdata al xz qs mok buf (t + 1))
            })"

definition cfi_get ::
  "allocator \<Rightarrow> (bytes \<Rightarrow> nat \<Rightarrow> lzma_ret) \<Rightarrow> (cfi_fde list \<Rightarrow> cfi_fde list) \<Rightarrow> (nat \<Rightarrow> bool) \<Rightarrow> (nat \<Rightarrow> string \<Rightarrow> bytes option) \<Rightarrow>
   string \<Rightarrow> u64 \<Rightarrow> u64 \<Rightarrow> int \<Rightarrow> u64 \<Rightarrow> u64 \<Rightarrow> cfimod elf_cache \<times> nat \<Rightarrow> (cfi_section option \<times> cfimod elf_cache \<times> nat) option" where
  "cfi_get al xz qs mok fopen path elf_off load_base pid vstart vend = (\<lambda>(c, t). do {
     hit \<leftarrow> cache_hit cm_path c path elf_off;
     (case hit of
        Some i \<Rightarrow> (let m = ec_ents c ! i in Some (if cm_ok m then Some (cm_sec m) else None, c, t))
      | None \<Rightarrow>
          if al t = None then Some (None, c, t + 1)
          else do {
            (tab, used, t) \<leftarrow> elfidx_put al path elf_off (length (ec_ents c)) (ec_tab c) (ec_used c) (t + 1);
            (sec, t) \<leftarrow> cfi_load_module al xz qs mok fopen path elf_off pid vstart vend t;
            Some (sec,
              \<lparr>ec_ents = ec_ents c @ [\<lparr>cm_path = snprintf 256 path, cm_off = elf_off, cm_base = load_base,
                 cm_sec = (case sec of None \<Rightarrow> sec_zero | Some s \<Rightarrow> s), cm_ok = (sec \<noteq> None)\<rparr>],
               ec_tab = tab, ec_used = used\<rparr>, t)
          })
   })"


section \<open>The index leads to the right entries\<close>

interpretation ix: probing ei_used ei_key key_hash ei_idx elfidx_empty
  by unfold_locales (simp add: elfidx_empty_def)

text \<open>The table: nothing yet, or a linked table of at least 256 slots with its entries counted.\<close>

definition tab_ok :: "elfidx_ent list \<Rightarrow> nat \<Rightarrow> bool" where
  "tab_ok tab used \<longleftrightarrow> (tab = [] \<and> used = 0) \<or>
     (pow2_len tab \<and> 256 \<le> length tab \<and> ix.linked tab \<and> used = card (ix.slots tab))"

text \<open>An entry of the index has the offset and the hash of the module it leads to.\<close>

definition ent_right :: "('e \<Rightarrow> string) \<Rightarrow> ('e \<Rightarrow> u64) \<Rightarrow> 'e list \<Rightarrow> elfidx_ent \<Rightarrow> bool" where
  "ent_right path_of off_of ents e \<longleftrightarrow> ei_idx e < length ents \<and> ei_off e = off_of (ents ! ei_idx e) \<and>
     ei_hash e = elf_path_hash (path_of (ents ! ei_idx e)) (ei_off e)"

definition cache_ok :: "('e \<Rightarrow> string) \<Rightarrow> ('e \<Rightarrow> u64) \<Rightarrow> 'e elf_cache \<Rightarrow> bool" where
  "cache_ok path_of off_of c \<longleftrightarrow> tab_ok (ec_tab c) (ec_used c) \<and> ec_used c \<le> length (ec_ents c) \<and>
     (\<forall>e \<in> ix.entries (ec_tab c). ent_right path_of off_of (ec_ents c) e)"

text \<open>Every module is in the index.\<close>

definition all_indexed :: "'e elf_cache \<Rightarrow> bool" where
  "all_indexed c \<longleftrightarrow> {..<length (ec_ents c)} \<subseteq> ei_idx ` ix.entries (ec_tab c)"

lemma elfidx_grow_ok:
  assumes "pow2_len tab" "256 \<le> length tab" "ix.linked tab" "used = card (ix.slots tab)" "(\<forall>n. al n \<noteq> None) \<or> used < 256"
  shows "\<exists>tab' t'. elfidx_grow al tab used t = Some (tab', t') \<and> pow2_len tab' \<and> 256 \<le> length tab' \<and> ix.linked tab' \<and>
    used = card (ix.slots tab') \<and> ix.entries tab' = ix.entries tab \<and> used < length tab'"
proof -
  obtain ng where ng: "ix.rehash tab (replicate (2 * length tab) elfidx_empty) = Some ng" "pow2_len ng" "length ng = 2 * length tab" "ix.linked ng"
    "ix.entries ng = ix.entries tab" "card (ix.slots ng) = card (ix.slots tab)"
    using ix.double_linked [OF assms(1,3)] assms(2) by auto
  have le: "used \<le> length tab" using assms(4) card_mono [OF _ ix.slots_sub, of tab] by simp
  show ?thesis
  proof (cases "(used + 1) * 4 \<ge> length tab * 3 \<and> al t \<noteq> None")
    case True
    then show ?thesis using ng assms(2,4) le by (auto simp: elfidx_grow_def)
  next
    case False
    have "used < length tab" using False assms(2,5) by (auto simp: not_le simp del: not_None_eq)
    then show ?thesis using False assms by (auto simp: elfidx_grow_def split: option.splits)
  qed
qed

lemma elfidx_put_ok:
  assumes "tab_ok tab used" "(\<forall>n. al n \<noteq> None) \<or> used < 256" "x = \<lparr>ei_off = off, ei_hash = elf_path_hash path off, ei_idx = idx, ei_used = True\<rparr>"
  shows "\<exists>tab' used' t'. elfidx_put al path off idx tab used t = Some (tab', used', t') \<and> tab_ok tab' used' \<and> used' \<le> used + 1 \<and>
    (ix.entries tab' = insert x (ix.entries tab) \<or> (\<exists>n. al n = None) \<and> tab' = tab \<and> used' = used)"
proof (cases "tab = [] \<and> al t = None")
  case True
  then show ?thesis using assms(1) by (auto simp: elfidx_put_def)
next
  case False
  define tab1 where "tab1 = (if tab = [] then replicate 256 elfidx_empty else tab)"
  define t1 where "t1 = (if tab = [] then t + 1 else t)"
  have t1: "pow2_len tab1" "256 \<le> length tab1" "ix.linked tab1" "used = card (ix.slots tab1)" "ix.entries tab1 = ix.entries tab"
    using assms(1) ix.empty_table(1) [of 8] ix.empty_table(3,4) [of 256]
    by (auto simp: tab1_def tab_ok_def ix.linked_def elfidx_empty_def ix.entries_def)
  obtain tab2 t2 where g: "elfidx_grow al tab1 used t1 = Some (tab2, t2)" "pow2_len tab2" "256 \<le> length tab2" "ix.linked tab2"
    "used = card (ix.slots tab2)" "ix.entries tab2 = ix.entries tab1" "used < length tab2"
    using elfidx_grow_ok [OF t1(1-4) assms(2)] by blast
  obtain i where i: "ix.free_slot tab2 (length tab2) (ix.home tab2 (ei_key x)) = Some i" using ix.free_slot_ex [OF g(2)] g(5,7) by auto
  note ins = ix.linked_insert [OF g(2,4) i]
  have h: "unat (elf_path_hash path off) AND (length tab2 - Suc 0) = ix.home tab2 (ei_key x)" using ix.free_slot_home [OF g(2), of "ei_key x"] assms(3) by simp
  have "elfidx_put al path off idx tab used t = Some (tab2[i := x], used + 1, t2)"
    using False g(1) i h by (cases "tab = []") (auto simp: elfidx_put_def Let_def assms(3) tab1_def t1_def)
  moreover have "tab_ok (tab2[i := x]) (used + 1)" using ins g assms(3) by (simp add: tab_ok_def)
  ultimately show ?thesis using ins(2) g(6) t1(5) assms(3) by auto
qed

lemma elfidx_get_entry:
  assumes "tab_ok tab used" "elfidx_get tab path off = Some i"
  shows "\<exists>e \<in> ix.entries tab. ei_idx e = i \<and> ei_off e = off \<and> ei_hash e = elf_path_hash path off"
proof -
  obtain j where j: "ix.look tab (off, elf_path_hash path off) = Some j" "ei_idx (tab ! j) = i" using assms(2) by (auto simp: elfidx_get_def)
  have "pow2_len tab" using assms(1) j(1) by (auto simp: tab_ok_def lp_find_def lp_slot_def)
  then show ?thesis using ix.look_Some [OF _ j(1)] j(2) by (force simp: ix.entries_def)
qed

lemma elfidx_get_complete:
  assumes "tab_ok tab used" "e \<in> ix.entries tab"
  shows "\<exists>i. elfidx_get tab path (ei_off e) = Some i \<or> ei_hash e \<noteq> elf_path_hash path (ei_off e)"
proof -
  have p: "pow2_len tab" "ix.linked tab" using assms by (auto simp: tab_ok_def ix.entries_def)
  obtain i where "i < length tab" "tab ! i = e" "ei_used e" using assms(2) by (auto simp: ix.entries_def in_set_conv_nth)
  then show ?thesis using ix.linked_look [OF p, of i] by (auto simp: elfidx_get_def)
qed

text \<open>Looking up: the position of an entry for the path and the offset, or nothing.\<close>

lemma cache_hit_ok:
  assumes "cache_ok path_of off_of c"
  shows "\<exists>r. cache_hit path_of c path off = Some r \<and>
    (\<forall>i. r = Some i \<longrightarrow> i < length (ec_ents c) \<and> path_of (ec_ents c ! i) = path \<and> off_of (ec_ents c ! i) = off)"
proof (cases "elfidx_get (ec_tab c) path off")
  case (Some i)
  then obtain e where "e \<in> ix.entries (ec_tab c)" "ei_idx e = i" "ei_off e = off"
    using elfidx_get_entry [OF _ Some] assms unfolding cache_ok_def by blast
  then have "i < length (ec_ents c)" "off_of (ec_ents c ! i) = off" using assms by (auto simp: cache_ok_def ent_right_def)
  then show ?thesis using Some by (simp add: cache_hit_def)
qed (simp add: cache_hit_def)

text \<open>A module that is in the cache is found, unless another one has its hash and its offset.\<close>

lemma cache_hit_known:
  assumes "cache_ok path_of off_of c" "all_indexed c" "x \<in> set (ec_ents c)" "path_of x = path" "off_of x = off"
    "\<forall>y \<in> set (ec_ents c). off_of y = off \<and> elf_path_hash (path_of y) off = elf_path_hash path off \<longrightarrow> path_of y = path"
  shows "\<exists>i. cache_hit path_of c path off = Some (Some i)"
proof -
  obtain k where k: "k < length (ec_ents c)" "ec_ents c ! k = x" using assms(3) by (auto simp: in_set_conv_nth)
  then obtain e where e: "e \<in> ix.entries (ec_tab c)" "ei_idx e = k" using assms(2) by (force simp: all_indexed_def)
  have tab: "tab_ok (ec_tab c) (ec_used c)" using assms(1) by (simp add: cache_ok_def)
  have "ei_off e = off" "ei_hash e = elf_path_hash path off" using assms(1,4,5) e k by (auto simp: cache_ok_def ent_right_def)
  then obtain i where i: "elfidx_get (ec_tab c) path off = Some i" using elfidx_get_complete [OF tab e(1), of path] by auto
  then obtain e' where "e' \<in> ix.entries (ec_tab c)" "ei_idx e' = i" "ei_off e' = off" "ei_hash e' = elf_path_hash path off"
    using elfidx_get_entry [OF tab] by blast
  then have "i < length (ec_ents c)" "path_of (ec_ents c ! i) = path" using assms(1,6) by (auto simp: cache_ok_def ent_right_def)
  then show ?thesis using i by (simp add: cache_hit_def)
qed

text \<open>Adding a module and its entry.\<close>

lemma cache_add_ok:
  assumes "cache_ok path_of off_of c" "path_of m = path" "off_of m = off" "tab_ok tab used" "used \<le> ec_used c + 1"
    "ix.entries tab = insert \<lparr>ei_off = off, ei_hash = elf_path_hash path off, ei_idx = length (ec_ents c), ei_used = True\<rparr> (ix.entries (ec_tab c)) \<or>
     (\<exists>n. al n = None) \<and> tab = ec_tab c \<and> used = ec_used c"
  shows "cache_ok path_of off_of \<lparr>ec_ents = ec_ents c @ [m], ec_tab = tab, ec_used = used\<rparr>"
    "all_indexed c \<Longrightarrow> \<forall>n. al n \<noteq> None \<Longrightarrow> all_indexed \<lparr>ec_ents = ec_ents c @ [m], ec_tab = tab, ec_used = used\<rparr>"
proof -
  have old: "ent_right path_of off_of (ec_ents c @ [m]) e" if "e \<in> ix.entries (ec_tab c)" for e
    using assms(1) that by (auto simp: cache_ok_def ent_right_def nth_append)
  show "cache_ok path_of off_of \<lparr>ec_ents = ec_ents c @ [m], ec_tab = tab, ec_used = used\<rparr>"
  proof -
    have "ent_right path_of off_of (ec_ents c @ [m]) \<lparr>ei_off = off, ei_hash = elf_path_hash path off, ei_idx = length (ec_ents c), ei_used = True\<rparr>"
      using assms(2,3) by (simp add: ent_right_def)
    then show ?thesis using assms(1,4-6) old unfolding cache_ok_def by auto
  qed
  show "all_indexed \<lparr>ec_ents = ec_ents c @ [m], ec_tab = tab, ec_used = used\<rparr>" if "all_indexed c" "\<forall>n. al n \<noteq> None"
    using that assms(6) by (auto simp: all_indexed_def lessThan_Suc simp del: not_None_eq)
qed


lemma cache_add:
  assumes "cache_ok path_of off_of c" "(\<forall>n. al n \<noteq> None) \<or> ec_used c < 256"
  shows "\<exists>tab used t'. elfidx_put al path off (length (ec_ents c)) (ec_tab c) (ec_used c) t = Some (tab, used, t') \<and>
    (\<forall>m. path_of m = path \<and> off_of m = off \<longrightarrow> cache_ok path_of off_of \<lparr>ec_ents = ec_ents c @ [m], ec_tab = tab, ec_used = used\<rparr> \<and>
      (all_indexed c \<and> (\<forall>n. al n \<noteq> None) \<longrightarrow> all_indexed \<lparr>ec_ents = ec_ents c @ [m], ec_tab = tab, ec_used = used\<rparr>))"
proof -
  have tk: "tab_ok (ec_tab c) (ec_used c)" using assms(1) by (simp add: cache_ok_def)
  obtain tab used t' where p: "elfidx_put al path off (length (ec_ents c)) (ec_tab c) (ec_used c) t = Some (tab, used, t')" "tab_ok tab used" "used \<le> ec_used c + 1"
    "ix.entries tab = insert \<lparr>ei_off = off, ei_hash = elf_path_hash path off, ei_idx = length (ec_ents c), ei_used = True\<rparr> (ix.entries (ec_tab c)) \<or>
     (\<exists>n. al n = None) \<and> tab = ec_tab c \<and> used = ec_used c"
    using elfidx_put_ok [OF tk assms(2) refl, of path off "length (ec_ents c)" t] by blast
  show ?thesis using p(1) cache_add_ok [OF assms(1) _ _ p(2-4)] by (intro exI [of _ tab] exI [of _ used] exI [of _ t'] conjI) blast+
qed

section \<open>Symbol tables\<close>

text \<open>What a module file has to satisfy where the code does not check it (see \<open>parse_symbols_ok\<close>).\<close>

definition file_sane :: "(bytes \<Rightarrow> nat \<Rightarrow> lzma_ret) \<Rightarrow> bytes \<Rightarrow> u64 \<Rightarrow> bool" where
  "file_sane xz f elf_off \<longleftrightarrow> module_header f elf_off \<noteq> None \<longrightarrow>
     module_sane xz f elf_off \<and> names_size (module_items xz f elf_off) < 2 ^ 32 - 1"

lemma parse_symbols_returns:
  assumes "qsort_impl sym_value qs" "\<And>f. opened = Some f \<Longrightarrow> file_sane xz f elf_off"
  shows "\<exists>ds k'. parse_symbols al xz qs opened path elf_off (ds_zero, k) = Some (ds, k') \<and>
    sorted (map sym_value (ds_s ds)) \<and> distinct (map sym_value (ds_s ds))"
proof (cases "pseudo_path path \<or> opened = None")
  case True
  then have "parse_symbols al xz qs opened path elf_off (ds_zero, k) = Some (ds_zero, k)" by (auto simp: parse_symbols_def ds_zero_def Let_def)
  then show ?thesis by (simp add: ds_zero_def)
next
  case False
  then obtain f where f: "opened = Some f" by auto
  show ?thesis
  proof (cases "module_header f elf_off")
    case None
    then have "\<exists>k'. parse_symbols al xz qs opened path elf_off (ds_zero, k) = Some (ds_zero, k')"
      using False f by (auto simp: parse_symbols_def module_header_def ds_zero_def Let_def split: option.splits if_splits)
    then show ?thesis by (auto simp: ds_zero_def)
  next
    case (Some h)
    obtain eh sh where h: "h = (eh, sh)" by (cases h)
    have "module_sane xz f elf_off" "names_size (module_items xz f elf_off) < 2 ^ 32 - 1" using assms(2) [OF f] Some by (auto simp: file_sane_def)
    then show ?thesis using parse_symbols_ok [OF assms(1), of path f elf_off eh sh xz "module_items xz f elf_off" al k] False f Some h by auto
  qed
qed

lemma open_module_file_opens:
  "open_module_file fopen path pid vstart vend t = (Some f, t') \<Longrightarrow> \<exists>n p. fopen n p = Some f"
  by (auto simp: open_module_file_def Let_def split: option.splits if_splits)



definition empty_cache :: "'e elf_cache" where
  "empty_cache = \<lparr>ec_ents = [], ec_tab = [], ec_used = 0\<rparr>"

lemma empty_cache_ok: "cache_ok path_of off_of empty_cache" "all_indexed empty_cache"
  by (simp_all add: empty_cache_def cache_ok_def tab_ok_def all_indexed_def ix.entries_def)


text \<open>Two paths with the same hash: while the index does not grow, the one that came second is never found again, and every
  question for it parses its file again and adds an entry.\<close>

lemma dynsym_get_collides:
  assumes "cache_ok dm_path dm_off c" "elfidx_get (ec_tab c) path elf_off = Some i" "dm_path (ec_ents c ! i) \<noteq> path" "length path < 256"
    "(ec_used c + 1) * 4 < length (ec_tab c) * 3" "dynsym_get al xz qs fopen path elf_off pid vstart vend (c, t) = Some (Some j, c', t')"
  shows "ec_ents c' = ec_ents c @ [ec_ents c' ! j] \<and> dm_path (ec_ents c' ! j) = path \<and> elfidx_get (ec_tab c') path elf_off = Some i \<and> dm_path (ec_ents c' ! i) \<noteq> path"
proof -
  let ?k = "(elf_off, elf_path_hash path elf_off)"
  have tab: "tab_ok (ec_tab c) (ec_used c)" using assms(1) by (simp add: cache_ok_def)
  then have p: "pow2_len (ec_tab c)" "ec_tab c \<noteq> []" using assms(5) by (auto simp: tab_ok_def)
  have i: "i < length (ec_ents c)" using elfidx_get_entry [OF tab assms(2)] assms(1) by (auto simp: cache_ok_def ent_right_def)
  then have miss: "cache_hit dm_path c path elf_off = Some None" using assms(2,3) by (simp add: cache_hit_def)
  obtain s where s: "ix.look (ec_tab c) ?k = Some s" "ei_idx (ec_tab c ! s) = i" using assms(2) by (auto simp: elfidx_get_def)
  have put: "elfidx_put al path elf_off n (ec_tab c) (ec_used c) u = Some (tab', used', u') \<Longrightarrow> elfidx_get tab' path elf_off = Some i" for n u tab' used' u'
  proof -
    assume "elfidx_put al path elf_off n (ec_tab c) (ec_used c) u = Some (tab', used', u')"
    then obtain f where f: "ix.free_slot (ec_tab c) (length (ec_tab c)) (ix.home (ec_tab c) ?k) = Some f"
      "tab' = (ec_tab c)[f := \<lparr>ei_off = elf_off, ei_hash = elf_path_hash path elf_off, ei_idx = n, ei_used = True\<rparr>]"
      using p assms(5) ix.free_slot_home [OF p(1), of ?k] by (auto simp: elfidx_put_def elfidx_grow_def Let_def split: Option.bind_splits)
    have "f < length (ec_tab c)" "\<not> ei_used (ec_tab c ! f)" using ix.free_slot_Some [OF p(1) ix.home_less [OF p(1)] f(1)] by auto
    then show "elfidx_get tab' path elf_off = Some i" using ix.look_insert_free [OF p(1) s(1)] s ix.look_Some [OF p(1) s(1)] f(2) by (auto simp: elfidx_get_def nth_list_update)
  qed
  obtain ds tab used u where c': "c' = \<lparr>ec_ents = ec_ents c @ [\<lparr>dm_path = path, dm_off = elf_off, dm_ds = ds\<rparr>], ec_tab = tab, ec_used = used\<rparr>"
      "j = length (ec_ents c)" "elfidx_put al path elf_off (length (ec_ents c)) (ec_tab c) (ec_used c) u = Some (tab, used, t')"
    using assms(4,6) miss by (auto simp: dynsym_get_def Let_def split: if_splits Option.bind_splits prod.splits)
  show ?thesis using put [OF c'(3)] c'(1,2) assms(3) i by (simp add: nth_append)
qed


section \<open>Unwind sections\<close>

lemma strcmp_eq_ended:
  "off \<le> j \<Longrightarrow> j < length buf \<Longrightarrow> buf ! j = 0 \<Longrightarrow> 0 \<notin> set lit \<Longrightarrow> \<exists>r. strcmp_eq buf off lit = Some r"
proof (induction buf off lit rule: strcmp_eq.induct)
  case (2 buf off c cs)
  then have "off \<noteq> j \<or> buf ! off \<noteq> c" by auto
  then show ?case using 2 by (cases "off = j") (auto simp: byte_at_def)
qed (simp add: byte_at_def)

text \<open>The name table of an image, when it is inside it, ends with a NUL.\<close>

definition dbg_names_ok :: "bytes \<Rightarrow> bool" where
  "dbg_names_ok buf \<longleftrightarrow>
     (let eh = take 64 buf in
      case load_shdr buf (unat (e_shoff_of eh) + unat (e_shstrndx_of eh) * unat (e_shentsize_of eh)) of
        None \<Rightarrow> True
      | Some h \<Rightarrow> sh_size h \<noteq> 0 \<and> sh_limit h \<le> length buf \<longrightarrow> buf ! (sh_limit h - 1) = 0)"

lemma dbg_walk_ok:
  assumes "\<forall>i \<in> set is. unat (e_shoff_of eh) + i * unat (e_shentsize_of eh) + 64 \<le> length buf" "so + sn \<le> length buf" "0 < sn" "buf ! (so + sn - 1) = 0"
  shows "safe (dbg_walk buf eh so sn is) (\<lambda>r. \<forall>off n. r = Rc_ok (off, n) \<longrightarrow> off + n \<le> length buf)"
  using assms(1)
proof (induction "is")
  case (Cons i "is")
  obtain sh where sh: "load_shdr buf (unat (e_shoff_of eh) + i * unat (e_shentsize_of eh)) = Some sh" using load_shdr_in Cons.prems by fastforce
  have "\<exists>r. strcmp_eq buf (so + unat (sh_name sh)) gnu_debugdata = Some r" if "unat (sh_name sh) < sn"
    using that assms(2-4) by (intro strcmp_eq_ended [of _ "so + sn - 1"]) (auto simp: gnu_debugdata_def)
  then show ?case using sh Cons by (auto simp: not_le not_less le_diff_conv2 add.commute)
qed simp

lemma find_gnu_debugdata_ok:
  assumes "dbg_names_ok buf"
  shows "safe (find_gnu_debugdata buf) (\<lambda>r. \<forall>off n. r = Rc_ok (off, n) \<longrightarrow> off + n \<le> length buf)"
proof -
  let ?eh = "take 64 buf" let ?o = "e_shoff_of ?eh" and ?z = "e_shentsize_of ?eh" and ?n = "e_shnum_of ?eh" and ?x = "e_shstrndx_of ?eh"
  show ?thesis
  proof (cases "64 \<le> length buf \<and> elf64_magic ?eh \<and> ?o \<noteq> 0 \<and> ?n \<noteq> 0 \<and> 64 \<le> unat ?z \<and> unat ?o + unat ?n * unat ?z \<le> length buf \<and> ?x \<noteq> 0 \<and> unat ?x < unat ?n")
    case False
    then have "find_gnu_debugdata buf = Some Rc_err"
      using elf_shtab_ucast [of ?z ?o ?n "length buf"] by (auto simp: find_gnu_debugdata_def not_le not_less)
    then show ?thesis by simp
  next
    case True
    then have ok: "elf_shtab_in_bounds ?o (ucast ?n) (ucast ?z) (length buf) = Some True" using elf_shtab_ucast [of ?z ?o ?n "length buf"] by simp
    have at: "unat ?o + i * unat ?z + 64 \<le> length buf" if "i < unat ?n" for i
    proof -
      have "(i + 1) * unat ?z \<le> unat ?n * unat ?z" using that by (intro mult_le_mono1) simp
      then show ?thesis using True by simp
    qed
    then obtain h where h: "load_shdr buf (unat ?o + unat ?x * unat ?z) = Some h" using load_shdr_in True by fastforce
    have f: "find_gnu_debugdata buf =
        (if sh_size h = 0 \<or> \<not> sh_limit h \<le> length buf then Some Rc_err else dbg_walk buf ?eh (unat (sh_offset h)) (unat (sh_size h)) [0..<unat ?n])"
      using True ok h by (auto simp: find_gnu_debugdata_def not_le not_less)
    show ?thesis
    proof (cases "sh_size h = 0 \<or> \<not> sh_limit h \<le> length buf")
      case False
      then have "0 < unat (sh_size h)" by (simp add: unat_gt_0)
      moreover have "buf ! (sh_limit h - 1) = 0" using assms h False by (simp add: dbg_names_ok_def Let_def)
      ultimately show ?thesis using f False at by (auto intro!: dbg_walk_ok)
    qed (use f in simp)
  qed
qed

definition xz_ok :: "(bytes \<Rightarrow> nat \<Rightarrow> lzma_ret) \<Rightarrow> bool" where
  "xz_ok xz \<longleftrightarrow> (\<forall>inp cap out. xz inp cap = LZMA_OK out \<longrightarrow> obj_bytes out \<and> strtab_nowrap out)"

lemma decompress_tries_ok:
  "xz_ok xz \<Longrightarrow> decompress_tries al xz inp n cap k = (Some out, k') \<Longrightarrow> obj_bytes out \<and> strtab_nowrap out"
  by (induction al xz inp n cap k rule: decompress_tries.induct) (auto simp: xz_ok_def split: option.splits lzma_ret.splits)

definition image_ok :: "bytes \<Rightarrow> u64 \<Rightarrow> bool" where
  "image_ok f elf_off \<longleftrightarrow> strtab_nowrap (drop (unat elf_off) f) \<and> dbg_names_ok (drop (unat elf_off) f)"

abbreviation sec_result :: "cfi_section option \<times> nat \<Rightarrow> bool" where
  "sec_result r \<equiv> \<forall>s. fst r = Some s \<longrightarrow> section_wf s"

lemma load_elf_result:
  assumes "qsort_impl pc_lo qs" "obj_bytes b" "strtab_nowrap b" "\<forall>n. mok n \<longrightarrow> n < 2 ^ 63"
  shows "safe (cfi_load_elf qs mok b) (\<lambda>r. \<forall>s. r = Rc_ok s \<longrightarrow> section_wf s)"
  by (rule safe_load_elf [OF assms]) auto

lemma cfi_from_debugdata_ok:
  assumes "qsort_impl pc_lo qs" "\<forall>n. mok n \<longrightarrow> n < 2 ^ 63" "xz_ok xz" "dbg_names_ok buf"
  shows "safe (cfi_from_debugdata al xz qs mok buf t) sec_result"
proof -
  have inner: "safe (cfi_load_elf qs mok b) (\<lambda>r. safe (Some (case r of Rc_ok s \<Rightarrow> Some s | Rc_err \<Rightarrow> None, u)) sec_result)"
    if "decompress_xz al xz cz t = (Some b, u)" for cz b u
    using load_elf_result [OF assms(1) _ _ assms(2), of b] decompress_tries_ok [OF assms(3)] that
    by (auto simp: decompress_xz_def elim!: safe_mono split: rc.splits)
  have c: "off + n \<le> length buf \<Longrightarrow>
      safe (case decompress_xz al xz (take n (drop off buf)) t of
          (None, t) \<Rightarrow> Some (None, t)
        | (Some b, t) \<Rightarrow> do { r \<leftarrow> cfi_load_elf qs mok b; Some (case r of Rc_ok s \<Rightarrow> Some s | Rc_err \<Rightarrow> None, t) }) sec_result" for off n
    using inner [of "take n (drop off buf)"] by (auto simp: safe_bind split: prod.splits option.splits)
  show ?thesis
    unfolding cfi_from_debugdata_def safe_bind
    by (rule safe_mono [OF find_gnu_debugdata_ok [OF assms(4)]]) (use c in \<open>auto simp: Let_def split: rc.splits prod.splits option.splits\<close>)
qed


lemma cfi_load_module_ok:
  assumes "qsort_impl pc_lo qs" "\<forall>n. mok n \<longrightarrow> n < 2 ^ 63" "xz_ok xz" "\<forall>n p f. fopen n p = Some f \<longrightarrow> image_ok f elf_off"
  shows "safe (cfi_load_module al xz qs mok fopen path elf_off pid vstart vend t) sec_result"
proof (cases "pseudo_path path")
  case False
  obtain op u where op: "open_module_file fopen path pid vstart vend t = (op, u)" by (metis surj_pair)
  show ?thesis
  proof (cases op)
    case None
    then show ?thesis using False op by (simp add: cfi_load_module_def)
  next
    case (Some f)
    have ok: "strtab_nowrap (drop (unat elf_off) f)" "dbg_names_ok (drop (unat elf_off) f)"
      using open_module_file_opens op Some assms(4) by (fastforce simp: image_ok_def)+
    let ?len = "length f - unat elf_off" and ?b = "drop (unat elf_off) f"
    show ?thesis
    proof (cases "length f \<le> unat elf_off \<or> ?len > CFI_MAX_MODULE_BYTES \<or> al u = None")
      case True
      then show ?thesis using False op Some by (auto simp: cfi_load_module_def Let_def)
    next
      case in_range: False
      then have rd: "pread_all f ?len elf_off = Some ?b" by (simp add: pread_all_def)
      have eq: "cfi_load_module al xz qs mok fopen path elf_off pid vstart vend t =
          do { r \<leftarrow> cfi_load_elf qs mok ?b; (case r of Rc_ok s \<Rightarrow> Some (Some s, u + 1) | Rc_err \<Rightarrow> cfi_from_debugdata al xz qs mok ?b (u + 1)) }"
        using False op Some in_range rd by (auto simp: cfi_load_module_def Let_def)
      have "obj_bytes ?b" using in_range by (simp add: obj_bytes_def)
      then show ?thesis unfolding eq safe_bind
        by (rule safe_mono [OF load_elf_result [OF assms(1) _ ok(1) assms(2)]])
           (use cfi_from_debugdata_ok [OF assms(1-3) ok(2), of al "u + 1"] in \<open>auto split: rc.splits\<close>)
    qed
  qed
qed (simp add: cfi_load_module_def)

definition cfi_cache_ok :: "cfimod elf_cache \<Rightarrow> bool" where
  "cfi_cache_ok c \<longleftrightarrow> cache_ok cm_path cm_off c \<and> list_all (\<lambda>m. cm_ok m \<longrightarrow> section_wf (cm_sec m)) (ec_ents c)"

text \<open>The cache of unwind sections hands out well-formed sections only.\<close>

lemma cfi_get_ok:
  assumes "cfi_cache_ok c" "qsort_impl pc_lo qs" "\<forall>n. mok n \<longrightarrow> n < 2 ^ 63" "xz_ok xz" "\<forall>n p f. fopen n p = Some f \<longrightarrow> image_ok f elf_off"
    "length path < 256" "(\<forall>n. al n \<noteq> None) \<or> ec_used c < 256"
  shows "\<exists>r c' t'. cfi_get al xz qs mok fopen path elf_off load_base pid vstart vend (c, t) = Some (r, c', t') \<and>
    cfi_cache_ok c' \<and> (\<forall>s. r = Some s \<longrightarrow> section_wf s)"
proof -
  have ck: "cache_ok cm_path cm_off c" using assms(1) by (simp add: cfi_cache_ok_def)
  obtain r where r: "cache_hit cm_path c path elf_off = Some r" "\<And>i. r = Some i \<Longrightarrow> i < length (ec_ents c)"
    using cache_hit_ok [OF ck] by blast
  show ?thesis
  proof (cases "r = None \<and> al t \<noteq> None")
    case True
    obtain tab used u where p: "elfidx_put al path elf_off (length (ec_ents c)) (ec_tab c) (ec_used c) (t + 1) = Some (tab, used, u)"
      "\<And>m. cm_path m = path \<Longrightarrow> cm_off m = elf_off \<Longrightarrow> cache_ok cm_path cm_off \<lparr>ec_ents = ec_ents c @ [m], ec_tab = tab, ec_used = used\<rparr>"
      using cache_add [OF ck assms(7), of path elf_off "t + 1"] by blast
    obtain s v where s: "cfi_load_module al xz qs mok fopen path elf_off pid vstart vend u = Some (s, v)" "\<And>x. s = Some x \<Longrightarrow> section_wf x"
      using cfi_load_module_ok [OF assms(2-5), of al path pid vstart vend u] by (auto simp: safe_iff)
    let ?m = "\<lparr>cm_path = path, cm_off = elf_off, cm_base = load_base, cm_sec = (case s of None \<Rightarrow> sec_zero | Some x \<Rightarrow> x), cm_ok = (s \<noteq> None)\<rparr>"
    let ?c = "\<lparr>ec_ents = ec_ents c @ [?m], ec_tab = tab, ec_used = used\<rparr>"
    have "cfi_get al xz qs mok fopen path elf_off load_base pid vstart vend (c, t) = Some (s, ?c, v)"
      using r(1) True p(1) s(1) assms(6) by (auto simp: cfi_get_def)
    moreover have "cfi_cache_ok ?c" using p(2) [of ?m] s(2) assms(1) by (auto simp: cfi_cache_ok_def)
    ultimately show ?thesis using s(2) by blast
  next
    case False
    then show ?thesis using r assms(1) by (cases r) (auto simp: cfi_get_def Let_def cfi_cache_ok_def list_all_length)
  qed
qed

end
