(* ===== verification/Proc_Maps.thy ===== *)
theory Proc_Maps
  imports Dump_Walk Elf_Syms
begin

text \<open>
  \<open>src/src/common/sym_procmaps.c\<close>: the cache of the mappings of each process, with its eviction of the least recently used
  process, the search for the mapping of an address and the throttled second reading.

  \<^item> what the operating system answers is a function of the number of questions asked before: \<open>al\<close> the allocator, \<open>now\<close>
    the clock in milliseconds, \<open>maps\<close> the mapping lines of a process as the line parser delivers them. The counter is
    threaded through every operation;
  \<^item> \<open>g_pm\<close> is a list; a pointer into it is an index. \<open>pm_get\<close> also returns the process it evicted, for which its
    caller drops the other caches.
\<close>

section \<open>Reading the mappings\<close>

datatype maps_file = Maps_lines "map_line list" | Maps_enoent | Maps_error

record procmaps =
  pm_pid :: int
  pm_m :: "map_line list"
  pm_cap :: nat
  last_read_ms :: int
  last_used_ms :: int
  gone :: bool

abbreviation PM_MAX_PIDS :: nat where "PM_MAX_PIDS \<equiv> 128"
abbreviation REFRESH_MS :: int where "REFRESH_MS \<equiv> 250"

fun read_lines :: "allocator \<Rightarrow> map_line list \<Rightarrow> procmaps \<times> nat \<Rightarrow> procmaps \<times> nat" where
  "read_lines al [] st = st"
| "read_lines al (ml # mls) (pm, t) =
     (if length (pm_m pm) = pm_cap pm then
        (case al t of
           None \<Rightarrow> (pm, t + 1)
         | Some _ \<Rightarrow> read_lines al mls (pm\<lparr>pm_m := pm_m pm @ [ml], pm_cap := (if pm_cap pm \<noteq> 0 then pm_cap pm * 2 else 256)\<rparr>, t + 1))
      else read_lines al mls (pm\<lparr>pm_m := pm_m pm @ [ml]\<rparr>, t))"

definition read_proc_maps :: "allocator \<Rightarrow> (nat \<Rightarrow> int) \<Rightarrow> (nat \<Rightarrow> int \<Rightarrow> maps_file) \<Rightarrow> procmaps \<times> nat \<Rightarrow> procmaps \<times> nat" where
  "read_proc_maps al now maps = (\<lambda>(pm, t).
     (let f = maps t (pm_pid pm); pm = pm\<lparr>pm_m := [], gone := False, last_read_ms := now (t + 1)\<rparr>; t = t + 2 in
      case f of
        Maps_enoent \<Rightarrow> (pm\<lparr>gone := True\<rparr>, t)
      | Maps_error \<Rightarrow> (pm, t)
      | Maps_lines mls \<Rightarrow> read_lines al mls (pm, t)))"

section \<open>The cache\<close>

definition pm_index :: "procmaps list \<Rightarrow> int \<Rightarrow> nat option" where
  "pm_index pms pid = find (\<lambda>i. pm_pid (pms ! i) = pid) [0..<length pms]"

fun lru_slot :: "procmaps list \<Rightarrow> nat list \<Rightarrow> nat \<Rightarrow> nat" where
  "lru_slot pms [] slot = slot"
| "lru_slot pms (i # is) slot =
     lru_slot pms is (if last_used_ms (pms ! i) < last_used_ms (pms ! slot) then i else slot)"

definition pm_zero :: procmaps where
  "pm_zero = \<lparr>pm_pid = 0, pm_m = [], pm_cap = 0, last_read_ms = 0, last_used_ms = 0, gone = False\<rparr>"

definition pm_get ::
  "allocator \<Rightarrow> (nat \<Rightarrow> int) \<Rightarrow> (nat \<Rightarrow> int \<Rightarrow> maps_file) \<Rightarrow> int \<Rightarrow> procmaps list \<times> nat \<Rightarrow> nat option \<times> int option \<times> procmaps list \<times> nat" where
  "pm_get al now maps pid = (\<lambda>(pms, t).
     (let n = now t; t = t + 1 in
      case pm_index pms pid of
        Some i \<Rightarrow> (Some i, None, pms[i := (pms ! i)\<lparr>last_used_ms := n\<rparr>], t)
      | None \<Rightarrow>
          if length pms < PM_MAX_PIDS then
            (case al t of
               None \<Rightarrow> (None, None, pms, t + 1)
             | Some _ \<Rightarrow>
                 let (pm, t) = read_proc_maps al now maps (pm_zero\<lparr>pm_pid := pid, last_used_ms := n\<rparr>, t + 1)
                 in (Some (length pms), None, pms @ [pm], t))
          else
            let slot = lru_slot pms [1..<length pms] 0; old = pms ! slot;
                (pm, t) = read_proc_maps al now maps (old\<lparr>pm_m := [], pm_pid := pid, last_used_ms := n\<rparr>, t)
            in (Some slot, Some (pm_pid old), pms[slot := pm], t)))"

function find_mapping_loop :: "map_line list \<Rightarrow> u64 \<Rightarrow> nat \<Rightarrow> nat \<Rightarrow> nat option" where
  "find_mapping_loop m addr lo hi =
     (if lo < hi then
        let mid = (lo + hi) div 2 in
        if addr < ml_start (m ! mid) then find_mapping_loop m addr lo mid
        else if addr \<ge> ml_end (m ! mid) then find_mapping_loop m addr (mid + 1) hi
        else Some mid
      else None)"
  by pat_completeness auto
termination by (relation "measure (\<lambda>(m, addr, lo, hi). hi - lo)") auto

definition find_mapping :: "procmaps \<Rightarrow> u64 \<Rightarrow> nat option" where
  "find_mapping pm addr = find_mapping_loop (pm_m pm) addr 0 (length (pm_m pm))"

definition find_mapping_refresh ::
  "allocator \<Rightarrow> (nat \<Rightarrow> int) \<Rightarrow> (nat \<Rightarrow> int \<Rightarrow> maps_file) \<Rightarrow> u64 \<Rightarrow> procmaps \<times> nat \<Rightarrow> nat option \<times> procmaps \<times> nat" where
  "find_mapping_refresh al now maps addr = (\<lambda>(pm, t).
     (case find_mapping pm addr of
        Some i \<Rightarrow> (Some i, pm, t)
      | None \<Rightarrow>
          if now t - last_read_ms pm > REFRESH_MS then
            let (pm, t) = read_proc_maps al now maps (pm, t + 1) in (find_mapping pm addr, pm, t)
          else (None, pm, t + 1)))"

definition pm_reset_pid :: "int \<Rightarrow> procmaps list \<Rightarrow> procmaps list" where
  "pm_reset_pid pid pms = map (\<lambda>pm. if pm_pid pm = pid then pm\<lparr>pm_m := [], gone := False\<rparr> else pm) pms"

definition module_base :: "procmaps \<Rightarrow> nat \<Rightarrow> u64 \<times> u64 \<times> u64" where
  "module_base pm h =
     (let i = anubee_module_base_idx (pm_m pm) h in (ml_start (pm_m pm ! i), ml_off (pm_m pm ! i), ml_end (pm_m pm ! i)))"

declare find_mapping_loop.simps [simp del]

section \<open>The search\<close>

text \<open>The mappings of a process are disjoint and in address order.\<close>

definition maps_sorted :: "map_line list \<Rightarrow> bool" where
  "maps_sorted m \<longleftrightarrow> sorted_wrt (\<lambda>a b. ml_end a \<le> ml_start b) m \<and> list_all (\<lambda>x. ml_start x \<le> ml_end x) m"

abbreviation covers :: "map_line \<Rightarrow> u64 \<Rightarrow> bool" where "covers x addr \<equiv> ml_start x \<le> addr \<and> addr < ml_end x"

lemma find_mapping_loop_sound:
  "hi \<le> length m \<Longrightarrow> find_mapping_loop m addr lo hi = Some i \<Longrightarrow> lo \<le> i \<and> i < hi \<and> covers (m ! i) addr"
proof (induction m addr lo hi rule: find_mapping_loop.induct)
  case (1 m addr lo hi)
  let ?mid = "(lo + hi) div 2"
  show ?case
  proof (cases "lo < hi")
    case True
    then have "?mid < hi" by simp
    then show ?thesis using True 1(3,4) 1(1) [OF True refl] 1(2) [OF True refl]
      unfolding find_mapping_loop.simps [of m addr lo hi] by (auto simp: Let_def not_less not_le split: if_splits)
  qed (use 1(4) in \<open>simp add: find_mapping_loop.simps\<close>)
qed

lemma maps_before:
  assumes "maps_sorted m" "i \<le> j" "j < length m" "addr < ml_start (m ! i)"
  shows "\<not> covers (m ! j) addr"
proof (cases "i = j")
  case False
  then have "ml_end (m ! i) \<le> ml_start (m ! j)" "ml_start (m ! i) \<le> ml_end (m ! i)"
    using assms(1-3) by (auto simp: maps_sorted_def sorted_wrt_iff_nth_less list_all_length)
  then show ?thesis using assms(4) by auto
qed (use assms(4) in auto)

lemma maps_after:
  assumes "maps_sorted m" "j \<le> i" "i < length m" "ml_end (m ! i) \<le> addr"
  shows "\<not> covers (m ! j) addr"
proof (cases "i = j")
  case False
  then have "ml_end (m ! j) \<le> ml_start (m ! i)" "ml_start (m ! i) \<le> ml_end (m ! i)"
    using assms(1-3) by (auto simp: maps_sorted_def sorted_wrt_iff_nth_less list_all_length)
  then show ?thesis using assms(4) by auto
qed (use assms(4) in auto)

lemma find_mapping_loop_complete:
  assumes "maps_sorted m"
  shows "hi \<le> length m \<Longrightarrow> lo \<le> i \<Longrightarrow> i < hi \<Longrightarrow> covers (m ! i) addr \<Longrightarrow> \<exists>j. find_mapping_loop m addr lo hi = Some j"
  using assms
proof (induction m addr lo hi rule: find_mapping_loop.induct)
  case (1 m addr lo hi)
  let ?mid = "(lo + hi) div 2"
  have r: "lo < hi" using 1 by simp
  then have mid: "?mid < length m" using 1(3) by simp
  note s = find_mapping_loop.simps [of m addr lo hi]
  consider (below) "addr < ml_start (m ! ?mid)" | (above) "\<not> addr < ml_start (m ! ?mid)" "ml_end (m ! ?mid) \<le> addr" | (hit) "covers (m ! ?mid) addr" by force
  then show ?case
  proof cases
    case below
    then have "i < ?mid" using maps_before [OF "1.prems"(5), of ?mid i addr] "1.prems" by (meson leI le_trans less_le_trans)
    then show ?thesis using below "1.IH"(1) [OF r refl] "1.prems" r s by (simp add: Let_def)
  next
    case above
    then have "?mid < i" using maps_after [OF "1.prems"(5), of i ?mid addr] mid "1.prems" by (meson leI)
    then show ?thesis using above "1.IH"(2) [OF r refl] "1.prems" r s by (simp add: Let_def)
  next
    case hit
    then show ?thesis using r s by (auto simp: Let_def not_less not_le)
  qed
qed

lemma maps_unique:
  assumes "maps_sorted m" "i < length m" "j < length m" "covers (m ! i) addr" "covers (m ! j) addr"
  shows "i = j"
proof (rule ccontr)
  assume "i \<noteq> j"
  have ord: "ml_end (m ! a) \<le> ml_start (m ! b)" if "a < b" "b < length m" for a b
    using assms(1) that by (simp add: maps_sorted_def sorted_wrt_iff_nth_less)
  show False using \<open>i \<noteq> j\<close> assms(2-5) ord [of i j] ord [of j i] by (cases "i < j") auto
qed

text \<open>The binary search over the mappings of a process finds the mapping that contains an address, and nothing when there is none.\<close>

theorem find_mapping_exact:
  assumes "maps_sorted (pm_m pm)"
  shows "find_mapping pm addr = Some i \<longleftrightarrow> i < length (pm_m pm) \<and> covers (pm_m pm ! i) addr"
proof
  assume "find_mapping pm addr = Some i"
  then show "i < length (pm_m pm) \<and> covers (pm_m pm ! i) addr"
    using find_mapping_loop_sound [of "length (pm_m pm)" "pm_m pm" addr 0 i] by (simp add: find_mapping_def)
next
  assume i: "i < length (pm_m pm) \<and> covers (pm_m pm ! i) addr"
  then obtain j where j: "find_mapping_loop (pm_m pm) addr 0 (length (pm_m pm)) = Some j"
    using find_mapping_loop_complete [OF assms, of "length (pm_m pm)" 0 i addr] by auto
  then have "j < length (pm_m pm)" "covers (pm_m pm ! j) addr" using find_mapping_loop_sound [OF order_refl j] by auto
  then show "find_mapping pm addr = Some i" using j i maps_unique [OF assms, of i j addr] by (simp add: find_mapping_def)
qed

section \<open>Eviction\<close>

lemma read_lines_keeps:
  "read_lines al mls (pm, t) = (pm', t') \<Longrightarrow> length (pm_m pm) \<le> pm_cap pm \<Longrightarrow>
   pm_pid pm' = pm_pid pm \<and> last_used_ms pm' = last_used_ms pm \<and> last_read_ms pm' = last_read_ms pm \<and> length (pm_m pm') \<le> pm_cap pm' \<and>
   t \<le> t' \<and> (\<exists>n. pm_m pm' = pm_m pm @ take n mls \<and> (n < length mls \<longrightarrow> (\<exists>k. al k = None)))"
proof (induction al mls "(pm, t)" arbitrary: pm t rule: read_lines.induct)
  case (2 al ml mls pm t)
  show ?case
  proof (cases "length (pm_m pm) = pm_cap pm \<and> al t = None")
    case True
    then show ?thesis using 2(3,4) by (auto intro: exI [of _ 0])
  next
    case False
    define pm1 where "pm1 = (if length (pm_m pm) = pm_cap pm then pm\<lparr>pm_m := pm_m pm @ [ml], pm_cap := (if pm_cap pm \<noteq> 0 then pm_cap pm * 2 else 256)\<rparr>
      else pm\<lparr>pm_m := pm_m pm @ [ml]\<rparr>)"
    define t1 where "t1 = (if length (pm_m pm) = pm_cap pm then t + 1 else t)"
    have r: "read_lines al mls (pm1, t1) = (pm', t')" using 2(3) False by (auto simp: pm1_def t1_def split: option.splits if_splits)
    have l: "length (pm_m pm1) \<le> pm_cap pm1" using 2(4) by (auto simp: pm1_def)
    have ih: "pm_pid pm' = pm_pid pm1 \<and> last_used_ms pm' = last_used_ms pm1 \<and> last_read_ms pm' = last_read_ms pm1 \<and> length (pm_m pm') \<le> pm_cap pm' \<and>
        t1 \<le> t' \<and> (\<exists>n. pm_m pm' = pm_m pm1 @ take n mls \<and> (n < length mls \<longrightarrow> (\<exists>k. al k = None)))"
    proof (cases "length (pm_m pm) = pm_cap pm")
      case True
      then obtain f where "al t = Some f" using False by auto
      then show ?thesis using 2(1) [OF True, of f] r l True by (simp add: pm1_def t1_def)
    next
      case F: False
      then show ?thesis using 2(2) [OF F] r l by (simp add: pm1_def t1_def)
    qed
    have f: "pm_pid pm1 = pm_pid pm" "last_used_ms pm1 = last_used_ms pm" "last_read_ms pm1 = last_read_ms pm" "pm_m pm1 = pm_m pm @ [ml]" "t \<le> t1"
      by (auto simp: pm1_def t1_def)
    obtain n where "pm_m pm' = pm_m pm1 @ take n mls" "n < length mls \<longrightarrow> (\<exists>k. al k = None)" using ih by blast
    then show ?thesis using ih f by (intro conjI exI [of _ "Suc n"]) auto
  qed
qed auto

lemma read_proc_maps_keeps:
  assumes "read_proc_maps al now maps (pm, t) = (pm', t')"
  shows "pm_pid pm' = pm_pid pm" "last_used_ms pm' = last_used_ms pm" "length (pm_m pm') \<le> pm_cap pm'" "t < t'" "last_read_ms pm' = now (t + 1)"
    "\<exists>n. pm_m pm' = take n (case maps t (pm_pid pm) of Maps_lines mls \<Rightarrow> mls | _ \<Rightarrow> [])"
proof -
  let ?pm = "pm\<lparr>pm_m := [], gone := False, last_read_ms := now (t + 1)\<rparr>"
  have "pm_pid pm' = pm_pid pm \<and> last_used_ms pm' = last_used_ms pm \<and> length (pm_m pm') \<le> pm_cap pm' \<and> t < t' \<and> last_read_ms pm' = now (t + 1) \<and>
    (\<exists>n. pm_m pm' = take n (case maps t (pm_pid pm) of Maps_lines mls \<Rightarrow> mls | _ \<Rightarrow> []))"
  proof (cases "maps t (pm_pid pm)")
    case (Maps_lines mls)
    then have "read_lines al mls (?pm, t + 2) = (pm', t')" using assms by (simp add: read_proc_maps_def Let_def)
    then show ?thesis using read_lines_keeps [of al mls ?pm "t + 2" pm' t'] Maps_lines by auto
  qed (use assms in \<open>auto simp: read_proc_maps_def Let_def\<close>)
  then show "pm_pid pm' = pm_pid pm" "last_used_ms pm' = last_used_ms pm" "length (pm_m pm') \<le> pm_cap pm'" "t < t'" "last_read_ms pm' = now (t + 1)"
    "\<exists>n. pm_m pm' = take n (case maps t (pm_pid pm) of Maps_lines mls \<Rightarrow> mls | _ \<Rightarrow> [])" by blast+
qed

text \<open>The cache: one entry per process, at most 128 of them.\<close>

definition pms_ok :: "procmaps list \<Rightarrow> bool" where
  "pms_ok pms \<longleftrightarrow> length pms \<le> PM_MAX_PIDS \<and> distinct (map pm_pid pms) \<and> list_all (\<lambda>pm. length (pm_m pm) \<le> pm_cap pm) pms"

lemma pm_index_Some: "pm_index pms pid = Some i \<Longrightarrow> i < length pms \<and> pm_pid (pms ! i) = pid"
  by (auto simp: pm_index_def find_Some_iff)

lemma pm_index_None: "pm_index pms pid = None \<longleftrightarrow> pid \<notin> pm_pid ` set pms"
  by (auto simp: pm_index_def find_None_iff in_set_conv_nth) (use nth_mem in blast)

lemma lru_slot_least:
  "slot < length pms \<Longrightarrow> list_all (\<lambda>i. i < length pms) is \<Longrightarrow>
   lru_slot pms is slot < length pms \<and>
   (\<forall>i \<in> insert slot (set is). last_used_ms (pms ! lru_slot pms is slot) \<le> last_used_ms (pms ! i))"
proof (induction pms "is" slot rule: lru_slot.induct)
  case (2 pms i "is" slot)
  then show ?case by (auto split: if_splits)
qed simp

lemma pms_ok_update:
  assumes "pms_ok pms" "i < length pms" "length (pm_m pm) \<le> pm_cap pm" "pm_pid pm = pm_pid (pms ! i) \<or> pm_pid pm \<notin> pm_pid ` set pms"
  shows "pms_ok (pms[i := pm])"
proof -
  have "distinct ((map pm_pid pms)[i := pm_pid pm])"
    using assms(1,2,4) by (cases "pm_pid pm = pm_pid (pms ! i)") (auto simp: pms_ok_def list_update_same_conv distinct_list_update)
  moreover have "list_all (\<lambda>pm. length (pm_m pm) \<le> pm_cap pm) (pms[i := pm])"
    using assms(1,3) set_update_subset_insert [of pms i pm] by (auto simp: pms_ok_def list_all_iff)
  ultimately show ?thesis using assms(1) by (simp add: pms_ok_def map_update)
qed

lemma kept_update: "p \<in> set pms \<Longrightarrow> i < length pms \<Longrightarrow> p \<noteq> pms ! i \<Longrightarrow> p \<in> set (pms[i := x])"
  by (metis in_set_conv_nth length_list_update nth_list_update_neq)

lemma pm_get_keeps:
  assumes "pms_ok pms" "pm_get al now maps pid (pms, t) = (r, ev, pms', t')"
  shows "pms_ok pms' \<and> t < t' \<and>
    (case r of
       None \<Rightarrow> pms' = pms \<and> ev = None \<and> al (t + 1) = None
     | Some i \<Rightarrow> i < length pms' \<and> pm_pid (pms' ! i) = pid \<and> last_used_ms (pms' ! i) = now t \<and>
         (\<forall>p \<in> set pms. pm_pid p \<noteq> pid \<and> ev \<noteq> Some (pm_pid p) \<longrightarrow> p \<in> set pms')) \<and>
    (case ev of
       None \<Rightarrow> True
     | Some q \<Rightarrow> length pms = PM_MAX_PIDS \<and> pid \<notin> pm_pid ` set pms \<and> q \<notin> pm_pid ` set pms' \<and>
         (\<exists>old \<in> set pms. pm_pid old = q \<and> (\<forall>p \<in> set pms. last_used_ms old \<le> last_used_ms p)))"
proof (cases "pm_index pms pid")
  case (Some i)
  note i = pm_index_Some [OF Some]
  have "pms_ok (pms[i := (pms ! i)\<lparr>last_used_ms := now t\<rparr>])"
    using assms(1) i by (intro pms_ok_update) (auto simp: pms_ok_def list_all_length)
  moreover have "r = Some i" "ev = None" "pms' = pms[i := (pms ! i)\<lparr>last_used_ms := now t\<rparr>]" "t' = t + 1"
    using assms(2) Some by (simp_all add: pm_get_def Let_def)
  ultimately show ?thesis using i kept_update [of _ pms i] by auto
next
  case None
  then have new: "pid \<notin> pm_pid ` set pms" by (simp add: pm_index_None)
  show ?thesis
  proof (cases "length pms < PM_MAX_PIDS")
    case True
    show ?thesis
    proof (cases "al (t + 1)")
      case N: None
      then show ?thesis using assms None True by (simp add: pm_get_def Let_def)
    next
      case (Some f)
      obtain pm u where r: "read_proc_maps al now maps (pm_zero\<lparr>pm_pid := pid, last_used_ms := now t\<rparr>, t + 1 + 1) = (pm, u)" by (metis surj_pair)
      note k = read_proc_maps_keeps [OF r]
      have "r = Some (length pms)" "ev = None" "pms' = pms @ [pm]" "t' = u"
        using assms(2) None True Some r by (auto simp: pm_get_def Let_def)
      then show ?thesis using k assms(1) new True by (auto simp: pms_ok_def)
    qed
  next
    case False
    then have full: "length pms = PM_MAX_PIDS" using assms(1) by (simp add: pms_ok_def)
    define slot where "slot = lru_slot pms [1..<length pms] 0"
    have sl: "slot < length pms" "\<forall>i \<in> insert 0 (set [1..<length pms]). last_used_ms (pms ! slot) \<le> last_used_ms (pms ! i)"
      using lru_slot_least [of 0 pms "[1..<length pms]"] full by (auto simp: slot_def list_all_iff)
    have least: "p \<in> set pms \<Longrightarrow> last_used_ms (pms ! slot) \<le> last_used_ms p" for p
      using sl(2) by (auto simp: in_set_conv_nth) (metis One_nat_def Suc_leI atLeastLessThan_iff not_gr_zero)
    obtain pm u where r: "read_proc_maps al now maps ((pms ! slot)\<lparr>pm_m := [], pm_pid := pid, last_used_ms := now t\<rparr>, t + 1) = (pm, u)" by (metis surj_pair)
    note k = read_proc_maps_keeps [OF r]
    have res: "r = Some slot" "ev = Some (pm_pid (pms ! slot))" "pms' = pms[slot := pm]" "t' = u"
      using assms(2) None False r by (auto simp: pm_get_def Let_def slot_def)
    have "pms_ok pms'" using assms(1) sl(1) k new res by (auto intro!: pms_ok_update)
    moreover have "pm_pid (pms ! slot) \<notin> pm_pid ` set pms'"
    proof
      assume "pm_pid (pms ! slot) \<in> pm_pid ` set pms'"
      then obtain j where j: "j < length pms" "pm_pid (pms[slot := pm] ! j) = pm_pid (pms ! slot)" by (auto simp: res in_set_conv_nth)
      then have "j \<noteq> slot" using k(1) new nth_mem [OF sl(1)] by (auto simp: image_iff)
      then show False using j sl(1) assms(1) by (auto simp: pms_ok_def distinct_conv_nth)
    qed
    moreover have "\<forall>p \<in> set pms. pm_pid p \<noteq> pid \<and> ev \<noteq> Some (pm_pid p) \<longrightarrow> p \<in> set pms'"
      using kept_update [OF _ sl(1)] unfolding res by auto
    moreover have "\<exists>old \<in> set pms. pm_pid old = pm_pid (pms ! slot) \<and> (\<forall>p \<in> set pms. last_used_ms old \<le> last_used_ms p)"
      using sl(1) least by (intro bexI [of _ "pms ! slot"]) auto
    ultimately show ?thesis using res sl(1) k(1,2,4) new full by simp
  qed
qed


text \<open>C39: the cache of mappings. Asking for a process gives an entry for it and keeps one entry per process, at most 128; it is
  refused only without memory, and then nothing changes. An entry is lost only when the cache is full and holds no entry
  for the process: then exactly one is, and it is one that was not used later than any other; all others are as before.\<close>

theorem pm_get_lru:
  assumes "pms_ok pms" "pm_get al now maps pid (pms, t) = (r, ev, pms', t')"
  shows "pms_ok pms' \<and> t < t' \<and>
    (case r of
       None \<Rightarrow> pms' = pms \<and> ev = None \<and> al (t + 1) = None
     | Some i \<Rightarrow> i < length pms' \<and> pm_pid (pms' ! i) = pid \<and> last_used_ms (pms' ! i) = now t \<and>
         (\<forall>p \<in> set pms. pm_pid p \<noteq> pid \<and> ev \<noteq> Some (pm_pid p) \<longrightarrow> p \<in> set pms')) \<and>
    (case ev of
       None \<Rightarrow> True
     | Some q \<Rightarrow> length pms = PM_MAX_PIDS \<and> pid \<notin> pm_pid ` set pms \<and> q \<notin> pm_pid ` set pms' \<and>
         (\<exists>old \<in> set pms. pm_pid old = q \<and> (\<forall>p \<in> set pms. last_used_ms old \<le> last_used_ms p)))"
  using assms by (rule pm_get_keeps)

text \<open>Two libraries with a gap between them, and a full cache.\<close>

definition two_maps :: procmaps where
  "two_maps = pm_zero\<lparr>pm_pid := 7, pm_m := [\<lparr>ml_start = 0x1000, ml_end = 0x2000, ml_off = 0, ml_exec = True, ml_path = ''/a.so''\<rparr>,
     \<lparr>ml_start = 0x3000, ml_end = 0x5000, ml_off = 0, ml_exec = True, ml_path = ''/b.so''\<rparr>], pm_cap := 256\<rparr>"

lemma find_mapping_exact_witness:
  "find_mapping two_maps 0x3000 = Some 1 \<and> find_mapping two_maps 0x2000 \<noteq> Some 0 \<and> find_mapping two_maps 0x2000 \<noteq> Some 1"
proof -
  have "maps_sorted (pm_m two_maps)" by (simp add: two_maps_def maps_sorted_def)
  from find_mapping_exact [OF this, of "0x3000" 1] find_mapping_exact [OF this, of "0x2000" 0] find_mapping_exact [OF this, of "0x2000" 1]
  show ?thesis by (simp add: two_maps_def)
qed

definition full_cache :: "procmaps list" where
  "full_cache = map (\<lambda>i. pm_zero\<lparr>pm_pid := int i, last_used_ms := 1000 - int i\<rparr>) [0..<128]"

lemma pm_get_lru_witness:
  "\<exists>i pms' t'. pm_get (\<lambda>_. None) (\<lambda>n. 2000) (\<lambda>_ _. Maps_enoent) 500 (full_cache, 0) = (Some i, Some 127, pms', t') \<and> pms_ok pms'"
proof -
  obtain r ev pms' t' where g: "pm_get (\<lambda>_. None) (\<lambda>n. 2000) (\<lambda>_ _. Maps_enoent) 500 (full_cache, 0) = (r, ev, pms', t')"
    by (metis prod_cases4)
  have ok: "pms_ok full_cache" by (simp add: full_cache_def pms_ok_def list_all_iff comp_def distinct_map inj_on_def pm_zero_def)
  have new: "500 \<notin> pm_pid ` set full_cache" by (auto simp: full_cache_def)
  then have s: "pm_index full_cache 500 = None" "\<not> length full_cache < PM_MAX_PIDS" by (simp_all add: pm_index_None full_cache_def)
  then obtain i q where r: "r = Some i" "ev = Some q" using g by (auto simp: pm_get_def Let_def split: prod.splits)
  note c = pm_get_lru [OF ok g]
  obtain old where old: "old \<in> set full_cache" "pm_pid old = q" "\<forall>p \<in> set full_cache. last_used_ms old \<le> last_used_ms p"
    using c r by auto
  have "pm_zero\<lparr>pm_pid := 127, last_used_ms := 873\<rparr> \<in> set full_cache" by (auto simp: full_cache_def intro!: image_eqI [of _ _ 127])
  then have "last_used_ms old \<le> 873" using old(3) by fastforce
  then have "q = 127" using old(1,2) by (auto simp: full_cache_def)
  then show ?thesis using g r c by auto
qed


text \<open>A flush empties the mappings of a process but leaves the time of the last reading alone: for the next 250 milliseconds every address
  of the process counts as unmapped, since the second reading is throttled by that time.\<close>

lemma pm_reset_blind:
  assumes "i < length pms" "pm_pid (pms ! i) = pid" "now t - last_read_ms (pms ! i) \<le> REFRESH_MS"
  shows "find_mapping_refresh al now maps addr (pm_reset_pid pid pms ! i, t) = (None, pm_reset_pid pid pms ! i, t + 1)"
  using assms by (simp add: pm_reset_pid_def find_mapping_refresh_def find_mapping_def find_mapping_loop.simps)

end
