(* ===== verification/Unwind_Walk.thy ===== *)
theory Unwind_Walk
  imports Sym_Index Proc_Maps
begin

unbundle bit_operations_syntax

text \<open>
  \<open>cfi_unwind_snapshot\<close> of \<open>src/src/common/symbolize.c\<close>: the call stack of a thread from the registers and the piece of its stack that the
  kernel-side program captured. For each frame it finds the mapping of the program counter, the load base of its
  module, the module's unwind section, and takes one unwind step.

  \<^item> \<open>system\<close> collects the answers of the operating system and the libraries; \<open>us_t\<close> counts the questions;
  \<^item> the two output arrays are the list of program counters and stack pointers; \<open>out_diags\<close> is a list, or \<open>None\<close> for the null pointer;
  \<^item> the process evicted from the cache of mappings is returned, for \<open>pm_evict_pid\<close>;
  \<^item> the global lock makes a walk one step.
\<close>

record system =
  sys_al :: allocator
  sys_now :: "nat \<Rightarrow> int"
  sys_maps :: "nat \<Rightarrow> int \<Rightarrow> maps_file"
  sys_fopen :: "nat \<Rightarrow> string \<Rightarrow> bytes option"
  sys_xz :: "bytes \<Rightarrow> nat \<Rightarrow> lzma_ret"
  sys_qsort :: "cfi_fde list \<Rightarrow> cfi_fde list"
  sys_malloc :: "nat \<Rightarrow> bool"

record stack_snapshot =
  sn_pc :: u64
  sn_sp :: u64
  sn_regs :: "u64 list"
  sn_len :: u32
  sn_snap :: bytes

record snap_diag =
  sd_module_pc :: u64
  sd_load_base :: u64
  sd_elf_off :: u64
  sd_path :: string
  sd_step :: cfi_step_diag

record unwind_state =
  us_pm :: "procmaps list"
  us_cfi :: "cfimod elf_cache"
  us_t :: nat

definition unwind_regs_from_snapshot :: "stack_snapshot \<Rightarrow> frame" where
  "unwind_regs_from_snapshot s = \<lparr>fx = sn_regs s, fsp = sn_sp s, fpc = sn_pc s\<rparr>"

text \<open>Writing to \<open>out_diags[i]\<close>, when there is such an array.\<close>

definition set_diag :: "nat \<Rightarrow> (snap_diag \<Rightarrow> snap_diag) \<Rightarrow> snap_diag list option \<Rightarrow> snap_diag list option option" where
  "set_diag i f dgs =
     (case dgs of None \<Rightarrow> Some None | Some ds \<Rightarrow> if i < length ds then Some (Some (ds[i := f (ds ! i)])) else None)"

definition diag_stop :: "cfi_stop_reason \<Rightarrow> snap_diag \<Rightarrow> snap_diag" where
  "diag_stop why d = d\<lparr>sd_step := (sd_step d)\<lparr>stop_reason := why\<rparr>\<rparr>"

text \<open>The mapping of a program counter, with the throttled second reading and one that ignores the throttle.\<close>

definition find_frame_mapping :: "system \<Rightarrow> u64 \<Rightarrow> bool \<Rightarrow> procmaps \<times> nat \<Rightarrow> nat option \<times> bool \<times> procmaps \<times> nat" where
  "find_frame_mapping sys pc forced st =
     (case find_mapping_refresh (sys_al sys) (sys_now sys) (sys_maps sys) pc st of
        (Some h, st) \<Rightarrow> (Some h, forced, st)
      | (None, st) \<Rightarrow>
          if forced then (None, forced, st)
          else let (pm, t) = read_proc_maps (sys_al sys) (sys_now sys) (sys_maps sys) st in (find_mapping pm pc, True, pm, t))"

fun unwind_loop ::
  "system \<Rightarrow> int \<Rightarrow> stack_snapshot \<Rightarrow> nat \<Rightarrow> nat option \<Rightarrow> nat \<Rightarrow> bool \<Rightarrow> frame \<Rightarrow> (u64 \<times> u64) list \<Rightarrow> snap_diag list option \<Rightarrow> unwind_state \<Rightarrow>
   ((u64 \<times> u64) list \<times> snap_diag list option \<times> unwind_state) option" where
  "unwind_loop sys pid snap mx p 0 forced fr out dgs st = Some (out, dgs, st)"
| "unwind_loop sys pid snap mx p (Suc k) forced fr out dgs st =
     (let i = length out; out = out @ [(fpc fr, fsp fr)]; pc = fpc fr in
      if length out \<ge> mx then Some (out, dgs, st)
      else if pc = 0 then do { dgs \<leftarrow> set_diag i (diag_stop CFI_SNAP_PC_ZERO) dgs; Some (out, dgs, st) }
      else case p of
        None \<Rightarrow> do { dgs \<leftarrow> set_diag i (diag_stop CFI_SNAP_NO_MAPPING) dgs; Some (out, dgs, st) }
      | Some j \<Rightarrow>
          (case find_frame_mapping sys pc forced (us_pm st ! j, us_t st) of
             (None, forced, pm, t) \<Rightarrow> do {
               dgs \<leftarrow> set_diag i (diag_stop CFI_SNAP_NO_MAPPING) dgs;
               Some (out, dgs, st\<lparr>us_pm := (us_pm st)[j := pm], us_t := t\<rparr>)
             }
           | (Some h, forced, pm, t) \<Rightarrow> do {
               let ml = pm_m pm ! h;
               let (load_base, elf_off, base_end) = module_base pm h;
               (sec, cfi, t) \<leftarrow> cfi_get (sys_al sys) (sys_xz sys) (sys_qsort sys) (sys_malloc sys) (sys_fopen sys)
                 (ml_path ml) elf_off load_base pid (ml_start ml) (ml_end ml) (us_cfi st, t);
               let st = st\<lparr>us_pm := (us_pm st)[j := pm], us_cfi := cfi, us_t := t\<rparr>;
               let seen = (\<lambda>d. d\<lparr>sd_module_pc := pc - load_base, sd_load_base := load_base, sd_elf_off := elf_off, sd_path := snprintf 256 (ml_path ml)\<rparr>);
               (case sec of
                  None \<Rightarrow> do { dgs \<leftarrow> set_diag i (diag_stop CFI_SNAP_CFI_GET_NULL \<circ> seen) dgs; Some (out, dgs, st) }
                | Some s \<Rightarrow> do {
                    (ok, fr, d) \<leftarrow> cfi_step s (pc - load_base) fr (sn_snap snap) (sn_sp snap) (unat (sn_len snap));
                    dgs \<leftarrow> set_diag i (\<lambda>x. (seen x)\<lparr>sd_step := d\<rparr>) dgs;
                    (if ok then unwind_loop sys pid snap mx p k forced fr out dgs st else Some (out, dgs, st))
                  })
             }))"

definition cfi_unwind_snapshot ::
  "system \<Rightarrow> int \<Rightarrow> stack_snapshot \<Rightarrow> nat \<Rightarrow> snap_diag list option \<Rightarrow> unwind_state \<Rightarrow>
   ((u64 \<times> u64) list \<times> snap_diag list option \<times> int option \<times> unwind_state) option" where
  "cfi_unwind_snapshot sys pid snap mx dgs st =
     (case pm_get (sys_al sys) (sys_now sys) (sys_maps sys) pid (us_pm st, us_t st) of
        (p, ev, pms, t) \<Rightarrow> do {
          (out, dgs, st) \<leftarrow> unwind_loop sys pid snap mx p (min mx 256) False (unwind_regs_from_snapshot snap) [] dgs (st\<lparr>us_pm := pms, us_t := t\<rparr>);
          Some (out, dgs, ev, st)
        })"


section \<open>One step\<close>

lemma read64_take: "n \<le> length stack \<Longrightarrow> read64 (take n stack) base n addr = read64 stack base n addr"
  by (auto simp: read64_def load_le_def load_bytes_def drop_take min_def)

lemma restore_regs_take: "n \<le> length stack \<Longrightarrow> restore_regs (take n stack) base n cfa rules vs = restore_regs stack base n cfa rules vs"
proof (induction rules arbitrary: vs)
  case (Cons rule rules)
  then show ?case by (cases vs) (simp_all add: read64_take)
qed simp

lemma cfi_step_take: "n \<le> length stack \<Longrightarrow> cfi_step s pc fr (take n stack) base n = cfi_step s pc fr stack base n"
  by (simp only: cfi_step_def read64_take restore_regs_take)

text \<open>What a step of the walk establishes: the next frame is the row of a well-formed section, for the address within the module
  that the mappings of the process give, applied to the captured stack.\<close>

definition steps_to :: "int \<Rightarrow> stack_snapshot \<Rightarrow> frame \<Rightarrow> frame \<Rightarrow> bool" where
  "steps_to pid snap f g \<longleftrightarrow>
     (\<exists>pm h s row. pm_pid pm = pid \<and> find_mapping pm (fpc f) = Some h \<and> section_wf s \<and>
        cfi_run_program s (fpc f - fst (module_base pm h)) = Some (Rc_ok row) \<and>
        unwind_row row (take (unat (sn_len snap)) (sn_snap snap)) (sn_sp snap) f = Some g)"

lemma cfi_step_walk:
  assumes "section_wf s" "length (fx fr) = CFI_NREG" "n \<le> length stack"
  shows "\<exists>ok fr' d. cfi_step s pc fr stack base n = Some (ok, fr', d) \<and> length (fx fr') = CFI_NREG \<and>
    (ok \<longrightarrow> (\<exists>row. cfi_run_program s pc = Some (Rc_ok row) \<and> unwind_row row (take n stack) base fr = Some fr'))"
proof -
  let ?w = "take n stack"
  have n: "length ?w = n" using assms(3) by simp
  obtain r where r: "cfi_run_program s pc = Some r" "\<And>st. r = Rc_ok st \<Longrightarrow> st_ok st"
    using safe_cfi_run_program [OF assms(1), of pc] by (auto simp: safe_iff)
  have e: "cfi_step s pc fr stack base n = cfi_step s pc fr ?w base (length ?w)" using cfi_step_take [OF assms(3), of s pc fr base] n by (simp only:)
  show ?thesis
  proof (cases r)
    case Rc_err
    then show ?thesis using r(1) cfi_step_no_row [of s pc fr ?w base] assms(2) unfolding e by (auto simp: safe_iff step_refines_def)
  next
    case (Rc_ok row)
    then have st: "st_ok row" using r(2) by simp
    have "unwind_row row ?w base fr = Some g \<Longrightarrow> length (fx g) = CFI_NREG" for g
      using st assms(2) by (auto simp: unwind_row_def st_ok_def split: option.splits if_splits)
    then show ?thesis using cfi_step_row [OF _ st assms(2), of s pc ?w base] r(1) Rc_ok assms(2) unfolding e
      by (auto simp: safe_iff step_refines_def split: option.splits)
  qed
qed

section \<open>The walk\<close>

text \<open>What the system has to guarantee where the code does not check: every file, at every offset it is mapped at, keeps the end of its
  name table representable and terminated; the library's sort sorts; paths are shorter than the line parser's buffer; there is memory.\<close>

definition line_ok :: "u64 set \<Rightarrow> map_line \<Rightarrow> bool" where
  "line_ok offs ml \<longleftrightarrow> ml_off ml \<in> offs \<and> length (ml_path ml) < 256"

definition sys_ok :: "system \<Rightarrow> u64 set \<Rightarrow> bool" where
  "sys_ok sys offs \<longleftrightarrow>
     (\<forall>t pid mls. sys_maps sys t pid = Maps_lines mls \<longrightarrow> list_all (line_ok offs) mls) \<and>
     (\<forall>t p f. sys_fopen sys t p = Some f \<longrightarrow> (\<forall>off \<in> offs. image_ok f off)) \<and>
     qsort_impl pc_lo (sys_qsort sys) \<and> xz_ok (sys_xz sys) \<and> (\<forall>n. sys_malloc sys n \<longrightarrow> n < 2 ^ 63) \<and> (\<forall>n. sys_al sys n \<noteq> None)"

definition us_ok :: "u64 set \<Rightarrow> unwind_state \<Rightarrow> bool" where
  "us_ok offs st \<longleftrightarrow> pms_ok (us_pm st) \<and> list_all (\<lambda>pm. list_all (line_ok offs) (pm_m pm)) (us_pm st) \<and> cfi_cache_ok (us_cfi st)"

lemma read_proc_maps_lines:
  assumes "sys_ok sys offs" "read_proc_maps (sys_al sys) (sys_now sys) (sys_maps sys) (pm, t) = (pm', t')"
  shows "list_all (line_ok offs) (pm_m pm')"
proof -
  have "list_all (line_ok offs) (case sys_maps sys t (pm_pid pm) of Maps_lines mls \<Rightarrow> mls | _ \<Rightarrow> [])"
    using assms(1) by (auto simp: sys_ok_def split: maps_file.splits)
  then show ?thesis using read_proc_maps_keeps(6) [OF assms(2)] by (auto simp: list_all_iff dest!: in_set_takeD)
qed

lemma find_frame_mapping_ok:
  assumes "sys_ok sys offs" "list_all (line_ok offs) (pm_m pm)" "length (pm_m pm) \<le> pm_cap pm"
    "find_frame_mapping sys pc forced (pm, t) = (r, forced', pm', t')"
  shows "list_all (line_ok offs) (pm_m pm')" "length (pm_m pm') \<le> pm_cap pm'" "pm_pid pm' = pm_pid pm" "r = find_mapping pm' pc"
proof -
  obtain r1 pm1 t1 where f: "find_mapping_refresh (sys_al sys) (sys_now sys) (sys_maps sys) pc (pm, t) = (r1, pm1, t1)" by (metis prod_cases3)
  have one: "list_all (line_ok offs) (pm_m pm1) \<and> length (pm_m pm1) \<le> pm_cap pm1 \<and> pm_pid pm1 = pm_pid pm \<and> r1 = find_mapping pm1 pc"
  proof (cases "find_mapping pm pc = None \<and> sys_now sys t - last_read_ms pm > REFRESH_MS")
    case True
    then obtain u where "read_proc_maps (sys_al sys) (sys_now sys) (sys_maps sys) (pm, t + 1) = (pm1, u)" "r1 = find_mapping pm1 pc"
      using f by (auto simp: find_mapping_refresh_def split: prod.splits)
    then show ?thesis using read_proc_maps_lines [OF assms(1)] read_proc_maps_keeps(1,3) by metis
  next
    case False
    then show ?thesis using f assms(2,3) by (auto simp: find_mapping_refresh_def split: option.splits)
  qed
  obtain pm2 t2 where r2: "read_proc_maps (sys_al sys) (sys_now sys) (sys_maps sys) (pm1, t1) = (pm2, t2)" by (metis surj_pair)
  note two = read_proc_maps_lines [OF assms(1) r2] read_proc_maps_keeps(1,3) [OF r2]
  show "list_all (line_ok offs) (pm_m pm')" "length (pm_m pm') \<le> pm_cap pm'" "pm_pid pm' = pm_pid pm" "r = find_mapping pm' pc"
    using assms(4) f one two r2 by (auto simp: find_frame_mapping_def split: option.splits if_splits)
qed


text \<open>The frames after \<open>fr\<close>: each is reached from the one before by a step.\<close>

fun chain :: "int \<Rightarrow> stack_snapshot \<Rightarrow> frame list \<Rightarrow> bool" where
  "chain pid snap (f # g # fs) \<longleftrightarrow> steps_to pid snap f g \<and> chain pid snap (g # fs)"
| "chain pid snap _ \<longleftrightarrow> True"

lemma set_diag_ok:
  assumes "\<And>ds. dgs = Some ds \<Longrightarrow> mx \<le> length ds" "i < mx"
  shows "\<exists>dgs'. set_diag i f dgs = Some dgs' \<and> (\<forall>ds. dgs' = Some ds \<longrightarrow> mx \<le> length ds)"
  using assms by (cases dgs) (auto simp: set_diag_def)

lemma us_ok_update:
  assumes "us_ok offs st" "j < length (us_pm st)" "list_all (line_ok offs) (pm_m pm)" "length (pm_m pm) \<le> pm_cap pm" "pm_pid pm = pm_pid (us_pm st ! j)"
    "cfi_cache_ok c"
  shows "us_ok offs (st\<lparr>us_pm := (us_pm st)[j := pm], us_cfi := c, us_t := t\<rparr>)"
  using assms pms_ok_update [of "us_pm st" j pm] set_update_subset_insert [of "us_pm st" j pm] by (auto simp: us_ok_def list_all_iff)

lemma line_ok_base:
  assumes "list_all (line_ok offs) (pm_m pm)" "find_mapping pm pc = Some h"
  shows "length (ml_path (pm_m pm ! h)) < 256" "fst (snd (module_base pm h)) \<in> offs"
proof -
  have h: "h < length (pm_m pm)" using find_mapping_loop_sound [of "length (pm_m pm)" "pm_m pm" pc 0 h] assms(2) by (simp add: find_mapping_def)
  then have "anubee_module_base_idx (pm_m pm) h < length (pm_m pm)" using base_idx_props [of "pm_m pm" h] by simp
  then show "length (ml_path (pm_m pm ! h)) < 256" "fst (snd (module_base pm h)) \<in> offs"
    using assms(1) h by (auto simp: list_all_length line_ok_def module_base_def Let_def)
qed

declare unwind_loop.simps(2) [simp del]

lemma unwind_loop_ok:
  assumes "sys_ok sys offs" "unat (sn_len snap) \<le> length (sn_snap snap)"
  shows "us_ok offs st \<Longrightarrow> length (fx fr) = CFI_NREG \<Longrightarrow> (\<And>j. p = Some j \<Longrightarrow> j < length (us_pm st) \<and> pm_pid (us_pm st ! j) = pid) \<Longrightarrow>
    (\<And>ds. dgs = Some ds \<Longrightarrow> mx \<le> length ds) \<Longrightarrow> length out + k \<le> mx \<Longrightarrow> 0 < k \<Longrightarrow>
    \<exists>fs dgs' st'. unwind_loop sys pid snap mx p k forced fr out dgs st = Some (out @ map (\<lambda>f. (fpc f, fsp f)) (fr # fs), dgs', st') \<and>
      length (fr # fs) \<le> k \<and> chain pid snap (fr # fs) \<and> us_ok offs st'"
proof (induction k arbitrary: forced fr out dgs st)
  case (Suc k)
  let ?out = "out @ [(fpc fr, fsp fr)]"
  have stop: ?case if "unwind_loop sys pid snap mx p (Suc k) forced fr out dgs st = Some (?out, d, s)" "us_ok offs s" for d s
    using that by (intro exI [of _ "[]"] exI [of _ d] exI [of _ s]) simp
  have i: "length out < mx" using Suc.prems(5) by simp
  note diag = set_diag_ok [OF Suc.prems(4) i]
  show ?case
  proof (cases "length ?out \<ge> mx \<or> fpc fr = 0 \<or> p = None")
    case True
    obtain d1 d2 where "set_diag (length out) (diag_stop CFI_SNAP_PC_ZERO) dgs = Some d1" "set_diag (length out) (diag_stop CFI_SNAP_NO_MAPPING) dgs = Some d2"
      using diag by blast
    then have "\<exists>d. unwind_loop sys pid snap mx p (Suc k) forced fr out dgs st = Some (?out, d, st)" using True by (auto simp: unwind_loop.simps(2) Let_def)
    then show ?thesis using stop [OF _ Suc.prems(1)] by blast
  next
    case False
    then obtain j where p: "p = Some j" "j < length (us_pm st)" "pm_pid (us_pm st ! j) = pid" using Suc.prems(3) by auto
    have old: "list_all (line_ok offs) (pm_m (us_pm st ! j))" "length (pm_m (us_pm st ! j)) \<le> pm_cap (us_pm st ! j)" "cfi_cache_ok (us_cfi st)"
      using Suc.prems(1) p(2) by (auto simp: us_ok_def pms_ok_def list_all_length)
    obtain r forced1 pm t where f: "find_frame_mapping sys (fpc fr) forced (us_pm st ! j, us_t st) = (r, forced1, pm, t)" by (metis prod_cases4)
    note fm = find_frame_mapping_ok [OF assms(1) old(1,2) f]
    show ?thesis
    proof (cases r)
      case None
      obtain d where "set_diag (length out) (diag_stop CFI_SNAP_NO_MAPPING) dgs = Some d" using diag by blast
      then show ?thesis using False p f None us_ok_update [OF Suc.prems(1) p(2) fm(1,2) _ old(3), of t] fm(3) by (intro stop [of d "st\<lparr>us_pm := (us_pm st)[j := pm], us_t := t\<rparr>"]) (simp_all add: unwind_loop.simps(2) Let_def)
    next
      case (Some h)
      obtain lb eo be where mb: "module_base pm h = (lb, eo, be)" by (metis prod_cases3)
      let ?ml = "pm_m pm ! h"
      have l: "length (ml_path ?ml) < 256" "eo \<in> offs" using line_ok_base [OF fm(1), of "fpc fr" h] fm(4) Some mb by simp_all
      have files: "\<forall>n p f. sys_fopen sys n p = Some f \<longrightarrow> image_ok f eo" using assms(1) l(2) by (auto simp: sys_ok_def)
      obtain sec c u where g: "cfi_get (sys_al sys) (sys_xz sys) (sys_qsort sys) (sys_malloc sys) (sys_fopen sys) (ml_path ?ml) eo lb pid (ml_start ?ml) (ml_end ?ml) (us_cfi st, t) = Some (sec, c, u)"
        "cfi_cache_ok c" "\<And>s. sec = Some s \<Longrightarrow> section_wf s"
        using cfi_get_ok [OF old(3) _ _ _ files l(1)] assms(1) unfolding sys_ok_def by metis
      let ?st = "st\<lparr>us_pm := (us_pm st)[j := pm], us_cfi := c, us_t := u\<rparr>"
      have st: "us_ok offs ?st" using us_ok_update [OF Suc.prems(1) p(2) fm(1,2) fm(3) g(2)] .
      let ?seen = "\<lambda>d. d\<lparr>sd_module_pc := fpc fr - lb, sd_load_base := lb, sd_elf_off := eo, sd_path := snprintf 256 (ml_path ?ml)\<rparr>"
      show ?thesis
      proof (cases sec)
        case None
        obtain d where "set_diag (length out) (diag_stop CFI_SNAP_CFI_GET_NULL \<circ> ?seen) dgs = Some d" using diag by blast
        then show ?thesis using False p f Some mb g(1) None st by (intro stop [of d ?st]) (simp_all add: unwind_loop.simps(2) Let_def)
      next
        case sec: (Some s)
        obtain ok fr1 d where c: "cfi_step s (fpc fr - lb) fr (sn_snap snap) (sn_sp snap) (unat (sn_len snap)) = Some (ok, fr1, d)" "length (fx fr1) = CFI_NREG"
          "ok \<Longrightarrow> \<exists>row. cfi_run_program s (fpc fr - lb) = Some (Rc_ok row) \<and> unwind_row row (take (unat (sn_len snap)) (sn_snap snap)) (sn_sp snap) fr = Some fr1"
          using cfi_step_walk [OF g(3) [OF sec] Suc.prems(2) assms(2)] by blast
        obtain dgs1 where d1: "set_diag (length out) (\<lambda>x. (?seen x)\<lparr>sd_step := d\<rparr>) dgs = Some dgs1" "\<And>ds. dgs1 = Some ds \<Longrightarrow> mx \<le> length ds" using diag by blast
        have eq: "unwind_loop sys pid snap mx p (Suc k) forced fr out dgs st =
            (if ok then unwind_loop sys pid snap mx p k forced1 fr1 ?out dgs1 ?st else Some (?out, dgs1, ?st))"
          using False p f Some mb g(1) sec c(1) d1(1) by (simp add: unwind_loop.simps(2) Let_def)
        show ?thesis
        proof (cases "ok \<and> 0 < k")
          case True
          then have "0 < k" by simp
          moreover have "j' < length (us_pm ?st) \<and> pm_pid (us_pm ?st ! j') = pid" if "p = Some j'" for j' using that p fm(3) by simp
          ultimately obtain fs dgs' st' where n: "unwind_loop sys pid snap mx p k forced1 fr1 ?out dgs1 ?st = Some (?out @ map (\<lambda>f. (fpc f, fsp f)) (fr1 # fs), dgs', st')"
            "length (fr1 # fs) \<le> k" "chain pid snap (fr1 # fs)" "us_ok offs st'"
            using Suc.IH [OF st c(2) _ d1(2), where out = ?out and forced = forced1 and dgs = dgs1] Suc.prems(5) by auto
          have "steps_to pid snap fr fr1" using c(3) True g(3) [OF sec] fm(3,4) p(3) Some mb unfolding steps_to_def by (metis fst_conv)
          then show ?thesis using eq n True by (intro exI [of _ "fr1 # fs"] exI [of _ dgs'] exI [of _ st']) simp
        next
          case False
          then show ?thesis using eq st by (cases k) (auto intro!: stop [of dgs1 ?st])
        qed
      qed
    qed
  qed
qed simp


lemma pm_get_lines:
  assumes "sys_ok sys offs" "list_all (\<lambda>pm. list_all (line_ok offs) (pm_m pm)) pms"
    "pm_get (sys_al sys) (sys_now sys) (sys_maps sys) pid (pms, t) = (r, ev, pms', t')"
  shows "list_all (\<lambda>pm. list_all (line_ok offs) (pm_m pm)) pms'"
proof -
  let ?P = "\<lambda>pm. list_all (line_ok offs) (pm_m pm)"
  have upd: "list_all ?P (pms[i := pm])" if "?P pm" for i pm
    using assms(2) that set_update_subset_insert [of pms i pm] by (auto simp: list_all_iff)
  note rd = read_proc_maps_lines [OF assms(1)]
  show ?thesis
  proof (cases "pm_index pms pid")
    case (Some i)
    then have "?P (pms ! i)" using assms(2) pm_index_Some [OF Some] by (simp add: list_all_length)
    then show ?thesis using assms(3) Some upd [of "(pms ! i)\<lparr>last_used_ms := sys_now sys t\<rparr>" i] by (auto simp: pm_get_def Let_def)
  next
    case None
    then show ?thesis using assms(2,3) upd rd by (auto simp: pm_get_def Let_def split: if_splits option.splits prod.splits)
  qed
qed



text \<open>A process with one library mapped, whose file is the sample image of the unwind sections.\<close>

definition sample_system :: system where
  "sample_system = \<lparr>sys_al = (\<lambda>_. Some (\<lambda>_. 0)), sys_now = int,
     sys_maps = (\<lambda>_ pid. if pid = 7 then Maps_lines [\<lparr>ml_start = 0x10000, ml_end = 0x20000, ml_off = 0, ml_exec = True, ml_path = ''/lib.so''\<rparr>] else Maps_enoent),
     sys_fopen = (\<lambda>_ p. if p = ''/lib.so'' then Some sample_elf else None), sys_xz = (\<lambda>_ _. LZMA_OTHER),
     sys_qsort = sort_key pc_lo, sys_malloc = (\<lambda>n. n < 1000)\<rparr>"

definition sample_snapshot :: stack_snapshot where
  "sample_snapshot = \<lparr>sn_pc = 0x11000, sn_sp = 0x7000, sn_regs = replicate 31 0, sn_len = 16, sn_snap = replicate 16 0\<rparr>"

definition start_state :: unwind_state where
  "start_state = \<lparr>us_pm = [], us_cfi = empty_cache, us_t = 0\<rparr>"

lemma sample_image_ok: "image_ok sample_elf 0"
proof -
  have "dbg_names_ok sample_elf" by code_simp
  then show ?thesis using sample_elf_ok by (simp add: image_ok_def)
qed


end
