(* ===== verification/Sym_Cache.thy ===== *)
theory Sym_Cache
  imports Probe_Table Elf_Syms C_Text
begin

unbundle bit_operations_syntax

text \<open>
  \<open>src/src/common/symbolize.c\<close>, first part: the cache from process and address to the text of a symbol. It is an open-addressing table
  that doubles up to \<open>2 ^ 18\<close> slots and is cleared when it would outgrow that.

  \<open>al t\<close> is the answer to the allocation that is the \<open>t\<close>-th question to the system; \<open>None\<close> is a search for a slot that does not end.
\<close>

record sc_ent =
  sc_addr :: u64
  sc_pid :: int
  sc_used :: bool
  sc_sym :: string

record symcache =
  g_sc :: "sc_ent list"
  g_sc_used :: nat

abbreviation SC_STR :: nat where "SC_STR \<equiv> 120"
abbreviation SC_MAX_CAP :: nat where "SC_MAX_CAP \<equiv> 2 ^ 18"

definition sc_empty :: sc_ent where
  "sc_empty = \<lparr>sc_addr = 0, sc_pid = 0, sc_used = False, sc_sym = ''''\<rparr>"

definition sc_start :: symcache where "sc_start = \<lparr>g_sc = [], g_sc_used = 0\<rparr>"

definition sc_hash :: "int \<Rightarrow> u64 \<Rightarrow> u64" where
  "sc_hash pid addr =
     (let h = addr XOR (ucast (word_of_int pid :: u32) * 0x9e3779b97f4a7c15); h = h * 0xbf58476d1ce4e5b9
      in h XOR drop_bit 31 h)"

abbreviation sc_key :: "sc_ent \<Rightarrow> int \<times> u64" where "sc_key e \<equiv> (sc_pid e, sc_addr e)"
abbreviation sc_home :: "int \<times> u64 \<Rightarrow> nat" where "sc_home k \<equiv> unat (sc_hash (fst k) (snd k))"

definition sc_clear :: "symcache \<Rightarrow> symcache" where
  "sc_clear s = \<lparr>g_sc = replicate (length (g_sc s)) sc_empty, g_sc_used = 0\<rparr>"

definition sc_get :: "int \<Rightarrow> u64 \<Rightarrow> nat \<Rightarrow> symcache \<Rightarrow> string option" where
  "sc_get pid addr outsz s =
     map_option (\<lambda>i. snprintf outsz (sc_sym (g_sc s ! i))) (lp_find sc_used sc_key sc_home (g_sc s) (pid, addr))"

definition sc_grow :: "allocator \<Rightarrow> symcache \<times> nat \<Rightarrow> (symcache \<times> nat) option" where
  "sc_grow al = (\<lambda>(s, t).
     (if (g_sc_used s + 1) * 4 \<ge> length (g_sc s) * 3 then
        if length (g_sc s) \<ge> SC_MAX_CAP then Some (sc_clear s, t)
        else case al t of
          None \<Rightarrow> Some (s, t + 1)
        | Some _ \<Rightarrow> do {
            ng \<leftarrow> lp_rehash sc_used (\<lambda>e. sc_home (sc_key e)) (g_sc s) (replicate (2 * length (g_sc s)) sc_empty);
            Some (s\<lparr>g_sc := ng\<rparr>, t + 1)
          }
      else Some (s, t)))"

definition sc_put :: "allocator \<Rightarrow> int \<Rightarrow> u64 \<Rightarrow> string \<Rightarrow> symcache \<times> nat \<Rightarrow> (symcache \<times> nat) option" where
  "sc_put al pid addr txt = (\<lambda>(s, t).
     (if g_sc s = [] \<and> al t = None then Some (s, t + 1)
      else do {
        let (s, t) = (if g_sc s = [] then (s\<lparr>g_sc := replicate (2 ^ 16) sc_empty\<rparr>, t + 1) else (s, t));
        (s, t) \<leftarrow> sc_grow al (s, t);
        i \<leftarrow> lp_slot sc_used sc_key sc_home (g_sc s) (pid, addr);
        Some (\<lparr>g_sc = (g_sc s)[i := \<lparr>sc_addr = addr, sc_pid = pid, sc_used = True, sc_sym = snprintf SC_STR txt\<rparr>],
          g_sc_used = (if sc_used (g_sc s ! i) then g_sc_used s else g_sc_used s + 1)\<rparr>, t)
      }))"

section \<open>The cache is a map\<close>

interpretation sct: probing sc_used sc_key sc_home sc_sym sc_empty
  by unfold_locales (simp add: sc_empty_def)

text \<open>What the cache holds, and its invariant.\<close>

definition sc_map :: "symcache \<Rightarrow> int \<times> u64 \<rightharpoonup> string" where
  "sc_map s k = map_option (\<lambda>i. sc_sym (g_sc s ! i)) (lp_find sc_used sc_key sc_home (g_sc s) k)"

definition sc_ok :: "symcache \<Rightarrow> bool" where
  "sc_ok s \<longleftrightarrow> (g_sc s = [] \<and> g_sc_used s = 0) \<or>
     (pow2_len (g_sc s) \<and> 4 \<le> length (g_sc s) \<and> sct.chained (g_sc s) \<and> g_sc_used s = card (sct.slots (g_sc s)))"

lemma sc_map_tmap: "sc_map s = sct.tmap (g_sc s)"
  by (intro ext) (simp add: sc_map_def sct.tmap_def)

lemma sc_get_map: "sc_get pid addr outsz s = map_option (snprintf outsz) (sc_map s (pid, addr))"
  by (simp add: sc_get_def sc_map_def option.map_comp comp_def)

lemma sc_empty_table:
  assumes "pow2_len t" "4 \<le> length t"
  shows "sc_ok \<lparr>g_sc = replicate (length t) sc_empty, g_sc_used = 0\<rparr>" "sc_map \<lparr>g_sc = replicate (length t) sc_empty, g_sc_used = 0\<rparr> = Map.empty"
proof -
  obtain k where k: "length t = 2 ^ k" using assms(1) by (auto simp: pow2_len_def)
  then show "sc_ok \<lparr>g_sc = replicate (length t) sc_empty, g_sc_used = 0\<rparr>"
    using assms(2) sct.empty_table(1) [of k] sct.empty_table(2,4) [of "2 ^ k"] by (simp add: sc_ok_def)
  show "sc_map \<lparr>g_sc = replicate (length t) sc_empty, g_sc_used = 0\<rparr> = Map.empty"
    using sct.tmap_empty [of k] k by (simp add: sc_map_tmap)
qed

text \<open>The cache starts with nothing in it, and clearing it leaves nothing.\<close>

lemma sc_start_empty: "sc_ok sc_start \<and> sc_map sc_start = Map.empty"
  by (simp add: sc_ok_def sc_map_def sc_start_def fun_eq_iff lp_find_def lp_slot_def)

lemma sc_clear_empty: "sc_ok s \<Longrightarrow> sc_ok (sc_clear s) \<and> sc_map (sc_clear s) = Map.empty"
  using sc_empty_table [of "g_sc s"] by (auto simp: sc_ok_def sc_clear_def sc_map_tmap)

lemma sc_grow_ok:
  assumes "pow2_len (g_sc s)" "4 \<le> length (g_sc s)" "sc_ok s" "\<forall>n. al n \<noteq> None"
  shows "\<exists>s' t'. sc_grow al (s, t) = Some (s', t') \<and> pow2_len (g_sc s') \<and> 4 \<le> length (g_sc s') \<and> sc_ok s' \<and> g_sc_used s' < length (g_sc s') \<and>
    (sc_map s' = sc_map s \<or> sc_map s' = Map.empty)"
proof -
  have c: "sct.chained (g_sc s)" "g_sc_used s = card (sct.slots (g_sc s))" using assms(2,3) by (auto simp: sc_ok_def)
  consider (fits) "\<not> (g_sc_used s + 1) * 4 \<ge> length (g_sc s) * 3" | (clear) "(g_sc_used s + 1) * 4 \<ge> length (g_sc s) * 3" "length (g_sc s) \<ge> SC_MAX_CAP"
    | (double) "(g_sc_used s + 1) * 4 \<ge> length (g_sc s) * 3" "\<not> length (g_sc s) \<ge> SC_MAX_CAP" by blast
  then show ?thesis
  proof cases
    case fits
    then have "sc_grow al (s, t) = Some (s, t)" "g_sc_used s < length (g_sc s)" by (simp_all add: sc_grow_def)
    then show ?thesis using assms by blast
  next
    case clear
    then have "sc_grow al (s, t) = Some (sc_clear s, t)" by (simp add: sc_grow_def)
    moreover have "pow2_len (g_sc (sc_clear s))" "4 \<le> length (g_sc (sc_clear s))" "g_sc_used (sc_clear s) < length (g_sc (sc_clear s))"
      using assms(1,2) by (auto simp: sc_clear_def pow2_len_def)
    ultimately show ?thesis using sc_clear_empty [OF assms(3)] by blast
  next
    case double
    obtain ng where ng: "sct.rehash (g_sc s) (replicate (2 * length (g_sc s)) sc_empty) = Some ng" "pow2_len ng" "length ng = 2 * length (g_sc s)" "sct.chained ng"
      "sct.tmap ng = sct.tmap (g_sc s)" "card (sct.slots ng) = card (sct.slots (g_sc s))" "card (sct.slots ng) < length ng"
      using sct.double_table [OF assms(1) c(1)] assms(2) by auto
    obtain f where f: "al t = Some f" using assms(4) by blast
    have "sc_grow al (s, t) = Some (s\<lparr>g_sc := ng\<rparr>, t + 1)" using double f ng(1) by (simp add: sc_grow_def)
    moreover have "sc_ok (s\<lparr>g_sc := ng\<rparr>)" using ng assms(2) c(2) by (simp add: sc_ok_def)
    ultimately show ?thesis using ng assms(2) c(2) by (auto simp: sc_map_tmap)
  qed
qed

text \<open>With memory, storing a symbol always ends and keeps the table in order; afterwards the address has the text, cut to 119 characters, and the
  other addresses have what they had, or nothing at all when the table had to be cleared.\<close>

lemma sc_put_map:
  assumes "sc_ok s" "\<forall>n. al n \<noteq> None"
  shows "\<exists>s' t'. sc_put al pid addr txt (s, t) = Some (s', t') \<and> sc_ok s' \<and>
    (sc_map s' = (sc_map s)((pid, addr) \<mapsto> snprintf SC_STR txt) \<or> sc_map s' = [(pid, addr) \<mapsto> snprintf SC_STR txt])"
proof -
  define s1 where "s1 = (if g_sc s = [] then s\<lparr>g_sc := replicate (2 ^ 16) sc_empty\<rparr> else s)"
  define t1 where "t1 = (if g_sc s = [] then t + 1 else t)"
  have p16: "pow2_len (replicate (2 ^ 16) sc_empty)" by (auto simp: pow2_len_def intro: exI [of _ 16])
  have s1: "pow2_len (g_sc s1)" "4 \<le> length (g_sc s1)" "sc_ok s1" "sc_map s1 = sc_map s"
  proof -
    have "pow2_len (g_sc s1) \<and> 4 \<le> length (g_sc s1) \<and> sc_ok s1 \<and> sc_map s1 = sc_map s"
    proof (cases "g_sc s = []")
      case True
      then have "s1 = \<lparr>g_sc = replicate (2 ^ 16) sc_empty, g_sc_used = 0\<rparr>" using assms(1) by (auto simp: s1_def sc_ok_def pow2_len_def)
      then show ?thesis using p16 sc_empty_table [OF p16] True by (simp add: sc_map_tmap)
    qed (use assms(1) in \<open>auto simp: s1_def sc_ok_def\<close>)
    then show "pow2_len (g_sc s1)" "4 \<le> length (g_sc s1)" "sc_ok s1" "sc_map s1 = sc_map s" by auto
  qed
  obtain s2 t2 where g: "sc_grow al (s1, t1) = Some (s2, t2)" "pow2_len (g_sc s2)" "4 \<le> length (g_sc s2)" "sc_ok s2" "g_sc_used s2 < length (g_sc s2)"
    "sc_map s2 = sc_map s1 \<or> sc_map s2 = Map.empty"
    using sc_grow_ok [OF s1(1-3) assms(2)] by blast
  have c: "sct.chained (g_sc s2)" "g_sc_used s2 = card (sct.slots (g_sc s2))" using g(3,4) by (auto simp: sc_ok_def)
  obtain i where i: "sct.slot (g_sc s2) (pid, addr) = Some i" using sct.slot_free [OF g(2)] g(5) c(2) by auto
  let ?x = "\<lparr>sc_addr = addr, sc_pid = pid, sc_used = True, sc_sym = snprintf SC_STR txt\<rparr>"
  let ?s = "\<lparr>g_sc = (g_sc s2)[i := ?x], g_sc_used = (if sc_used (g_sc s2 ! i) then g_sc_used s2 else g_sc_used s2 + 1)\<rparr>"
  have il: "i < length (g_sc s2)" using sct.slot_Some [OF g(2) i] by auto
  have k: "sct.slot (g_sc s2) (sc_key ?x) = Some i" using i by simp
  obtain f where "al t = Some f" using assms(2) by blast
  then have "sc_put al pid addr txt (s, t) = Some (?s, t2)"
    using g(1) i by (cases "g_sc s = []") (simp_all add: sc_put_def Let_def s1_def t1_def)
  moreover have "sc_ok ?s"
    using sct.chained_insert [OF g(2) c(1) k] sct.slots_insert [OF il, of ?x] g(2,3) c(2) by (simp add: sc_ok_def pow2_len_def)
  moreover have "sc_map ?s = (sc_map s2)((pid, addr) \<mapsto> snprintf SC_STR txt)" using sct.tmap_insert [OF g(2) c(1) k] by (simp add: sc_map_tmap)
  ultimately show ?thesis using g(6) s1(4) by auto
qed

end
