(* ===== verification/Spec2Isabelle.thy ===== *)
theory Spec2Isabelle
  imports Cfi_Unwind Evqueue Sha256 Flag_Decode Fd_Render Dump_Walk Dump_One Emit_Sink Span_Stack Dex Burst_Detect Exfil_Detect Sym_Jit Sym_Apk Unwind_Walk Sym_Cache
begin

text \<open>
  Anubee: a verification library for its user-space core and its span tracking.

  \<^bold>\<open>The program.\<close> Anubee traces Android processes. Kernel-side BPF programs watch system calls, library loads
  and function entries and returns, and send records through a ring buffer. A user-space process takes the
  records out, attributes each to a call stack, renders the arguments and writes one JSON object per event; it
  can also dump the loaded modules of a process and check them against the files they were loaded from. Most
  of what it reads is controlled by the traced program: ELF and DEX images, unwind tables, memory, names.

  \<^bold>\<open>The theories\<close>, with the files under \<open>src/src/\<close> they translate:

  \<^item> \<open>Anubee_Prelude\<close>: bytes, loads, \<open>size_t\<close> arithmetic, the predicate \<open>safe\<close> on the option monad, results, and
    the locale \<open>qsort_impl\<close> of the library's sort. \<open>C_Text\<close>: number conversions and \<open>snprintf\<close>.
  \<^item> \<open>Dwarf\<close> (\<open>common/dwarf.c\<close>): the bounds-checked cursor and both LEB128 readers.
  \<^item> \<open>Cfi_Section\<close> and \<open>Cfi_Unwind\<close> (\<open>common/cfi_unwind.c\<close>): finding the unwind section of an ELF image, parsing CIEs
    and FDEs into a sorted index, the lookup; the instruction interpreter and one unwind step.
  \<^item> \<open>Evqueue\<close> (\<open>common/evqueue.c\<close>): the byte ring between the thread that drains the kernel's buffer and the worker
    that prints, with push, pop, the worker's loop and their interleavings.
  \<^item> \<open>Sha256\<close> (\<open>common/sha256.c\<close>): streaming SHA-256.
  \<^item> \<open>Rebuild_Dyn\<close>, \<open>Rebuild_Shdr\<close>, \<open>Dump_One\<close>, \<open>Dump_Check\<close>, \<open>Dump_Walk\<close> (\<open>dump/rebuild.c\<close>, \<open>common/proc_mem.c\<close>,
    \<open>common/pattern_match.c\<close>): the dump. Reading process memory, the dynamic section, un-applying relocations,
    rebuilding section headers, assembling and writing the file; the digest comparison; module selection and
    the walk over the modules.
  \<^item> \<open>Flag_Decode\<close>, \<open>Fd_Render\<close> (\<open>common/decode.c\<close>): flags, modes, enumerations, signals and socket addresses, and
    the cache of descriptor paths.
  \<^item> \<open>Emit\<close>, \<open>Emit_Sink\<close> (\<open>common/emit.c\<close>, \<open>dump/dump_emit.c\<close>): the JSON buffer, the output sink and the dump records.
  \<^item> \<open>Span_Stack\<close> (\<open>common/span_stack.bpf.h\<close>, handlers of \<open>correlate/correlate.bpf.c\<close> and \<open>funcs/funcs.bpf.c\<close>): the
    per-thread stacks of running calls, kept in two BPF maps, that system calls are attributed to.
  \<^item> \<open>Dex\<close> (\<open>common/dex.c\<close>): from an offset in a DEX image to the Java method it belongs to.
  \<^item> \<open>Elf_Syms\<close>, \<open>Sym_Elf\<close>, \<open>Sym_Jit\<close>, \<open>Sym_Apk\<close> (\<open>common/sym_elf.c\<close>, \<open>sym_jit.c\<close>, \<open>sym_apk.c\<close>): the symbols of a module file from all
    its sources, those of code the Java runtime compiled, read from its memory, and the libraries inside an archive.
  \<^item> \<open>Probe_Table\<close>, \<open>Sym_Index\<close>, \<open>Proc_Maps\<close>, \<open>Sym_Cache\<close>, \<open>Unwind_Walk\<close> (\<open>common/sym_elf.c\<close>, \<open>sym_procmaps.c\<close>, \<open>symbolize.c\<close>): linear probing, the
    hash index over the caches of symbol tables and unwind sections, the mappings of each process, the cache of label texts, and the walk over the stack of a
    snapshot, which puts the unwinder and these caches together.
  \<^item> \<open>Bpf_Map\<close> and \<open>Bpf_Gate\<close> (\<open>common/uid_filter.bpf.h\<close>, \<open>pid_filter.bpf.h\<close>, \<open>follow_fork.bpf.h\<close>, \<open>path_gate.bpf.h\<close>): the
    kernel's hash maps, the target filters and the path tests of the kernel-side programs.
  \<^item> \<open>Burst_Window\<close> and \<open>Burst_Detect\<close> (\<open>modules/massdelete_detect.bpf.c\<close>, \<open>modules/accessibility_detect.bpf.c\<close> and their
    \<open>_classify.c\<close> files): the analyzers that count touches of a process in a window.
  \<^item> \<open>Exfil_Detect\<close> (\<open>modules/exfil_detect.bpf.c\<close>): the analyzer that adds up the bytes sent after a sensitive read.

  \<^bold>\<open>How they interact.\<close> The CFI reader is a client of the cursor and of \<open>qsort\<close>. The dump composes memory reads,
  the dynamic section, relocations and the section builder, and the check composes memory reads with the
  digest. The sink and the records are clients of the JSON buffer. Where one part relies on another only
  through its laws the laws are a locale (\<open>qsort_impl\<close>, the laws of open addressing \<open>probing\<close>, the collector of named
  symbols \<open>collector\<close>, the search for the last entry at or below an address \<open>floor_search\<close>, the writers' contract \<open>jb_writer\<close>, the bounded kernel
  map \<open>bpf_hash\<close>, the window counter \<open>burst_detector\<close> that both burst analyzers implement, and others
  beside the components), interpreted on the definitions of the model. Kernel-side handlers run one at a time.

  \<^bold>\<open>How code is modelled.\<close> A struct is a record, a machine integer a word of its width, a buffer a list of bytes.
  Code that reads or writes memory is in the option monad: \<open>None\<close> is an access outside its object or a loop that
  does not end, and \<open>safe m Q\<close> says that neither happens and the result satisfies \<open>Q\<close>. Error returns are ordinary
  values (\<open>Rc_err\<close>, \<open>Some None\<close>, a flag). \<open>size_t\<close> sums and differences that can wrap are written out (\<open>szadd\<close>,
  \<open>szsub\<close>). The allocator, \<open>pread\<close>, \<open>readlink\<close>, the stream's errors, \<open>qsort\<close>, \<open>fnmatch\<close> and the regular
  expressions are arguments, so a theorem quantifies over their answers; what is assumed of them (a sort sorts,
  an allocation stays below \<open>PTRDIFF_MAX\<close>) is a hypothesis of the theorem.

  \<^bold>\<open>What is shown.\<close>

  \<^item> Hostile input: parsing unwind sections, loading them from ELF images, decoding socket addresses, dumping
    raw modules and building DEX method maps never leave their objects on any bytes, and give well-formed
    results. Where a check of the code wraps around, the theorem names the bound it needs and a further theorem
    gives an image that breaks it.
  \<^item> Equivalence and refinement: the unwinder computes the row and the frame of an abstract CFI machine; the
    indexed lookups are linear searches; the ring is a FIFO of records, in every interleaving, and drains; the
    digest is the one of the standard for any chunking; the descriptor cache is a map while nothing is dropped;
    the span maps are a list of frames per thread, and events are those of an ideal stack machine.
  \<^item> Round trips: LEB128, JSON strings, base64, flag text, relocation and un-relocation.
  \<^item> Invariants and results: spans are well nested; a walk visits each module once; the file written has its
    section table where the header says; the output file is the framing of the records that were emitted, under
    any failures; verdicts of the check are right; errors are reported as errors.
  \<^item> Symbols and stacks: a symbol table has one entry per address, each with its own name, and a lookup finds the nearest; a refresh of the
    compiled code's map publishes exactly the runtime's list; the caches answer with the entry for just the module or process asked for;
    the frames of a walk follow from each other by unwind rows of well-formed sections.
  \<^item> Detection: an alert of the mass-deletion analyzer names exactly the files of its burst, and twice the
    threshold within a window is never missed; an alert of the exfiltration analyzer is backed by the sends and
    the sensitive reads of its process. What the analyzers miss is shown too: windows do not slide, the byte
    count can be wound back, and leftovers on the stack decide about short paths.

  \<^bold>\<open>Bounds and fuel.\<close> The interpreter of CFI programs, the LEB128 readers and the parsers recurse on the bytes or
  counts that remain. The JSON buffer's growth loop is a \<open>partial_function\<close>; the theorem about it says exactly
  when it ends. Loops over fixed tables and over the 5, 10 or 64 iterations the code allows recurse on that number, as do
  the walk over at most 65536 entries of the runtime's list with its four attempts and the walk over at most 256 frames. A probe of a table has as many
  steps as there are slots; that it succeeds is part of the theorems. Symbol names of a module fit 32-bit offsets by hypothesis.

  \<^bold>\<open>Not modelled.\<close> The engines' user-space sides (\<open>syscalls/\<close>, \<open>funcs/\<close>, \<open>correlate/\<close>, \<open>lib/\<close>) are libbpf set-up, threads and
  formatting of records through the modelled buffer. Kernel-side programs other than the span handlers work on
  kernel structures (\<open>vmlinux.h\<close> is generated). Of symbolization, the text of a label, the vDSO and the search for the runtime's descriptor are left out; the shadow frames and interpreter frames of the Java runtime rest on the layout of
  a foreign process. Option parsing, process launching and capability
  probes are operating-system glue. The text of \<open>/proc/.../maps\<close> is taken parsed. The other detection modules (\<open>execve\<close>,
  \<open>file_access\<close>, \<open>fileless_detect\<close>, \<open>prop_read\<close>, \<open>screencapture_detect\<close>) with the user-space printers, the target
  registry and the managed-frame cache are the next parts to add.
\<close>

end
